(* ===== verification/Prelude.thy ===== *)
theory Prelude
  imports Main "HOL-Library.Word" "HOL-Library.List_Lexorder" "HOL-Library.Sublist"
    "HOL-Library.Multiset"
begin

text \<open>
  The shared vocabulary of the development: byte strings, the three outcomes of a Rust call
  (\<open>Ok\<close>, \<open>Err\<close>, panic) with the error type of \<open>errors.rs\<close>, the ordered map that models
  \<open>BTreeMap\<close>, and the generic facts the component theories rewrite with.

  A value of \<open>Result\<close> that the code propagates with \<open>?\<close> is threaded by \<open>bind_res\<close>; a panic
  (a failed \<open>assert!\<close>, \<open>expect\<close>, \<open>unwrap\<close> or slice bound) is threaded the same way, since
  nothing in the program catches one inside a thread. Panic messages are cut to their fixed text.
\<close>

named_theorems res_simps \<open>rewriting of the result monad\<close>
named_theorems codec_simps \<open>layouts and lengths of encoded keys\<close>
named_theorems store_simps \<open>lookups and scans of a store after a write\<close>

type_synonym byte = "8 word"
type_synonym bytes = "byte list"
type_synonym u16 = "16 word"
type_synonym u32 = "32 word"
type_synonym u64 = "64 word"

section \<open>Errors and results\<close>

datatype error_kind =
    Msg string
  | Connection string
  | Interrupt int

text \<open>An error of \<open>error_chain!\<close>: its kind and the error it was raised from, if any.\<close>

datatype error = Error (kind: error_kind) (cause: "error option")

datatype 'a res = Ok 'a | Err error | Panic string

definition bail :: "error_kind \<Rightarrow> 'a res" where
  "bail k = Err (Error k None)"

primrec bind_res :: "'a res \<Rightarrow> ('a \<Rightarrow> 'b res) \<Rightarrow> 'b res" where
  "bind_res (Ok x) f = f x"
| "bind_res (Err e) f = Err e"
| "bind_res (Panic s) f = Panic s"

primrec map_res :: "('a \<Rightarrow> 'b) \<Rightarrow> 'a res \<Rightarrow> 'b res" where
  "map_res f (Ok x) = Ok (f x)"
| "map_res f (Err e) = Err e"
| "map_res f (Panic s) = Panic s"

primrec chain_err :: "error_kind \<Rightarrow> 'a res \<Rightarrow> 'a res" where
  "chain_err k (Ok x) = Ok x"
| "chain_err k (Err e) = Err (Error k (Some e))"
| "chain_err k (Panic s) = Panic s"

definition ok_or :: "error_kind \<Rightarrow> 'a option \<Rightarrow> 'a res" where
  "ok_or k x = (case x of None \<Rightarrow> bail k | Some y \<Rightarrow> Ok y)"

definition expect :: "string \<Rightarrow> 'a option \<Rightarrow> 'a res" where
  "expect s x = (case x of None \<Rightarrow> Panic s | Some y \<Rightarrow> Ok y)"

definition assert_res :: "string \<Rightarrow> bool \<Rightarrow> unit res" where
  "assert_res s b = (if b then Ok () else Panic s)"

text \<open>\<open>unwrap\<close> of a \<open>Result\<close>: an error becomes a panic.\<close>

primrec unwrap_res :: "string \<Rightarrow> 'a res \<Rightarrow> 'a res" where
  "unwrap_res s (Ok x) = Ok x"
| "unwrap_res s (Err e) = Panic s"
| "unwrap_res s (Panic t) = Panic t"

primrec mapM_res :: "('a \<Rightarrow> 'b res) \<Rightarrow> 'a list \<Rightarrow> 'b list res" where
  "mapM_res f [] = Ok []"
| "mapM_res f (x # xs) = bind_res (f x) (\<lambda>y. bind_res (mapM_res f xs) (\<lambda>ys. Ok (y # ys)))"

primrec foldM_res :: "('s \<Rightarrow> 'a \<Rightarrow> 's res) \<Rightarrow> 's \<Rightarrow> 'a list \<Rightarrow> 's res" where
  "foldM_res f s [] = Ok s"
| "foldM_res f s (x # xs) = bind_res (f s x) (\<lambda>s'. foldM_res f s' xs)"

fun is_ok :: "'a res \<Rightarrow> bool" where
  "is_ok (Ok _) = True"
| "is_ok _ = False"

fun panics :: "'a res \<Rightarrow> bool" where
  "panics (Panic _) = True"
| "panics _ = False"

lemma bind_res_eq_Ok [res_simps]:
  "bind_res r f = Ok y \<longleftrightarrow> (\<exists>x. r = Ok x \<and> f x = Ok y)"
  by (cases r) auto

lemma map_res_eq_Ok [res_simps]: "map_res f r = Ok y \<longleftrightarrow> (\<exists>x. r = Ok x \<and> y = f x)"
  by (cases r) auto

lemma chain_err_eq_Ok [res_simps]: "chain_err k r = Ok y \<longleftrightarrow> r = Ok y"
  by (cases r) auto

lemma ok_or_eq_Ok [res_simps]: "ok_or k x = Ok y \<longleftrightarrow> x = Some y"
  by (auto simp: ok_or_def bail_def split: option.splits)

lemma expect_eq_Ok [res_simps]: "expect s x = Ok y \<longleftrightarrow> x = Some y"
  by (auto simp: expect_def split: option.splits)

lemma assert_res_eq_Ok [res_simps]: "assert_res s b = Ok u \<longleftrightarrow> b"
  by (simp add: assert_res_def)

lemma unwrap_res_eq_Ok [res_simps]: "unwrap_res s r = Ok y \<longleftrightarrow> r = Ok y"
  by (cases r) auto

lemma expect_Some [simp]: "expect s (Some x) = Ok x"
  by (simp add: expect_def)

lemma expect_None [simp]: "expect s None = Panic s"
  by (simp add: expect_def)

lemma ok_or_Some [simp]: "ok_or k (Some x) = Ok x"
  by (simp add: ok_or_def)

lemma ok_or_None [simp]: "ok_or k None = bail k"
  by (simp add: ok_or_def)

lemma assert_res_True [simp]: "assert_res s True = Ok ()"
  by (simp add: assert_res_def)

lemma assert_res_False [simp]: "assert_res s False = Panic s"
  by (simp add: assert_res_def)

lemma bind_res_assoc [simp]:
  "bind_res (bind_res r f) g = bind_res r (\<lambda>x. bind_res (f x) g)"
  by (cases r) auto

lemma bind_res_Ok_id [simp]: "bind_res r Ok = r"
  by (cases r) auto

lemma mapM_res_Ok: "(\<And>x. x \<in> set xs \<Longrightarrow> f x = Ok (g x)) \<Longrightarrow> mapM_res f xs = Ok (map g xs)"
  by (induction xs) auto

lemma mapM_res_eq_Ok: "mapM_res f xs = Ok ys \<longleftrightarrow> list_all2 (\<lambda>x y. f x = Ok y) xs ys"
  by (induction xs arbitrary: ys) (auto simp: list_all2_Cons1 res_simps)

lemma mapM_res_map: "mapM_res f (map g xs) = mapM_res (\<lambda>x. f (g x)) xs"
  by (induction xs) auto

lemma mapM_res_append:
  "mapM_res f (xs @ ys) =
     bind_res (mapM_res f xs) (\<lambda>a. bind_res (mapM_res f ys) (\<lambda>b. Ok (a @ b)))"
  by (induction xs) auto

lemma foldM_res_append:
  "foldM_res f s (xs @ ys) = bind_res (foldM_res f s xs) (\<lambda>t. foldM_res f t ys)"
  by (induction xs arbitrary: s) auto

text \<open>A loop invariant of a fold that may fail.\<close>

lemma foldM_res_inv:
  assumes "foldM_res f s xs = Ok t" and "P s"
    and "\<And>s x t. x \<in> set xs \<Longrightarrow> P s \<Longrightarrow> f s x = Ok t \<Longrightarrow> P t"
  shows "P t"
  using assms by (induction xs arbitrary: s) (auto simp: res_simps)

section \<open>Programs with state\<close>

text \<open>
  A computation that reads and changes a state, may fail, and may never return: \<open>None\<close> is a call
  that never returns (an unbounded retry, a blocked thread). A failure keeps the state reached.
\<close>

type_synonym ('s, 'a) prog = "'s \<Rightarrow> ('a res \<times> 's) option"

definition pret :: "'a res \<Rightarrow> ('s, 'a) prog" where
  "pret r = (\<lambda>s. Some (r, s))"

definition pbind :: "('s, 'a) prog \<Rightarrow> ('a \<Rightarrow> ('s, 'b) prog) \<Rightarrow> ('s, 'b) prog" where
  "pbind m f = (\<lambda>s. case m s of
       None \<Rightarrow> None
     | Some (r, s') \<Rightarrow> (case r of Ok x \<Rightarrow> f x s' | Err e \<Rightarrow> Some (Err e, s') | Panic p \<Rightarrow> Some (Panic p, s')))"

definition pchain :: "error_kind \<Rightarrow> ('s, 'a) prog \<Rightarrow> ('s, 'a) prog" where
  "pchain k m = (\<lambda>s. map_option (\<lambda>(r, s'). (chain_err k r, s')) (m s))"

lemma pbind_Ok: "m s = Some (Ok x, s') \<Longrightarrow> pbind m f s = f x s'"
  by (simp add: pbind_def)

lemma pbind_Err: "m s = Some (Err e, s') \<Longrightarrow> pbind m f s = Some (Err e, s')"
  by (simp add: pbind_def)

lemma pret_apply [simp]: "pret r s = Some (r, s)"
  by (simp add: pret_def)

lemma pbind_pret_Ok [simp]: "pbind (pret (Ok x)) f = f x"
  by (simp add: pbind_def pret_def fun_eq_iff)

section \<open>Prefixes and the order of byte strings\<close>

lemma prefix_le: "prefix p (k :: 'a :: linorder list) \<Longrightarrow> p \<le> k"
proof (induction p arbitrary: k)
  case (Cons a p)
  then show ?case by (cases k) auto
qed simp

text \<open>The strings with a given prefix are an interval of the lexicographic order.\<close>

lemma prefix_convex:
  assumes "prefix p k'" and "p \<le> k" and "k \<le> (k' :: 'a :: linorder list)"
  shows "prefix p k"
  using assms
proof (induction p arbitrary: k k')
  case (Cons a p)
  then obtain ks' where k': "k' = a # ks'" and ps: "prefix p ks'"
    by (cases k') auto
  with Cons.prems obtain b ks where k: "k = b # ks"
    by (cases k) auto
  from Cons.prems(2,3) k k' have b: "b = a" and "p \<le> ks" and "ks \<le> ks'"
    by auto
  with Cons.IH [OF ps] k show ?case by simp
qed simp

lemma prefix_append_same_length:
  assumes "length p = length q"
  shows "prefix (p @ r) (q @ s) \<longleftrightarrow> p = q \<and> prefix r s"
  using assms by (induction p q rule: list_induct2) auto

lemma prefix_iff_take: "prefix p xs \<longleftrightarrow> take (length p) xs = p"
  by (auto simp: prefix_def) (metis append_take_drop_id)

lemma take_append_exact [simp]: "length xs = n \<Longrightarrow> take n (xs @ ys) = xs"
  by simp

lemma drop_append_exact [simp]: "length xs = n \<Longrightarrow> drop n (xs @ ys) = ys"
  by simp

lemma map_le_SomeI: "(\<And>x y. m x = Some y \<Longrightarrow> m' x = Some y) \<Longrightarrow> m \<subseteq>\<^sub>m m'"
  unfolding map_le_def by (metis domD)

lemma find_SomeD: "find P xs = Some x \<Longrightarrow> x \<in> set xs \<and> P x"
  by (induction xs) (auto split: if_splits)

text \<open>The loops \<open>for i in 1..v.len()\<close> that compare each element with the one before it.\<close>

lemma list_all_adjacent:
  "list_all (\<lambda>i. P (xs ! (i - 1)) (xs ! i)) [1..<length xs] \<longleftrightarrow> successively P xs"
proof (induction xs rule: rev_induct)
  case (snoc x xs)
  show ?case
  proof (cases "xs = []")
    case False
    then have upt: "[1..<length (xs @ [x])] = [1..<length xs] @ [length xs]"
      by (cases xs) simp_all
    have "list_all (\<lambda>i. P ((xs @ [x]) ! (i - 1)) ((xs @ [x]) ! i)) [1..<length xs] \<longleftrightarrow>
          list_all (\<lambda>i. P (xs ! (i - 1)) (xs ! i)) [1..<length xs]"
      by (rule list.pred_cong) (auto simp: nth_append)
    then show ?thesis using snoc.IH False unfolding upt
      by (auto simp: nth_append last_conv_nth successively_append_iff)
  qed simp
qed simp

text \<open>Sorting and dropping adjacent repetitions leaves no repetition.\<close>

lemma distinct_remdups_adj_sorted: "sorted xs \<Longrightarrow> distinct (remdups_adj xs)"
  by (induction xs rule: remdups_adj.induct) (auto simp: order_less_le)

section \<open>Decimal numbers\<close>

text \<open>\<open>to_string\<close> of an unsigned integer, and \<open>parse::<usize>\<close>, which accepts a leading \<open>+\<close>.\<close>

definition digit_char :: "nat \<Rightarrow> char" where
  "digit_char d = char_of (48 + d)"

definition char_digit :: "char \<Rightarrow> nat option" where
  "char_digit c = (let n = of_char c in if 48 \<le> n \<and> n \<le> 57 then Some (n - 48) else None)"

fun show_nat :: "nat \<Rightarrow> string" where
  "show_nat n = (if n < 10 then [digit_char n] else show_nat (n div 10) @ [digit_char (n mod 10)])"

declare show_nat.simps [simp del]

definition parse_digit :: "nat option \<Rightarrow> char \<Rightarrow> nat option" where
  "parse_digit acc c = (case (acc, char_digit c) of (Some n, Some d) \<Rightarrow> Some (10 * n + d) | _ \<Rightarrow> None)"

definition parse_usize :: "string \<Rightarrow> nat option" where
  "parse_usize s =
     (let ds = (case s of [] \<Rightarrow> [] | c # cs \<Rightarrow> if c = CHR ''+'' then cs else s)
      in if ds = [] then None
         else case foldl parse_digit (Some 0) ds of
             None \<Rightarrow> None | Some n \<Rightarrow> if n < 2 ^ 64 then Some n else None)"

lemma of_char_digit: "d < 10 \<Longrightarrow> of_char (digit_char d) = (48 + d :: nat)"
  by (simp add: digit_char_def)

lemma char_digit_digit: "d < 10 \<Longrightarrow> char_digit (digit_char d) = Some d"
  by (simp add: char_digit_def of_char_digit)

lemma foldl_parse_show_nat: "foldl parse_digit (Some 0) (show_nat n) = Some n"
proof (induction n rule: show_nat.induct)
  case (1 n)
  then show ?case
    by (subst show_nat.simps) (simp add: parse_digit_def [of "Some k" for k] char_digit_digit)
qed

lemma show_nat_digits: "c \<in> set (show_nat n) \<Longrightarrow> \<exists>d < 10. c = digit_char d"
proof (induction n rule: show_nat.induct)
  case (1 n)
  have "n mod 10 < 10" by simp
  with 1 show ?case
    by (subst (asm) (2) show_nat.simps) (force split: if_splits)
qed

lemma show_nat_nonempty: "show_nat n \<noteq> []"
  by (subst show_nat.simps) simp

lemma show_nat_inject: "show_nat m = show_nat n \<longleftrightarrow> m = n"
  using foldl_parse_show_nat by (metis option.inject)

lemma show_nat_no_char:
  assumes "c = CHR '':'' \<or> c = CHR ''+''"
  shows "c \<notin> set (show_nat n)"
proof
  assume "c \<in> set (show_nat n)"
  then obtain d where "d < 10" "c = digit_char d" using show_nat_digits by blast
  then have "of_char c = (48 + d :: nat)" by (simp add: of_char_digit)
  with assms \<open>d < 10\<close> show False by auto
qed

lemma parse_usize_show_nat: "n < 2 ^ 64 \<Longrightarrow> parse_usize (show_nat n) = Some n"
proof -
  assume n: "n < 2 ^ 64"
  obtain c cs where s: "show_nat n = c # cs" using show_nat_nonempty [of n] by (cases "show_nat n") auto
  have "c \<noteq> CHR ''+''" using show_nat_no_char [of "CHR ''+''" n] s by auto
  with s n foldl_parse_show_nat [of n] show ?thesis by (simp add: parse_usize_def)
qed

section \<open>Ordered maps: \<open>BTreeMap\<close>\<close>

text \<open>
  A \<open>BTreeMap\<close> is the list of its entries in the order of its keys, which is also the order
  in which it is iterated.
\<close>

type_synonym ('k, 'v) btree = "('k \<times> 'v) list"

definition bt_sorted :: "('k :: linorder, 'v) btree \<Rightarrow> bool" where
  "bt_sorted m \<longleftrightarrow> sorted_wrt (<) (map fst m)"

definition bt_get :: "('k, 'v) btree \<Rightarrow> 'k \<Rightarrow> 'v option" where
  "bt_get m k = map_of m k"

primrec bt_put :: "'k :: linorder \<Rightarrow> 'v \<Rightarrow> ('k, 'v) btree \<Rightarrow> ('k, 'v) btree" where
  "bt_put k v [] = [(k, v)]"
| "bt_put k v (e # es) =
     (if fst e < k then e # bt_put k v es
      else (k, v) # (if fst e = k then es else e # es))"

definition bt_remove :: "'k \<Rightarrow> ('k, 'v) btree \<Rightarrow> ('k, 'v) btree" where
  "bt_remove k m = filter (\<lambda>e. fst e \<noteq> k) m"

definition bt_range_from :: "'k :: linorder \<Rightarrow> ('k, 'v) btree \<Rightarrow> ('k, 'v) btree" where
  "bt_range_from k m = filter (\<lambda>e. k \<le> fst e) m"

lemma bt_sorted_Nil [simp]: "bt_sorted []"
  by (simp add: bt_sorted_def)

lemma bt_sorted_Cons [simp]:
  "bt_sorted (e # es) \<longleftrightarrow> (\<forall>x \<in> set es. fst e < fst x) \<and> bt_sorted es"
  by (auto simp: bt_sorted_def)

lemma bt_sorted_filter: "bt_sorted m \<Longrightarrow> bt_sorted (filter P m)"
  by (induction m) auto

lemma bt_sorted_distinct: "bt_sorted m \<Longrightarrow> distinct (map fst m)"
  unfolding bt_sorted_def by (simp add: strict_sorted_iff)

lemma bt_get_put: "bt_sorted m \<Longrightarrow> bt_get (bt_put k v m) = (bt_get m)(k \<mapsto> v)"
proof (induction m)
  case (Cons e es)
  then show ?case by (cases e) (auto simp: bt_get_def fun_eq_iff)
qed (auto simp: bt_get_def fun_eq_iff)

lemma set_bt_put: "fst ` set (bt_put k v m) = insert k (fst ` set m)"
  by (induction m) auto

lemma bt_sorted_put: "bt_sorted m \<Longrightarrow> bt_sorted (bt_put k v m)"
proof (induction m)
  case (Cons e es)
  have "\<forall>x \<in> set (bt_put k v es). fst e < fst x" if "fst e < k"
  proof
    fix x assume "x \<in> set (bt_put k v es)"
    then have "fst x \<in> fst ` set (bt_put k v es)" by (rule imageI)
    then have "fst x \<in> insert k (fst ` set es)" by (simp only: set_bt_put)
    with that Cons.prems show "fst e < fst x" by auto
  qed
  with Cons show ?case by auto
qed simp

lemma bt_get_remove: "bt_get (bt_remove k m) = (bt_get m)(k := None)"
  by (induction m) (auto simp: bt_get_def bt_remove_def fun_eq_iff)

lemma bt_sorted_remove: "bt_sorted m \<Longrightarrow> bt_sorted (bt_remove k m)"
  by (simp add: bt_remove_def bt_sorted_filter)

text \<open>
  The scan loop of both stores: iterate from the prefix on, stop at the first key that does
  not start with it. On a sorted map it misses no key with the prefix.
\<close>

lemma takeWhile_prefix_range:
  fixes m :: "('a :: linorder list, 'v) btree"
  assumes "bt_sorted m"
  shows "takeWhile (\<lambda>e. prefix p (fst e)) (bt_range_from p m) = filter (\<lambda>e. prefix p (fst e)) m"
  using assms
proof (induction m)
  case (Cons e es)
  have rest: "filter (\<lambda>e. prefix p (fst e)) es = []" if "p \<le> fst e" and "\<not> prefix p (fst e)"
  proof -
    have "\<not> prefix p (fst x)" if x: "x \<in> set es" for x
      using prefix_convex [of p "fst x" "fst e"] \<open>p \<le> fst e\<close> \<open>\<not> prefix p (fst e)\<close> x Cons.prems
      by fastforce
    then show ?thesis by simp
  qed
  with Cons show ?case by (auto simp: bt_range_from_def dest: prefix_le)
qed (simp add: bt_range_from_def)

lemma bt_get_mem: "bt_sorted m \<Longrightarrow> bt_get m k = Some v \<longleftrightarrow> (k, v) \<in> set m"
  by (simp add: bt_get_def bt_sorted_distinct)

lemma bt_get_mapped: "bt_get (map (\<lambda>e. (fst e, f (snd e))) m) k = map_option f (bt_get m k)"
  by (induction m) (auto simp: bt_get_def)

text \<open>An ordered map is determined by its lookups.\<close>

lemma bt_keys: "bt_sorted m \<Longrightarrow> map fst m = sorted_list_of_set (dom (bt_get m))"
  unfolding bt_get_def dom_map_of_conv_image_fst bt_sorted_def
  by (metis list.set_map sorted_list_of_set.idem_if_sorted_distinct strict_sorted_iff)

lemma bt_entries: "bt_sorted m \<Longrightarrow> m = map (\<lambda>k. (k, the (bt_get m k))) (map fst m)"
  using bt_sorted_distinct [of m]
  by (auto simp: bt_get_def intro!: map_idI [symmetric])

lemma bt_eqI:
  assumes "bt_sorted a" and "bt_sorted b" and "bt_get a = bt_get b"
  shows "a = b"
proof -
  have "map fst a = map fst b"
    using bt_keys [OF assms(1)] bt_keys [OF assms(2)] assms(3) by simp
  with bt_entries [OF assms(1)] bt_entries [OF assms(2)] assms(3) show ?thesis by metis
qed

end
