(* ===== verification/Bitcoin.thy ===== *)
theory Bitcoin
  imports Prelude
begin

text \<open>
  The data of the \<open>bitcoin\<close> and \<open>bitcoin_hashes\<close> crates that the program reads, and the record
  \<open>deps\<close> of the functions it calls in crates outside the repository (hashing, consensus and
  bincode primitives, hex). Nothing is assumed of those functions here: \<open>codec_ok\<close> and
  \<open>hex_ok\<close> name the documented facts a theorem relies on, and \<open>ref_deps\<close> is a concrete
  instance of them. Fields that the program never looks at are carried as one opaque field, so
  that two transactions which differ only there stay different.
\<close>

section \<open>Hashes\<close>

typedef hash = "{bs :: bytes. length bs = 32}"
  morphisms hash_bytes Abs_hash
  by (rule exI [of _ "replicate 32 0"]) simp

definition null_hash :: hash where
  "null_hash = Abs_hash (replicate 32 0)"

text \<open>The hash with the given leading bytes, zero-padded.\<close>

definition mk_hash :: "bytes \<Rightarrow> hash" where
  "mk_hash bs = Abs_hash (take 32 (bs @ replicate 32 0))"

lemma length_hash_bytes [simp]: "length (hash_bytes h) = 32"
  using hash_bytes [of h] by simp

lemma hash_bytes_eq [simp]: "hash_bytes h = hash_bytes h' \<longleftrightarrow> h = h'"
  by (rule hash_bytes_inject)

lemma hash_bytes_mk_hash [simp]: "hash_bytes (mk_hash bs) = take 32 (bs @ replicate 32 0)"
  unfolding mk_hash_def by (rule Abs_hash_inverse) simp

lemma hash_bytes_null [simp]: "hash_bytes null_hash = replicate 32 0"
  unfolding null_hash_def by (rule Abs_hash_inverse) simp

lemma mk_hash_single_eq [simp]: "mk_hash [a] = mk_hash [b] \<longleftrightarrow> a = b"
proof
  assume "mk_hash [a] = mk_hash [b]"
  then have "hash_bytes (mk_hash [a]) = hash_bytes (mk_hash [b])" by simp
  then show "a = b" by simp
qed simp

lemma mk_hash_single_null [simp]: "mk_hash [a] = null_hash \<longleftrightarrow> a = 0"
proof
  assume "mk_hash [a] = null_hash"
  then have "hash_bytes (mk_hash [a]) = hash_bytes null_hash" by (simp only:)
  then have "hd (take 32 ([a] @ replicate 32 0)) = hd (replicate 32 (0 :: byte))"
    unfolding hash_bytes_mk_hash hash_bytes_null by (rule arg_cong)
  then show "a = 0" by simp
next
  assume "a = 0"
  then have "hash_bytes (mk_hash [a]) = hash_bytes null_hash"
    by (simp add: numeral_eq_Suc)
  then show "mk_hash [a] = null_hash" by (simp only: hash_bytes_eq)
qed

lemma null_mk_hash_single [simp]: "null_hash = mk_hash [a] \<longleftrightarrow> a = 0"
  using mk_hash_single_null [of a] by metis

text \<open>\<open>Sha256dHash\<close> derives its order from the byte array: lexicographic.\<close>

instantiation hash :: linorder
begin

definition less_eq_hash :: "hash \<Rightarrow> hash \<Rightarrow> bool" where
  "less_eq_hash a b \<longleftrightarrow> hash_bytes a \<le> hash_bytes b"

definition less_hash :: "hash \<Rightarrow> hash \<Rightarrow> bool" where
  "less_hash a b \<longleftrightarrow> hash_bytes a < hash_bytes b"

instance
  by standard (auto simp: less_eq_hash_def less_hash_def order_less_le)

end

instantiation hash :: equal
begin

definition equal_hash :: "hash \<Rightarrow> hash \<Rightarrow> bool" where
  "equal_hash a b \<longleftrightarrow> hash_bytes a = hash_bytes b"

instance
  by standard (simp add: equal_hash_def)

end

section \<open>Transactions, headers and blocks\<close>

record outpoint =
  op_txid :: hash
  op_vout :: u32

record txin =
  previous_output :: outpoint

record txout =
  script_pubkey :: bytes

record transaction =
  tx_input :: "txin list"
  tx_output :: "txout list"
  tx_other :: bytes

record block_header =
  hdr_version :: u32
  prev_blockhash :: hash
  merkle_root :: hash
  hdr_time :: u32
  hdr_bits :: u32
  hdr_nonce :: u32

record block =
  blk_header :: block_header
  txdata :: "transaction list"

section \<open>The functions of other crates\<close>

record deps =
  \<comment> \<open>\<open>rust-crypto\<close>: one SHA-256\<close>
  sha256 :: "bytes \<Rightarrow> bytes"
  \<comment> \<open>\<open>bitcoin\<close>: transaction and header hashes, consensus encoding\<close>
  tx_txid :: "transaction \<Rightarrow> hash"
  bitcoin_hash :: "block_header \<Rightarrow> hash"
  ser_hash :: "hash \<Rightarrow> bytes"
  de_hash :: "bytes \<Rightarrow> hash option"
  ser_header :: "block_header \<Rightarrow> bytes"
  de_header :: "bytes \<Rightarrow> block_header option"
  de_block :: "bytes \<Rightarrow> block option"
  de_tx :: "bytes \<Rightarrow> transaction option"
  de_u32 :: "bytes \<Rightarrow> u32"
  \<comment> \<open>\<open>bincode\<close>: 16-bit integers\<close>
  ser_u16 :: "u16 \<Rightarrow> bytes"
  de_u16 :: "bytes \<Rightarrow> u16"
  \<comment> \<open>\<open>bitcoin_hashes::hex\<close> and \<open>hex\<close>\<close>
  to_hex :: "hash \<Rightarrow> string"
  from_hex :: "string \<Rightarrow> hash option"
  hex_encode :: "bytes \<Rightarrow> string"
  hex_decode :: "string \<Rightarrow> bytes option"

text \<open>
  What the index relies on of the encoders: SHA-256 has 32 bytes, decoding inverts encoding, a
  hash decodes from its own 32 bytes, a \<open>u16\<close> takes two bytes.
\<close>

definition codec_ok :: "deps \<Rightarrow> bool" where
  "codec_ok D \<longleftrightarrow>
     (\<forall>x. length (sha256 D x) = 32) \<and>
     (\<forall>h. de_hash D (ser_hash D h) = Some h \<and> de_hash D (hash_bytes h) = Some h) \<and>
     (\<forall>h. de_header D (ser_header D h) = Some h) \<and>
     (\<forall>w. length (ser_u16 D w) = 2 \<and> de_u16 D (ser_u16 D w) = w)"

definition hex_ok :: "deps \<Rightarrow> bool" where
  "hex_ok D \<longleftrightarrow>
     (\<forall>h. from_hex D (to_hex D h) = Some h) \<and> (\<forall>h. CHR '':'' \<notin> set (to_hex D h))"

lemma codec_okD [codec_simps]:
  assumes "codec_ok D"
  shows "length (sha256 D x) = 32" and "de_hash D (ser_hash D h) = Some h"
    and "de_hash D (hash_bytes h) = Some h" and "de_header D (ser_header D bh) = Some bh"
    and "length (ser_u16 D w) = 2" and "de_u16 D (ser_u16 D w) = w"
  using assms by (simp_all add: codec_ok_def)

lemma ser_u16_inject:
  assumes "codec_ok D"
  shows "ser_u16 D v = ser_u16 D w \<longleftrightarrow> v = w"
  using codec_okD(6) [OF assms] by metis

lemma to_hex_inject:
  assumes "hex_ok D"
  shows "to_hex D a = to_hex D b \<longleftrightarrow> a = b"
  using assms unfolding hex_ok_def by (metis option.inject)

section \<open>A concrete instance\<close>

text \<open>
  Little-endian integers, the 80-byte header, identity-like hashes. It stands in for the crates
  in the closed examples; no theorem depends on it.
\<close>

primrec le_bytes :: "nat \<Rightarrow> nat \<Rightarrow> bytes" where
  "le_bytes 0 n = []"
| "le_bytes (Suc k) n = of_nat (n mod 256) # le_bytes k (n div 256)"

primrec le_nat :: "bytes \<Rightarrow> nat" where
  "le_nat [] = 0"
| "le_nat (b # bs) = unat b + 256 * le_nat bs"

lemma length_le_bytes [simp]: "length (le_bytes k n) = k"
  by (induction k arbitrary: n) auto

lemma le_nat_le_bytes: "le_nat (le_bytes k n) = n mod 256 ^ k"
proof (induction k arbitrary: n)
  case (Suc k)
  have "unat (of_nat (n mod 256) :: byte) = n mod 256"
    by (simp add: unat_of_nat)
  with Suc show ?case by (simp add: mod_mult2_eq)
qed simp

definition enc_header :: "block_header \<Rightarrow> bytes" where
  "enc_header h = le_bytes 4 (unat (hdr_version h)) @ hash_bytes (prev_blockhash h) @
     hash_bytes (merkle_root h) @ le_bytes 4 (unat (hdr_time h)) @
     le_bytes 4 (unat (hdr_bits h)) @ le_bytes 4 (unat (hdr_nonce h))"

definition dec_header :: "bytes \<Rightarrow> block_header option" where
  "dec_header bs =
     (if length bs \<noteq> 80 then None
      else Some \<lparr>hdr_version = of_nat (le_nat (take 4 bs)),
        prev_blockhash = mk_hash (take 32 (drop 4 bs)),
        merkle_root = mk_hash (take 32 (drop 36 bs)),
        hdr_time = of_nat (le_nat (take 4 (drop 68 bs))),
        hdr_bits = of_nat (le_nat (take 4 (drop 72 bs))),
        hdr_nonce = of_nat (le_nat (take 4 (drop 76 bs)))\<rparr>)"

lemma mk_hash_hash_bytes [simp]: "mk_hash (hash_bytes h) = h"
  by (simp flip: hash_bytes_eq)

lemma of_nat_le_u32 [simp]: "of_nat (le_nat (le_bytes 4 (unat (w :: u32)))) = w"
proof -
  have "unat w < 256 ^ 4" using unsigned_less [of w, where ?'a = nat] by simp
  then show ?thesis by (simp add: le_nat_le_bytes)
qed

lemma of_nat_le_u16 [simp]: "of_nat (le_nat (le_bytes 2 (unat (w :: u16)))) = w"
proof -
  have "unat w < 256 ^ 2" using unsigned_less [of w, where ?'a = nat] by simp
  then show ?thesis by (simp add: le_nat_le_bytes)
qed

lemma dec_enc_header: "dec_header (enc_header h) = Some h"
  by (simp add: dec_header_def enc_header_def)

definition hex_digits :: string where
  "hex_digits = ''0123456789abcdef''"

definition enc_hex :: "bytes \<Rightarrow> string" where
  "enc_hex bs = concat (map (\<lambda>b. [hex_digits ! (unat b div 16), hex_digits ! (unat b mod 16)]) bs)"

definition nibble :: "char \<Rightarrow> nat option" where
  "nibble c = (let n = length (takeWhile (\<lambda>d. d \<noteq> c) hex_digits) in if n < 16 then Some n else None)"

fun dec_hex :: "string \<Rightarrow> bytes option" where
  "dec_hex [] = Some []"
| "dec_hex [c] = None"
| "dec_hex (c # d # cs) =
     (case (nibble c, nibble d, dec_hex cs) of
        (Some x, Some y, Some bs) \<Rightarrow> Some (of_nat (16 * x + y) # bs)
      | _ \<Rightarrow> None)"

lemma nibble_digit: "n < 16 \<Longrightarrow> nibble (hex_digits ! n) = Some n"
proof -
  assume "n < 16"
  then have "n \<in> set [0..<16]" by simp
  moreover have "\<forall>n \<in> set [0..<16]. nibble (hex_digits ! n) = Some n"
    by code_simp
  ultimately show ?thesis by blast
qed

lemma dec_enc_hex: "dec_hex (enc_hex bs) = Some bs"
proof (induction bs)
  case (Cons b bs)
  have "unat b div 16 < 16" using unsigned_less [of b, where ?'a = nat] by simp
  then show ?case using Cons by (simp add: enc_hex_def nibble_digit)
qed (simp add: enc_hex_def)

lemma hex_digit_not_colon: "n < 16 \<Longrightarrow> hex_digits ! n \<noteq> CHR '':''"
proof -
  assume "n < 16"
  then have "n \<in> set [0..<16]" by simp
  moreover have "\<forall>n \<in> set [0..<16]. hex_digits ! n \<noteq> CHR '':''"
    by code_simp
  ultimately show ?thesis by blast
qed

lemma colon_notin_enc_hex: "CHR '':'' \<notin> set (enc_hex bs)"
proof -
  have "unat b div 16 < 16" for b :: byte using unsigned_less [of b, where ?'a = nat] by simp
  then have "hex_digits ! (unat b div 16) \<noteq> CHR '':''" for b :: byte
    by (rule hex_digit_not_colon)
  moreover have "hex_digits ! (unat b mod 16) \<noteq> CHR '':''" for b :: byte
    by (rule hex_digit_not_colon) simp
  ultimately show ?thesis by (induction bs) (simp_all add: enc_hex_def eq_commute [of "CHR '':''"])
qed

text \<open>Hashes print with their bytes reversed, as Bitcoin shows them.\<close>

definition ref_deps :: deps where
  "ref_deps = \<lparr>
     sha256 = (\<lambda>d. take 32 (d @ replicate 32 0)),
     tx_txid = (\<lambda>t. mk_hash (tx_other t)),
     bitcoin_hash = (\<lambda>h. mk_hash [ucast (hdr_nonce h)]),
     ser_hash = hash_bytes,
     de_hash = (\<lambda>bs. if length bs = 32 then Some (mk_hash bs) else None),
     ser_header = enc_header,
     de_header = dec_header,
     de_block = (\<lambda>bs. None),
     de_tx = (\<lambda>bs. None),
     de_u32 = (\<lambda>bs. of_nat (le_nat bs)),
     ser_u16 = (\<lambda>w. le_bytes 2 (unat w)),
     de_u16 = (\<lambda>bs. of_nat (le_nat bs)),
     to_hex = (\<lambda>h. enc_hex (rev (hash_bytes h))),
     from_hex = (\<lambda>s. case dec_hex s of
        Some bs \<Rightarrow> if length bs = 32 then Some (mk_hash (rev bs)) else None | None \<Rightarrow> None),
     hex_encode = enc_hex,
     hex_decode = dec_hex\<rparr>"

lemma codec_ok_ref_deps: "codec_ok ref_deps"
  by (simp add: codec_ok_def ref_deps_def dec_enc_header min_def)

lemma hex_ok_ref_deps: "hex_ok ref_deps"
  by (simp add: hex_ok_def ref_deps_def dec_enc_hex colon_notin_enc_hex)

text \<open>Small headers and transactions for the closed examples.\<close>

definition ex_header :: "byte \<Rightarrow> byte \<Rightarrow> block_header" where
  "ex_header p n = \<lparr>hdr_version = 1, prev_blockhash = mk_hash [p], merkle_root = null_hash,
     hdr_time = 0, hdr_bits = 0, hdr_nonce = ucast n\<rparr>"

definition ex_tx :: "byte \<Rightarrow> (byte \<times> u32) list \<Rightarrow> bytes list \<Rightarrow> transaction" where
  "ex_tx n ins outs = \<lparr>tx_input = map (\<lambda>(t, v). \<lparr>previous_output = \<lparr>op_txid = mk_hash [t], op_vout = v\<rparr>\<rparr>) ins,
     tx_output = map (\<lambda>s. \<lparr>script_pubkey = s\<rparr>) outs, tx_other = [n]\<rparr>"

lemma ref_deps_header_hash [simp]: "bitcoin_hash ref_deps (ex_header p n) = mk_hash [n]"
proof -
  have "ucast (ucast n :: u32) = n"
    by (rule bit_word_eqI) (simp add: bit_simps)
  then show ?thesis by (simp add: ref_deps_def ex_header_def)
qed

lemma ref_deps_txid [simp]: "tx_txid ref_deps (ex_tx n ins outs) = mk_hash [n]"
  by (simp add: ref_deps_def ex_tx_def)

lemma prev_ex_header [simp]: "prev_blockhash (ex_header p n) = mk_hash [p]"
  by (simp add: ex_header_def)

end
