(* ===== verification/Header_List.thy ===== *)
theory Header_List
  imports Bitcoin
begin

text \<open>
  \<open>util.rs\<close>: hash prefixes and the in-memory chain of headers. The abstract specification of a
  \<open>HeaderList\<close> is a plain list of headers (a chain from the genesis block on); \<open>hl_rep\<close> relates
  the two, and the lemmas show that \<open>order\<close> and \<open>apply\<close> together cut the chain at the parent of
  the new headers and append them, that lookups are exact even though \<open>heights\<close> keeps stale
  entries after a cut, and which inputs make the assertions fail.
\<close>

section \<open>Hash prefixes\<close>

definition HASH_LEN :: nat where
  "HASH_LEN = 32"

definition HASH_PREFIX_LEN :: nat where
  "HASH_PREFIX_LEN = 8"

definition hash_prefix :: "bytes \<Rightarrow> bytes res" where
  "hash_prefix h =
     (if HASH_PREFIX_LEN \<le> length h then Ok (take HASH_PREFIX_LEN h)
      else Panic ''range end index out of range'')"

definition full_hash :: "bytes \<Rightarrow> bytes res" where
  "full_hash h =
     (if length h = HASH_LEN then Ok h else Panic ''failed to convert into FullHash'')"

abbreviation hprefix :: "hash \<Rightarrow> bytes" where
  "hprefix h \<equiv> take HASH_PREFIX_LEN (hash_bytes h)"

lemma hash_prefix_hash_bytes [simp]: "hash_prefix (hash_bytes h) = Ok (hprefix h)"
  by (simp add: hash_prefix_def HASH_PREFIX_LEN_def)

lemma full_hash_hash_bytes [simp]: "full_hash (hash_bytes h) = Ok (hash_bytes h)"
  by (simp add: full_hash_def HASH_LEN_def)

section \<open>The header list\<close>

record header_entry =
  he_height :: nat
  he_hash :: hash
  he_header :: block_header

text \<open>\<open>Debug\<close> of an entry, as it is logged; \<open>rfc3339\<close> is the formatter of times of the \<open>time\<close> crate.\<close>

definition header_entry_debug :: "deps \<Rightarrow> (int \<Rightarrow> string) \<Rightarrow> header_entry \<Rightarrow> string" where
  "header_entry_debug D rfc3339 e =
     ''best='' @ to_hex D (he_hash e) @ '' height='' @ show_nat (he_height e) @ '' @ '' @ rfc3339 (uint (hdr_time (he_header e)))"

record hashed_header =
  hh_blockhash :: hash
  hh_header :: block_header

record header_list =
  hl_headers :: "header_entry list"
  hl_heights :: "hash \<rightharpoonup> nat"

definition hash_headers :: "deps \<Rightarrow> block_header list \<Rightarrow> hashed_header list res" where
  "hash_headers D headers =
     (let hashed = map (\<lambda>h. \<lparr>hh_blockhash = bitcoin_hash D h, hh_header = h\<rparr>) headers
      in bind_res
           (assert_res ''assertion failed: prev_blockhash''
             (list_all (\<lambda>i. prev_blockhash (hh_header (hashed ! i)) = hh_blockhash (hashed ! (i - 1)))
               [1..<length hashed]))
           (\<lambda>_. Ok hashed))"

definition hl_empty :: header_list where
  "hl_empty = \<lparr>hl_headers = [], hl_heights = Map.empty\<rparr>"

definition header_by_blockhash :: "header_list \<Rightarrow> hash \<Rightarrow> header_entry option" where
  "header_by_blockhash hl blockhash =
     (case hl_heights hl blockhash of
        None \<Rightarrow> None
      | Some height \<Rightarrow>
          if height < length (hl_headers hl) then
            (let header = hl_headers hl ! height
             in if blockhash = he_hash header then Some header else None)
          else None)"

definition header_by_height :: "header_list \<Rightarrow> nat \<Rightarrow> header_entry option res" where
  "header_by_height hl height =
     (if height < length (hl_headers hl) then
        (let entry = hl_headers hl ! height
         in bind_res (assert_res ''assertion failed: entry.height'' (he_height entry = height))
              (\<lambda>_. Ok (Some entry)))
      else Ok None)"

definition hl_tip :: "header_list \<Rightarrow> hash" where
  "hl_tip hl = (if hl_headers hl = [] then null_hash else he_hash (last (hl_headers hl)))"

definition hl_len :: "header_list \<Rightarrow> nat" where
  "hl_len hl = length (hl_headers hl)"

definition hl_is_empty :: "header_list \<Rightarrow> bool" where
  "hl_is_empty hl \<longleftrightarrow> hl_headers hl = []"

definition hl_equals :: "header_list \<Rightarrow> header_list \<Rightarrow> bool" where
  "hl_equals a b \<longleftrightarrow>
     (if hl_headers a = [] then None else Some (last (hl_headers a))) =
     (if hl_headers b = [] then None else Some (last (hl_headers b)))"

definition order :: "deps \<Rightarrow> header_list \<Rightarrow> block_header list \<Rightarrow> header_entry list res" where
  "order D hl new_headers =
     bind_res (hash_headers D new_headers) (\<lambda>hashed_headers.
       case hashed_headers of
         [] \<Rightarrow> Ok []
       | h # _ \<Rightarrow>
           (let prev = prev_blockhash (hh_header h)
            in bind_res
                 (if prev = null_hash then Ok 0
                  else bind_res
                         (expect ''is not part of the blockchain'' (header_by_blockhash hl prev))
                         (\<lambda>e. Ok (he_height e + 1)))
                 (\<lambda>new_height.
                   Ok (map (\<lambda>(height, hashed).
                              \<lparr>he_height = height, he_hash = hh_blockhash hashed,
                               he_header = hh_header hashed\<rparr>)
                         (zip [new_height..<new_height + length hashed_headers] hashed_headers)))))"

text \<open>The consistency checks of \<open>apply\<close> on the new headers alone.\<close>

definition check_links :: "header_entry list \<Rightarrow> bool" where
  "check_links new_headers \<longleftrightarrow>
     list_all (\<lambda>i. he_height (new_headers ! (i - 1)) + 1 = he_height (new_headers ! i) \<and>
                   he_hash (new_headers ! (i - 1)) = prev_blockhash (he_header (new_headers ! i)))
       [1..<length new_headers]"

text \<open>The height from which \<open>apply\<close> replaces the chain, with its checks.\<close>

definition apply_height :: "header_list \<Rightarrow> header_entry list \<Rightarrow> hash \<Rightarrow> nat res" where
  "apply_height hl new_headers tip =
     (case new_headers of
        entry # _ \<Rightarrow>
          bind_res (assert_res ''assertion failed: tip'' (tip = he_hash (last new_headers))) (\<lambda>_.
          (let height = he_height entry
           in bind_res
                (if height > 0 then
                   (if height - 1 < length (hl_headers hl) then
                      Ok (he_hash (hl_headers hl ! (height - 1)))
                    else Panic ''index out of bounds'')
                 else Ok null_hash)
                (\<lambda>expected_prev_blockhash.
                  bind_res (assert_res ''assertion failed: prev_blockhash''
                              (prev_blockhash (he_header entry) = expected_prev_blockhash))
                    (\<lambda>_. Ok height))))
      | [] \<Rightarrow> bind_res (expect ''missing tip'' (hl_heights hl tip)) (\<lambda>h. Ok (h + 1)))"

definition push_header :: "header_list \<Rightarrow> header_entry \<Rightarrow> header_list res" where
  "push_header hl new_header =
     bind_res (assert_res ''assertion failed: height'' (he_height new_header = length (hl_headers hl)))
       (\<lambda>_. bind_res (assert_res ''assertion failed: prev_blockhash''
                        (prev_blockhash (he_header new_header) = hl_tip hl))
       (\<lambda>_. Ok \<lparr>hl_headers = hl_headers hl @ [new_header],
               hl_heights = (hl_heights hl)(he_hash new_header \<mapsto> he_height new_header)\<rparr>))"

definition apply_headers :: "header_list \<Rightarrow> header_entry list \<Rightarrow> hash \<Rightarrow> header_list res" where
  "apply_headers hl new_headers tip =
     (if tip = null_hash then
        bind_res (assert_res ''assertion failed: new_headers.is_empty()'' (new_headers = []))
          (\<lambda>_. Ok hl_empty)
      else
        bind_res (assert_res ''assertion failed: new_headers'' (check_links new_headers)) (\<lambda>_.
        bind_res (apply_height hl new_headers tip) (\<lambda>new_height.
        bind_res (if new_height \<le> length (hl_headers hl) then
                    Ok (hl\<lparr>hl_headers := take new_height (hl_headers hl)\<rparr>)
                  else Panic ''`at` split index out of range'') (\<lambda>kept.
        bind_res (assert_res ''assertion failed: new_height'' (new_height = length (hl_headers kept))) (\<lambda>_.
        bind_res (foldM_res push_header kept new_headers) (\<lambda>hl'.
        bind_res (assert_res ''assertion failed: tip'' (tip = hl_tip hl')) (\<lambda>_.
        bind_res (assert_res ''assertion failed: heights'' (hl_heights hl' tip \<noteq> None)) (\<lambda>_.
        Ok hl'))))))))"

section \<open>The abstract chain\<close>

text \<open>\<open>linked D p hs\<close>: the headers \<open>hs\<close> form a chain whose first block has parent \<open>p\<close>.\<close>

primrec linked :: "deps \<Rightarrow> hash \<Rightarrow> block_header list \<Rightarrow> bool" where
  "linked D p [] \<longleftrightarrow> True"
| "linked D p (h # hs) \<longleftrightarrow> prev_blockhash h = p \<and> linked D (bitcoin_hash D h) hs"

definition chain_tip :: "deps \<Rightarrow> hash \<Rightarrow> block_header list \<Rightarrow> hash" where
  "chain_tip D p hs = (if hs = [] then p else bitcoin_hash D (last hs))"

definition valid_chain :: "deps \<Rightarrow> block_header list \<Rightarrow> bool" where
  "valid_chain D hs \<longleftrightarrow> linked D null_hash hs \<and> distinct (map (bitcoin_hash D) hs) \<and>
     null_hash \<notin> bitcoin_hash D ` set hs"

definition chain_entry :: "deps \<Rightarrow> nat \<Rightarrow> block_header \<Rightarrow> header_entry" where
  "chain_entry D n h = \<lparr>he_height = n, he_hash = bitcoin_hash D h, he_header = h\<rparr>"

definition chain_entries :: "deps \<Rightarrow> nat \<Rightarrow> block_header list \<Rightarrow> header_entry list" where
  "chain_entries D n hs = map (\<lambda>(i, h). chain_entry D i h) (zip [n..<n + length hs] hs)"

definition hl_rep :: "deps \<Rightarrow> header_list \<Rightarrow> block_header list \<Rightarrow> bool" where
  "hl_rep D hl hs \<longleftrightarrow> valid_chain D hs \<and> hl_headers hl = chain_entries D 0 hs \<and>
     (\<forall>i < length hs. hl_heights hl (bitcoin_hash D (hs ! i)) = Some i)"

lemma linked_append:
  "linked D p (xs @ ys) \<longleftrightarrow> linked D p xs \<and> linked D (chain_tip D p xs) ys"
  by (induction xs arbitrary: p) (auto simp: chain_tip_def)

lemma linked_nth:
  "linked D p hs \<Longrightarrow> i < length hs \<Longrightarrow>
     prev_blockhash (hs ! i) = (if i = 0 then p else bitcoin_hash D (hs ! (i - 1)))"
proof (induction hs arbitrary: p i)
  case (Cons h hs)
  then show ?case by (cases i) (auto simp: nth_Cons')
qed simp

lemma linked_iff_successively:
  "linked D p hs \<longleftrightarrow>
     (hs \<noteq> [] \<longrightarrow> prev_blockhash (hd hs) = p) \<and>
     successively (\<lambda>a b. prev_blockhash b = bitcoin_hash D a) hs"
  by (induction hs arbitrary: p) (auto simp: successively_Cons)

lemma length_chain_entries [simp]: "length (chain_entries D n hs) = length hs"
  by (simp add: chain_entries_def)

lemma chain_entries_nth [simp]:
  "i < length hs \<Longrightarrow> chain_entries D n hs ! i = chain_entry D (n + i) (hs ! i)"
  by (simp add: chain_entries_def)

lemma chain_entries_Nil [simp]: "chain_entries D n [] = []"
  by (simp add: chain_entries_def)

lemma chain_entries_eq_Nil [simp]: "chain_entries D n hs = [] \<longleftrightarrow> hs = []"
  using length_chain_entries [of D n hs] by (metis length_0_conv)

lemma chain_entries_append:
  "chain_entries D n (xs @ ys) = chain_entries D n xs @ chain_entries D (n + length xs) ys"
  by (rule nth_equalityI) (auto simp: nth_append)

lemma chain_entries_Cons:
  "chain_entries D n (h # hs) = chain_entry D n h # chain_entries D (Suc n) hs"
  using chain_entries_append [of D n "[h]" hs] by (simp add: chain_entries_def)

lemma take_chain_entries: "take k (chain_entries D n hs) = chain_entries D n (take k hs)"
  by (rule nth_equalityI) auto

lemma last_chain_entries:
  "hs \<noteq> [] \<Longrightarrow> last (chain_entries D n hs) = chain_entry D (n + length hs - 1) (last hs)"
  by (cases hs rule: rev_cases) (simp_all add: chain_entries_append chain_entries_Cons)

lemma chain_entry_sel [simp]:
  "he_height (chain_entry D n h) = n" "he_hash (chain_entry D n h) = bitcoin_hash D h"
  "he_header (chain_entry D n h) = h"
  by (simp_all add: chain_entry_def)

lemma valid_chain_Nil [simp]: "valid_chain D []"
  by (simp add: valid_chain_def)

lemma valid_chain_take: "valid_chain D hs \<Longrightarrow> valid_chain D (take k hs)"
  unfolding valid_chain_def
  using linked_append [of D null_hash "take k hs" "drop k hs"]
  by (auto simp flip: take_map dest: in_set_takeD)

lemma valid_chain_nonnull: "valid_chain D hs \<Longrightarrow> h \<in> set hs \<Longrightarrow> bitcoin_hash D h \<noteq> null_hash"
  by (metis image_eqI valid_chain_def)

lemma hl_rep_nonnull: "hl_rep D hl hs \<Longrightarrow> i < length hs \<Longrightarrow> bitcoin_hash D (hs ! i) \<noteq> null_hash"
  using valid_chain_nonnull [of D hs "hs ! i"] by (simp add: hl_rep_def)

lemma valid_chain_snoc:
  "valid_chain D (hs @ [h]) \<longleftrightarrow>
     valid_chain D hs \<and> prev_blockhash h = chain_tip D null_hash hs \<and>
     (\<forall>x \<in> set hs. bitcoin_hash D x \<noteq> bitcoin_hash D h) \<and> bitcoin_hash D h \<noteq> null_hash"
  by (auto simp: valid_chain_def linked_append image_iff)

lemma hl_rep_empty: "hl_rep D hl_empty []"
  by (simp add: hl_rep_def hl_empty_def)

lemma hl_rep_tip: "hl_rep D hl hs \<Longrightarrow> hl_tip hl = chain_tip D null_hash hs"
  by (auto simp: hl_rep_def hl_tip_def chain_tip_def last_chain_entries)

lemma hl_rep_take:
  "hl_rep D hl hs \<Longrightarrow> hl_rep D (hl\<lparr>hl_headers := take k (hl_headers hl)\<rparr>) (take k hs)"
  by (simp add: hl_rep_def take_chain_entries valid_chain_take)

lemma hl_rep_push:
  assumes "hl_rep D hl hs" and "valid_chain D (hs @ [h])"
  shows "\<exists>hl'. push_header hl (chain_entry D (length hs) h) = Ok hl' \<and> hl_rep D hl' (hs @ [h])"
proof -
  let ?hl = "\<lparr>hl_headers = hl_headers hl @ [chain_entry D (length hs) h],
     hl_heights = (hl_heights hl)(bitcoin_hash D h \<mapsto> length hs)\<rparr>"
  have prev: "prev_blockhash h = chain_tip D null_hash hs"
    and fresh: "\<forall>i < length hs. bitcoin_hash D (hs ! i) \<noteq> bitcoin_hash D h"
    using assms(2) by (auto simp: valid_chain_snoc)
  have "push_header hl (chain_entry D (length hs) h) = Ok ?hl"
    using assms(1) prev hl_rep_tip [OF assms(1)]
    by (simp add: push_header_def hl_rep_def)
  moreover have "hl_rep D ?hl (hs @ [h])"
    using assms fresh
    by (auto simp: hl_rep_def chain_entries_append chain_entries_Cons nth_append less_Suc_eq)
  ultimately show ?thesis by blast
qed

lemma hl_rep_fold:
  "hl_rep D hl hs \<Longrightarrow> valid_chain D (hs @ new) \<Longrightarrow>
     \<exists>hl'. foldM_res push_header hl (chain_entries D (length hs) new) = Ok hl' \<and>
           hl_rep D hl' (hs @ new)"
proof (induction new arbitrary: hl hs)
  case (Cons h new)
  have "valid_chain D (hs @ [h])"
    using valid_chain_take [OF Cons.prems(2), of "length hs + 1"] by simp
  then obtain hl1 where push: "push_header hl (chain_entry D (length hs) h) = Ok hl1"
    and rep1: "hl_rep D hl1 (hs @ [h])"
    using hl_rep_push [OF Cons.prems(1)] by blast
  from Cons.IH [OF rep1] Cons.prems(2) push show ?case
    by (simp add: chain_entries_Cons)
qed simp

lemma hl_rep_lookup:
  assumes "hl_rep D hl hs"
  shows "header_by_blockhash hl b = Some e \<longleftrightarrow>
    (\<exists>i < length hs. b = bitcoin_hash D (hs ! i) \<and> e = chain_entry D i (hs ! i))"
proof
  assume "header_by_blockhash hl b = Some e"
  then obtain i where i: "hl_heights hl b = Some i" "i < length (hl_headers hl)"
    and "he_hash (hl_headers hl ! i) = b" and "e = hl_headers hl ! i"
    by (auto simp: header_by_blockhash_def Let_def split: option.splits if_splits)
  with assms show "\<exists>i < length hs. b = bitcoin_hash D (hs ! i) \<and> e = chain_entry D i (hs ! i)"
    by (auto simp: hl_rep_def)
next
  assume "\<exists>i < length hs. b = bitcoin_hash D (hs ! i) \<and> e = chain_entry D i (hs ! i)"
  with assms show "header_by_blockhash hl b = Some e"
    by (auto simp: header_by_blockhash_def hl_rep_def)
qed

lemma hl_rep_lookup_None:
  assumes "hl_rep D hl hs"
  shows "header_by_blockhash hl b = None \<longleftrightarrow> b \<notin> bitcoin_hash D ` set hs"
proof -
  have "(\<exists>e. header_by_blockhash hl b = Some e) \<longleftrightarrow> (\<exists>i < length hs. b = bitcoin_hash D (hs ! i))"
    using hl_rep_lookup [OF assms, of b] by auto
  then show ?thesis by (metis (no_types, lifting) image_iff in_set_conv_nth not_Some_eq)
qed

section \<open>\<open>order\<close> and \<open>apply\<close> on chains\<close>

lemma hash_headers_eq:
  "hash_headers D hs =
     (if successively (\<lambda>a b. prev_blockhash b = bitcoin_hash D a) hs
      then Ok (map (\<lambda>h. \<lparr>hh_blockhash = bitcoin_hash D h, hh_header = h\<rparr>) hs)
      else Panic ''assertion failed: prev_blockhash'')"
  unfolding hash_headers_def Let_def
    list_all_adjacent [where P = "\<lambda>a b. prev_blockhash (hh_header b) = hh_blockhash a"]
  by (simp add: successively_map)

lemma order_chain:
  assumes rep: "hl_rep D hl hs" and k: "k \<le> length hs"
    and new: "linked D (chain_tip D null_hash (take k hs)) new"
  shows "order D hl new = Ok (chain_entries D k new)"
proof (cases new)
  case Nil
  then show ?thesis by (simp add: order_def hash_headers_eq)
next
  case (Cons h rest)
  have hashed: "hash_headers D new =
      Ok (map (\<lambda>h. \<lparr>hh_blockhash = bitcoin_hash D h, hh_header = h\<rparr>) new)"
    using new by (simp add: hash_headers_eq linked_iff_successively)
  have height: "(if prev_blockhash h = null_hash then Ok 0
      else bind_res (expect ''is not part of the blockchain''
             (header_by_blockhash hl (prev_blockhash h))) (\<lambda>e. Ok (he_height e + 1))) = Ok k"
  proof (cases k)
    case 0
    with new Cons show ?thesis by (simp add: chain_tip_def)
  next
    case (Suc i)
    with k have i: "i < length hs" by simp
    with Suc new Cons have prev: "prev_blockhash h = bitcoin_hash D (hs ! i)"
      by (simp add: chain_tip_def take_Suc_conv_app_nth)
    moreover have "bitcoin_hash D (hs ! i) \<noteq> null_hash"
      by (rule hl_rep_nonnull [OF rep i])
    moreover have "header_by_blockhash hl (prev_blockhash h) = Some (chain_entry D i (hs ! i))"
      using hl_rep_lookup [OF rep] prev i by auto
    ultimately show ?thesis using Suc by simp
  qed
  have map_eq: "map (\<lambda>(height, hashed). \<lparr>he_height = height, he_hash = hh_blockhash hashed,
          he_header = hh_header hashed\<rparr>)
        (zip [k..<k + length new]
           (map (\<lambda>h. \<lparr>hh_blockhash = bitcoin_hash D h, hh_header = h\<rparr>) new)) =
      chain_entries D k new"
    by (rule nth_equalityI) (simp_all add: chain_entry_def)
  show ?thesis
    unfolding order_def hashed using Cons height map_eq by simp
qed

lemma check_links_chain_entries:
  assumes "linked D p new"
  shows "check_links (chain_entries D k new)"
proof -
  have "successively (\<lambda>a b. he_height a + 1 = he_height b \<and> he_hash a = prev_blockhash (he_header b))
          (chain_entries D k new)"
    using assms
    by (induction new arbitrary: k p)
       (auto simp: chain_entries_Cons successively_Cons hd_conv_nth linked_nth)
  then show ?thesis
    unfolding check_links_def
      list_all_adjacent [where P = "\<lambda>a b. he_height a + 1 = he_height b \<and>
                                  he_hash a = prev_blockhash (he_header b)"] .
qed

lemma apply_height_chain:
  assumes "hl_rep D hl hs" and "k \<le> length hs" and "new \<noteq> []"
    and "linked D (chain_tip D null_hash (take k hs)) new"
  shows "apply_height hl (chain_entries D k new) (bitcoin_hash D (last new)) = Ok k"
proof -
  obtain h rest where new: "new = h # rest" using assms(3) by (cases new) auto
  have "last (chain_entries D k new) = chain_entry D (k + length new - 1) (last new)"
    by (rule last_chain_entries [OF assms(3)])
  then have tip: "bitcoin_hash D (last new) = he_hash (last (chain_entries D k new))" by simp
  have prev: "(if k > 0 then (if k - 1 < length (hl_headers hl) then
       Ok (he_hash (hl_headers hl ! (k - 1))) else Panic ''index out of bounds'')
       else Ok null_hash) = Ok (prev_blockhash h)"
    using assms new
    by (cases k) (auto simp: hl_rep_def chain_tip_def take_Suc_conv_app_nth)
  show ?thesis
    unfolding apply_height_def tip
    using new prev by (simp add: chain_entries_Cons)
qed

lemma apply_chain:
  assumes rep: "hl_rep D hl hs" and k: "k \<le> length hs" and ne: "new \<noteq> []"
    and valid: "valid_chain D (take k hs @ new)"
  shows "\<exists>hl'. apply_headers hl (chain_entries D k new) (bitcoin_hash D (last new)) = Ok hl' \<and>
               hl_rep D hl' (take k hs @ new)"
proof -
  let ?kept = "hl\<lparr>hl_headers := take k (hl_headers hl)\<rparr>"
  have len: "length (hl_headers hl) = length hs"
    using rep by (simp add: hl_rep_def)
  have link: "linked D (chain_tip D null_hash (take k hs)) new"
    using valid by (simp add: valid_chain_def linked_append)
  have nz: "bitcoin_hash D (last new) \<noteq> null_hash"
    using valid_chain_nonnull [OF valid] ne by simp
  obtain hl' where fold: "foldM_res push_header ?kept (chain_entries D k new) = Ok hl'"
    and rep': "hl_rep D hl' (take k hs @ new)"
    using hl_rep_fold [OF hl_rep_take [OF rep, of k] valid] k by auto
  have tip: "hl_tip hl' = bitcoin_hash D (last new)"
    using hl_rep_tip [OF rep'] ne by (simp add: chain_tip_def)
  have "hl_heights hl' (bitcoin_hash D (last (take k hs @ new))) \<noteq> None"
    using rep' ne unfolding hl_rep_def by (subst last_conv_nth) auto
  then have "hl_heights hl' (bitcoin_hash D (last new)) \<noteq> None"
    using ne by simp
  then show ?thesis
    using check_links_chain_entries [OF link] apply_height_chain [OF rep k ne link]
      fold rep' tip nz len k
    by (auto simp: apply_headers_def)
qed

lemma apply_trim:
  assumes rep: "hl_rep D hl hs" and k: "k < length hs"
  shows "\<exists>hl'. apply_headers hl [] (bitcoin_hash D (hs ! k)) = Ok hl' \<and>
               hl_rep D hl' (take (Suc k) hs)"
proof -
  let ?kept = "hl\<lparr>hl_headers := take (Suc k) (hl_headers hl)\<rparr>"
  have rep': "hl_rep D ?kept (take (Suc k) hs)" by (rule hl_rep_take [OF rep])
  have nz: "bitcoin_hash D (hs ! k) \<noteq> null_hash"
    by (rule hl_rep_nonnull [OF rep k])
  have tip: "hl_tip ?kept = bitcoin_hash D (hs ! k)"
    using hl_rep_tip [OF rep'] k by (simp add: chain_tip_def take_Suc_conv_app_nth)
  have height: "hl_heights hl (bitcoin_hash D (hs ! k)) = Some k"
    and len: "length (hl_headers hl) = length hs"
    using rep k by (auto simp: hl_rep_def)
  have "apply_headers hl [] (bitcoin_hash D (hs ! k)) = Ok ?kept"
    using nz tip height len k by (simp add: apply_headers_def check_links_def apply_height_def)
  with rep' show ?thesis by blast
qed

section \<open>What any successful \<open>apply\<close> guarantees\<close>

text \<open>The structural invariant of the list, whatever the caller passed in.\<close>

definition hl_ok :: "header_list \<Rightarrow> bool" where
  "hl_ok hl \<longleftrightarrow>
     (\<forall>i < length (hl_headers hl).
        he_height (hl_headers hl ! i) = i \<and>
        prev_blockhash (he_header (hl_headers hl ! i)) =
          (if i = 0 then null_hash else he_hash (hl_headers hl ! (i - 1))))"

lemma push_header_ok:
  assumes "push_header hl e = Ok hl'" and "hl_ok hl"
  shows "hl_ok hl' \<and> hl_headers hl' = hl_headers hl @ [e]"
proof -
  have eqs: "he_height e = length (hl_headers hl)" "prev_blockhash (he_header e) = hl_tip hl"
    "hl_headers hl' = hl_headers hl @ [e]"
    using assms(1) by (auto simp: push_header_def res_simps)
  with assms(2) show ?thesis
    by (auto simp: hl_ok_def nth_append hl_tip_def last_conv_nth less_Suc_eq)
qed

lemma fold_push_ok:
  "foldM_res push_header hl es = Ok hl' \<Longrightarrow> hl_ok hl \<Longrightarrow>
     hl_ok hl' \<and> hl_headers hl' = hl_headers hl @ es"
proof (induction es arbitrary: hl)
  case (Cons e es)
  then obtain hl1 where "push_header hl e = Ok hl1" and "foldM_res push_header hl1 es = Ok hl'"
    by (auto simp: res_simps)
  with Cons push_header_ok [of hl e hl1] show ?case by auto
qed simp

lemma hl_ok_take: "hl_ok hl \<Longrightarrow> hl_ok (hl\<lparr>hl_headers := take n (hl_headers hl)\<rparr>)"
  by (auto simp: hl_ok_def)

lemma apply_headers_sound:
  assumes "apply_headers hl es tip = Ok hl'" and "hl_ok hl"
  shows "hl_ok hl' \<and> hl_tip hl' = tip \<and>
         (\<exists>n \<le> length (hl_headers hl). hl_headers hl' = take n (hl_headers hl) @ es)"
proof (cases "tip = null_hash")
  case True
  with assms(1) show ?thesis
    by (auto simp: apply_headers_def res_simps hl_empty_def hl_ok_def hl_tip_def)
next
  case False
  with assms(1) obtain n where n: "n \<le> length (hl_headers hl)"
    and fold: "foldM_res push_header (hl\<lparr>hl_headers := take n (hl_headers hl)\<rparr>) es = Ok hl'"
    and tip: "hl_tip hl' = tip"
    by (auto simp: apply_headers_def res_simps split: if_splits)
  from fold_push_ok [OF fold hl_ok_take [OF assms(2)]] n tip show ?thesis by auto
qed

lemma hl_rep_ok: "hl_rep D hl hs \<Longrightarrow> hl_ok hl"
  by (auto simp: hl_rep_def hl_ok_def valid_chain_def linked_nth)

section \<open>Properties\<close>

lemma hash_headers_unlinked:
  "\<not> successively (\<lambda>a b. prev_blockhash b = bitcoin_hash D a) hs \<Longrightarrow>
     order D hl hs = Panic ''assertion failed: prev_blockhash''"
  by (simp add: order_def hash_headers_eq)

lemma order_unknown_parent:
  assumes "hl_rep D hl hs" and "linked D p (h # new)" and "p \<noteq> null_hash"
    and "p \<notin> bitcoin_hash D ` set hs"
  shows "order D hl (h # new) = Panic ''is not part of the blockchain''"
proof -
  have "hash_headers D (h # new) =
      Ok (map (\<lambda>h. \<lparr>hh_blockhash = bitcoin_hash D h, hh_header = h\<rparr>) (h # new))"
    using assms(2) unfolding linked_iff_successively by (simp add: hash_headers_eq)
  moreover have "header_by_blockhash hl p = None"
    using hl_rep_lookup_None [OF assms(1)] assms(4) by blast
  ultimately show ?thesis using assms(2,3) by (simp add: order_def)
qed

lemma hl_rep_height:
  assumes "hl_rep D hl hs"
  shows "header_by_height hl n =
           Ok (if n < length hs then Some (chain_entry D n (hs ! n)) else None)"
  using assms by (simp add: header_by_height_def hl_rep_def)

text \<open>The closed examples: a chain of two blocks, built by \<open>order\<close> and \<open>apply\<close>.\<close>

definition ex_chain :: "block_header list" where
  "ex_chain = [ex_header 0 1, ex_header 1 2]"

definition ex_headers :: header_list where
  "ex_headers = \<lparr>hl_headers = chain_entries ref_deps 0 ex_chain,
     hl_heights = [mk_hash [1] \<mapsto> 0, mk_hash [2] \<mapsto> 1]\<rparr>"

lemma ex_chain_valid: "valid_chain ref_deps (ex_chain @ [ex_header 2 3])"
  "valid_chain ref_deps [ex_header 0 1, ex_header 1 4, ex_header 4 5]"
  by (simp_all add: valid_chain_def ex_chain_def)

lemma hl_rep_ex: "hl_rep ref_deps ex_headers ex_chain"
  using valid_chain_take [OF ex_chain_valid(1), of 2]
  by (auto simp: hl_rep_def ex_headers_def ex_chain_def less_Suc_eq)

text \<open>
  C13: Reorganisation. On a header list that represents the chain \<open>hs\<close>, ordering and applying
  headers that continue the chain from height \<open>k\<close> succeeds (no assertion fails) and the result
  represents \<open>hs\<close> cut at \<open>k\<close> and continued by the new headers; this covers plain extension
  (\<open>k = length hs\<close>), a fork at any height, and a first synchronisation (\<open>k = 0\<close>).
\<close>

theorem order_apply_reorg:
  assumes "hl_rep D hl hs" and "k \<le> length hs" and "new \<noteq> []"
    and "valid_chain D (take k hs @ new)"
  shows "\<exists>hl'. bind_res (order D hl new)
                  (\<lambda>es. apply_headers hl es (bitcoin_hash D (last new))) = Ok hl' \<and>
               hl_rep D hl' (take k hs @ new)"
proof -
  have "linked D (chain_tip D null_hash (take k hs)) new"
    using assms(4) by (simp add: valid_chain_def linked_append)
  from order_chain [OF assms(1,2) this] apply_chain [OF assms] show ?thesis by simp
qed

theorem order_apply_reorg_witness:
  "\<exists>hl'. bind_res (order ref_deps ex_headers [ex_header 1 4, ex_header 4 5])
            (\<lambda>es. apply_headers ex_headers es (mk_hash [5])) = Ok hl' \<and>
         hl_rep ref_deps hl' [ex_header 0 1, ex_header 1 4, ex_header 4 5]"
  using order_apply_reorg [OF hl_rep_ex, of 1 "[ex_header 1 4, ex_header 4 5]"] ex_chain_valid(2)
  by (simp add: ex_chain_def)

text \<open>
  Lookups in a header list that represents the chain \<open>hs\<close> are exact: a block hash is found
  at precisely its height in the chain (a block that a reorganisation dropped is not found, although
  \<open>heights\<close> still has an entry for it), a height below the length returns the header there and any
  other height nothing, and the tip is the hash of the last header.
\<close>

lemma header_list_lookups:
  assumes "hl_rep D hl hs"
  shows "(header_by_blockhash hl b = Some e \<longleftrightarrow>
            (\<exists>i < length hs. b = bitcoin_hash D (hs ! i) \<and> e = chain_entry D i (hs ! i))) \<and>
         header_by_height hl n = Ok (if n < length hs then Some (chain_entry D n (hs ! n)) else None) \<and>
         hl_tip hl = chain_tip D null_hash hs \<and> hl_len hl = length hs"
  using hl_rep_lookup [OF assms] hl_rep_height [OF assms] hl_rep_tip [OF assms] assms
  by (simp add: hl_len_def hl_rep_def)

text \<open>
  What \<open>order\<close> rejects. Headers that do not each link to the one before make it panic, and so
  does a linked run whose parent is neither null nor in the list (a reorganisation deeper than what
  was fetched).
\<close>

lemma order_rejects:
  "(\<not> successively (\<lambda>a b. prev_blockhash b = bitcoin_hash D a) new \<longrightarrow>
      order D hl new = Panic ''assertion failed: prev_blockhash'') \<and>
   (hl_rep D hl hs \<and> new \<noteq> [] \<and> linked D p new \<and> p \<noteq> null_hash \<and> p \<notin> bitcoin_hash D ` set hs \<longrightarrow>
      order D hl new = Panic ''is not part of the blockchain'')"
proof (intro conjI impI)
  assume "hl_rep D hl hs \<and> new \<noteq> [] \<and> linked D p new \<and> p \<noteq> null_hash \<and> p \<notin> bitcoin_hash D ` set hs"
  then show "order D hl new = Panic ''is not part of the blockchain''"
    by (cases new) (auto intro: order_unknown_parent)
qed (rule hash_headers_unlinked)

end
