(* ===== verification/Store.thy ===== *)
theory Store
  imports Prelude
begin

text \<open>
  \<open>store.rs\<close>: rows, the two store traits and the RocksDB store. A trait is a record of its
  methods over the implementor's state, so a function that takes \<open>&dyn ReadStore\<close> takes the
  record and the state. RocksDB itself is a parameter, the record \<open>rocksdb\<close>, whose operations
  may fail; \<open>rocksdb_ok\<close> is what its documentation promises of a healthy database (keys in
  bytewise order, a batch applied in order and visible to later reads). The locales
  \<open>readable\<close> and \<open>writable\<close> state what the index and the queries rely on of a store; they are
  interpreted here on \<open>DBStore\<close> and in \<open>Mempool\<close> on the mempool's store.
\<close>

section \<open>Rows and traits\<close>

record row =
  row_key :: bytes
  row_value :: bytes

definition into_pair :: "row \<Rightarrow> bytes \<times> bytes" where
  "into_pair r = (row_key r, row_value r)"

record 's read_store =
  rs_get :: "'s \<Rightarrow> bytes \<Rightarrow> bytes option res"
  rs_scan :: "'s \<Rightarrow> bytes \<Rightarrow> row list"

record 's write_store =
  ws_write :: "'s \<Rightarrow> row list \<Rightarrow> 's res"
  ws_flush :: "'s \<Rightarrow> 's res"

section \<open>RocksDB\<close>

record db_options =
  create_if_missing :: bool
  max_open_files :: int
  compaction_level :: bool
  compression_snappy :: bool
  target_file_size_base :: u64
  write_buffer_size :: u64
  disable_auto_compactions :: bool
  advise_random_on_open :: bool
  compaction_readahead_size :: "u64 option"

text \<open>
  The calls into \<open>rocksdb\<close>; \<open>None\<close> is a RocksDB error. \<open>rdb_iterator\<close> is
  \<open>IteratorMode::From(key, Forward)\<close> read to its end, \<open>rdb_write_opt\<close> takes the options
  \<open>sync\<close> and \<open>disable_wal\<close> and the puts of a batch.
\<close>

record 'db rocksdb =
  rdb_open :: "db_options \<Rightarrow> string \<Rightarrow> 'db option"
  rdb_get :: "'db \<Rightarrow> bytes \<Rightarrow> bytes option option"
  rdb_iterator :: "'db \<Rightarrow> bytes \<Rightarrow> (bytes \<times> bytes) option list"
  rdb_prefix_iterator :: "'db \<Rightarrow> bytes \<Rightarrow> (bytes \<times> bytes) option list"
  rdb_write_opt :: "'db \<Rightarrow> bool \<Rightarrow> bool \<Rightarrow> (bytes \<times> bytes) list \<Rightarrow> 'db option"
  rdb_flush :: "'db \<Rightarrow> 'db option"
  rdb_compact_range :: "'db \<Rightarrow> 'db"
  rdb_set_options :: "'db \<Rightarrow> (string \<times> string) list \<Rightarrow> 'db option"

definition put_batch :: "(bytes, bytes) btree \<Rightarrow> (bytes \<times> bytes) list \<Rightarrow> (bytes, bytes) btree" where
  "put_batch m batch = foldl (\<lambda>m (k, v). bt_put k v m) m batch"

definition rocksdb_ok :: "'db rocksdb \<Rightarrow> ('db \<Rightarrow> (bytes, bytes) btree) \<Rightarrow> bool" where
  "rocksdb_ok R contents \<longleftrightarrow>
     (\<forall>d. bt_sorted (contents d)) \<and>
     (\<forall>d k. rdb_get R d k = Some (bt_get (contents d) k)) \<and>
     (\<forall>d p. rdb_iterator R d p = map Some (bt_range_from p (contents d))) \<and>
     (\<forall>d p. rdb_prefix_iterator R d p = map Some (bt_range_from p (contents d))) \<and>
     (\<forall>d s w b. \<exists>d'. rdb_write_opt R d s w b = Some d' \<and> contents d' = put_batch (contents d) b) \<and>
     (\<forall>d. \<exists>d'. rdb_flush R d = Some d' \<and> contents d' = contents d) \<and>
     (\<forall>d. contents (rdb_compact_range R d) = contents d) \<and>
     (\<forall>d o'. \<exists>d'. rdb_set_options R d o' = Some d' \<and> contents d' = contents d)"

section \<open>The RocksDB store\<close>

record options =
  opt_path :: string
  bulk_import :: bool
  low_memory :: bool

record 'db dbstore =
  db_handle :: 'db
  db_opts :: options

text \<open>\<open>open_opts\<close> also builds \<open>BlockBasedOptions\<close> with a block size, which it never attaches.\<close>

definition db_open_options :: "options \<Rightarrow> db_options" where
  "db_open_options opts = \<lparr>
     create_if_missing = True,
     max_open_files = (if bulk_import opts then 16 else 256),
     compaction_level = True,
     compression_snappy = True,
     target_file_size_base = push_bit 20 256,
     write_buffer_size = push_bit 20 256,
     disable_auto_compactions = bulk_import opts,
     advise_random_on_open = (\<not> bulk_import opts),
     compaction_readahead_size = (if \<not> low_memory opts then Some (push_bit 20 1) else None)\<rparr>"

definition db_open_opts :: "'db rocksdb \<Rightarrow> options \<Rightarrow> 'db dbstore res" where
  "db_open_opts R opts =
     bind_res (expect ''DB::open'' (rdb_open R (db_open_options opts) (opt_path opts)))
       (\<lambda>d. Ok \<lparr>db_handle = d, db_opts = opts\<rparr>)"

definition db_open :: "'db rocksdb \<Rightarrow> string \<Rightarrow> bool \<Rightarrow> 'db dbstore res" where
  "db_open R path lowmem =
     db_open_opts R \<lparr>opt_path = path, bulk_import = True, low_memory = lowmem\<rparr>"

text \<open>
  \<open>enable_compaction\<close> clears \<open>bulk_import\<close> in a local copy of the options and returns \<open>self\<close>
  with its own options as they were.
\<close>

definition db_enable_compaction :: "'db rocksdb \<Rightarrow> 'db dbstore \<Rightarrow> 'db dbstore res" where
  "db_enable_compaction R store =
     (let opts = db_opts store
      in if bulk_import opts then
           (let opts = opts\<lparr>bulk_import := False\<rparr>
            in bind_res (expect ''set_options''
                  (rdb_set_options R (db_handle store) [(''disable_auto_compactions'', ''false'')]))
                 (\<lambda>d. Ok (store\<lparr>db_handle := d\<rparr>)))
         else Ok store)"

definition db_compact :: "'db rocksdb \<Rightarrow> 'db dbstore \<Rightarrow> 'db dbstore" where
  "db_compact R store = store\<lparr>db_handle := rdb_compact_range R (db_handle store)\<rparr>"

text \<open>\<open>ScanIterator\<close>: the prefix, what the RocksDB iterator still holds, the \<open>done\<close> flag.\<close>

record scan_iterator =
  si_prefix :: bytes
  si_iter :: "(bytes \<times> bytes) option list"
  si_done :: bool

definition db_iter_scan :: "'db rocksdb \<Rightarrow> 'db dbstore \<Rightarrow> bytes \<Rightarrow> scan_iterator" where
  "db_iter_scan R store p =
     \<lparr>si_prefix = p, si_iter = rdb_prefix_iterator R (db_handle store) p, si_done = False\<rparr>"

definition scan_next :: "scan_iterator \<Rightarrow> row option \<times> scan_iterator" where
  "scan_next it =
     (if si_done it then (None, it)
      else case si_iter it of
          [] \<Rightarrow> (None, it)
        | None # rest \<Rightarrow> (None, it\<lparr>si_iter := rest\<rparr>)
        | Some (key, value) # rest \<Rightarrow>
            if \<not> prefix (si_prefix it) key then (None, it\<lparr>si_iter := rest, si_done := True\<rparr>)
            else (Some \<lparr>row_key = key, row_value = value\<rparr>, it\<lparr>si_iter := rest\<rparr>))"

text \<open>A \<open>for\<close> loop over the iterator: it ends at the first \<open>None\<close>.\<close>

function scan_collect :: "scan_iterator \<Rightarrow> row list" where
  "scan_collect it =
     (case scan_next it of (Some r, it') \<Rightarrow> r # scan_collect it' | (None, _) \<Rightarrow> [])"
  by pat_completeness auto
termination
  by (relation "measure (\<lambda>it. length (si_iter it))")
     (auto simp: scan_next_def split: if_splits list.splits option.splits)

definition db_get :: "'db rocksdb \<Rightarrow> 'db dbstore \<Rightarrow> bytes \<Rightarrow> bytes option res" where
  "db_get R store key = expect ''rocksdb get'' (rdb_get R (db_handle store) key)"

text \<open>The scan loop: entries until the first key that does not start with the prefix.\<close>

primrec scan_rows :: "bytes \<Rightarrow> (bytes \<times> bytes) list \<Rightarrow> row list" where
  "scan_rows p [] = []"
| "scan_rows p (e # es) =
     (if \<not> prefix p (fst e) then []
      else \<lparr>row_key = fst e, row_value = snd e\<rparr> # scan_rows p es)"

text \<open>\<open>filter_map(Result::ok)\<close> passes over the items that failed to read.\<close>

definition db_scan :: "'db rocksdb \<Rightarrow> 'db dbstore \<Rightarrow> bytes \<Rightarrow> row list" where
  "db_scan R store p = scan_rows p (List.map_filter id (rdb_iterator R (db_handle store) p))"

definition db_write :: "'db rocksdb \<Rightarrow> 'db dbstore \<Rightarrow> row list \<Rightarrow> 'db dbstore res" where
  "db_write R store rows =
     (let batch = map (\<lambda>r. (row_key r, row_value r)) rows;
          sync = (\<not> bulk_import (db_opts store));
          disable_wal = bulk_import (db_opts store)
      in bind_res (expect ''rocksdb write'' (rdb_write_opt R (db_handle store) sync disable_wal batch))
           (\<lambda>d. Ok (store\<lparr>db_handle := d\<rparr>)))"

definition db_flush :: "'db rocksdb \<Rightarrow> 'db dbstore \<Rightarrow> 'db dbstore res" where
  "db_flush R store =
     bind_res (expect ''rocksdb flush'' (rdb_flush R (db_handle store)))
       (\<lambda>d. Ok (store\<lparr>db_handle := d\<rparr>))"

definition db_read_store :: "'db rocksdb \<Rightarrow> 'db dbstore read_store" where
  "db_read_store R = \<lparr>rs_get = db_get R, rs_scan = db_scan R\<rparr>"

definition db_write_store :: "'db rocksdb \<Rightarrow> 'db dbstore write_store" where
  "db_write_store R = \<lparr>ws_write = db_write R, ws_flush = db_flush R\<rparr>"

section \<open>Compaction marker\<close>

definition full_compaction_marker :: row where
  "full_compaction_marker = \<lparr>row_key = [70], row_value = []\<rparr>"

definition full_compaction :: "'db rocksdb \<Rightarrow> 'db dbstore \<Rightarrow> 'db dbstore res" where
  "full_compaction R store =
     bind_res (db_write R store [full_compaction_marker]) (\<lambda>store.
     bind_res (db_flush R store) (\<lambda>store.
     bind_res (db_enable_compaction R (db_compact R store)) Ok))"

definition is_fully_compacted :: "'s read_store \<Rightarrow> 's \<Rightarrow> bool res" where
  "is_fully_compacted RS store =
     bind_res (rs_get RS store (row_key full_compaction_marker)) (\<lambda>marker. Ok (marker \<noteq> None))"

section \<open>What a store promises\<close>

definition rows_of :: "(bytes, bytes) btree \<Rightarrow> row list" where
  "rows_of m = map (\<lambda>e. \<lparr>row_key = fst e, row_value = snd e\<rparr>) m"

definition put_rows :: "(bytes, bytes) btree \<Rightarrow> row list \<Rightarrow> (bytes, bytes) btree" where
  "put_rows m rows = put_batch m (map into_pair rows)"

text \<open>
  A readable store has contents, an ordered map: \<open>get\<close> looks a key up, \<open>scan\<close> returns exactly
  the entries whose key starts with the prefix, in key order.
\<close>

locale readable =
  fixes RS :: "'s read_store"
    and view :: "'s \<Rightarrow> (bytes, bytes) btree"
    and inv :: "'s \<Rightarrow> bool"
  assumes view_sorted: "inv s \<Longrightarrow> bt_sorted (view s)"
    and get_view: "inv s \<Longrightarrow> rs_get RS s k = Ok (bt_get (view s) k)"
    and scan_view: "inv s \<Longrightarrow> rs_scan RS s p = rows_of (filter (\<lambda>e. prefix p (fst e)) (view s))"
begin

lemma scan_mem:
  assumes "inv s"
  shows "r \<in> set (rs_scan RS s p) \<longleftrightarrow>
           prefix p (row_key r) \<and> bt_get (view s) (row_key r) = Some (row_value r)"
proof -
  have "(row_key r, row_value r) \<in> set (view s) \<longleftrightarrow> bt_get (view s) (row_key r) = Some (row_value r)"
    using bt_sorted_distinct [OF view_sorted [OF assms]] by (simp add: bt_get_def)
  then show ?thesis
    unfolding scan_view [OF assms] rows_of_def by (cases r) (auto simp: image_iff)
qed

lemma scan_distinct_keys:
  assumes "inv s"
  shows "distinct (map row_key (rs_scan RS s p))"
proof -
  have "map row_key (rs_scan RS s p) = map fst (filter (\<lambda>e. prefix p (fst e)) (view s))"
    by (simp add: scan_view [OF assms] rows_of_def)
  then show ?thesis
    using bt_sorted_distinct [OF bt_sorted_filter [OF view_sorted [OF assms]]] by simp
qed

lemma scan_key_order:
  assumes "inv s"
  shows "sorted_wrt (<) (map row_key (rs_scan RS s p))"
proof -
  have "map row_key (rs_scan RS s p) = map fst (filter (\<lambda>e. prefix p (fst e)) (view s))"
    by (simp add: scan_view [OF assms] rows_of_def)
  then show ?thesis
    using bt_sorted_filter [OF view_sorted [OF assms]] by (simp add: bt_sorted_def)
qed

end

text \<open>A writable store applies the puts of a write in order; a flush changes nothing readable.\<close>

locale writable = readable RS view inv
  for RS :: "'s read_store" and view and inv +
  fixes WS :: "'s write_store"
  assumes write_view: "inv s \<Longrightarrow> \<exists>s'. ws_write WS s rows = Ok s' \<and> inv s' \<and> view s' = put_rows (view s) rows"
    and flush_view: "inv s \<Longrightarrow> \<exists>s'. ws_flush WS s = Ok s' \<and> inv s' \<and> view s' = view s"

section \<open>Contents after a write\<close>

lemma put_rows_Nil [simp, store_simps]: "put_rows m [] = m"
  by (simp add: put_rows_def put_batch_def)

lemma put_rows_Cons [store_simps]:
  "put_rows m (r # rs) = put_rows (bt_put (row_key r) (row_value r) m) rs"
  by (simp add: put_rows_def put_batch_def into_pair_def)

lemma put_rows_append [store_simps]: "put_rows m (xs @ ys) = put_rows (put_rows m xs) ys"
  by (simp add: put_rows_def put_batch_def)

lemma bt_sorted_put_rows [simp]: "bt_sorted m \<Longrightarrow> bt_sorted (put_rows m rs)"
  by (induction rs arbitrary: m) (auto simp: store_simps bt_sorted_put)

text \<open>Reading a key back gives the last row written under it, or what was there before.\<close>

lemma bt_get_put_rows:
  "bt_sorted m \<Longrightarrow>
     bt_get (put_rows m rs) k =
       (case find (\<lambda>r. row_key r = k) (rev rs) of
          Some r \<Rightarrow> Some (row_value r) | None \<Rightarrow> bt_get m k)"
proof (induction rs rule: rev_induct)
  case (snoc r rs)
  then show ?case
    by (auto simp: store_simps bt_get_put)
qed (simp add: store_simps)

lemma bt_get_put_rows_notin:
  "bt_sorted m \<Longrightarrow> k \<notin> row_key ` set rs \<Longrightarrow> bt_get (put_rows m rs) k = bt_get m k"
  by (induction rs arbitrary: m) (auto simp: store_simps bt_get_put bt_sorted_put)

lemma bt_get_put_rows_mem:
  assumes "bt_sorted m" and "\<And>r. r \<in> set rs \<Longrightarrow> row_key r = k \<Longrightarrow> row_value r = v" and "k \<in> row_key ` set rs"
  shows "bt_get (put_rows m rs) k = Some v"
proof -
  have "find (\<lambda>r. row_key r = k) (rev rs) \<noteq> None" using assms(3) by (auto simp: find_None_iff)
  then obtain r where "find (\<lambda>r. row_key r = k) (rev rs) = Some r" by blast
  with find_SomeD [OF this] assms(2) show ?thesis by (simp add: bt_get_put_rows [OF assms(1)])
qed

section \<open>The RocksDB store keeps the promise\<close>

lemma map_filter_id_Some [simp]: "List.map_filter id (map Some xs) = xs"
  by (induction xs) (auto simp: List.map_filter_def)

lemma scan_rows_takeWhile: "scan_rows p es = rows_of (takeWhile (\<lambda>e. prefix p (fst e)) es)"
  by (induction es) (auto simp: rows_of_def)

lemma db_scan_contents:
  assumes "rocksdb_ok R c"
  shows "db_scan R s p = rows_of (filter (\<lambda>e. prefix p (fst e)) (c (db_handle s)))"
  using assms takeWhile_prefix_range [of "c (db_handle s)" p]
  by (simp add: db_scan_def rocksdb_ok_def scan_rows_takeWhile)

lemma db_write_contents:
  assumes "rocksdb_ok R c"
  shows "\<exists>s'. db_write R s rows = Ok s' \<and> c (db_handle s') = put_rows (c (db_handle s)) rows \<and>
              db_opts s' = db_opts s"
proof -
  obtain d' where "rdb_write_opt R (db_handle s) (\<not> bulk_import (db_opts s)) (bulk_import (db_opts s))
      (map (\<lambda>r. (row_key r, row_value r)) rows) = Some d'"
    and "c d' = put_batch (c (db_handle s)) (map (\<lambda>r. (row_key r, row_value r)) rows)"
    using assms unfolding rocksdb_ok_def by blast
  then show ?thesis by (simp add: db_write_def put_rows_def into_pair_def [abs_def] Let_def)
qed

lemma db_flush_contents:
  assumes "rocksdb_ok R c"
  shows "\<exists>s'. db_flush R s = Ok s' \<and> c (db_handle s') = c (db_handle s) \<and> db_opts s' = db_opts s"
proof -
  obtain d' where "rdb_flush R (db_handle s) = Some d'" and "c d' = c (db_handle s)"
    using assms unfolding rocksdb_ok_def by blast
  then show ?thesis by (simp add: db_flush_def)
qed

interpretation db: writable "db_read_store R" "\<lambda>s. c (db_handle s)" "\<lambda>s. rocksdb_ok R c"
  "db_write_store R" for R :: "'db rocksdb" and c :: "'db \<Rightarrow> (bytes, bytes) btree"
proof unfold_locales
  fix s :: "'db dbstore" and k p :: bytes and rows :: "row list"
  assume ok: "rocksdb_ok R c"
  show "bt_sorted (c (db_handle s))"
    using ok by (simp add: rocksdb_ok_def)
  show "rs_get (db_read_store R) s k = Ok (bt_get (c (db_handle s)) k)"
    using ok by (simp add: db_read_store_def db_get_def rocksdb_ok_def)
  show "rs_scan (db_read_store R) s p = rows_of (filter (\<lambda>e. prefix p (fst e)) (c (db_handle s)))"
    using db_scan_contents [OF ok] by (simp add: db_read_store_def)
  show "\<exists>s'. ws_write (db_write_store R) s rows = Ok s' \<and> rocksdb_ok R c \<and>
             c (db_handle s') = put_rows (c (db_handle s)) rows"
    using db_write_contents [OF ok, of s rows] ok by (auto simp: db_write_store_def)
  show "\<exists>s'. ws_flush (db_write_store R) s = Ok s' \<and> rocksdb_ok R c \<and>
             c (db_handle s') = c (db_handle s)"
    using db_flush_contents [OF ok, of s] ok by (auto simp: db_write_store_def)
qed

declare scan_collect.simps [simp del]

lemma scan_collect_rows:
  "scan_collect \<lparr>si_prefix = p, si_iter = map Some es, si_done = False\<rparr> = scan_rows p es"
proof (induction es)
  case (Cons e es)
  then show ?case
    by (subst scan_collect.simps) (cases e, simp add: scan_next_def)
qed (subst scan_collect.simps, simp add: scan_next_def)

section \<open>A reference database\<close>

text \<open>An in-memory database that meets \<open>rocksdb_ok\<close>: a sorted list, kept sorted.\<close>

typedef memdb = "{m :: (bytes, bytes) btree. bt_sorted m}"
  morphisms mem_contents Abs_memdb
  by (rule exI [of _ "[]"]) simp

definition mem_empty :: memdb where
  "mem_empty = Abs_memdb []"

definition mem_put :: "memdb \<Rightarrow> (bytes \<times> bytes) list \<Rightarrow> memdb" where
  "mem_put d b = Abs_memdb (put_batch (mem_contents d) b)"

lemma bt_sorted_put_batch: "bt_sorted m \<Longrightarrow> bt_sorted (put_batch m b)"
  unfolding put_batch_def by (induction b arbitrary: m) (auto simp: bt_sorted_put)

lemma bt_sorted_mem_contents [simp]: "bt_sorted (mem_contents d)"
  using mem_contents [of d] by simp

lemma mem_contents_put [simp]: "mem_contents (mem_put d b) = put_batch (mem_contents d) b"
  unfolding mem_put_def by (rule Abs_memdb_inverse) (simp add: bt_sorted_put_batch)

lemma mem_contents_empty [simp]: "mem_contents mem_empty = []"
  unfolding mem_empty_def by (rule Abs_memdb_inverse) simp

definition mem_rocksdb :: "memdb rocksdb" where
  "mem_rocksdb = \<lparr>
     rdb_open = (\<lambda>_ _. Some mem_empty),
     rdb_get = (\<lambda>d k. Some (bt_get (mem_contents d) k)),
     rdb_iterator = (\<lambda>d p. map Some (bt_range_from p (mem_contents d))),
     rdb_prefix_iterator = (\<lambda>d p. map Some (bt_range_from p (mem_contents d))),
     rdb_write_opt = (\<lambda>d _ _ b. Some (mem_put d b)),
     rdb_flush = Some,
     rdb_compact_range = id,
     rdb_set_options = (\<lambda>d _. Some d)\<rparr>"

lemma mem_rocksdb_ok: "rocksdb_ok mem_rocksdb mem_contents"
  by (simp add: rocksdb_ok_def mem_rocksdb_def)

definition mem_store :: "memdb dbstore" where
  "mem_store = \<lparr>db_handle = mem_empty,
     db_opts = \<lparr>opt_path = ''db'', bulk_import = True, low_memory = False\<rparr>\<rparr>"

section \<open>Properties\<close>

text \<open>
  Reading back what was written. On a healthy database a write never fails, a later \<open>get\<close>
  returns the value of the last row written under the key (or what was there before), and a later
  \<open>scan\<close> returns, in key order, exactly the rows whose key starts with the prefix.
\<close>

lemma db_read_after_write:
  assumes "rocksdb_ok R c"
  shows "\<exists>s'. db_write R s rows = Ok s' \<and>
           db_get R s' k = Ok (case find (\<lambda>r. row_key r = k) (rev rows) of
                                 Some r \<Rightarrow> Some (row_value r) | None \<Rightarrow> bt_get (c (db_handle s)) k) \<and>
           sorted_wrt (<) (map row_key (db_scan R s' p)) \<and>
           (\<forall>r. r \<in> set (db_scan R s' p) \<longleftrightarrow>
                  prefix p (row_key r) \<and> db_get R s' (row_key r) = Ok (Some (row_value r)))"
proof -
  obtain s' where w: "db_write R s rows = Ok s'" "c (db_handle s') = put_rows (c (db_handle s)) rows"
    using db_write_contents [OF assms] by blast
  have sorted: "bt_sorted (c (db_handle s))" using assms by (simp add: rocksdb_ok_def)
  have get: "db_get R s' k = Ok (bt_get (c (db_handle s')) k)" for k
    using db.get_view [OF assms, of s' k] by (simp add: db_read_store_def)
  have scan: "db_scan R s' p = rs_scan (db_read_store R) s' p"
    by (simp add: db_read_store_def)
  show ?thesis
    using w get bt_get_put_rows [OF sorted, of rows k] db.scan_mem [OF assms]
      db.scan_key_order [OF assms] by (simp add: scan)
qed

text \<open>
  \<open>ScanIterator\<close>, driven by a \<open>for\<close> loop, yields the same rows as the eager \<open>scan\<close> of
  the store, and stops.
\<close>

lemma iter_scan_equals_scan:
  assumes "rocksdb_ok R c"
  shows "scan_collect (db_iter_scan R s p) = db_scan R s p"
  using assms
  by (simp add: db_iter_scan_def db_scan_def rocksdb_ok_def scan_collect_rows)

lemma db_open_bulk: "db_open R path lowmem = Ok s \<Longrightarrow> bulk_import (db_opts s)"
  by (auto simp: db_open_def db_open_opts_def res_simps)

lemma full_compaction_opts:
  assumes "full_compaction R s = Ok s'"
  shows "db_opts s' = db_opts s"
proof -
  have w: "db_write R a rows = Ok b \<Longrightarrow> db_opts b = db_opts a" for a b rows
    by (auto simp: db_write_def Let_def res_simps)
  have f: "db_flush R a = Ok b \<Longrightarrow> db_opts b = db_opts a" for a b
    by (auto simp: db_flush_def res_simps)
  have e: "db_enable_compaction R a = Ok b \<Longrightarrow> db_opts b = db_opts a" for a b
    by (auto simp: db_enable_compaction_def Let_def res_simps split: if_splits)
  from assms obtain a b where "db_write R s [full_compaction_marker] = Ok a" "db_flush R a = Ok b"
    "db_enable_compaction R (db_compact R b) = Ok s'"
    by (auto simp: full_compaction_def res_simps)
  with w f e show ?thesis by (metis db_compact_def dbstore.ext_inject dbstore.surjective dbstore.update_convs(1))
qed

text \<open>
  C38: A store opened by \<open>open\<close> never leaves bulk-import mode. \<open>full_compaction\<close> (through
  \<open>enable_compaction\<close>) keeps \<open>bulk_import\<close> set in the options it returns, so every later write is
  made without \<open>sync\<close> and with the write-ahead log disabled.
\<close>

theorem writes_stay_bulk:
  assumes "db_open R path lowmem = Ok s" and "full_compaction R s = Ok s'"
  shows "db_write R s' rows =
           bind_res (expect ''rocksdb write''
              (rdb_write_opt R (db_handle s') False True (map into_pair rows)))
             (\<lambda>d. Ok (s'\<lparr>db_handle := d\<rparr>))"
  using full_compaction_opts [OF assms(2)] db_open_bulk [OF assms(1)]
  by (simp add: db_write_def into_pair_def [abs_def])

theorem writes_stay_bulk_witness:
  "\<exists>s s'. db_open mem_rocksdb ''db'' False = Ok s \<and> full_compaction mem_rocksdb s = Ok s' \<and>
     db_write mem_rocksdb s' [] =
       bind_res (expect ''rocksdb write'' (rdb_write_opt mem_rocksdb (db_handle s') False True []))
         (\<lambda>d. Ok (s'\<lparr>db_handle := d\<rparr>))"
proof -
  obtain s where s: "db_open mem_rocksdb ''db'' False = Ok s"
    by (simp add: db_open_def db_open_opts_def mem_rocksdb_def)
  obtain s' where s': "full_compaction mem_rocksdb s = Ok s'"
    by (simp add: full_compaction_def db_write_def db_flush_def db_enable_compaction_def
        mem_rocksdb_def Let_def)
  from writes_stay_bulk [OF s s', of "[]"] s s' show ?thesis by auto
qed

lemma full_compaction_spec:
  assumes "rocksdb_ok R c"
  shows "\<exists>s'. full_compaction R s = Ok s' \<and> is_fully_compacted (db_read_store R) s' = Ok True \<and>
              (\<forall>k. bt_get (c (db_handle s')) k =
                     (if k = [70] then Some [] else bt_get (c (db_handle s)) k)) \<and>
              is_fully_compacted (db_read_store R) s = Ok (bt_get (c (db_handle s)) [70] \<noteq> None)"
proof -
  obtain a where a: "db_write R s [full_compaction_marker] = Ok a"
    "c (db_handle a) = put_rows (c (db_handle s)) [full_compaction_marker]"
    using db_write_contents [OF assms] by blast
  obtain b where b: "db_flush R a = Ok b" "c (db_handle b) = c (db_handle a)"
    using db_flush_contents [OF assms] by blast
  obtain s' where s': "db_enable_compaction R (db_compact R b) = Ok s'" "c (db_handle s') = c (db_handle b)"
  proof -
    obtain d where "rdb_set_options R (rdb_compact_range R (db_handle b))
        [(''disable_auto_compactions'', ''false'')] = Some d" "c d = c (db_handle b)"
      using assms unfolding rocksdb_ok_def by metis
    moreover have "c (rdb_compact_range R (db_handle b)) = c (db_handle b)"
      using assms by (simp add: rocksdb_ok_def)
    ultimately show ?thesis
      using that by (cases "bulk_import (db_opts b)")
        (simp_all add: db_enable_compaction_def db_compact_def Let_def)
  qed
  have "bt_sorted (c (db_handle s))" using assms by (simp add: rocksdb_ok_def)
  then have get: "bt_get (c (db_handle s')) k = (if k = [70] then Some [] else bt_get (c (db_handle s)) k)" for k
    using a b s' by (simp add: store_simps full_compaction_marker_def bt_get_put)
  have "full_compaction R s = Ok s'" using a b s' by (simp add: full_compaction_def)
  then show ?thesis
    using get db.get_view [OF assms] by (simp add: is_fully_compacted_def full_compaction_marker_def)
qed

text \<open>
  The compaction marker. After \<open>full_compaction\<close> the store reports itself compacted and its
  other contents are as they were; a store without a key \<open>F\<close> reports itself not compacted.
\<close>

lemma full_compaction_marks:
  assumes "rocksdb_ok R c"
  shows "\<exists>s'. full_compaction R s = Ok s' \<and> is_fully_compacted (db_read_store R) s' = Ok True \<and>
              (\<forall>k. bt_get (c (db_handle s')) k =
                     (if k = [70] then Some [] else bt_get (c (db_handle s)) k)) \<and>
              is_fully_compacted (db_read_store R) s = Ok (bt_get (c (db_handle s)) [70] \<noteq> None)"
  using assms by (rule full_compaction_spec)

end
