(* ===== verification/Index_Rows.thy ===== *)
theory Index_Rows
  imports Header_List Store
begin

text \<open>
  The row formats of \<open>index.rs\<close> and the indexing of transactions and blocks. A key is laid out
  as the code writes them: the code byte, then the fields in declaration order, byte arrays
  verbatim; the two bytes of a \<open>u16\<close> are bincode's (\<open>ser_u16\<close>). Decoding reads the fields back and
  fails on a key that is too short. The locale \<open>row_codec\<close> states what a query relies on of a row
  type (decoding inverts encoding, and a filter selects exactly the rows with its key); it is
  interpreted for the three row types.
\<close>

section \<open>Row types\<close>

record txin_key =
  tik_code :: byte
  tik_prev_txid_prefix :: bytes
  tik_prev_vout :: u16

record txin_row =
  tir_key :: txin_key
  tir_txid_prefix :: bytes

record txout_key =
  tok_code :: byte
  tok_script_hash_prefix :: bytes

record txout_row =
  tor_key :: txout_key
  tor_txid_prefix :: bytes
  tor_vout :: u16

record tx_key =
  txk_code :: byte
  txk_txid :: bytes

record tx_row =
  txr_key :: tx_key
  txr_block_hash :: bytes

record block_key =
  bk_code :: byte
  bk_hash :: bytes

section \<open>Encodings\<close>

definition ser_txin_key :: "deps \<Rightarrow> txin_key \<Rightarrow> bytes" where
  "ser_txin_key D k = [tik_code k] @ tik_prev_txid_prefix k @ ser_u16 D (tik_prev_vout k)"

definition ser_txin_row :: "deps \<Rightarrow> txin_row \<Rightarrow> bytes" where
  "ser_txin_row D r = ser_txin_key D (tir_key r) @ tir_txid_prefix r"

definition de_txin_row :: "deps \<Rightarrow> bytes \<Rightarrow> txin_row option" where
  "de_txin_row D bs =
     (if length bs < 19 then None
      else Some \<lparr>tir_key = \<lparr>tik_code = hd bs, tik_prev_txid_prefix = take 8 (drop 1 bs),
                   tik_prev_vout = de_u16 D (take 2 (drop 9 bs))\<rparr>,
                 tir_txid_prefix = take 8 (drop 11 bs)\<rparr>)"

definition ser_txout_key :: "txout_key \<Rightarrow> bytes" where
  "ser_txout_key k = [tok_code k] @ tok_script_hash_prefix k"

definition ser_txout_row :: "deps \<Rightarrow> txout_row \<Rightarrow> bytes" where
  "ser_txout_row D r = ser_txout_key (tor_key r) @ tor_txid_prefix r @ ser_u16 D (tor_vout r)"

definition de_txout_row :: "deps \<Rightarrow> bytes \<Rightarrow> txout_row option" where
  "de_txout_row D bs =
     (if length bs < 19 then None
      else Some \<lparr>tor_key = \<lparr>tok_code = hd bs, tok_script_hash_prefix = take 8 (drop 1 bs)\<rparr>,
                 tor_txid_prefix = take 8 (drop 9 bs),
                 tor_vout = de_u16 D (take 2 (drop 17 bs))\<rparr>)"

definition ser_tx_key :: "tx_key \<Rightarrow> bytes" where
  "ser_tx_key k = [txk_code k] @ txk_txid k"

definition de_tx_key :: "bytes \<Rightarrow> tx_key option" where
  "de_tx_key bs =
     (if length bs < 33 then None else Some \<lparr>txk_code = hd bs, txk_txid = take 32 (drop 1 bs)\<rparr>)"

definition de_full_hash :: "bytes \<Rightarrow> bytes option" where
  "de_full_hash bs = (if length bs < 32 then None else Some (take 32 bs))"

definition ser_block_key :: "block_key \<Rightarrow> bytes" where
  "ser_block_key k = [bk_code k] @ bk_hash k"

definition de_block_key :: "bytes \<Rightarrow> block_key option" where
  "de_block_key bs =
     (if length bs < 33 then None else Some \<lparr>bk_code = hd bs, bk_hash = take 32 (drop 1 bs)\<rparr>)"

section \<open>Operations\<close>

definition TxInRow_new :: "hash \<Rightarrow> txin \<Rightarrow> txin_row res" where
  "TxInRow_new txid input =
     bind_res (hash_prefix (hash_bytes (op_txid (previous_output input)))) (\<lambda>prev.
     bind_res (hash_prefix (hash_bytes txid)) (\<lambda>txid_prefix.
     Ok \<lparr>tir_key = \<lparr>tik_code = 73, tik_prev_txid_prefix = prev,
           tik_prev_vout = ucast (op_vout (previous_output input))\<rparr>,
         tir_txid_prefix = txid_prefix\<rparr>))"

definition TxInRow_filter :: "deps \<Rightarrow> hash \<Rightarrow> nat \<Rightarrow> bytes res" where
  "TxInRow_filter D txid vout =
     bind_res (hash_prefix (hash_bytes txid)) (\<lambda>p.
     Ok (ser_txin_key D \<lparr>tik_code = 73, tik_prev_txid_prefix = p, tik_prev_vout = of_nat vout\<rparr>))"

definition TxInRow_to_row :: "deps \<Rightarrow> txin_row \<Rightarrow> row" where
  "TxInRow_to_row D r = \<lparr>row_key = ser_txin_row D r, row_value = []\<rparr>"

definition TxInRow_from_row :: "deps \<Rightarrow> row \<Rightarrow> txin_row res" where
  "TxInRow_from_row D row = expect ''failed to parse TxInRow'' (de_txin_row D (row_key row))"

definition compute_script_hash :: "deps \<Rightarrow> bytes \<Rightarrow> bytes" where
  "compute_script_hash D data = sha256 D data"

definition TxOutRow_new :: "deps \<Rightarrow> hash \<Rightarrow> u32 \<Rightarrow> txout \<Rightarrow> txout_row res" where
  "TxOutRow_new D txid vout output =
     bind_res (hash_prefix (compute_script_hash D (script_pubkey output))) (\<lambda>sp.
     bind_res (hash_prefix (hash_bytes txid)) (\<lambda>txid_prefix.
     Ok \<lparr>tor_key = \<lparr>tok_code = 79, tok_script_hash_prefix = sp\<rparr>,
         tor_txid_prefix = txid_prefix, tor_vout = ucast vout\<rparr>))"

definition TxOutRow_filter :: "bytes \<Rightarrow> bytes res" where
  "TxOutRow_filter script_hash =
     bind_res (if HASH_PREFIX_LEN \<le> length script_hash then Ok (take HASH_PREFIX_LEN script_hash)
               else Panic ''range end index out of range'') (\<lambda>slice.
     bind_res (hash_prefix slice) (\<lambda>sp.
     Ok (ser_txout_key \<lparr>tok_code = 79, tok_script_hash_prefix = sp\<rparr>)))"

definition TxOutRow_to_row :: "deps \<Rightarrow> txout_row \<Rightarrow> row" where
  "TxOutRow_to_row D r = \<lparr>row_key = ser_txout_row D r, row_value = []\<rparr>"

definition TxOutRow_from_row :: "deps \<Rightarrow> row \<Rightarrow> txout_row res" where
  "TxOutRow_from_row D row = expect ''failed to parse TxOutRow'' (de_txout_row D (row_key row))"

definition TxRow_new :: "hash \<Rightarrow> hash \<Rightarrow> tx_row res" where
  "TxRow_new txid blockhash =
     bind_res (full_hash (hash_bytes txid)) (\<lambda>t.
     bind_res (full_hash (hash_bytes blockhash)) (\<lambda>b.
     Ok \<lparr>txr_key = \<lparr>txk_code = 84, txk_txid = t\<rparr>, txr_block_hash = b\<rparr>))"

definition TxRow_filter_prefix :: "bytes \<Rightarrow> bytes" where
  "TxRow_filter_prefix txid_prefix = [84] @ txid_prefix"

definition TxRow_filter_full :: "hash \<Rightarrow> bytes" where
  "TxRow_filter_full txid = [84] @ hash_bytes txid"

definition TxRow_to_row :: "tx_row \<Rightarrow> row" where
  "TxRow_to_row r = \<lparr>row_key = ser_tx_key (txr_key r), row_value = txr_block_hash r\<rparr>"

definition TxRow_from_row :: "row \<Rightarrow> tx_row res" where
  "TxRow_from_row row =
     bind_res (expect ''failed to parse TxRow'' (de_tx_key (row_key row))) (\<lambda>key.
     bind_res (expect ''failed to parse TxRow'' (de_full_hash (row_value row))) (\<lambda>b.
     Ok \<lparr>txr_key = key, txr_block_hash = b\<rparr>))"

text \<open>Index a transaction: its spent outputs (coinbase inputs have none), its outputs, itself.\<close>

definition index_transaction :: "deps \<Rightarrow> transaction \<Rightarrow> hash \<Rightarrow> row list res" where
  "index_transaction D txn blockhash =
     (let txid = tx_txid D txn
      in bind_res
           (mapM_res (\<lambda>input. map_res (TxInRow_to_row D) (TxInRow_new txid input))
             (filter (\<lambda>input. op_txid (previous_output input) \<noteq> null_hash) (tx_input txn)))
           (\<lambda>inputs. bind_res
              (mapM_res (\<lambda>(vout, output). map_res (TxOutRow_to_row D)
                           (TxOutRow_new D txid (of_nat vout) output))
                (enumerate 0 (tx_output txn)))
              (\<lambda>outputs. bind_res (map_res TxRow_to_row (TxRow_new txid blockhash))
                 (\<lambda>tx. Ok (inputs @ outputs @ [tx])))))"

definition index_block :: "deps \<Rightarrow> block \<Rightarrow> row list res" where
  "index_block D block =
     (let blockhash = bitcoin_hash D (blk_header block)
      in bind_res (full_hash (hash_bytes blockhash)) (\<lambda>h.
         (let row = \<lparr>row_key = ser_block_key \<lparr>bk_code = 66, bk_hash = h\<rparr>,
                     row_value = ser_header D (blk_header block)\<rparr>
          in bind_res (mapM_res (\<lambda>txn. index_transaction D txn blockhash) (txdata block))
               (\<lambda>rows. Ok (concat rows @ [row])))))"

definition last_indexed_block :: "deps \<Rightarrow> hash \<Rightarrow> row" where
  "last_indexed_block D blockhash = \<lparr>row_key = [76], row_value = ser_hash D blockhash\<rparr>"

section \<open>Codecs\<close>

text \<open>
  What a query relies on of a row type: its rows decode to what was encoded, and the filter of a
  row is a prefix of exactly the keys of the rows with the same filter.
\<close>

locale row_codec =
  fixes to_row :: "'r \<Rightarrow> row"
    and from_row :: "row \<Rightarrow> 'r res"
    and row_filter :: "'r \<Rightarrow> bytes"
    and wf :: "'r \<Rightarrow> bool"
  assumes decode_encode: "wf r \<Longrightarrow> from_row (to_row r) = Ok r"
    and filter_exact: "wf r \<Longrightarrow> wf r' \<Longrightarrow>
          prefix (row_filter r) (row_key (to_row r')) \<longleftrightarrow> row_filter r' = row_filter r"
begin

lemma encode_inject: "wf r \<Longrightarrow> wf r' \<Longrightarrow> to_row r = to_row r' \<longleftrightarrow> r = r'"
  using decode_encode by (metis res.inject(1))

lemma decode_rows: "list_all wf rs \<Longrightarrow> mapM_res from_row (map to_row rs) = Ok rs"
  by (induction rs) (simp_all add: decode_encode)

text \<open>A list of rows that holds the encodings of \<open>R\<close> decodes to a list of the elements of \<open>R\<close>.\<close>

lemma decode_scan:
  assumes "set rows = to_row ` R" and "\<And>r. r \<in> R \<Longrightarrow> wf r"
  shows "\<exists>rs. mapM_res from_row rows = Ok rs \<and> rows = map to_row rs \<and> list_all wf rs \<and> set rs = R"
proof -
  have "set rows \<subseteq> to_row ` R" using assms(1) by simp
  then have "\<exists>rs. rows = map to_row rs \<and> set rs \<subseteq> R"
  proof (induction rows)
    case (Cons row rows)
    then obtain r rs where "row = to_row r" "r \<in> R" "rows = map to_row rs" "set rs \<subseteq> R"
      by auto
    then show ?case by (intro exI [of _ "r # rs"]) simp
  qed simp
  then obtain rs where rs: "rows = map to_row rs" "set rs \<subseteq> R" by blast
  have wf: "list_all wf rs" using rs(2) assms(2) by (auto simp: list_all_iff)
  have "r \<in> set rs" if r: "r \<in> R" for r
  proof -
    have "to_row r \<in> to_row ` set rs" using r assms(1) rs(1) by auto
    then obtain r' where "r' \<in> set rs" "to_row r = to_row r'" by blast
    with encode_inject [of r r'] assms(2) r rs(2) show ?thesis by auto
  qed
  with rs wf decode_rows [OF wf] show ?thesis by blast
qed

text \<open>Selecting encoded rows by a filter and decoding them is filtering the rows themselves.\<close>

lemma select_rows:
  assumes "wf r" and "list_all wf rs"
  shows "mapM_res from_row
           (filter (\<lambda>row. prefix (row_filter r) (row_key row)) (map to_row rs)) =
         Ok (filter (\<lambda>r'. row_filter r' = row_filter r) rs)"
proof -
  have "filter (\<lambda>row. prefix (row_filter r) (row_key row)) (map to_row rs) =
        map to_row (filter (\<lambda>r'. row_filter r' = row_filter r) rs)"
    using assms by (induction rs) (auto simp: filter_exact)
  moreover have "list_all wf (filter (\<lambda>r'. row_filter r' = row_filter r) rs)"
    using assms(2) by (auto simp: list_all_iff)
  ultimately show ?thesis by (simp add: decode_rows)
qed

end

definition wf_txin_row :: "deps \<Rightarrow> txin_row \<Rightarrow> bool" where
  "wf_txin_row D r \<longleftrightarrow> codec_ok D \<and> length (tik_prev_txid_prefix (tir_key r)) = 8 \<and>
     length (tir_txid_prefix r) = 8"

definition wf_txout_row :: "deps \<Rightarrow> txout_row \<Rightarrow> bool" where
  "wf_txout_row D r \<longleftrightarrow> codec_ok D \<and> length (tok_script_hash_prefix (tor_key r)) = 8 \<and>
     length (tor_txid_prefix r) = 8"

definition wf_tx_row :: "tx_row \<Rightarrow> bool" where
  "wf_tx_row r \<longleftrightarrow> txk_code (txr_key r) = 84 \<and> length (txk_txid (txr_key r)) = 32 \<and>
     length (txr_block_hash r) = 32"

interpretation txin: row_codec "TxInRow_to_row D" "TxInRow_from_row D"
  "\<lambda>r. ser_txin_key D (tir_key r)" "wf_txin_row D" for D
proof unfold_locales
  fix r assume "wf_txin_row D r"
  then show "TxInRow_from_row D (TxInRow_to_row D r) = Ok r"
    by (simp add: TxInRow_from_row_def TxInRow_to_row_def de_txin_row_def ser_txin_row_def
        ser_txin_key_def wf_txin_row_def codec_simps)
next
  fix r r' assume "wf_txin_row D r" and "wf_txin_row D r'"
  then have "length (ser_txin_key D (tir_key r)) = length (ser_txin_key D (tir_key r'))"
    by (simp add: ser_txin_key_def wf_txin_row_def codec_simps)
  from prefix_append_same_length [OF this, of "[]" "tir_txid_prefix r'"]
  show "prefix (ser_txin_key D (tir_key r)) (row_key (TxInRow_to_row D r')) \<longleftrightarrow>
        ser_txin_key D (tir_key r') = ser_txin_key D (tir_key r)"
    by (auto simp: TxInRow_to_row_def ser_txin_row_def)
qed

interpretation txo: row_codec "TxOutRow_to_row D" "TxOutRow_from_row D"
  "\<lambda>r. ser_txout_key (tor_key r)" "wf_txout_row D" for D
proof unfold_locales
  fix r assume "wf_txout_row D r"
  then show "TxOutRow_from_row D (TxOutRow_to_row D r) = Ok r"
    by (simp add: TxOutRow_from_row_def TxOutRow_to_row_def de_txout_row_def ser_txout_row_def
        ser_txout_key_def wf_txout_row_def codec_simps)
next
  fix r r' assume "wf_txout_row D r" and "wf_txout_row D r'"
  then have "length (ser_txout_key (tor_key r)) = length (ser_txout_key (tor_key r'))"
    by (simp add: ser_txout_key_def wf_txout_row_def)
  from prefix_append_same_length [OF this, of "[]" "tor_txid_prefix r' @ ser_u16 D (tor_vout r')"]
  show "prefix (ser_txout_key (tor_key r)) (row_key (TxOutRow_to_row D r')) \<longleftrightarrow>
        ser_txout_key (tor_key r') = ser_txout_key (tor_key r)"
    by (auto simp: TxOutRow_to_row_def ser_txout_row_def)
qed

interpretation tx: row_codec TxRow_to_row TxRow_from_row
  "\<lambda>r. TxRow_filter_prefix (take HASH_PREFIX_LEN (txk_txid (txr_key r)))" wf_tx_row
proof unfold_locales
  fix r assume "wf_tx_row r"
  then show "TxRow_from_row (TxRow_to_row r) = Ok r"
    by (simp add: TxRow_from_row_def TxRow_to_row_def de_tx_key_def ser_tx_key_def
        de_full_hash_def wf_tx_row_def)
next
  fix r r' assume wf: "wf_tx_row r" "wf_tx_row r'"
  let ?p = "take HASH_PREFIX_LEN (txk_txid (txr_key r))"
  let ?t = "txk_txid (txr_key r')"
  have "prefix ?p ?t \<longleftrightarrow> take HASH_PREFIX_LEN ?t = ?p"
    using wf by (simp add: prefix_iff_take wf_tx_row_def HASH_PREFIX_LEN_def)
  then show "prefix (TxRow_filter_prefix ?p) (row_key (TxRow_to_row r')) \<longleftrightarrow>
        TxRow_filter_prefix (take HASH_PREFIX_LEN ?t) = TxRow_filter_prefix ?p"
    using wf by (auto simp: TxRow_filter_prefix_def TxRow_to_row_def ser_tx_key_def wf_tx_row_def)
qed

section \<open>The rows of a block\<close>

definition txin_row_of :: "hash \<Rightarrow> txin \<Rightarrow> txin_row" where
  "txin_row_of txid input =
     \<lparr>tir_key = \<lparr>tik_code = 73, tik_prev_txid_prefix = hprefix (op_txid (previous_output input)),
        tik_prev_vout = ucast (op_vout (previous_output input))\<rparr>,
      tir_txid_prefix = hprefix txid\<rparr>"

definition txout_row_of :: "deps \<Rightarrow> hash \<Rightarrow> nat \<Rightarrow> txout \<Rightarrow> txout_row" where
  "txout_row_of D txid vout output =
     \<lparr>tor_key = \<lparr>tok_code = 79,
        tok_script_hash_prefix = take HASH_PREFIX_LEN (sha256 D (script_pubkey output))\<rparr>,
      tor_txid_prefix = hprefix txid, tor_vout = of_nat vout\<rparr>"

definition tx_row_of :: "hash \<Rightarrow> hash \<Rightarrow> tx_row" where
  "tx_row_of txid blockhash =
     \<lparr>txr_key = \<lparr>txk_code = 84, txk_txid = hash_bytes txid\<rparr>, txr_block_hash = hash_bytes blockhash\<rparr>"

definition spends :: "transaction \<Rightarrow> txin list" where
  "spends t = filter (\<lambda>i. op_txid (previous_output i) \<noteq> null_hash) (tx_input t)"

definition tx_rows :: "deps \<Rightarrow> transaction \<Rightarrow> hash \<Rightarrow> row list" where
  "tx_rows D t blockhash =
     map (\<lambda>i. TxInRow_to_row D (txin_row_of (tx_txid D t) i)) (spends t) @
     map (\<lambda>(n, out). TxOutRow_to_row D (txout_row_of D (tx_txid D t) n out))
       (enumerate 0 (tx_output t)) @
     [TxRow_to_row (tx_row_of (tx_txid D t) blockhash)]"

definition block_row :: "deps \<Rightarrow> block_header \<Rightarrow> row" where
  "block_row D h = \<lparr>row_key = 66 # hash_bytes (bitcoin_hash D h), row_value = ser_header D h\<rparr>"

definition block_rows :: "deps \<Rightarrow> block \<Rightarrow> row list" where
  "block_rows D b =
     concat (map (\<lambda>t. tx_rows D t (bitcoin_hash D (blk_header b))) (txdata b)) @
     [block_row D (blk_header b)]"

lemma TxInRow_new_eq [simp]: "TxInRow_new txid i = Ok (txin_row_of txid i)"
  by (simp add: TxInRow_new_def txin_row_of_def)

lemma TxOutRow_new_eq:
  assumes "codec_ok D"
  shows "TxOutRow_new D txid (of_nat n) out = Ok (txout_row_of D txid n out)"
proof -
  have "ucast (of_nat n :: u32) = (of_nat n :: u16)"
    by (simp add: unsigned_of_nat word_of_nat_eq_iff)
  then show ?thesis
    using codec_okD(1) [OF assms]
    by (simp add: TxOutRow_new_def txout_row_of_def compute_script_hash_def hash_prefix_def
        HASH_PREFIX_LEN_def)
qed

lemma TxRow_new_eq [simp]: "TxRow_new txid b = Ok (tx_row_of txid b)"
  by (simp add: TxRow_new_def tx_row_of_def)

lemma index_transaction_eq:
  assumes "codec_ok D"
  shows "index_transaction D t b = Ok (tx_rows D t b)"
proof -
  have outs: "mapM_res (\<lambda>(vout, output). map_res (TxOutRow_to_row D)
                (TxOutRow_new D txid (of_nat vout) output)) xs =
        Ok (map (\<lambda>(n, out). TxOutRow_to_row D (txout_row_of D txid n out)) xs)" for txid xs
    using TxOutRow_new_eq [OF assms] by (intro mapM_res_Ok) auto
  have ins: "mapM_res (\<lambda>i. map_res (TxInRow_to_row D) (TxInRow_new txid i)) xs =
        Ok (map (\<lambda>i. TxInRow_to_row D (txin_row_of txid i)) xs)" for txid xs
    by (intro mapM_res_Ok) simp
  show ?thesis
    unfolding index_transaction_def Let_def ins outs tx_rows_def spends_def by simp
qed

lemma index_block_eq:
  assumes "codec_ok D"
  shows "index_block D b = Ok (block_rows D b)"
proof -
  have "mapM_res (\<lambda>t. index_transaction D t h) ts = Ok (map (\<lambda>t. tx_rows D t h) ts)" for h ts
    by (intro mapM_res_Ok) (simp add: index_transaction_eq [OF assms])
  then show ?thesis
    by (simp add: index_block_def block_rows_def block_row_def ser_block_key_def Let_def)
qed

text \<open>The first byte of a key tells its kind: \<open>I\<close>, \<open>O\<close>, \<open>T\<close> for a transaction, \<open>B\<close> for a block.\<close>

lemma tx_rows_code:
  "r \<in> set (tx_rows D t b) \<Longrightarrow> \<exists>c k. row_key r = c # k \<and> c \<in> {73, 79, 84}"
  by (auto simp: tx_rows_def TxInRow_to_row_def ser_txin_row_def ser_txin_key_def txin_row_of_def
      TxOutRow_to_row_def ser_txout_row_def ser_txout_key_def txout_row_of_def
      TxRow_to_row_def ser_tx_key_def tx_row_of_def)

lemma row_key_block_row [simp]: "row_key (block_row D h) = 66 # hash_bytes (bitcoin_hash D h)"
  by (simp add: block_row_def)

lemma row_value_block_row [simp]: "row_value (block_row D h) = ser_header D h"
  by (simp add: block_row_def)

section \<open>Properties\<close>

lemma wf_txin_row_of: "codec_ok D \<Longrightarrow> wf_txin_row D (txin_row_of txid i)"
  by (simp add: wf_txin_row_def txin_row_of_def HASH_PREFIX_LEN_def)

lemma wf_txout_row_of: "codec_ok D \<Longrightarrow> wf_txout_row D (txout_row_of D txid n out)"
  by (simp add: wf_txout_row_def txout_row_of_def HASH_PREFIX_LEN_def codec_okD)

lemma wf_tx_row_of: "wf_tx_row (tx_row_of txid b)"
  by (simp add: wf_tx_row_def tx_row_of_def)

text \<open>
  C36: Every row that the indexer builds decodes to itself: encoding a \<open>TxInRow\<close>, a \<open>TxOutRow\<close>
  or a \<open>TxRow\<close> made by \<open>new\<close> and parsing it back never panics and loses nothing.
\<close>

theorem rows_round_trip:
  assumes "codec_ok D"
  shows "bind_res (TxInRow_new txid i) (\<lambda>r. TxInRow_from_row D (TxInRow_to_row D r)) = TxInRow_new txid i \<and>
         bind_res (TxOutRow_new D txid (of_nat n) out) (\<lambda>r. TxOutRow_from_row D (TxOutRow_to_row D r)) =
           TxOutRow_new D txid (of_nat n) out \<and> is_ok (TxOutRow_new D txid (of_nat n) out) \<and>
         bind_res (TxRow_new txid b) (\<lambda>r. TxRow_from_row (TxRow_to_row r)) = TxRow_new txid b"
  by (simp add: TxOutRow_new_eq [OF assms] txin.decode_encode [OF wf_txin_row_of [OF assms]]
      txo.decode_encode [OF wf_txout_row_of [OF assms]] tx.decode_encode [OF wf_tx_row_of])

theorem rows_round_trip_witness:
  "bind_res (TxOutRow_new ref_deps null_hash (of_nat 3) \<lparr>script_pubkey = [81]\<rparr>)
     (\<lambda>r. TxOutRow_from_row ref_deps (TxOutRow_to_row ref_deps r)) =
   TxOutRow_new ref_deps null_hash (of_nat 3) \<lparr>script_pubkey = [81]\<rparr>"
  using rows_round_trip [OF codec_ok_ref_deps] by blast

lemma ser_txin_key_eq:
  assumes "codec_ok D" and "length p = length q"
  shows "ser_txin_key D \<lparr>tik_code = 73, tik_prev_txid_prefix = p, tik_prev_vout = v\<rparr> =
         ser_txin_key D \<lparr>tik_code = 73, tik_prev_txid_prefix = q, tik_prev_vout = w\<rparr> \<longleftrightarrow> p = q \<and> v = w"
  using assms by (simp add: ser_txin_key_def ser_u16_inject)

lemma TxInRow_filter_eq:
  "TxInRow_filter D txid vout = Ok (ser_txin_key D
     \<lparr>tik_code = 73, tik_prev_txid_prefix = hprefix txid, tik_prev_vout = of_nat vout\<rparr>)"
  by (simp add: TxInRow_filter_def)

lemma TxInRow_filter_selects:
  assumes "codec_ok D" and "TxInRow_filter D prev vout = Ok f"
  shows "prefix f (row_key (TxInRow_to_row D (txin_row_of txid i))) \<longleftrightarrow>
           hprefix (op_txid (previous_output i)) = hprefix prev \<and>
           (ucast (op_vout (previous_output i)) :: u16) = of_nat vout"
proof -
  let ?r = "\<lparr>tir_key = \<lparr>tik_code = 73, tik_prev_txid_prefix = hprefix prev, tik_prev_vout = of_nat vout\<rparr>,
     tir_txid_prefix = hprefix txid\<rparr>"
  have wf: "wf_txin_row D ?r" using assms(1) by (simp add: wf_txin_row_def HASH_PREFIX_LEN_def)
  have f: "f = ser_txin_key D (tir_key ?r)" using assms(2) by (simp add: TxInRow_filter_eq)
  show ?thesis
    unfolding f txin.filter_exact [OF wf wf_txin_row_of [OF assms(1)]]
    using ser_txin_key_eq [OF assms(1)] by (simp add: txin_row_of_def HASH_PREFIX_LEN_def)
qed

lemma TxOutRow_filter_eq:
  assumes "length sh = 32"
  shows "TxOutRow_filter sh =
           Ok (ser_txout_key \<lparr>tok_code = 79, tok_script_hash_prefix = take HASH_PREFIX_LEN sh\<rparr>)"
  using assms by (simp add: TxOutRow_filter_def hash_prefix_def HASH_PREFIX_LEN_def)

lemma TxOutRow_filter_selects:
  assumes "codec_ok D" and "length sh = 32" and "TxOutRow_filter sh = Ok f"
  shows "prefix f (row_key (TxOutRow_to_row D (txout_row_of D txid n out))) \<longleftrightarrow>
           take HASH_PREFIX_LEN (compute_script_hash D (script_pubkey out)) = take HASH_PREFIX_LEN sh"
proof -
  let ?r = "\<lparr>tor_key = \<lparr>tok_code = 79, tok_script_hash_prefix = take HASH_PREFIX_LEN sh\<rparr>,
     tor_txid_prefix = hprefix txid, tor_vout = of_nat n\<rparr>"
  have wf: "wf_txout_row D ?r"
    using assms(1,2) by (simp add: wf_txout_row_def HASH_PREFIX_LEN_def)
  have f: "f = ser_txout_key (tor_key ?r)" using assms(3) by (simp add: TxOutRow_filter_eq [OF assms(2)])
  show ?thesis
    unfolding f txo.filter_exact [OF wf wf_txout_row_of [OF assms(1)]]
    by (simp add: txout_row_of_def ser_txout_key_def compute_script_hash_def)
qed

lemma TxRow_filter_selects:
  "prefix (TxRow_filter_prefix (hprefix t)) (row_key (TxRow_to_row (tx_row_of txid b))) \<longleftrightarrow>
     hprefix txid = hprefix t"
  using tx.filter_exact [OF wf_tx_row_of wf_tx_row_of, of t null_hash txid b]
  by (simp add: tx_row_of_def TxRow_filter_prefix_def)

text \<open>
  What the scan filters select. The filter of a spent output matches the rows of exactly the
  inputs whose previous transaction has the same 8-byte prefix and whose output number agrees
  modulo 65536 (the index keeps 16 bits of it); the filter of a script hash matches exactly the
  outputs whose script hash has the same 8-byte prefix; the filter of a transaction prefix
  matches exactly the transactions with that prefix.
\<close>

lemma filters_select:
  assumes "codec_ok D" and "length sh = 32"
    and "TxInRow_filter D prev vout = Ok fi" and "TxOutRow_filter sh = Ok fo"
  shows "(prefix fi (row_key (TxInRow_to_row D (txin_row_of txid i))) \<longleftrightarrow>
            hprefix (op_txid (previous_output i)) = hprefix prev \<and>
            unat (op_vout (previous_output i)) mod 65536 = vout mod 65536) \<and>
         (prefix fo (row_key (TxOutRow_to_row D (txout_row_of D txid n out))) \<longleftrightarrow>
            take HASH_PREFIX_LEN (compute_script_hash D (script_pubkey out)) = take HASH_PREFIX_LEN sh) \<and>
         (prefix (TxRow_filter_prefix (hprefix t)) (row_key (TxRow_to_row (tx_row_of txid b))) \<longleftrightarrow>
            hprefix txid = hprefix t)"
proof -
  have "(ucast w :: u16) = of_nat vout \<longleftrightarrow> unat w mod 65536 = vout mod 65536" for w :: u32
  proof -
    have "(ucast w :: u16) = of_nat (unat w)" by simp
    then show ?thesis using word_of_nat_eq_iff [of "unat w" vout, where ?'a = 16]
      by (simp add: take_bit_eq_mod)
  qed
  with TxInRow_filter_selects [OF assms(1,3)] TxOutRow_filter_selects [OF assms(1,2,4)]
    TxRow_filter_selects show ?thesis by simp
qed

text \<open>
  \<open>index_block\<close> never fails, and the rows of a block are exactly one row per spent output of
  each transaction (coinbase inputs have none), one per output, one per transaction naming the
  block, and last the header row.
\<close>

lemma index_block_rows:
  assumes "codec_ok D"
  shows "\<exists>rows. index_block D b = Ok (rows @ [block_row D (blk_header b)]) \<and>
     length rows = (\<Sum>t\<leftarrow>txdata b. length (spends t) + length (tx_output t) + 1) \<and>
     set rows = (\<Union>t \<in> set (txdata b).
       {TxInRow_to_row D (txin_row_of (tx_txid D t) i) | i. i \<in> set (spends t)} \<union>
       {TxOutRow_to_row D (txout_row_of D (tx_txid D t) n (tx_output t ! n)) | n. n < length (tx_output t)} \<union>
       {TxRow_to_row (tx_row_of (tx_txid D t) (bitcoin_hash D (blk_header b)))})"
proof -
  let ?rows = "concat (map (\<lambda>t. tx_rows D t (bitcoin_hash D (blk_header b))) (txdata b))"
  have outs: "(\<lambda>(n, out). f n out) ` set (enumerate 0 xs) = {f n (xs ! n) | n. n < length xs}"
    for f :: "nat \<Rightarrow> txout \<Rightarrow> row" and xs
    by (force simp: in_set_enumerate_eq image_iff)
  have "set (tx_rows D t h) =
       {TxInRow_to_row D (txin_row_of (tx_txid D t) i) | i. i \<in> set (spends t)} \<union>
       {TxOutRow_to_row D (txout_row_of D (tx_txid D t) n (tx_output t ! n)) | n. n < length (tx_output t)} \<union>
       {TxRow_to_row (tx_row_of (tx_txid D t) h)}" for t h
    unfolding tx_rows_def set_append set_map outs by auto
  moreover have "length ?rows = (\<Sum>t\<leftarrow>txdata b. length (spends t) + length (tx_output t) + 1)"
    by (simp add: length_concat tx_rows_def comp_def add.assoc)
  ultimately show ?thesis
    by (intro exI [of _ ?rows]) (simp add: index_block_eq [OF assms] block_rows_def)
qed

end
