(* ===== verification/Index.thy ===== *)
theory Index
  imports Index_Rows
begin

text \<open>
  The persistent and in-memory index of \<open>index.rs\<close>: reading the indexed headers back from a store,
  and \<open>Index::update\<close>, which fetches the new blocks of the daemon in batches and writes their rows.
  The daemon is used through the record \<open>daemon_api\<close> of its methods (modelled in \<open>Daemon\<close>); the
  locale \<open>chain_daemon\<close> states what \<open>update\<close> relies on of it. The fetcher thread of \<open>update\<close> and the
  loop that consumes its channel are run in turn: the channel delivers the batches in order, so
  the loop sees the results of \<open>getblocks\<close> on the successive chunks.
\<close>

section \<open>Reading the index back\<close>

type_synonym header_map = "(hash \<times> block_header) list"

definition hm_insert :: "hash \<Rightarrow> block_header \<Rightarrow> header_map \<Rightarrow> header_map" where
  "hm_insert k v m = (k, v) # filter (\<lambda>e. fst e \<noteq> k) m"

definition hm_remove :: "hash \<Rightarrow> header_map \<Rightarrow> header_map" where
  "hm_remove k m = filter (\<lambda>e. fst e \<noteq> k) m"

definition read_blockhash :: "deps \<Rightarrow> row \<Rightarrow> hash res" where
  "read_blockhash D row =
     bind_res (expect ''called `Result::unwrap()` on an `Err` value'' (de_block_key (row_key row))) (\<lambda>key.
     expect ''called `Result::unwrap()` on an `Err` value'' (de_hash D (bk_hash key)))"

definition read_indexed_blockhashes :: "deps \<Rightarrow> 's read_store \<Rightarrow> 's \<Rightarrow> hash set res" where
  "read_indexed_blockhashes D RS store =
     foldM_res (\<lambda>result row. bind_res (read_blockhash D row) (\<lambda>h. Ok (insert h result))) {}
       (rs_scan RS store [66])"

definition insert_header :: "deps \<Rightarrow> header_map \<Rightarrow> row \<Rightarrow> header_map res" where
  "insert_header D hmap row =
     bind_res (expect ''called `Result::unwrap()` on an `Err` value'' (de_block_key (row_key row))) (\<lambda>key.
     bind_res (expect ''called `Result::unwrap()` on an `Err` value'' (de_header D (row_value row))) (\<lambda>header.
     bind_res (expect ''called `Result::unwrap()` on an `Err` value'' (de_hash D (bk_hash key))) (\<lambda>h.
     Ok (hm_insert h header hmap))))"

text \<open>The \<open>while\<close> loop from the tip to the genesis block; each turn removes an entry of the map.\<close>

function walk_back :: "header_map \<Rightarrow> hash \<Rightarrow> block_header list res" where
  "walk_back hmap blockhash =
     (if blockhash = null_hash then Ok []
      else case map_of hmap blockhash of
          None \<Rightarrow> Panic ''missing header in DB''
        | Some header \<Rightarrow>
            bind_res (walk_back (hm_remove blockhash hmap) (prev_blockhash header))
              (\<lambda>headers. Ok (header # headers)))"
  by pat_completeness auto
termination
proof (relation "measure (\<lambda>(m, b). length m)")
  fix m :: header_map and b :: hash and h :: block_header
  assume "map_of m b = Some h"
  then have "(b, h) \<in> set m" by (rule map_of_SomeD)
  then show "((hm_remove b m, prev_blockhash h), m, b) \<in> measure (\<lambda>(m, b). length m)"
    by (auto simp: hm_remove_def intro: length_filter_less)
qed simp

declare walk_back.simps [simp del]

definition read_indexed_headers :: "deps \<Rightarrow> 's read_store \<Rightarrow> 's \<Rightarrow> header_list res" where
  "read_indexed_headers D RS store =
     bind_res (rs_get RS store [76]) (\<lambda>l.
     bind_res (case l of
         Some row \<Rightarrow> expect ''called `Result::unwrap()` on an `Err` value'' (de_hash D row)
       | None \<Rightarrow> Ok null_hash) (\<lambda>latest_blockhash.
     bind_res (foldM_res (insert_header D) [] (rs_scan RS store [66])) (\<lambda>hmap.
     bind_res (walk_back hmap latest_blockhash) (\<lambda>back.
     (let headers = rev back
      in bind_res (assert_res ''assertion failed: first''
                     ((if headers = [] then null_hash else prev_blockhash (hd headers)) = null_hash)) (\<lambda>_.
         bind_res (assert_res ''assertion failed: last''
                     ((if headers = [] then null_hash else bitcoin_hash D (last headers)) = latest_blockhash)) (\<lambda>_.
         bind_res (order D hl_empty headers) (\<lambda>entries.
         apply_headers hl_empty entries latest_blockhash))))))))"

section \<open>The index\<close>

record 'd daemon_api =
  da_reconnect :: "('d, unit) prog"
  da_getbestblockhash :: "('d, hash) prog"
  da_get_new_headers :: "header_list \<Rightarrow> hash \<Rightarrow> ('d, block_header list) prog"
  da_getblocks :: "hash list \<Rightarrow> ('d, block list) prog"
  da_getmempooltxids :: "('d, hash list) prog"
  da_gettransactions :: "hash list \<Rightarrow> ('d, transaction list) prog"

record index =
  ix_headers :: header_list
  ix_batch_size :: nat

definition Index_load :: "deps \<Rightarrow> 'd daemon_api \<Rightarrow> 's read_store \<Rightarrow> 's \<Rightarrow> nat \<Rightarrow> ('d, index) prog" where
  "Index_load D api RS store batch_size =
     pbind (pret (read_indexed_headers D RS store)) (\<lambda>headers.
     pbind (da_reconnect api) (\<lambda>_.
     pret (Ok \<lparr>ix_headers = headers, ix_batch_size = batch_size\<rparr>)))"

definition Index_reload :: "deps \<Rightarrow> 's read_store \<Rightarrow> 's \<Rightarrow> index \<Rightarrow> index res" where
  "Index_reload D RS store index =
     bind_res (read_indexed_headers D RS store) (\<lambda>headers. Ok (index\<lparr>ix_headers := headers\<rparr>))"

definition best_header :: "index \<Rightarrow> header_entry option" where
  "best_header index = header_by_blockhash (ix_headers index) (hl_tip (ix_headers index))"

definition get_header :: "index \<Rightarrow> nat \<Rightarrow> header_entry option res" where
  "get_header index height = header_by_height (ix_headers index) height"

definition get_header_by_block_hash :: "index \<Rightarrow> hash \<Rightarrow> header_entry option" where
  "get_header_by_block_hash index block_hash = header_by_blockhash (ix_headers index) block_hash"

text \<open>\<open>slice::chunks(n)\<close>; it panics on \<open>n = 0\<close>.\<close>

function chunks :: "nat \<Rightarrow> 'a list \<Rightarrow> 'a list list" where
  "chunks n xs = (if xs = [] \<or> n = 0 then [] else take n xs # chunks n (drop n xs))"
  by pat_completeness auto
termination by (relation "measure (\<lambda>(n, xs). length xs)") auto

declare chunks.simps [simp del]

text \<open>What \<open>update\<close> changes: the in-memory index, the store and the daemon connection.\<close>

record ('s, 'd) index_state =
  is_index :: index
  is_store :: 's
  is_daemon :: 'd

definition on_daemon :: "('d, 'a) prog \<Rightarrow> (('s, 'd) index_state, 'a) prog" where
  "on_daemon m = (\<lambda>st. map_option (\<lambda>(r, d). (r, st\<lparr>is_daemon := d\<rparr>)) (m (is_daemon st)))"

definition on_store :: "('s \<Rightarrow> 's res) \<Rightarrow> (('s, 'd) index_state, unit) prog" where
  "on_store f = (\<lambda>st. case f (is_store st) of
       Ok s \<Rightarrow> Some (Ok (), st\<lparr>is_store := s\<rparr>)
     | Err e \<Rightarrow> Some (Err e, st)
     | Panic p \<Rightarrow> Some (Panic p, st))"

text \<open>The rows of a batch: of every block its index rows and then the tip row.\<close>

definition batch_rows :: "deps \<Rightarrow> block list \<Rightarrow> row list res" where
  "batch_rows D batch =
     bind_res (mapM_res (\<lambda>block.
         bind_res (index_block D block) (\<lambda>rows.
         Ok (rows @ [last_indexed_block D (bitcoin_hash D (blk_header block))]))) batch)
       (\<lambda>rows. Ok (concat rows))"

text \<open>
  A call made in the thread of the fetcher. If it panics the thread dies, but \<open>update\<close> keeps a sender of
  the channel itself, so its \<open>recv\<close> does not fail: it waits forever.
\<close>

definition in_fetcher :: "('d, 'a) prog \<Rightarrow> ('d, 'a) prog" where
  "in_fetcher m = (\<lambda>d. case m d of Some (Panic p, d') \<Rightarrow> None | r \<Rightarrow> r)"

text \<open>
  The consuming loop, over the chunks still to be fetched. The fetcher ends its stream with an
  empty batch. A batch that is empty before that ends the loop too; then \<open>join\<close> waits for a
  fetcher that still has to send the remaining chunks into a channel of capacity one, which nobody
  reads any more, and never returns. Here the two threads take turns; theory \<open>Fetcher\<close> has them
  interleaved, and that every schedule has this outcome.
\<close>

primrec index_batches :: "deps \<Rightarrow> 'd daemon_api \<Rightarrow> ('d, unit) prog \<Rightarrow> 's write_store \<Rightarrow>
    hash list list \<Rightarrow> (('s, 'd) index_state, unit) prog" where
  "index_batches D api poll WS [] = on_daemon poll"
| "index_batches D api poll WS (chunk # rest) =
     pbind (on_daemon poll) (\<lambda>_.
     pbind (on_daemon (in_fetcher (da_getblocks api chunk))) (\<lambda>batch.
     if batch = [] then (if rest = [] then pret (Ok ()) else (\<lambda>_. None))
     else pbind (pret (batch_rows D batch)) (\<lambda>rows.
          pbind (on_store (\<lambda>s. ws_write WS s rows)) (\<lambda>_.
          index_batches D api poll WS rest))))"

definition Index_update :: "deps \<Rightarrow> 'd daemon_api \<Rightarrow> ('d, unit) prog \<Rightarrow> 's write_store \<Rightarrow>
    (('s, 'd) index_state, hash) prog" where
  "Index_update D api poll WS = (\<lambda>st.
     (let index = is_index st
      in pbind (on_daemon (da_reconnect api)) (\<lambda>_.
         pbind (on_daemon (da_getbestblockhash api)) (\<lambda>tip.
         pbind (on_daemon (da_get_new_headers api (ix_headers index) tip)) (\<lambda>hs.
         pbind (pret (order D (ix_headers index) hs)) (\<lambda>new_headers.
         (let blockhashes = map he_hash new_headers
          in if ix_batch_size index = 0 then
               pbind (on_daemon poll) (\<lambda>_ _. None)
             else pbind (index_batches D api poll WS (chunks (ix_batch_size index) blockhashes)) (\<lambda>_.
                  pbind (on_store (ws_flush WS)) (\<lambda>_.
                  pbind (pret (apply_headers (ix_headers index) new_headers tip)) (\<lambda>headers.
                  pbind (pret (assert_res ''assertion failed: tip'' (tip = hl_tip headers))) (\<lambda>_ st.
                  Some (Ok tip, st\<lparr>is_index := index\<lparr>ix_headers := headers\<rparr>\<rparr>)))))))))) st))"

section \<open>What the store holds of the chain\<close>

text \<open>
  \<open>store_chain D m hs\<close>: the contents \<open>m\<close> record the chain \<open>hs\<close>. Every header of the chain has its
  \<open>B\<close> row, the \<open>L\<close> row names the tip, and every \<open>B\<close> row, of whatever branch, is one that
  \<open>index_block\<close> wrote.
\<close>

definition header_rows_ok :: "deps \<Rightarrow> (bytes, bytes) btree \<Rightarrow> bool" where
  "header_rows_ok D m \<longleftrightarrow>
     (\<forall>k v. bt_get m k = Some v \<longrightarrow> prefix [66] k \<longrightarrow>
        (\<exists>h. k = row_key (block_row D h) \<and> v = row_value (block_row D h)))"

definition store_chain :: "deps \<Rightarrow> (bytes, bytes) btree \<Rightarrow> block_header list \<Rightarrow> bool" where
  "store_chain D m hs \<longleftrightarrow> bt_sorted m \<and> header_rows_ok D m \<and> valid_chain D hs \<and>
     (\<forall>h \<in> set hs. bt_get m (row_key (block_row D h)) = Some (row_value (block_row D h))) \<and>
     bt_get m [76] = (if hs = [] then None else Some (ser_hash D (bitcoin_hash D (last hs))))"

lemma map_of_hm_remove: "map_of (hm_remove k m) = (map_of m)(k := None)"
  by (induction m) (auto simp: hm_remove_def fun_eq_iff)

lemma map_of_hm_insert: "map_of (hm_insert k v m) = (map_of m)(k \<mapsto> v)"
  using map_of_hm_remove [of k m] by (auto simp: hm_insert_def hm_remove_def fun_eq_iff)

lemma walk_back_chain:
  assumes "valid_chain D hs" and "\<forall>h \<in> set hs. map_of m (bitcoin_hash D h) = Some h"
  shows "walk_back m (chain_tip D null_hash hs) = Ok (rev hs)"
  using assms
proof (induction hs arbitrary: m rule: rev_induct)
  case Nil
  then show ?case by (simp add: walk_back.simps chain_tip_def)
next
  case (snoc h hs)
  have valid: "valid_chain D hs"
    using valid_chain_take [OF snoc.prems(1), of "length hs"] by simp
  have fresh: "\<forall>x \<in> set hs. bitcoin_hash D x \<noteq> bitcoin_hash D h"
    and prev: "prev_blockhash h = chain_tip D null_hash hs"
    using snoc.prems(1) by (auto simp: valid_chain_snoc)
  have "walk_back (hm_remove (bitcoin_hash D h) m) (prev_blockhash h) = Ok (rev hs)"
    unfolding prev using fresh snoc.prems(2)
    by (intro snoc.IH [OF valid]) (auto simp: map_of_hm_remove)
  moreover have "bitcoin_hash D h \<noteq> null_hash" "map_of m (bitcoin_hash D h) = Some h"
    using valid_chain_nonnull [OF snoc.prems(1)] snoc.prems(2) by auto
  ultimately show ?case
    by (subst walk_back.simps) (simp add: chain_tip_def)
qed

text \<open>Reading the \<open>B\<close> rows into the map: each lookup gives the header of the last row for that hash.\<close>

lemma insert_header_block_row:
  assumes "codec_ok D"
  shows "insert_header D m (block_row D h) = Ok (hm_insert (bitcoin_hash D h) h m)"
  using codec_okD [OF assms]
  by (simp add: insert_header_def block_row_def de_block_key_def)

lemma read_blockhash_block_row:
  assumes "codec_ok D"
  shows "read_blockhash D (block_row D h) = Ok (bitcoin_hash D h)"
  using codec_okD [OF assms]
  by (simp add: read_blockhash_def block_row_def de_block_key_def)

lemma fold_insert_header:
  assumes "codec_ok D"
  shows "\<exists>m'. foldM_res (insert_header D) m (map (block_row D) hs) = Ok m' \<and>
              map_of m' = (\<lambda>b. case find (\<lambda>h. bitcoin_hash D h = b) (rev hs) of
                 Some h \<Rightarrow> Some h | None \<Rightarrow> map_of m b)"
proof (induction hs rule: rev_induct)
  case (snoc h hs)
  then obtain m' where fold: "foldM_res (insert_header D) m (map (block_row D) hs) = Ok m'"
    and m': "map_of m' = (\<lambda>b. case find (\<lambda>h. bitcoin_hash D h = b) (rev hs) of
                 Some h \<Rightarrow> Some h | None \<Rightarrow> map_of m b)"
    by blast
  let ?m = "hm_insert (bitcoin_hash D h) h m'"
  have "foldM_res (insert_header D) m (map (block_row D) (hs @ [h])) = Ok ?m"
    by (simp add: foldM_res_append fold insert_header_block_row [OF assms])
  then show ?case
    by (intro exI [of _ ?m]) (auto simp: map_of_hm_insert m' fun_eq_iff)
qed simp

lemma read_latest:
  assumes "codec_ok D" and "store_chain D m hs"
  shows "(case bt_get m [76] of
            Some row \<Rightarrow> expect ''called `Result::unwrap()` on an `Err` value'' (de_hash D row)
          | None \<Rightarrow> Ok null_hash) = Ok (chain_tip D null_hash hs)"
  using assms codec_okD(2) [OF assms(1)] by (simp add: store_chain_def chain_tip_def)

text \<open>Rebuilding the header list of a chain from nothing, as \<open>read_indexed_headers\<close> does at its end.\<close>

lemma rebuild_chain:
  assumes "valid_chain D hs"
  shows "\<exists>hl. bind_res (order D hl_empty hs) (\<lambda>es. apply_headers hl_empty es (chain_tip D null_hash hs)) = Ok hl \<and>
              hl_rep D hl hs"
proof (cases "hs = []")
  case True
  then show ?thesis
    by (simp add: order_def hash_headers_eq chain_tip_def apply_headers_def hl_rep_empty)
next
  case False
  have "linked D null_hash hs" using assms by (simp add: valid_chain_def)
  then have "order D hl_empty hs = Ok (chain_entries D 0 hs)"
    using order_chain [OF hl_rep_empty, of 0] by (simp add: chain_tip_def)
  moreover obtain hl where "apply_headers hl_empty (chain_entries D 0 hs) (bitcoin_hash D (last hs)) = Ok hl"
    and "hl_rep D hl hs"
    using apply_chain [OF hl_rep_empty, of 0 hs] False assms by auto
  ultimately show ?thesis using False by (simp add: chain_tip_def)
qed

context readable
begin

lemma scan_header_rows:
  assumes "inv s" and "header_rows_ok D (view s)"
  shows "\<exists>bs. rs_scan RS s [66] = map (block_row D) bs"
proof -
  have "\<forall>r \<in> set (rs_scan RS s [66]). \<exists>h. r = block_row D h"
  proof
    fix r assume "r \<in> set (rs_scan RS s [66])"
    then have "prefix [66] (row_key r)" and "bt_get (view s) (row_key r) = Some (row_value r)"
      using scan_mem [OF assms(1)] by blast+
    then obtain h where "row_key r = row_key (block_row D h)" "row_value r = row_value (block_row D h)"
      using assms(2) unfolding header_rows_ok_def by blast
    then show "\<exists>h. r = block_row D h" by (intro exI [of _ h]) simp
  qed
  then show ?thesis by (simp only: ex_map_conv)
qed

lemma read_header_map:
  assumes "codec_ok D" and "inv s" and chain: "store_chain D (view s) hs"
  shows "\<exists>m. foldM_res (insert_header D) [] (rs_scan RS s [66]) = Ok m \<and>
             (\<forall>h \<in> set hs. map_of m (bitcoin_hash D h) = Some h)"
proof -
  have "header_rows_ok D (view s)" using chain by (simp add: store_chain_def)
  from scan_header_rows [OF assms(2) this] obtain bs
    where bs: "rs_scan RS s [66] = map (block_row D) bs" by blast
  obtain m where fold: "foldM_res (insert_header D) [] (rs_scan RS s [66]) = Ok m"
    and m': "map_of m = (\<lambda>b. case find (\<lambda>h. bitcoin_hash D h = b) (rev bs) of
        Some h \<Rightarrow> Some h | None \<Rightarrow> map_of [] b)"
    using fold_insert_header [OF assms(1), of "[]" bs] unfolding bs by blast
  have m: "map_of m b = find (\<lambda>h. bitcoin_hash D h = b) (rev bs)" for b
    by (simp add: m' split: option.splits)
  have get: "bt_get (view s) (row_key (block_row D h)) = Some (row_value (block_row D h))"
    if "h \<in> set bs" for h
    using scan_mem [OF assms(2), of "block_row D h" "[66]"] that unfolding bs by simp
  have "map_of m (bitcoin_hash D h) = Some h" if h: "h \<in> set hs" for h
  proof -
    have row: "bt_get (view s) (row_key (block_row D h)) = Some (row_value (block_row D h))"
      using chain h by (simp add: store_chain_def)
    then have "block_row D h \<in> set (map (block_row D) bs)"
      using scan_mem [OF assms(2), of "block_row D h" "[66]"] unfolding bs
      by (simp add: block_row_def)
    then obtain h0 where "h0 \<in> set bs" "bitcoin_hash D h0 = bitcoin_hash D h"
      by (auto simp: block_row_def)
    then have "find (\<lambda>x. bitcoin_hash D x = bitcoin_hash D h) (rev bs) \<noteq> None"
      by (auto simp: find_None_iff)
    then obtain h' where h': "find (\<lambda>x. bitcoin_hash D x = bitcoin_hash D h) (rev bs) = Some h'"
      by blast
    then have "bitcoin_hash D h' = bitcoin_hash D h" and "h' \<in> set bs"
      by (auto dest: find_SomeD)
    with get [of h'] row have "ser_header D h' = ser_header D h"
      by (simp add: block_row_def)
    then have "h' = h" using codec_okD(4) [OF assms(1)] by (metis option.inject)
    with h' m show ?thesis by simp
  qed
  with fold show ?thesis by blast
qed

lemma read_indexed_headers_chain:
  assumes "codec_ok D" and "inv s" and chain: "store_chain D (view s) hs"
  shows "\<exists>hl. read_indexed_headers D RS s = Ok hl \<and> hl_rep D hl hs"
proof -
  have valid: "valid_chain D hs" using chain by (simp add: store_chain_def)
  obtain m where fold: "foldM_res (insert_header D) [] (rs_scan RS s [66]) = Ok m"
    and m: "\<forall>h \<in> set hs. map_of m (bitcoin_hash D h) = Some h"
    using read_header_map [OF assms] by blast
  obtain hl where rebuild: "bind_res (order D hl_empty hs)
      (\<lambda>es. apply_headers hl_empty es (chain_tip D null_hash hs)) = Ok hl" and rep: "hl_rep D hl hs"
    using rebuild_chain [OF valid] by blast
  have "hs \<noteq> [] \<Longrightarrow> prev_blockhash (hd hs) = null_hash"
    using valid by (auto simp: valid_chain_def linked_iff_successively)
  then have "read_indexed_headers D RS s = Ok hl"
    unfolding read_indexed_headers_def get_view [OF assms(2)] fold
    using read_latest [OF assms(1) chain] walk_back_chain [OF valid m] rebuild
    by (auto simp: Let_def chain_tip_def)
  with rep show ?thesis by blast
qed

lemma read_indexed_blockhashes_eq:
  assumes "codec_ok D" and "inv s" and "header_rows_ok D (view s)"
  shows "read_indexed_blockhashes D RS s =
           Ok {bitcoin_hash D h | h.
                 bt_get (view s) (row_key (block_row D h)) = Some (row_value (block_row D h))}"
proof -
  from scan_header_rows [OF assms(2,3)] obtain bs
    where bs: "rs_scan RS s [66] = map (block_row D) bs" by blast
  have fold: "foldM_res (\<lambda>result row. bind_res (read_blockhash D row) (\<lambda>h. Ok (insert h result))) X
      (map (block_row D) bs) = Ok (X \<union> bitcoin_hash D ` set bs)" for X
    by (induction bs arbitrary: X) (auto simp: read_blockhash_block_row [OF assms(1)])
  have row: "bt_get (view s) (row_key (block_row D h)) = Some (row_value (block_row D h)) \<longleftrightarrow>
        block_row D h \<in> block_row D ` set bs" for h
    using scan_mem [OF assms(2), of "block_row D h" "[66]"] unfolding bs by (simp add: block_row_def)
  have "bitcoin_hash D ` set bs = {bitcoin_hash D h | h. block_row D h \<in> block_row D ` set bs}"
    by (auto simp: block_row_def)
  then show ?thesis
    unfolding read_indexed_blockhashes_def bs fold row by simp
qed

end

section \<open>The store after a batch\<close>

definition store_headers :: "deps \<Rightarrow> (bytes, bytes) btree \<Rightarrow> block_header list \<Rightarrow> bool" where
  "store_headers D m hs \<longleftrightarrow> bt_sorted m \<and> header_rows_ok D m \<and>
     (\<forall>h \<in> set hs. bt_get m (row_key (block_row D h)) = Some (row_value (block_row D h)))"

definition indexed_rows :: "deps \<Rightarrow> block \<Rightarrow> row list" where
  "indexed_rows D b = block_rows D b @ [last_indexed_block D (bitcoin_hash D (blk_header b))]"

lemma batch_rows_eq:
  assumes "codec_ok D"
  shows "batch_rows D bs = Ok (concat (map (indexed_rows D) bs))"
proof -
  have "mapM_res (\<lambda>block. bind_res (index_block D block) (\<lambda>rows.
         Ok (rows @ [last_indexed_block D (bitcoin_hash D (blk_header block))]))) bs =
        Ok (map (indexed_rows D) bs)"
    by (intro mapM_res_Ok) (simp add: index_block_eq [OF assms] indexed_rows_def)
  then show ?thesis by (simp add: batch_rows_def)
qed

lemma store_chain_headers: "store_chain D m hs \<Longrightarrow> store_headers D m (take k hs)"
  by (auto simp: store_chain_def store_headers_def dest: in_set_takeD)

lemma bt_get_tx_rows_other:
  assumes "bt_sorted m" and "k = 66 # k' \<or> k = [76]"
  shows "bt_get (put_rows m (concat (map (\<lambda>t. tx_rows D t b) ts))) k = bt_get m k"
proof (rule bt_get_put_rows_notin [OF assms(1)])
  show "k \<notin> row_key ` set (concat (map (\<lambda>t. tx_rows D t b) ts))"
    using assms(2) tx_rows_code by fastforce
qed

text \<open>The lookups of \<open>B\<close> and \<open>L\<close> keys after one block was indexed.\<close>

lemma bt_get_indexed_rows:
  assumes "bt_sorted m"
  shows "bt_get (put_rows m (indexed_rows D b)) [76] =
           Some (ser_hash D (bitcoin_hash D (blk_header b)))"
    and "bt_get (put_rows m (indexed_rows D b)) (66 # k) =
           (if k = hash_bytes (bitcoin_hash D (blk_header b)) then Some (ser_header D (blk_header b))
            else bt_get m (66 # k))"
proof -
  let ?h = "bitcoin_hash D (blk_header b)"
  let ?m = "put_rows m (concat (map (\<lambda>t. tx_rows D t ?h) (txdata b)))"
  have eq: "put_rows m (indexed_rows D b) =
      bt_put [76] (ser_hash D ?h) (bt_put (66 # hash_bytes ?h) (ser_header D (blk_header b)) ?m)"
    by (simp add: indexed_rows_def block_rows_def last_indexed_block_def store_simps)
  have sorted: "bt_sorted ?m" by (simp add: assms)
  show "bt_get (put_rows m (indexed_rows D b)) [76] = Some (ser_hash D ?h)"
    unfolding eq by (simp add: bt_get_put bt_sorted_put sorted)
  show "bt_get (put_rows m (indexed_rows D b)) (66 # k) =
           (if k = hash_bytes ?h then Some (ser_header D (blk_header b)) else bt_get m (66 # k))"
    unfolding eq using bt_get_tx_rows_other [OF assms, of "66 # k" k]
    by (simp add: bt_get_put bt_sorted_put sorted)
qed

lemma prefix_66: "prefix [66] k \<longleftrightarrow> (\<exists>k'. k = 66 # k')"
  by (cases k) auto

lemma store_chain_index_block:
  assumes hdrs: "store_headers D m base" and valid: "valid_chain D (base @ [blk_header b])"
  shows "store_chain D (put_rows m (indexed_rows D b)) (base @ [blk_header b])"
proof -
  let ?m = "put_rows m (indexed_rows D b)"
  have sorted: "bt_sorted m" using hdrs by (simp add: store_headers_def)
  note get = bt_get_indexed_rows [OF sorted, of D b]
  have "header_rows_ok D ?m"
    unfolding header_rows_ok_def
  proof (intro allI impI)
    fix k v assume k: "bt_get ?m k = Some v" and "prefix [66] k"
    then obtain k' where k': "k = 66 # k'" by (auto simp: prefix_66)
    show "\<exists>h. k = row_key (block_row D h) \<and> v = row_value (block_row D h)"
    proof (cases "k' = hash_bytes (bitcoin_hash D (blk_header b))")
      case True
      with k k' get(2) show ?thesis by auto
    next
      case False
      with k k' get(2) have "bt_get m k = Some v" by simp
      with hdrs \<open>prefix [66] k\<close> show ?thesis
        unfolding store_headers_def header_rows_ok_def by blast
    qed
  qed
  moreover have "\<forall>h \<in> set base. bt_get ?m (row_key (block_row D h)) = Some (row_value (block_row D h))"
    using hdrs valid get(2) by (auto simp: store_headers_def valid_chain_snoc)
  ultimately show ?thesis
    using valid sorted get by (simp add: store_chain_def)
qed

lemma store_chain_index_blocks:
  assumes "store_headers D m base" and "valid_chain D (base @ map blk_header bs)" and "bs \<noteq> []"
  shows "store_chain D (put_rows m (concat (map (indexed_rows D) bs))) (base @ map blk_header bs)"
  using assms
proof (induction bs rule: rev_induct)
  case (snoc b bs)
  let ?m = "put_rows m (concat (map (indexed_rows D) bs))"
  have valid: "valid_chain D (base @ map blk_header bs)"
    using valid_chain_take [OF snoc.prems(2), of "length base + length bs"] by simp
  have hdrs: "store_headers D ?m (base @ map blk_header bs)"
  proof (cases "bs = []")
    case True
    with snoc.prems(1) show ?thesis by simp
  next
    case False
    from snoc.IH [OF snoc.prems(1) valid False]
    show ?thesis using store_chain_headers [of D ?m "base @ map blk_header bs" "length base + length bs"]
      by simp
  qed
  from store_chain_index_block [OF this, of b] snoc.prems(2)
  show ?case by (simp add: store_simps)
qed simp

section \<open>What \<open>update\<close> relies on of the daemon\<close>

text \<open>
  A synchronised daemon: \<open>node d\<close> is its best chain of blocks, which stays the same during the
  update. It serves the tip, the headers that are not yet known, up to \<open>limit\<close> blocks by hash. \<open>poll\<close> checks for
  a signal and fails when there is one; \<open>quiet\<close> says that none comes.
\<close>

definition headers_of :: "block list \<Rightarrow> block_header list" where
  "headers_of bs = map blk_header bs"

definition fork_height :: "block_header list \<Rightarrow> block_header list \<Rightarrow> nat" where
  "fork_height hs ns = length (longest_common_prefix hs ns)"

locale chain_daemon =
  fixes D :: deps
    and api :: "'d daemon_api"
    and poll :: "('d, unit) prog"
    and node :: "'d \<Rightarrow> block list"
    and ready :: "'d \<Rightarrow> bool"
    and limit :: nat
    and quiet :: bool
  assumes node_chain: "ready d \<Longrightarrow> valid_chain D (headers_of (node d)) \<and> node d \<noteq> []"
    and reconnect: "ready d \<Longrightarrow>
      \<exists>d'. da_reconnect api d = Some (Ok (), d') \<and> ready d' \<and> node d' = node d"
    and best: "ready d \<Longrightarrow>
      \<exists>d'. da_getbestblockhash api d = Some (Ok (bitcoin_hash D (blk_header (last (node d)))), d') \<and>
           ready d' \<and> node d' = node d"
    and new_headers: "ready d \<Longrightarrow> hl_rep D hl hs \<Longrightarrow>
      inj_on (bitcoin_hash D) (set hs \<union> set (headers_of (node d))) \<Longrightarrow>
      \<exists>d'. da_get_new_headers api hl (bitcoin_hash D (blk_header (last (node d)))) d =
             Some (Ok (drop (fork_height hs (headers_of (node d))) (headers_of (node d))), d') \<and>
           ready d' \<and> node d' = node d"
    and blocks: "ready d \<Longrightarrow> set bs \<subseteq> set (node d) \<Longrightarrow> length bs \<le> limit \<Longrightarrow>
      \<exists>d'. da_getblocks api (map (\<lambda>b. bitcoin_hash D (blk_header b)) bs) d = Some (Ok bs, d') \<and>
           ready d' \<and> node d' = node d"
    and poll: "ready d \<Longrightarrow>
      \<exists>r d'. poll d = Some (r, d') \<and> \<not> panics r \<and> (quiet \<longrightarrow> is_ok r) \<and> ready d' \<and> node d' = node d"

lemma take_fork_height: "take (fork_height hs ns) hs = take (fork_height hs ns) ns"
  unfolding fork_height_def
  by (metis longest_common_prefix_prefix1 longest_common_prefix_prefix2 prefix_iff_take)

lemma fork_height_le: "fork_height hs ns \<le> length hs" "fork_height hs ns \<le> length ns"
  unfolding fork_height_def
  using longest_common_prefix_prefix1 longest_common_prefix_prefix2 prefix_length_le by blast+

lemma chunks_map: "chunks n (map f xs) = map (map f) (chunks n xs)"
proof (induction n xs rule: chunks.induct)
  case (1 n xs)
  then show ?case
    by (cases "xs = [] \<or> n = 0") (simp_all add: chunks.simps [of n] take_map drop_map)
qed

lemma concat_chunks: "0 < n \<Longrightarrow> concat (chunks n xs) = xs"
proof (induction n xs rule: chunks.induct)
  case (1 n xs)
  then show ?case by (cases "xs = []") (simp_all add: chunks.simps [of n])
qed

lemma chunks_nonempty: "c \<in> set (chunks n xs) \<Longrightarrow> c \<noteq> []"
proof (induction n xs rule: chunks.induct)
  case (1 n xs)
  then show ?case by (cases "xs = [] \<or> n = 0") (auto simp: chunks.simps [of n xs])
qed

lemma chunks_length: "c \<in> set (chunks n xs) \<Longrightarrow> length c \<le> n"
proof (induction n xs rule: chunks.induct)
  case (1 n xs)
  then show ?case by (cases "xs = [] \<or> n = 0") (auto simp: chunks.simps [of n xs])
qed

section \<open>\<open>update\<close> indexes the daemon's chain\<close>

locale indexer = writable RS view inv WS + chain_daemon D api poll node ready limit quiet
  for RS :: "'s read_store" and view and inv and WS and D and api :: "'d daemon_api"
    and poll and node and ready and limit and quiet +
  assumes codec: "ready d \<Longrightarrow> codec_ok D"
begin

definition live :: "('s, 'd) index_state \<Rightarrow> block list \<Rightarrow> bool" where
  "live st bs \<longleftrightarrow> inv (is_store st) \<and> ready (is_daemon st) \<and> node (is_daemon st) = bs"

lemma live_codec: "live st bs \<Longrightarrow> codec_ok D"
  using codec [of "is_daemon st"] by (simp add: live_def)

lemma live_daemon:
  assumes "live st bs" and "m (is_daemon st) = Some (r, d')" and "ready d'" and "node d' = bs"
  shows "\<exists>st'. on_daemon m st = Some (r, st') \<and> live st' bs \<and> is_index st' = is_index st \<and>
               is_store st' = is_store st"
  using assms by (simp add: on_daemon_def live_def)

lemma live_poll:
  assumes "live st bs"
  shows "\<exists>r st'. on_daemon poll st = Some (r, st') \<and> \<not> panics r \<and> (quiet \<longrightarrow> is_ok r) \<and> live st' bs \<and>
                 is_index st' = is_index st \<and> is_store st' = is_store st"
proof -
  have "ready (is_daemon st)" using assms by (simp add: live_def)
  from poll [OF this] obtain r d' where "poll (is_daemon st) = Some (r, d')" "\<not> panics r"
    "quiet \<longrightarrow> is_ok r" "ready d'" "node d' = bs"
    using assms by (auto simp: live_def)
  with live_daemon [OF assms, of poll r d'] show ?thesis by blast
qed

lemma live_write:
  assumes "live st bs"
  shows "\<exists>st'. on_store (\<lambda>s. ws_write WS s rows) st = Some (Ok (), st') \<and> live st' bs \<and>
               is_index st' = is_index st \<and> view (is_store st') = put_rows (view (is_store st)) rows"
proof -
  from write_view [of "is_store st" rows] assms obtain s' where "ws_write WS (is_store st) rows = Ok s'"
    "inv s'" "view s' = put_rows (view (is_store st)) rows"
    by (auto simp: live_def)
  then show ?thesis using assms by (simp add: on_store_def live_def)
qed

lemma live_flush:
  assumes "live st bs"
  shows "\<exists>st'. on_store (ws_flush WS) st = Some (Ok (), st') \<and> live st' bs \<and>
               is_index st' = is_index st \<and> view (is_store st') = view (is_store st)"
proof -
  from flush_view [of "is_store st"] assms obtain s' where "ws_flush WS (is_store st) = Ok s'"
    "inv s'" "view s' = view (is_store st)"
    by (auto simp: live_def)
  then show ?thesis using assms by (simp add: on_store_def live_def)
qed

lemma live_getblocks:
  assumes "live st bs" and "set batch \<subseteq> set bs" and "length batch \<le> limit"
  shows "\<exists>st'. on_daemon (in_fetcher (da_getblocks api (map (\<lambda>b. bitcoin_hash D (blk_header b)) batch))) st =
                 Some (Ok batch, st') \<and> live st' bs \<and> is_index st' = is_index st \<and>
               is_store st' = is_store st"
proof -
  have "ready (is_daemon st)" and "node (is_daemon st) = bs" using assms by (simp_all add: live_def)
  with blocks [OF this(1), of batch] assms(2,3) obtain d' where
    "in_fetcher (da_getblocks api (map (\<lambda>b. bitcoin_hash D (blk_header b)) batch)) (is_daemon st) = Some (Ok batch, d')"
    "ready d'" "node d' = bs" by (auto simp: in_fetcher_def)
  from live_daemon [where m = "in_fetcher (da_getblocks api (map (\<lambda>b. bitcoin_hash D (blk_header b)) batch))",
      OF assms(1) this] show ?thesis .
qed

lemma index_batches_run:
  assumes "live st bs" and "\<forall>c \<in> set cs. c \<noteq> [] \<and> set c \<subseteq> set bs \<and> length c \<le> limit"
  shows "\<exists>r st' j. index_batches D api poll WS
             (map (map (\<lambda>b. bitcoin_hash D (blk_header b))) cs) st = Some (r, st') \<and>
           live st' bs \<and> is_index st' = is_index st \<and> \<not> panics r \<and> j \<le> length cs \<and>
           (is_ok r \<longrightarrow> j = length cs) \<and> (quiet \<longrightarrow> is_ok r) \<and>
           view (is_store st') =
             put_rows (view (is_store st)) (concat (map (indexed_rows D) (concat (take j cs))))"
  using assms
proof (induction cs arbitrary: st)
  case Nil
  from live_poll [OF Nil(1)] show ?case by fastforce
next
  case (Cons c cs)
  from live_poll [OF Cons.prems(1)] obtain r1 st1 where p: "on_daemon poll st = Some (r1, st1)"
    "\<not> panics r1" "live st1 bs" "quiet \<longrightarrow> is_ok r1" "is_index st1 = is_index st" "is_store st1 = is_store st"
    by blast
  show ?case
  proof (cases r1)
    case (Ok u)
    have c: "c \<noteq> []" "set c \<subseteq> set bs" "length c \<le> limit" using Cons.prems(2) by auto
    obtain st2 where g: "on_daemon (in_fetcher (da_getblocks api (map (\<lambda>b. bitcoin_hash D (blk_header b)) c))) st1 =
        Some (Ok c, st2)" "live st2 bs" "is_index st2 = is_index st1" "is_store st2 = is_store st1"
      using live_getblocks [OF p(3) c(2,3)] by blast
    obtain st3 where w: "on_store (\<lambda>s. ws_write WS s (concat (map (indexed_rows D) c))) st2 = Some (Ok (), st3)"
      "live st3 bs" "is_index st3 = is_index st2"
      "view (is_store st3) = put_rows (view (is_store st2)) (concat (map (indexed_rows D) c))"
      using live_write [OF g(2)] by blast
    obtain r st' j where rest: "index_batches D api poll WS
          (map (map (\<lambda>b. bitcoin_hash D (blk_header b))) cs) st3 = Some (r, st')"
      "live st' bs" "is_index st' = is_index st3" "\<not> panics r" "j \<le> length cs"
      "is_ok r \<longrightarrow> j = length cs" "quiet \<longrightarrow> is_ok r"
      "view (is_store st') = put_rows (view (is_store st3)) (concat (map (indexed_rows D) (concat (take j cs))))"
      using Cons.IH [OF w(2)] Cons.prems(2) by auto
    have "index_batches D api poll WS (map (map (\<lambda>b. bitcoin_hash D (blk_header b))) (c # cs)) st =
        Some (r, st')"
      using p g w rest(1) Ok c(1) by (simp add: pbind_Ok batch_rows_eq [OF live_codec [OF Cons.prems(1)]])
    with p g w rest show ?thesis
      by (intro exI [of _ r] exI [of _ st'] exI [of _ "Suc j"]) (simp add: store_simps)
  next
    case (Err e)
    with p show ?thesis
      by (intro exI [of _ r1] exI [of _ st1] exI [of _ 0]) (simp add: pbind_Err)
  next
    case (Panic x)
    with p show ?thesis by simp
  qed
qed

lemma index_new_blocks:
  assumes "live st bs" and "0 < n" and "set new \<subseteq> set bs" and "n \<le> limit"
  shows "\<exists>r st' j. index_batches D api poll WS
             (chunks n (map (\<lambda>b. bitcoin_hash D (blk_header b)) new)) st = Some (r, st') \<and>
           live st' bs \<and> is_index st' = is_index st \<and> \<not> panics r \<and>
           (is_ok r \<longrightarrow> length new \<le> j) \<and> (quiet \<longrightarrow> is_ok r) \<and>
           view (is_store st') =
             put_rows (view (is_store st)) (concat (map (indexed_rows D) (take j new)))"
proof -
  let ?cs = "chunks n new"
  have "\<forall>c \<in> set ?cs. c \<noteq> [] \<and> set c \<subseteq> set bs"
    using chunks_nonempty [of _ n new] concat_chunks [OF assms(2), of new] assms(3)
    by (metis UN_upper set_concat subset_trans)
  then have "\<forall>c \<in> set ?cs. c \<noteq> [] \<and> set c \<subseteq> set bs \<and> length c \<le> limit"
    using chunks_length [of _ n new] assms(4) le_trans by blast
  from index_batches_run [OF assms(1) this] obtain r st' j where run:
    "index_batches D api poll WS (map (map (\<lambda>b. bitcoin_hash D (blk_header b))) ?cs) st = Some (r, st')"
    "live st' bs" "is_index st' = is_index st" "\<not> panics r" "is_ok r \<longrightarrow> j = length ?cs" "quiet \<longrightarrow> is_ok r"
    "view (is_store st') = put_rows (view (is_store st)) (concat (map (indexed_rows D) (concat (take j ?cs))))"
    by blast
  have "concat (take j ?cs) @ concat (drop j ?cs) = new"
    using concat_chunks [OF assms(2), of new] by (metis append_take_drop_id concat_append)
  then have "take (length (concat (take j ?cs))) new = concat (take j ?cs)"
    by (metis append_eq_conv_conj)
  moreover have "is_ok r \<longrightarrow> length new \<le> length (concat (take j ?cs))"
    using run(5) concat_chunks [OF assms(2), of new] by simp
  ultimately show ?thesis using run
    by (intro exI [of _ r] exI [of _ st'] exI [of _ "length (concat (take j ?cs))"])
       (simp add: chunks_map)
qed

text \<open>Applying the new headers: the chain is cut at the fork and continued to the daemon's tip.\<close>

lemma apply_new_headers:
  assumes "hl_rep D hl hs" and "valid_chain D ns" and "ns \<noteq> []"
  shows "\<exists>hl'. order D hl (drop (fork_height hs ns) ns) =
                 Ok (chain_entries D (fork_height hs ns) (drop (fork_height hs ns) ns)) \<and>
               apply_headers hl (chain_entries D (fork_height hs ns) (drop (fork_height hs ns) ns))
                 (bitcoin_hash D (last ns)) = Ok hl' \<and> hl_rep D hl' ns"
proof -
  let ?k = "fork_height hs ns"
  let ?new = "drop ?k ns"
  have whole: "take ?k hs @ ?new = ns"
    by (subst take_fork_height) simp
  have link: "linked D (chain_tip D null_hash (take ?k hs)) ?new"
    using assms(2) linked_append [of D null_hash "take ?k hs" ?new] unfolding whole
    by (simp add: valid_chain_def)
  have order: "order D hl ?new = Ok (chain_entries D ?k ?new)"
    by (rule order_chain [OF assms(1) fork_height_le(1) link])
  show ?thesis
  proof (cases "?new = []")
    case True
    then have k: "?k = length ns" using fork_height_le(2) [of hs ns] by simp
    with whole True have ns: "take (length ns) hs = ns" by simp
    have i: "length ns - 1 < length hs"
      using fork_height_le(1) [of hs ns] k assms(3) by (cases ns) auto
    then have "hs ! (length ns - 1) = last ns"
      using ns assms(3) by (metis diff_less last_conv_nth length_greater_0_conv less_one nth_take)
    with apply_trim [OF assms(1) i] True order ns assms(3) show ?thesis by auto
  next
    case False
    then have "last ?new = last ns" by (simp add: last_drop)
    with apply_chain [OF assms(1) fork_height_le(1) [of hs ns] False] whole assms(2) order
    show ?thesis by simp
  qed
qed

lemma Index_update_run:
  assumes live: "live st bs" and size: "0 < ix_batch_size (is_index st)" "ix_batch_size (is_index st) \<le> limit"
    and rep: "hl_rep D (ix_headers (is_index st)) hs"
    and inj: "inj_on (bitcoin_hash D) (set hs \<union> set (headers_of bs))"
  shows "\<exists>r st' j. Index_update D api poll WS st = Some (r, st') \<and> live st' bs \<and>
           view (is_store st') = put_rows (view (is_store st))
             (concat (map (indexed_rows D) (take j (drop (fork_height hs (headers_of bs)) bs)))) \<and>
           (case r of
              Ok tip \<Rightarrow> tip = bitcoin_hash D (blk_header (last bs)) \<and> length bs \<le> j + fork_height hs (headers_of bs) \<and>
                        hl_rep D (ix_headers (is_index st')) (headers_of bs) \<and>
                        ix_batch_size (is_index st') = ix_batch_size (is_index st)
            | Err e \<Rightarrow> is_index st' = is_index st \<and> \<not> quiet
            | Panic p \<Rightarrow> False)"
proof -
  let ?ns = "headers_of bs"
  let ?k = "fork_height hs ?ns"
  let ?tip = "bitcoin_hash D (blk_header (last bs))"
  have chain: "valid_chain D ?ns" "bs \<noteq> []"
    using live node_chain [of "is_daemon st"] by (auto simp: live_def)
  have last: "last ?ns = blk_header (last bs)" "?ns \<noteq> []"
    using chain(2) by (simp_all add: headers_of_def last_map)
  obtain st1 where s1: "on_daemon (da_reconnect api) st = Some (Ok (), st1)" "live st1 bs"
    "is_index st1 = is_index st" "is_store st1 = is_store st"
    using reconnect [of "is_daemon st"] live live_daemon [OF live] by (metis live_def)
  obtain st2 where s2: "on_daemon (da_getbestblockhash api) st1 = Some (Ok ?tip, st2)" "live st2 bs"
    "is_index st2 = is_index st" "is_store st2 = is_store st"
    using best [of "is_daemon st1"] s1 live_daemon [OF s1(2)] by (metis live_def)
  obtain st3 where s3: "on_daemon (da_get_new_headers api (ix_headers (is_index st)) ?tip) st2 =
      Some (Ok (drop ?k ?ns), st3)" "live st3 bs" "is_index st3 = is_index st" "is_store st3 = is_store st"
    using new_headers [of "is_daemon st2", OF _ rep] inj s2 live_daemon [OF s2(2)]
    by (metis (no_types, lifting) live_def)
  obtain hl' where a: "order D (ix_headers (is_index st)) (drop ?k ?ns) = Ok (chain_entries D ?k (drop ?k ?ns))"
    "apply_headers (ix_headers (is_index st)) (chain_entries D ?k (drop ?k ?ns)) ?tip = Ok hl'"
    "hl_rep D hl' ?ns"
    using apply_new_headers [OF rep chain(1) last(2)] unfolding last(1) by blast
  have hashes: "map he_hash (chain_entries D ?k (drop ?k ?ns)) =
      map (\<lambda>b. bitcoin_hash D (blk_header b)) (drop ?k bs)"
    by (rule nth_equalityI) (simp_all add: headers_of_def)
  have "set (drop ?k bs) \<subseteq> set bs" by (rule set_drop_subset)
  from index_new_blocks [OF s3(2) size(1) this size(2)] obtain r st4 j where b:
    "index_batches D api poll WS (chunks (ix_batch_size (is_index st))
        (map (\<lambda>b. bitcoin_hash D (blk_header b)) (drop ?k bs))) st3 = Some (r, st4)"
    "live st4 bs" "is_index st4 = is_index st" "\<not> panics r" "is_ok r \<longrightarrow> length (drop ?k bs) \<le> j" "quiet \<longrightarrow> is_ok r"
    "view (is_store st4) = put_rows (view (is_store st)) (concat (map (indexed_rows D) (take j (drop ?k bs))))"
    using s3 by auto
  note run = s1(1) s2(1) s3(1) a(1) b(1) size(1) hashes
  show ?thesis
  proof (cases r)
    case (Ok u)
    obtain st5 where f: "on_store (ws_flush WS) st4 = Some (Ok (), st5)" "live st5 bs"
      "is_index st5 = is_index st4" "view (is_store st5) = view (is_store st4)"
      using live_flush [OF b(2)] by blast
    have tip: "hl_tip hl' = ?tip"
      using hl_rep_tip [OF a(3)] last by (simp add: chain_tip_def)
    let ?st = "st5\<lparr>is_index := (is_index st)\<lparr>ix_headers := hl'\<rparr>\<rparr>"
    have "Index_update D api poll WS st = Some (Ok ?tip, ?st)"
      using run Ok f(1) a(2) tip by (simp add: Index_update_def pbind_Ok)
    moreover have "live ?st bs" using f(2) by (simp add: live_def)
    ultimately show ?thesis
      using a(3) b f Ok by (intro exI [of _ "Ok ?tip"] exI [of _ ?st] exI [of _ j]) auto
  next
    case (Err e)
    have "Index_update D api poll WS st = Some (Err e, st4)"
      using run Err by (simp add: Index_update_def pbind_Ok pbind_Err)
    with b Err show ?thesis by (intro exI [of _ "Err e"] exI [of _ st4] exI [of _ j]) simp
  next
    case (Panic p)
    with b(4) show ?thesis by simp
  qed
qed

end

section \<open>Properties of reading the index back\<close>

definition ex_blocks :: "block list" where
  "ex_blocks = map (\<lambda>h. \<lparr>blk_header = h, txdata = []\<rparr>) ex_chain"

definition ex_store :: "memdb dbstore" where
  "ex_store = mem_store\<lparr>db_handle :=
     mem_put mem_empty (map into_pair (concat (map (indexed_rows ref_deps) ex_blocks)))\<rparr>"

lemma store_headers_empty: "store_headers D [] []"
  by (simp add: store_headers_def header_rows_ok_def bt_get_def)

lemma store_chain_ex: "store_chain ref_deps (mem_contents (db_handle ex_store)) ex_chain"
proof -
  have "map blk_header ex_blocks = ex_chain" by (simp add: ex_blocks_def comp_def)
  moreover have "ex_blocks \<noteq> []" by (simp add: ex_blocks_def ex_chain_def)
  moreover have "valid_chain ref_deps ex_chain"
    using valid_chain_take [OF ex_chain_valid(1), of 2] by (simp add: ex_chain_def)
  ultimately show ?thesis
    using store_chain_index_blocks [OF store_headers_empty, of ref_deps ex_blocks]
    by (simp add: ex_store_def put_rows_def)
qed

text \<open>
  C26: Restart. When the database records the chain \<open>hs\<close> (every header has its \<open>B\<close> row, the \<open>L\<close>
  row names the tip; rows of abandoned branches may be present), reading the indexed headers
  succeeds and yields exactly that chain.
\<close>

theorem read_indexed_headers_restores:
  assumes "codec_ok D" and "rocksdb_ok R c" and "store_chain D (c (db_handle s)) hs"
  shows "\<exists>hl. read_indexed_headers D (db_read_store R) s = Ok hl \<and> hl_rep D hl hs"
  using assms by (rule db.read_indexed_headers_chain)

theorem read_indexed_headers_restores_witness:
  "\<exists>hl. read_indexed_headers ref_deps (db_read_store mem_rocksdb) ex_store = Ok hl \<and>
        hl_rep ref_deps hl ex_chain"
  by (rule read_indexed_headers_restores [OF codec_ok_ref_deps mem_rocksdb_ok store_chain_ex])

lemma order_hashes:
  assumes "order D hl hs = Ok es"
  shows "\<forall>e \<in> set es. he_hash e = bitcoin_hash D (he_header e)"
proof -
  have "hash_headers D hs = Ok (map (\<lambda>h. \<lparr>hh_blockhash = bitcoin_hash D h, hh_header = h\<rparr>) hs)"
    using assms by (auto simp: order_def hash_headers_eq split: if_splits)
  with assms show ?thesis
    by (cases hs) (auto simp: order_def Let_def res_simps dest!: set_zip_rightD)
qed

text \<open>
  C37: Safety of the restart on any store. Whatever a store contains, if reading the indexed headers
  returns, the result is a linked list from the genesis block whose heights are positions and whose
  hashes are the hashes of the headers, and its tip is the block named by the \<open>L\<close> row (the null
  hash when there is none).
\<close>

theorem read_indexed_headers_safe:
  assumes "read_indexed_headers D RS s = Ok hl"
  shows "hl_ok hl \<and> (\<forall>e \<in> set (hl_headers hl). he_hash e = bitcoin_hash D (he_header e)) \<and>
         (case rs_get RS s [76] of
            Ok None \<Rightarrow> hl_tip hl = null_hash | Ok (Some row) \<Rightarrow> de_hash D row = Some (hl_tip hl) | _ \<Rightarrow> False)"
proof -
  obtain l latest headers es where l: "rs_get RS s [76] = Ok l"
    and latest: "(case l of Some row \<Rightarrow> expect ''called `Result::unwrap()` on an `Err` value'' (de_hash D row)
                  | None \<Rightarrow> Ok null_hash) = Ok latest"
    and es: "order D hl_empty headers = Ok es" and hl: "apply_headers hl_empty es latest = Ok hl"
    using assms by (auto simp: read_indexed_headers_def Let_def res_simps)
  have "hl_ok hl_empty" by (simp add: hl_ok_def hl_empty_def)
  from apply_headers_sound [OF hl this] have "hl_ok hl" "hl_tip hl = latest" "hl_headers hl = es"
    by (auto simp: hl_empty_def)
  with l latest order_hashes [OF es] show ?thesis
    by (auto simp: res_simps split: option.splits)
qed

theorem read_indexed_headers_safe_witness:
  "\<exists>hl. read_indexed_headers ref_deps (db_read_store mem_rocksdb) ex_store = Ok hl \<and> hl_ok hl"
proof -
  obtain hl where "read_indexed_headers ref_deps (db_read_store mem_rocksdb) ex_store = Ok hl"
    using db.read_indexed_headers_chain [OF codec_ok_ref_deps mem_rocksdb_ok store_chain_ex] by blast
  with read_indexed_headers_safe [OF this] show ?thesis by blast
qed

text \<open>
  The set of indexed blocks that the bulk import skips is exact: the hashes of the headers
  that have a \<open>B\<close> row.
\<close>

lemma read_indexed_blockhashes_exact:
  assumes "codec_ok D" and "rocksdb_ok R c" and "header_rows_ok D (c (db_handle s))"
  shows "read_indexed_blockhashes D (db_read_store R) s =
           Ok {bitcoin_hash D h | h. db_get R s (row_key (block_row D h)) = Ok (Some (row_value (block_row D h)))}"
  using db.read_indexed_blockhashes_eq [OF assms] db.get_view [OF assms(2)]
  by (simp add: db_read_store_def)

end
