(* ===== verification/Json.thy ===== *)
theory Json
  imports Bitcoin
begin

text \<open>
  \<open>serde_json::Value\<close> and the accessors of it that \<open>daemon.rs\<close> and \<open>rpc.rs\<close> use. Integers are
  unbounded here and checked against the range of \<open>i64\<close> or \<open>u64\<close> where the code does; other numbers
  are opaque. Printing and parsing are arguments where they are used.
\<close>

datatype json =
    JNull
  | JBool bool
  | JInt int
  | JFloat string
  | JStr string
  | JArr "json list"
  | JObj "(string \<times> json) list"

fun as_str :: "json \<Rightarrow> string option" where
  "as_str (JStr s) = Some s"
| "as_str _ = None"

fun as_array :: "json \<Rightarrow> json list option" where
  "as_array (JArr xs) = Some xs"
| "as_array _ = None"

fun as_object :: "json \<Rightarrow> (string \<times> json) list option" where
  "as_object (JObj m) = Some m"
| "as_object _ = None"

fun as_i64 :: "json \<Rightarrow> int option" where
  "as_i64 (JInt i) = (if - (2 ^ 63) \<le> i \<and> i < 2 ^ 63 then Some i else None)"
| "as_i64 _ = None"

fun as_u64 :: "json \<Rightarrow> nat option" where
  "as_u64 (JInt i) = (if 0 \<le> i \<and> i < 2 ^ 64 then Some (nat i) else None)"
| "as_u64 _ = None"

fun as_bool :: "json \<Rightarrow> bool option" where
  "as_bool (JBool b) = Some b"
| "as_bool _ = None"

text \<open>\<open>Value::get\<close> with a string key.\<close>

fun json_get :: "json \<Rightarrow> string \<Rightarrow> json option" where
  "json_get (JObj m) k = map_of m k"
| "json_get _ k = None"

text \<open>An integer fits into every accessor that the code uses on it.\<close>

lemma as_u64_of_nat: "n < 2 ^ 64 \<Longrightarrow> as_u64 (JInt (int n)) = Some n"
proof -
  assume "n < 2 ^ 64"
  then have "int n < int (2 ^ 64)" by (simp only: of_nat_less_iff)
  then show ?thesis by simp
qed

section \<open>A concrete syntax\<close>

text \<open>
  A prefix code of JSON values, with its decoder, that stands in for \<open>serde_json\<close> in the closed
  examples. Every character it writes has a code of at least 64.
\<close>

definition enc_char :: "char \<Rightarrow> string" where
  "enc_char c = (let n = of_char c :: nat in [char_of (64 + n div 16), char_of (64 + n mod 16)])"

definition dec_char :: "char \<Rightarrow> char \<Rightarrow> char" where
  "dec_char a b = char_of (16 * (of_char a - 64) + (of_char b - 64 :: nat))"

primrec enc_str :: "string \<Rightarrow> string" where
  "enc_str [] = ''e''"
| "enc_str (c # s) = ''c'' @ enc_char c @ enc_str s"

fun dec_str :: "string \<Rightarrow> (string \<times> string) option" where
  "dec_str (t # r) =
     (if t = CHR ''e'' then Some ([], r)
      else case r of
          a # b # r' \<Rightarrow> map_option (\<lambda>(s, r''). (dec_char a b # s, r'')) (dec_str r')
        | _ \<Rightarrow> None)"
| "dec_str [] = None"

function enc_json :: "json \<Rightarrow> string" where
  "enc_json JNull = ''n''"
| "enc_json (JBool b) = (if b then ''t'' else ''f'')"
| "enc_json (JInt i) = (if i < 0 then ''m'' else ''p'') @ enc_str (show_nat (nat \<bar>i\<bar>))"
| "enc_json (JFloat s) = ''d'' @ enc_str s"
| "enc_json (JStr s) = ''s'' @ enc_str s"
| "enc_json (JArr []) = ''a''"
| "enc_json (JArr (x # xs)) = ''b'' @ enc_json x @ enc_json (JArr xs)"
| "enc_json (JObj []) = ''o''"
| "enc_json (JObj ((k, v) # m)) = ''q'' @ enc_str k @ enc_json v @ enc_json (JObj m)"
  by pat_completeness auto
termination by (relation "measure size") auto

text \<open>The decoder, with the number of values it may read as fuel; the length of the text is enough.\<close>

fun dec_json :: "nat \<Rightarrow> string \<Rightarrow> (json \<times> string) option" where
  "dec_json (Suc n) (t # r) =
     (if t = CHR ''n'' then Some (JNull, r)
      else if t = CHR ''t'' then Some (JBool True, r)
      else if t = CHR ''f'' then Some (JBool False, r)
      else if t = CHR ''p'' then Option.bind (dec_str r) (\<lambda>(s, r). map_option (\<lambda>k. (JInt (int k), r)) (foldl parse_digit (Some 0) s))
      else if t = CHR ''m'' then Option.bind (dec_str r) (\<lambda>(s, r). map_option (\<lambda>k. (JInt (- int k), r)) (foldl parse_digit (Some 0) s))
      else if t = CHR ''d'' then map_option (\<lambda>(s, r). (JFloat s, r)) (dec_str r)
      else if t = CHR ''s'' then map_option (\<lambda>(s, r). (JStr s, r)) (dec_str r)
      else if t = CHR ''a'' then Some (JArr [], r)
      else if t = CHR ''o'' then Some (JObj [], r)
      else if t = CHR ''b'' then
        Option.bind (dec_json n r) (\<lambda>(x, r). Option.bind (dec_json n r) (\<lambda>(xs, r).
          case xs of JArr ys \<Rightarrow> Some (JArr (x # ys), r) | _ \<Rightarrow> None))
      else if t = CHR ''q'' then
        Option.bind (dec_str r) (\<lambda>(k, r). Option.bind (dec_json n r) (\<lambda>(x, r). Option.bind (dec_json n r) (\<lambda>(xs, r).
          case xs of JObj m \<Rightarrow> Some (JObj ((k, x) # m), r) | _ \<Rightarrow> None)))
      else None)"
| "dec_json _ _ = None"

lemma enc_char_codes:
  "of_char (char_of (64 + of_char c div 16 :: nat) :: char) = (64 + of_char c div 16 :: nat)"
  "of_char (char_of (64 + of_char c mod 16 :: nat) :: char) = (64 + of_char c mod 16 :: nat)"
proof -
  have "of_char c < (256 :: nat)" by simp
  then have "of_char c div 16 < (16 :: nat)" by (simp only: div_less_iff_less_mult)
  then show "of_char (char_of (64 + of_char c div 16 :: nat) :: char) = (64 + of_char c div 16 :: nat)" by simp
  have "of_char c mod 16 < (16 :: nat)" by simp
  then have "64 + of_char c mod 16 < (256 :: nat)" by linarith
  then show "of_char (char_of (64 + of_char c mod 16 :: nat) :: char) = (64 + of_char c mod 16 :: nat)" by simp
qed

lemma dec_enc_char: "enc_char c = [a, b] \<Longrightarrow> dec_char a b = c"
proof -
  assume ab: "enc_char c = [a, b]"
  then have "of_char a = (64 + of_char c div 16 :: nat)" "of_char b = (64 + of_char c mod 16 :: nat)"
    using enc_char_codes [of c] by (auto simp: enc_char_def Let_def)
  then show ?thesis by (simp add: dec_char_def)
qed

lemma dec_enc_str: "dec_str (enc_str s @ r) = Some (s, r)"
proof (induction s)
  case (Cons c s)
  obtain a b where ab: "enc_char c = [a, b]" by (simp add: enc_char_def Let_def)
  with Cons dec_enc_char [OF ab] show ?case by simp
qed simp

lemma dec_enc_json: "size j < n \<Longrightarrow> dec_json n (enc_json j @ r) = Some (j, r)"
proof (induction j arbitrary: n r rule: enc_json.induct)
  case (3 i)
  then show ?case by (cases n) (auto simp: dec_enc_str foldl_parse_show_nat)
next
  case (7 x xs)
  then show ?case by (cases n) auto
next
  case (9 k v m)
  then show ?case by (cases n) (auto simp: dec_enc_str)
qed (auto simp: dec_enc_str gr0_conv_Suc less_Suc_eq_0_disj elim: less_natE)

lemma length_enc_str: "length (enc_str s) = 3 * length s + 1"
  by (induction s) (simp_all add: enc_char_def Let_def)

lemma length_enc_json: "size j \<le> length (enc_json j)"
proof (induction j rule: enc_json.induct)
  case (9 k v m)
  then show ?case using length_enc_str [of k] by (simp add: length_enc_str)
qed auto

definition parse_json :: "string \<Rightarrow> json option" where
  "parse_json s = map_option fst (dec_json (Suc (length s)) s)"

lemma parse_enc_json: "parse_json (enc_json j) = Some j"
  using dec_enc_json [of j "Suc (length (enc_json j))" "[]"] length_enc_json [of j]
  by (simp add: parse_json_def)

lemma parse_enc_json_append: "parse_json (enc_json j @ r) = Some j"
  using dec_enc_json [of j "Suc (length (enc_json j @ r))" r] length_enc_json [of j]
  by (simp add: parse_json_def)

lemma enc_char_range: "\<forall>x \<in> set (enc_char c). 64 \<le> (of_char x :: nat)"
  unfolding enc_char_def Let_def using enc_char_codes [of c] by (simp only: list.set) auto

lemma enc_str_range: "\<forall>x \<in> set (enc_str s). 64 \<le> (of_char x :: nat)"
  using enc_char_range by (induction s) auto

lemma enc_json_range: "\<forall>x \<in> set (enc_json j). 64 \<le> (of_char x :: nat)"
  using enc_str_range by (induction j rule: enc_json.induct) auto

lemma enc_char_ascii: "\<forall>x \<in> set (enc_char c). of_char x < (128 :: nat)"
proof -
  have "of_char c < (256 :: nat)" by simp
  then have "of_char c div 16 < (16 :: nat)" by (simp only: div_less_iff_less_mult)
  moreover have "of_char c mod 16 < (16 :: nat)" by simp
  ultimately show ?thesis
    unfolding enc_char_def Let_def using enc_char_codes [of c] by (simp only: list.set) auto
qed

lemma enc_str_ascii: "\<forall>x \<in> set (enc_str s). of_char x < (128 :: nat)"
  using enc_char_ascii by (induction s) auto

lemma enc_json_ascii: "\<forall>x \<in> set (enc_json j). of_char x < (128 :: nat)"
  using enc_str_ascii by (induction j rule: enc_json.induct) auto

lemma enc_json_nonempty: "enc_json j \<noteq> []"
  by (cases j rule: enc_json.cases) auto

end
