(* ===== verification/Signal.thy ===== *)
theory Signal
  imports Prelude
begin

text \<open>
  \<open>signal.rs\<close>: waiting for a signal. For the code that waits, the channel from the signal handler is part of
  the environment \<open>'e\<close>; the argument \<open>recv_timeout\<close> is \<open>crossbeam_channel\<close>'s receive with a timeout in seconds.
  The thread of \<open>notify\<close> that fills the channel, of one place, is a step relation: signals are received in
  the order in which they arrive, and none is lost or received twice.
\<close>

section \<open>Waiting\<close>

datatype recv_result = Received int | Timeout | Disconnected

definition Waiter_wait :: "('e \<Rightarrow> nat \<Rightarrow> recv_result \<times> 'e) \<Rightarrow> nat \<Rightarrow> ('e, unit) prog" where
  "Waiter_wait recv_timeout secs = (\<lambda>e.
     (case recv_timeout e secs of
        (Received sig, e) \<Rightarrow> Some (bail (Interrupt sig), e)
      | (Timeout, e) \<Rightarrow> Some (Ok (), e)
      | (Disconnected, e) \<Rightarrow> Some (bail (Msg ''signal hook channel disconnected''), e)))"

definition Waiter_poll :: "('e \<Rightarrow> nat \<Rightarrow> recv_result \<times> 'e) \<Rightarrow> ('e, unit) prog" where
  "Waiter_poll recv_timeout = Waiter_wait recv_timeout 0"

text \<open>Waiting always returns, never panics, and fails exactly when a signal came or the channel is gone.\<close>

lemma Waiter_wait_returns:
  "\<exists>r. Waiter_wait recv_timeout secs e = Some (r, snd (recv_timeout e secs)) \<and> \<not> panics r \<and>
       (is_ok r \<longleftrightarrow> fst (recv_timeout e secs) = Timeout)"
  by (cases "recv_timeout e secs"; cases "fst (recv_timeout e secs)")
     (auto simp: Waiter_wait_def bail_def)

section \<open>The thread that forwards signals\<close>

text \<open>
  \<open>sg_pending\<close>: what \<open>signal_hook\<close> delivered to the thread and it has not sent yet; \<open>sg_slot\<close>: the
  channel; \<open>sg_signals\<close>: the signals registered. A send blocks while the channel is full. Every
  clone of the \<open>Waiter\<close> receives from the same channel.
\<close>

record signal_state =
  sg_signals :: "int set"
  sg_pending :: "int list"
  sg_slot :: "int option"

definition notify :: "int list \<Rightarrow> signal_state" where
  "notify signals = \<lparr>sg_signals = set signals, sg_pending = [], sg_slot = None\<rparr>"

text \<open>\<open>SIGINT\<close> and \<open>SIGTERM\<close>.\<close>

definition Waiter_start :: signal_state where
  "Waiter_start = notify [2, 15]"

text \<open>The steps, with the signal that arrives from outside and the one that a waiter receives.\<close>

inductive signal_step :: "signal_state \<Rightarrow> int option \<Rightarrow> int option \<Rightarrow> signal_state \<Rightarrow> bool" where
  signal_arrive: "signal_step st (Some sig) None (st\<lparr>sg_pending := sg_pending st @ [sig]\<rparr>)" if "sig \<in> sg_signals st"
| signal_send: "signal_step st None None (st\<lparr>sg_pending := rest, sg_slot := Some sig\<rparr>)"
    if "sg_pending st = sig # rest" and "sg_slot st = None"
| signal_recv: "signal_step st None (Some sig) (st\<lparr>sg_slot := None\<rparr>)" if "sg_slot st = Some sig"

primrec opt_list :: "'a option \<Rightarrow> 'a list" where
  "opt_list None = []"
| "opt_list (Some x) = [x]"

inductive_cases signal_stepE: "signal_step st a r st'"

inductive signal_run :: "signal_state \<Rightarrow> int list \<Rightarrow> int list \<Rightarrow> signal_state \<Rightarrow> bool" where
  signal_start: "signal_run st [] [] st"
| signal_more: "signal_run st (arrived @ opt_list a) (received @ opt_list r) st''"
    if "signal_run st arrived received st'" and "signal_step st' a r st''"

text \<open>A poll of the channel: it fails exactly when a signal is there, and takes it out.\<close>

definition signal_recv_timeout :: "signal_state \<Rightarrow> nat \<Rightarrow> recv_result \<times> signal_state" where
  "signal_recv_timeout st secs =
     (case sg_slot st of None \<Rightarrow> (Timeout, st) | Some sig \<Rightarrow> (Received sig, st\<lparr>sg_slot := None\<rparr>))"

lemma poll_signal:
  "\<exists>r st'. Waiter_poll signal_recv_timeout st = Some (r, st') \<and>
     (case sg_slot st of
        None \<Rightarrow> r = Ok () \<and> st' = st
      | Some sig \<Rightarrow> r = bail (Interrupt sig) \<and> signal_step st None (Some sig) st')"
  by (auto simp: Waiter_poll_def Waiter_wait_def signal_recv_timeout_def intro: signal_recv split: option.splits)

text \<open>The signals received are the first ones that arrived, in order; the others are on their way.\<close>

lemma signal_run_fifo:
  assumes "signal_run st0 arrived received st" and "st0 = Waiter_start"
  shows "arrived = received @ opt_list (sg_slot st) @ sg_pending st \<and> sg_signals st = {2, 15} \<and> set arrived \<subseteq> {2, 15}"
  using assms
proof (induction rule: signal_run.induct)
  case (signal_more st arrived received st' a r st'')
  from signal_more.hyps(2) signal_more.IH [OF signal_more.prems] show ?case by (auto elim!: signal_stepE)
qed (simp add: Waiter_start_def notify_def)

end
