(* ===== verification/Cache.thy ===== *)
theory Cache
  imports Bitcoin
begin

text \<open>
  \<open>cache.rs\<close>: a least-recently-used cache bounded by the bytes of its values, and the cache of the
  transaction ids of a block. The crate \<open>lru\<close> is a parameter, the record \<open>lru\<close> of its calls;
  \<open>lru_ok\<close> is what it documents: the entries are a list in order of recency. Byte counts are 64-bit words,
  as \<open>usize\<close> is, and the lemmas show that their arithmetic never wraps. The eviction loop is a partial
  function; that it returns is proved. The locale \<open>memo_cache\<close> states what \<open>get_or_else\<close> relies on.
\<close>

section \<open>The crate\<close>

record ('k, 'v, 'l) lru =
  lru_unbounded :: 'l
  lru_get :: "'l \<Rightarrow> 'k \<Rightarrow> 'v option \<times> 'l"
  lru_put :: "'l \<Rightarrow> 'k \<Rightarrow> 'v \<Rightarrow> 'v option \<times> 'l"
  lru_pop_lru :: "'l \<Rightarrow> ('k \<times> 'v) option \<times> 'l"

definition drop_key :: "'k \<Rightarrow> ('k \<times> 'v) list \<Rightarrow> ('k \<times> 'v) list" where
  "drop_key k xs = filter (\<lambda>e. fst e \<noteq> k) xs"

text \<open>The entries, most recent first: a hit and a put move to the front, a pop takes the last.\<close>

definition lru_ok :: "('k, 'v, 'l) lru \<Rightarrow> ('l \<Rightarrow> ('k \<times> 'v) list) \<Rightarrow> bool" where
  "lru_ok L entries \<longleftrightarrow>
     entries (lru_unbounded L) = [] \<and>
     (\<forall>l k. fst (lru_get L l k) = map_of (entries l) k \<and>
        entries (snd (lru_get L l k)) =
          (case map_of (entries l) k of None \<Rightarrow> entries l | Some v \<Rightarrow> (k, v) # drop_key k (entries l))) \<and>
     (\<forall>l k v. fst (lru_put L l k v) = map_of (entries l) k \<and>
        entries (snd (lru_put L l k v)) = (k, v) # drop_key k (entries l)) \<and>
     (\<forall>l. fst (lru_pop_lru L l) = (if entries l = [] then None else Some (last (entries l))) \<and>
        entries (snd (lru_pop_lru L l)) = butlast (entries l))"

section \<open>The sized cache\<close>

record ('l) sized_lru_cache =
  slc_map :: 'l
  bytes_usage :: u64
  bytes_capacity :: u64

definition SizedLruCache_new :: "('k, 'v \<times> u64, 'l) lru \<Rightarrow> u64 \<Rightarrow> 'l sized_lru_cache" where
  "SizedLruCache_new L capacity =
     \<lparr>slc_map = lru_unbounded L, bytes_usage = 0, bytes_capacity = capacity\<rparr>"

definition SizedLruCache_get :: "('k, 'v \<times> u64, 'l) lru \<Rightarrow> 'l sized_lru_cache \<Rightarrow> 'k \<Rightarrow> 'v option \<times> 'l sized_lru_cache" where
  "SizedLruCache_get L c key =
     (case lru_get L (slc_map c) key of
        (None, l) \<Rightarrow> (None, c\<lparr>slc_map := l\<rparr>)
      | (Some (value, _), l) \<Rightarrow> (Some value, c\<lparr>slc_map := l\<rparr>))"

text \<open>The \<open>while\<close> loop that pops entries until the rest fits.\<close>

partial_function (option) evict :: "('k, 'v \<times> u64, 'l) lru \<Rightarrow> 'l sized_lru_cache \<Rightarrow> 'l sized_lru_cache option" where
  "evict L c =
     (if bytes_usage c > bytes_capacity c then
        (case lru_pop_lru L (slc_map c) of
           (Some (_, (_, popped_size)), l) \<Rightarrow>
             evict L (c\<lparr>slc_map := l, bytes_usage := bytes_usage c - popped_size\<rparr>)
         | (None, l) \<Rightarrow> Some (c\<lparr>slc_map := l\<rparr>))
      else Some c)"

definition SizedLruCache_put :: "('k, 'v \<times> u64, 'l) lru \<Rightarrow> 'l sized_lru_cache \<Rightarrow> 'k \<Rightarrow> 'v \<Rightarrow> u64 \<Rightarrow>
    'l sized_lru_cache option" where
  "SizedLruCache_put L c key value byte_size =
     (if byte_size > bytes_capacity c then Some c
      else (let (old, l) = lru_put L (slc_map c) key (value, byte_size);
                usage = (case old of Some (_, popped_size) \<Rightarrow> bytes_usage c - popped_size | None \<Rightarrow> bytes_usage c)
            in evict L (c\<lparr>slc_map := l, bytes_usage := usage + byte_size\<rparr>)))"

section \<open>The cache of transaction ids\<close>

text \<open>\<open>get_or_else\<close>, over the two operations of the cache behind the mutex.\<close>

definition get_or_else_with :: "('c \<Rightarrow> hash \<Rightarrow> hash list option \<times> 'c) \<Rightarrow> ('c \<Rightarrow> hash \<Rightarrow> hash list \<Rightarrow> u64 \<Rightarrow> 'c option) \<Rightarrow>
    hash \<Rightarrow> ('d, hash list) prog \<Rightarrow> ('c \<times> 'd, hash list) prog" where
  "get_or_else_with cget cput blockhash load_txids = (\<lambda>(c, d).
     (case cget c blockhash of
        (Some txids, c) \<Rightarrow> Some (Ok txids, (c, d))
      | (None, c) \<Rightarrow>
          (case load_txids d of
             None \<Rightarrow> None
           | Some (Err e, d) \<Rightarrow> Some (Err e, (c, d))
           | Some (Panic p, d) \<Rightarrow> Some (Panic p, (c, d))
           | Some (Ok txids, d) \<Rightarrow>
               (let byte_size = 32 * (1 + of_nat (length txids))
                in case cput c blockhash txids byte_size of
                     None \<Rightarrow> None
                   | Some c \<Rightarrow> Some (Ok txids, (c, d))))))"

definition BlockTxIDsCache_new :: "(hash, hash list \<times> u64, 'l) lru \<Rightarrow> u64 \<Rightarrow> 'l sized_lru_cache" where
  "BlockTxIDsCache_new L capacity = SizedLruCache_new L capacity"

definition get_or_else :: "(hash, hash list \<times> u64, 'l) lru \<Rightarrow> hash \<Rightarrow> ('d, hash list) prog \<Rightarrow>
    ('l sized_lru_cache \<times> 'd, hash list) prog" where
  "get_or_else L = get_or_else_with (SizedLruCache_get L) (SizedLruCache_put L)"

section \<open>The invariant\<close>

definition total_size :: "('k \<times> 'v \<times> u64) list \<Rightarrow> nat" where
  "total_size xs = (\<Sum>e\<leftarrow>xs. unat (snd (snd e)))"

definition cache_inv :: "('l \<Rightarrow> ('k \<times> 'v \<times> u64) list) \<Rightarrow> 'l sized_lru_cache \<Rightarrow> bool" where
  "cache_inv entries c \<longleftrightarrow> distinct (map fst (entries (slc_map c))) \<and>
     unat (bytes_usage c) = total_size (entries (slc_map c)) \<and>
     total_size (entries (slc_map c)) \<le> unat (bytes_capacity c) \<and> unat (bytes_capacity c) < 2 ^ 63"

text \<open>The reference: the longest run of most recent entries that fits into a number of bytes.\<close>

function fit :: "nat \<Rightarrow> ('k \<times> 'v \<times> u64) list \<Rightarrow> ('k \<times> 'v \<times> u64) list" where
  "fit n xs = (if total_size xs \<le> n \<or> xs = [] then xs else fit n (butlast xs))"
  by pat_completeness auto
termination by (relation "measure (\<lambda>(n, xs). length xs)") auto

declare fit.simps [simp del]

lemma total_size_simps [simp]:
  "total_size [] = 0" "total_size (e # xs) = unat (snd (snd e)) + total_size xs"
  "total_size (xs @ ys) = total_size xs + total_size ys"
  by (simp_all add: total_size_def)

lemma total_size_last: "xs \<noteq> [] \<Longrightarrow> total_size xs = total_size (butlast xs) + unat (snd (snd (last xs)))"
  by (cases xs rule: rev_cases) auto

lemma total_size_drop_key:
  "distinct (map fst xs) \<Longrightarrow>
     total_size xs = total_size (drop_key k xs) + (case map_of xs k of None \<Rightarrow> 0 | Some v \<Rightarrow> unat (snd v))"
proof (induction xs)
  case (Cons e xs)
  have fresh: "drop_key k ys = ys" if "k \<notin> fst ` set ys" for ys :: "('a \<times> 'b \<times> u64) list"
    using that unfolding drop_key_def by (intro filter_True) auto
  show ?case
  proof (cases "fst e = k")
    case True
    then have "k \<notin> fst ` set xs" using Cons.prems by auto
    then show ?thesis using True fresh [of xs] by (cases e) (simp add: drop_key_def)
  next
    case False
    then show ?thesis using Cons by (cases e) (auto simp: drop_key_def)
  qed
qed (simp add: drop_key_def)

lemma fit_prefix: "\<exists>ys. xs = fit n xs @ ys"
proof (induction n xs rule: fit.induct)
  case (1 n xs)
  show ?case
  proof (cases "total_size xs \<le> n \<or> xs = []")
    case False
    with 1 obtain ys where ys: "butlast xs = fit n (butlast xs) @ ys" by blast
    have fit: "fit n xs = fit n (butlast xs)" using False by (subst fit.simps) simp
    have "butlast xs @ [last xs] = xs" using False by simp
    then have "xs = fit n xs @ (ys @ [last xs])" using ys unfolding fit by (metis append.assoc)
    then show ?thesis by blast
  qed (subst fit.simps, simp)
qed

lemma total_size_fit: "total_size (fit n xs) \<le> n"
proof (induction n xs rule: fit.induct)
  case (1 n xs)
  then show ?case by (subst fit.simps) auto
qed

text \<open>Nothing more would have fitted.\<close>

lemma fit_maximal: "xs = fit n xs @ y # ys \<Longrightarrow> n < total_size (fit n xs) + unat (snd (snd y))"
proof (induction n xs arbitrary: ys rule: fit.induct)
  case (1 n xs)
  show ?case
  proof (cases "total_size xs \<le> n \<or> xs = []")
    case False
    then have fit: "fit n xs = fit n (butlast xs)" by (subst fit.simps) simp
    show ?thesis
    proof (cases ys rule: rev_cases)
      case Nil
      then have "butlast xs = fit n (butlast xs)" and "last xs = y"
        using 1(2) fit by (metis butlast_snoc, metis last_snoc)
      then show ?thesis using False total_size_last [of xs] fit by simp
    next
      case (snoc zs z)
      then have "butlast xs = fit n (butlast xs) @ y # zs"
        using 1(2) fit by (metis butlast_append butlast_snoc list.distinct(1) append_Cons append_is_Nil_conv)
      with 1(1) False fit show ?thesis by simp
    qed
  qed (use 1(2) in \<open>subst (asm) fit.simps, auto\<close>)
qed

lemma fit_keeps_head:
  assumes "unat (snd (snd e)) \<le> n"
  shows "\<exists>ys. fit n (e # xs) = e # ys"
proof -
  obtain zs where zs: "e # xs = fit n (e # xs) @ zs" using fit_prefix by blast
  show ?thesis
  proof (cases "fit n (e # xs)")
    case Nil
    with zs fit_maximal [of "e # xs" n e xs] assms show ?thesis by simp
  qed (use zs in auto)
qed

section \<open>Correctness of the operations\<close>

lemma evict_fit:
  assumes "lru_ok L entries" and "unat (bytes_usage c) = total_size (entries (slc_map c))"
  shows "\<exists>c'. evict L c = Some c' \<and> entries (slc_map c') = fit (unat (bytes_capacity c)) (entries (slc_map c)) \<and>
     unat (bytes_usage c') = total_size (entries (slc_map c')) \<and> bytes_capacity c' = bytes_capacity c"
  using assms(2)
proof (induction "length (entries (slc_map c))" arbitrary: c)
  case 0
  then show ?case by (simp add: evict.simps fit.simps word_less_nat_alt)
next
  case (Suc n)
  let ?xs = "entries (slc_map c)"
  have ne: "?xs \<noteq> []" using Suc.hyps(2) by auto
  show ?case
  proof (cases "bytes_usage c > bytes_capacity c")
    case False
    then show ?thesis using Suc.prems
      by (simp add: evict.simps fit.simps word_less_nat_alt not_less)
  next
    case True
    obtain k v sz where last: "last ?xs = (k, v, sz)" by (cases "last ?xs")
    obtain l where pop: "lru_pop_lru L (slc_map c) = (Some (k, v, sz), l)" "entries l = butlast ?xs"
      using assms(1) ne last unfolding lru_ok_def by (metis prod.collapse)
    let ?c = "c\<lparr>slc_map := l, bytes_usage := bytes_usage c - sz\<rparr>"
    have sz: "total_size ?xs = total_size (butlast ?xs) + unat sz"
      using total_size_last [OF ne] last by simp
    then have "unat (bytes_usage c - sz) = total_size (butlast ?xs)"
      using Suc.prems by (simp add: unat_sub word_le_nat_alt)
    then have "\<exists>c'. evict L ?c = Some c' \<and> entries (slc_map c') = fit (unat (bytes_capacity ?c)) (entries (slc_map ?c)) \<and>
       unat (bytes_usage c') = total_size (entries (slc_map c')) \<and> bytes_capacity c' = bytes_capacity ?c"
      using Suc.hyps(2) pop(2) by (intro Suc.hyps(1)) auto
    moreover have "evict L c = evict L ?c" using True pop(1) by (subst evict.simps) simp
    moreover have "fit (unat (bytes_capacity c)) ?xs = fit (unat (bytes_capacity c)) (butlast ?xs)"
      using True Suc.prems ne by (subst fit.simps) (simp add: word_less_nat_alt)
    ultimately show ?thesis using pop(2) by simp
  qed
qed

lemma map_of_drop_key: "map_of (drop_key k xs) = (map_of xs)(k := None)"
  by (induction xs) (auto simp: drop_key_def fun_eq_iff)

lemma distinct_drop_key: "distinct (map fst xs) \<Longrightarrow> distinct (map fst (drop_key k xs)) \<and> k \<notin> fst ` set (drop_key k xs)"
  unfolding drop_key_def by (auto simp: distinct_map_filter)

lemma SizedLruCache_put_fit:
  assumes L: "lru_ok L entries" and inv: "cache_inv entries c" and size: "byte_size \<le> bytes_capacity c"
  shows "\<exists>c'. SizedLruCache_put L c key value byte_size = Some c' \<and> cache_inv entries c' \<and>
     bytes_capacity c' = bytes_capacity c \<and>
     entries (slc_map c') =
       fit (unat (bytes_capacity c)) ((key, value, byte_size) # drop_key key (entries (slc_map c)))"
proof -
  let ?xs = "entries (slc_map c)" and ?new = "(key, value, byte_size) # drop_key key (entries (slc_map c))"
  obtain l where put: "lru_put L (slc_map c) key (value, byte_size) = (map_of ?xs key, l)" "entries l = ?new"
    using L unfolding lru_ok_def by (metis prod.collapse)
  have dist: "distinct (map fst ?xs)" and usage: "unat (bytes_usage c) = total_size ?xs"
    and cap: "total_size ?xs \<le> unat (bytes_capacity c)" "unat (bytes_capacity c) < 2 ^ 63"
    using inv by (auto simp: cache_inv_def)
  let ?usage = "case map_of ?xs key of Some (_, popped_size) \<Rightarrow> bytes_usage c - popped_size | None \<Rightarrow> bytes_usage c"
  note dk = total_size_drop_key [OF dist, of key]
  have u: "unat ?usage = total_size (drop_key key ?xs)"
    using dk usage by (auto simp: unat_sub word_le_nat_alt split: option.splits)
  have "unat byte_size \<le> unat (bytes_capacity c)" using size by (simp add: word_le_nat_alt)
  then have "unat ?usage + unat byte_size < 2 ^ 64"
    using u dk cap by simp
  then have u': "unat (?usage + byte_size) = total_size ?new"
    using u by (simp add: unat_add_lem [THEN iffD1])
  let ?c = "c\<lparr>slc_map := l, bytes_usage := ?usage + byte_size\<rparr>"
  obtain c' where c': "evict L ?c = Some c'" "entries (slc_map c') = fit (unat (bytes_capacity c)) ?new"
     "unat (bytes_usage c') = total_size (entries (slc_map c'))" "bytes_capacity c' = bytes_capacity c"
    using evict_fit [OF L, of ?c] u' put(2) by auto
  have "SizedLruCache_put L c key value byte_size = Some c'"
    using size put(1) c'(1) by (simp add: SizedLruCache_put_def not_less)
  moreover have "distinct (map fst (fit (unat (bytes_capacity c)) ?new))"
  proof -
    obtain ys where "?new = fit (unat (bytes_capacity c)) ?new @ ys" using fit_prefix by blast
    moreover have "distinct (map fst ?new)" using distinct_drop_key [OF dist] by simp
    ultimately show ?thesis by (metis distinct_append map_append)
  qed
  ultimately show ?thesis
    using c' cap(2) total_size_fit [of "unat (bytes_capacity c)" ?new] by (auto simp: cache_inv_def)
qed

lemma SizedLruCache_get_spec:
  assumes L: "lru_ok L entries" and inv: "cache_inv entries c"
  shows "fst (SizedLruCache_get L c key) = map_option fst (map_of (entries (slc_map c)) key) \<and>
     cache_inv entries (snd (SizedLruCache_get L c key)) \<and>
     map_of (entries (slc_map (snd (SizedLruCache_get L c key)))) = map_of (entries (slc_map c)) \<and>
     bytes_capacity (snd (SizedLruCache_get L c key)) = bytes_capacity c"
proof -
  let ?xs = "entries (slc_map c)"
  obtain l where get: "lru_get L (slc_map c) key = (map_of ?xs key, l)"
    and l: "entries l = (case map_of ?xs key of None \<Rightarrow> ?xs | Some v \<Rightarrow> (key, v) # drop_key key ?xs)"
    using L unfolding lru_ok_def by (metis prod.collapse)
  have dist: "distinct (map fst ?xs)" using inv by (simp add: cache_inv_def)
  show ?thesis
  proof (cases "map_of ?xs key")
    case None
    then show ?thesis using get l inv by (simp add: SizedLruCache_get_def cache_inv_def)
  next
    case (Some v)
    then show ?thesis
      using get l inv total_size_drop_key [OF dist, of key] distinct_drop_key [OF dist, of key]
      by (cases v) (auto simp: SizedLruCache_get_def cache_inv_def map_of_drop_key)
  qed
qed

section \<open>What \<open>get_or_else\<close> relies on\<close>

text \<open>
  A cache may forget, but what it returns was put under that key. The law of \<open>cput\<close> is for a key that
  is not cached: a value too large for the cache leaves an older value of its key in place.
\<close>

locale memo_cache =
  fixes cget :: "'c \<Rightarrow> hash \<Rightarrow> hash list option \<times> 'c"
    and cput :: "'c \<Rightarrow> hash \<Rightarrow> hash list \<Rightarrow> u64 \<Rightarrow> 'c option"
    and cached :: "'c \<Rightarrow> hash \<rightharpoonup> hash list"
    and cinv :: "'c \<Rightarrow> bool"
  assumes get_law: "cinv c \<Longrightarrow> fst (cget c k) = cached c k \<and> cinv (snd (cget c k)) \<and> cached (snd (cget c k)) = cached c"
    and put_law: "cinv c \<Longrightarrow> cached c k = None \<Longrightarrow> \<exists>c'. cput c k v n = Some c' \<and> cinv c' \<and> cached c' \<subseteq>\<^sub>m (cached c)(k \<mapsto> v)"
begin

text \<open>A lookup answers what the loader would, for every function \<open>f\<close> that the cached values agree with.\<close>

lemma get_or_else_correct:
  assumes "cinv c" and "cached c \<subseteq>\<^sub>m (\<lambda>b. Some (f b))"
    and "\<And>txids d'. load d = Some (Ok txids, d') \<Longrightarrow> txids = f b"
    and "get_or_else_with cget cput b load (c, d) = Some (r, (c', d'))"
  shows "cinv c' \<and> cached c' \<subseteq>\<^sub>m (\<lambda>b. Some (f b)) \<and> (\<forall>txids. r = Ok txids \<longrightarrow> txids = f b) \<and>
    (is_ok r \<longleftrightarrow> cached c b \<noteq> None \<or> (\<exists>txids d'. load d = Some (Ok txids, d')))"
proof -
  obtain x c1 where get: "cget c b = (x, c1)" by (cases "cget c b")
  with get_law [OF assms(1), of b] have c1: "cached c b = x" "cinv c1" "cached c1 = cached c" by auto
  show ?thesis
  proof (cases x)
    case (Some txids)
    with c1(1) have "b \<in> dom (cached c)" "cached c b = Some txids" by auto
    with assms(2) have "txids = f b" by (auto simp: map_le_def)
    with Some get c1 assms(2,4) show ?thesis by (auto simp: get_or_else_with_def)
  next
    case None
    obtain r1 d1 where load: "load d = Some (r1, d1)" "\<And>txids. r1 = Ok txids \<Longrightarrow> txids = f b"
      using assms(3,4) None get by (cases "load d") (auto simp: get_or_else_with_def)
    show ?thesis
    proof (cases r1)
      case (Ok txids)
      let ?n = "32 * (1 + of_nat (length txids)) :: u64"
      obtain c2 where c2: "cput c1 b txids ?n = Some c2" "cinv c2" "cached c2 \<subseteq>\<^sub>m (cached c)(b \<mapsto> txids)"
        using put_law [OF c1(2), of b txids ?n] c1(1,3) None by auto
      have "(cached c)(b \<mapsto> txids) \<subseteq>\<^sub>m (\<lambda>b. Some (f b))"
        using assms(2) load(2) [OF Ok] by (auto simp: map_le_def)
      with c2(3) have "cached c2 \<subseteq>\<^sub>m (\<lambda>b. Some (f b))" by (rule map_le_trans)
      with None get load Ok c2 assms(4) show ?thesis by (auto simp: get_or_else_with_def Let_def)
    qed (use None get load c1 assms(2,4) in \<open>auto simp: get_or_else_with_def\<close>)
  qed
qed

text \<open>It calls the loader only for what is not cached, and then its answer does not depend on the cache.\<close>

lemma get_or_else_returns:
  assumes "cinv c"
  shows "get_or_else_with cget cput b load (c, d) \<noteq> None \<longleftrightarrow> cached c b \<noteq> None \<or> load d \<noteq> None"
proof -
  obtain x c1 where get: "cget c b = (x, c1)" by (cases "cget c b")
  with get_law [OF assms, of b] have c1: "cached c b = x" "cinv c1" by auto
  have "cput c1 b v n \<noteq> None" if "x = None" for v n
    using put_law [OF c1(2), of b v n] get_law [OF assms, of b] c1(1) get that by auto
  then show ?thesis
  proof (cases x)
    case None
    with \<open>\<And>n v. x = None \<Longrightarrow> cput c1 b v n \<noteq> None\<close> have put: "\<exists>y. cput c1 b v n = Some y" for v n by auto
    show ?thesis
    proof (cases "load d")
      case (Some p)
      obtain r d' where p: "p = (r, d')" by (cases p)
      show ?thesis
      proof (cases r)
        case (Ok txids)
        with put [of txids "32 * (1 + of_nat (length txids))"] None get Some p show ?thesis
          by (auto simp: get_or_else_with_def)
      qed (use None get Some p in \<open>auto simp: get_or_else_with_def\<close>)
    qed (use None get c1(1) in \<open>simp add: get_or_else_with_def\<close>)
  qed (use get c1(1) in \<open>simp add: get_or_else_with_def\<close>)
qed

end

definition cached_in :: "('l \<Rightarrow> ('k \<times> 'v \<times> u64) list) \<Rightarrow> 'l sized_lru_cache \<Rightarrow> 'k \<rightharpoonup> 'v" where
  "cached_in entries c k = map_option fst (map_of (entries (slc_map c)) k)"

lemma fit_map_le: "distinct (map fst xs) \<Longrightarrow> map_of (fit n xs) \<subseteq>\<^sub>m map_of xs"
proof -
  assume dist: "distinct (map fst xs)"
  obtain ys where ys: "xs = fit n xs @ ys" using fit_prefix by blast
  have "map_of xs k = Some v" if "map_of (fit n xs) k = Some v" for k v
  proof -
    have "(k, v) \<in> set xs" using that ys by (metis UnI1 map_of_SomeD set_append)
    with dist show ?thesis by simp
  qed
  then show ?thesis by (rule map_le_SomeI)
qed

lemma put_cached:
  assumes "lru_ok L entries" and "cache_inv entries c" and "cached_in entries c k = None"
  shows "\<exists>c'. SizedLruCache_put L c k v n = Some c' \<and> cache_inv entries c' \<and>
     cached_in entries c' \<subseteq>\<^sub>m (cached_in entries c)(k \<mapsto> v)"
proof (cases "n \<le> bytes_capacity c")
  case False
  then have "SizedLruCache_put L c k v n = Some c" by (simp add: SizedLruCache_put_def not_le)
  moreover have "cached_in entries c \<subseteq>\<^sub>m (cached_in entries c)(k \<mapsto> v)"
    using assms(3) by (auto simp: map_le_def)
  ultimately show ?thesis using assms(2) by blast
next
  case True
  let ?new = "(k, v, n) # drop_key k (entries (slc_map c))"
  from SizedLruCache_put_fit [OF assms(1,2) True] obtain c' where
    c': "SizedLruCache_put L c k v n = Some c'" "cache_inv entries c'"
    "entries (slc_map c') = fit (unat (bytes_capacity c)) ?new" by blast
  have "distinct (map fst ?new)"
    using assms(2) distinct_drop_key [of "entries (slc_map c)" k] by (simp add: cache_inv_def)
  from fit_map_le [OF this] have "map_of (entries (slc_map c')) \<subseteq>\<^sub>m map_of ?new" unfolding c'(3) .
  then have "cached_in entries c' x = Some y \<Longrightarrow> ((cached_in entries c)(k \<mapsto> v)) x = Some y" for x y
    unfolding cached_in_def
    by (auto simp: map_le_def dom_def map_of_drop_key split: if_splits)
  then have "cached_in entries c' \<subseteq>\<^sub>m (cached_in entries c)(k \<mapsto> v)"
    by (rule map_le_SomeI)
  with c' show ?thesis by blast
qed

interpretation txids: memo_cache "SizedLruCache_get L" "SizedLruCache_put L" "cached_in entries"
  "\<lambda>c. lru_ok L entries \<and> cache_inv entries c"
  for L :: "(hash, hash list \<times> u64, 'l) lru" and entries
proof unfold_locales
  fix c k assume "lru_ok L entries \<and> cache_inv entries c"
  then show "fst (SizedLruCache_get L c k) = cached_in entries c k \<and>
      (lru_ok L entries \<and> cache_inv entries (snd (SizedLruCache_get L c k))) \<and>
      cached_in entries (snd (SizedLruCache_get L c k)) = cached_in entries c"
    using SizedLruCache_get_spec [of L entries c k] by (auto simp: cached_in_def [abs_def])
next
  fix c k v n assume "lru_ok L entries \<and> cache_inv entries c" "cached_in entries c k = None"
  then show "\<exists>c'. SizedLruCache_put L c k v n = Some c' \<and> (lru_ok L entries \<and> cache_inv entries c') \<and>
      cached_in entries c' \<subseteq>\<^sub>m (cached_in entries c)(k \<mapsto> v)"
    using put_cached [of L entries c k v n] by auto
qed

section \<open>Properties\<close>

text \<open>A list in order of recency, for the closed examples.\<close>

definition list_lru :: "('k, 'v, ('k \<times> 'v) list) lru" where
  "list_lru = \<lparr>
     lru_unbounded = [],
     lru_get = (\<lambda>l k. (map_of l k, case map_of l k of None \<Rightarrow> l | Some v \<Rightarrow> (k, v) # drop_key k l)),
     lru_put = (\<lambda>l k v. (map_of l k, (k, v) # drop_key k l)),
     lru_pop_lru = (\<lambda>l. (if l = [] then None else Some (last l), butlast l))\<rparr>"

lemma list_lru_ok: "lru_ok list_lru (\<lambda>l. l)"
  by (auto simp: lru_ok_def list_lru_def split: option.splits)

lemma cache_inv_new: "lru_ok L entries \<Longrightarrow> unat cap < 2 ^ 63 \<Longrightarrow> cache_inv entries (SizedLruCache_new L cap)"
  by (simp add: cache_inv_def SizedLruCache_new_def lru_ok_def)

text \<open>
  C34: The bound of the cache. A put of a value that fits returns (the eviction loop ends), keeps the
  count of bytes equal to the sum of the sizes and within the capacity with no wrap-around, and leaves
  exactly the longest run of most recently used entries that fits, the new one first.
\<close>

theorem cache_put_bounded:
  assumes "lru_ok L entries" and "cache_inv entries c" and "byte_size \<le> bytes_capacity c"
  shows "\<exists>c' ys. SizedLruCache_put L c key value byte_size = Some c' \<and> cache_inv entries c' \<and>
     bytes_usage c' \<le> bytes_capacity c' \<and>
     entries (slc_map c') = fit (unat (bytes_capacity c)) ((key, value, byte_size) # drop_key key (entries (slc_map c))) \<and>
     entries (slc_map c') = (key, value, byte_size) # ys"
proof -
  obtain c' where c': "SizedLruCache_put L c key value byte_size = Some c'" "cache_inv entries c'"
    "entries (slc_map c') = fit (unat (bytes_capacity c)) ((key, value, byte_size) # drop_key key (entries (slc_map c)))"
    using SizedLruCache_put_fit [OF assms] by blast
  moreover have "bytes_usage c' \<le> bytes_capacity c'"
    using c'(2) by (simp add: cache_inv_def word_le_nat_alt)
  ultimately show ?thesis
    using fit_keeps_head [of "(key, value, byte_size)" "unat (bytes_capacity c)"] assms(3)
    by (simp add: word_le_nat_alt)
qed

theorem cache_put_bounded_witness:
  "\<exists>c' ys. SizedLruCache_put list_lru (SizedLruCache_new list_lru 100) (1 :: nat) (10 :: nat) 50 = Some c' \<and>
     slc_map c' = (1, 10, 50) # ys"
proof -
  have "\<exists>c' ys. SizedLruCache_put list_lru (SizedLruCache_new list_lru 100) (1 :: nat) (10 :: nat) 50 = Some c' \<and>
      cache_inv (\<lambda>l. l) c' \<and> bytes_usage c' \<le> bytes_capacity c' \<and>
      slc_map c' = fit (unat (bytes_capacity (SizedLruCache_new list_lru 100 :: (nat \<times> nat \<times> u64) list sized_lru_cache)))
        ((1, 10, 50) # drop_key 1 (slc_map (SizedLruCache_new list_lru 100))) \<and>
      slc_map c' = (1, 10, 50) # ys"
    by (rule cache_put_bounded [OF list_lru_ok cache_inv_new [OF list_lru_ok]])
       (simp_all add: SizedLruCache_new_def)
  then show ?thesis by blast
qed

text \<open>
  The cache is transparent. If the loader can only return the transaction ids \<open>f b\<close> of the
  block asked for and the cache holds nothing else, then every answer of \<open>get_or_else\<close> is \<open>f b\<close>, the
  cache still holds nothing else, an error of the loader is not cached, and the call returns whenever
  the block is cached or the loader returns.
\<close>

lemma get_or_else_transparent:
  assumes "lru_ok L entries" and "cache_inv entries c" and "cached_in entries c \<subseteq>\<^sub>m (\<lambda>b. Some (f b))"
    and "\<And>txids d'. load d = Some (Ok txids, d') \<Longrightarrow> txids = f b"
    and "cached_in entries c b \<noteq> None \<or> load d \<noteq> None"
  shows "\<exists>r c' d'. get_or_else L b load (c, d) = Some (r, (c', d')) \<and> cache_inv entries c' \<and>
     cached_in entries c' \<subseteq>\<^sub>m (\<lambda>b. Some (f b)) \<and> (\<forall>txids. r = Ok txids \<longrightarrow> txids = f b)"
proof -
  have inv: "lru_ok L entries \<and> cache_inv entries c" using assms(1,2) ..
  from txids.get_or_else_returns [OF inv, of b load d] assms(5) obtain r c' d' where
    run: "get_or_else_with (SizedLruCache_get L) (SizedLruCache_put L) b load (c, d) = Some (r, (c', d'))"
    by auto
  from txids.get_or_else_correct [OF inv assms(3,4) run] run show ?thesis
    by (auto simp: get_or_else_def)
qed

end
