(* ===== verification/Daemon.thy ===== *)
theory Daemon
  imports Index Json Signal Cache
begin

text \<open>
  \<open>daemon.rs\<close>: the JSON-RPC client of bitcoind. The network, the clock, the cookie and the printing and
  parsing of JSON and base64 are the record \<open>net\<close> of calls on an environment \<open>'e\<close>; HTTP framing, the
  checks of replies, the retry loop and the API methods are translated. Loops that depend on the
  environment (reconnecting, reading lines, retrying, walking back to a known block) are partial
  functions: not returning is \<open>None\<close>. A daemon owns its connection, so \<open>reconnect\<close> of a copy is a
  reconnection in place; the configuration it clones does not change.
\<close>

section \<open>Parsing replies\<close>

definition foreign_error :: error where
  "foreign_error = Error (Msg ''error of a library'') None"

definition chain_opt :: "error_kind \<Rightarrow> 'a option \<Rightarrow> 'a res" where
  "chain_opt k x = (case x of Some y \<Rightarrow> Ok y | None \<Rightarrow> Err (Error k (Some foreign_error)))"

definition parse_hash :: "deps \<Rightarrow> json \<Rightarrow> hash res" where
  "parse_hash D value =
     bind_res (ok_or (Msg ''non-string value'') (as_str value)) (\<lambda>s.
     chain_opt (Msg ''non-hex value'') (from_hex D s))"

definition header_from_value :: "deps \<Rightarrow> json \<Rightarrow> block_header res" where
  "header_from_value D value =
     bind_res (ok_or (Msg ''non-string header'') (as_str value)) (\<lambda>header_hex.
     bind_res (chain_opt (Msg ''non-hex header'') (hex_decode D header_hex)) (\<lambda>header_bytes.
     chain_opt (Msg ''failed to parse header'') (de_header D header_bytes)))"

definition block_from_value :: "deps \<Rightarrow> json \<Rightarrow> block res" where
  "block_from_value D value =
     bind_res (ok_or (Msg ''non-string block'') (as_str value)) (\<lambda>block_hex.
     bind_res (chain_opt (Msg ''non-hex block'') (hex_decode D block_hex)) (\<lambda>block_bytes.
     chain_opt (Msg ''failed to parse block'') (de_block D block_bytes)))"

definition tx_from_value :: "deps \<Rightarrow> json \<Rightarrow> transaction res" where
  "tx_from_value D value =
     bind_res (ok_or (Msg ''non-string tx'') (as_str value)) (\<lambda>tx_hex.
     bind_res (chain_opt (Msg ''non-hex tx'') (hex_decode D tx_hex)) (\<lambda>tx_bytes.
     chain_opt (Msg ''failed to parse tx'') (de_tx D tx_bytes)))"

definition parse_error_code :: "json \<Rightarrow> int option" where
  "parse_error_code err =
     (if err = JNull then None
      else Option.bind (as_object err) (\<lambda>m. Option.bind (map_of m ''code'') as_i64))"

definition check_error_code :: "(string \<times> json) list \<Rightarrow> unit res" where
  "check_error_code reply_obj =
     (case map_of reply_obj ''error'' of
        None \<Rightarrow> Ok ()
      | Some err \<Rightarrow>
          (case parse_error_code err of
             None \<Rightarrow> Ok ()
           | Some code \<Rightarrow> if code = -28 then bail (Connection ''RPC_IN_WARMUP'') else bail (Msg ''RPC error'')))"

definition parse_jsonrpc_reply :: "json \<Rightarrow> u64 \<Rightarrow> json res" where
  "parse_jsonrpc_reply reply expected_id =
     (case as_object reply of
        None \<Rightarrow> bail (Msg ''non-object reply'')
      | Some reply_obj \<Rightarrow>
          bind_res (check_error_code reply_obj) (\<lambda>_.
          bind_res (ok_or (Msg ''no id in reply'') (map_of reply_obj ''id'')) (\<lambda>id.
          if id \<noteq> JInt (uint expected_id) then bail (Msg ''wrong response id'')
          else ok_or (Msg ''no result in reply'') (map_of reply_obj ''result''))))"

record blockchain_info =
  bi_chain :: string
  bi_blocks :: nat
  bi_headers :: nat
  bi_bestblockhash :: string
  bi_pruned :: bool
  bi_initialblockdownload :: bool

record network_info =
  ni_version :: nat
  ni_subversion :: string

text \<open>The derived deserialisers: every field is present with its type and range.\<close>

definition as_u32 :: "json \<Rightarrow> nat option" where
  "as_u32 j = Option.bind (as_u64 j) (\<lambda>n. if n < 2 ^ 32 then Some n else None)"

definition de_blockchain_info :: "json \<Rightarrow> blockchain_info option" where
  "de_blockchain_info j =
     Option.bind (Option.bind (json_get j ''chain'') as_str) (\<lambda>chain.
     Option.bind (Option.bind (json_get j ''blocks'') as_u32) (\<lambda>blocks.
     Option.bind (Option.bind (json_get j ''headers'') as_u32) (\<lambda>headers.
     Option.bind (Option.bind (json_get j ''bestblockhash'') as_str) (\<lambda>best.
     Option.bind (Option.bind (json_get j ''pruned'') as_bool) (\<lambda>pruned.
     Option.bind (Option.bind (json_get j ''initialblockdownload'') as_bool) (\<lambda>ibd.
     Some \<lparr>bi_chain = chain, bi_blocks = blocks, bi_headers = headers, bi_bestblockhash = best,
           bi_pruned = pruned, bi_initialblockdownload = ibd\<rparr>))))))"

definition de_network_info :: "json \<Rightarrow> network_info option" where
  "de_network_info j =
     Option.bind (Option.bind (json_get j ''version'') as_u64) (\<lambda>version.
     Option.bind (Option.bind (json_get j ''subversion'') as_str) (\<lambda>subversion.
     Some \<lparr>ni_version = version, ni_subversion = subversion\<rparr>))"

section \<open>The connection\<close>

text \<open>
  The environment: connecting and cloning a socket succeed or fail; \<open>net_line\<close> is \<open>Lines::next\<close>
  (\<open>None\<close> at the end, \<open>Some None\<close> a read error).
\<close>

record 'e net =
  net_connect :: "'e \<Rightarrow> bool \<times> 'e"
  net_clone :: "'e \<Rightarrow> bool \<times> 'e"
  net_cookie :: "'e \<Rightarrow> bytes res \<times> 'e"
  net_write :: "'e \<Rightarrow> string \<Rightarrow> bool \<times> 'e"
  net_line :: "'e \<Rightarrow> string option option \<times> 'e"
  net_recv_timeout :: "'e \<Rightarrow> nat \<Rightarrow> recv_result \<times> 'e"
  base64_encode :: "bytes \<Rightarrow> string"
  json_print :: "json \<Rightarrow> string"
  json_parse :: "string \<Rightarrow> json option"

abbreviation wait_secs :: "'e net \<Rightarrow> nat \<Rightarrow> ('e, unit) prog" where
  "wait_secs N \<equiv> Waiter_wait (net_recv_timeout N)"

partial_function (option) tcp_connect :: "'e net \<Rightarrow> 'e \<Rightarrow> (unit res \<times> 'e) option" where
  "tcp_connect N e =
     (let (connected, e) = net_connect N e
      in if connected then Some (Ok (), e)
         else Option.bind (wait_secs N 3 e) (\<lambda>(r, e).
           case r of Ok _ \<Rightarrow> tcp_connect N e | Err x \<Rightarrow> Some (Err x, e) | Panic p \<Rightarrow> Some (Panic p, e)))"

definition Connection_new :: "'e net \<Rightarrow> ('e, unit) prog" where
  "Connection_new N =
     pbind (tcp_connect N) (\<lambda>_ e.
       (let (cloned, e) = net_clone N e
        in Some (if cloned then Ok () else Err (Error (Msg ''failed to clone'') (Some foreign_error)), e)))"

text \<open>\<open>Connection::reconnect\<close> opens a new connection with the same address, cookie and signal.\<close>

definition Connection_reconnect :: "'e net \<Rightarrow> ('e, unit) prog" where
  "Connection_reconnect N = Connection_new N"

definition newline :: string where
  "newline = [CHR 0x0A]"

definition http_post :: "'e net \<Rightarrow> bytes \<Rightarrow> string \<Rightarrow> string" where
  "http_post N cookie request =
     ''POST / HTTP/1.1'' @ newline @ ''Authorization: Basic '' @ base64_encode N cookie @ newline @
     ''Content-Length: '' @ show_nat (length request) @ newline @ newline @ request"

definition conn_send :: "'e net \<Rightarrow> string \<Rightarrow> ('e, unit) prog" where
  "conn_send N request =
     pbind (\<lambda>e. Some (net_cookie N e)) (\<lambda>cookie e.
       (let (written, e) = net_write N e (http_post N cookie request)
        in Some (if written then Ok ()
                 else Err (Error (Connection ''disconnected from daemon while sending'') (Some foreign_error)), e)))"

text \<open>\<open>splitn(2, ": ")\<close>, when it finds the separator.\<close>

fun split_header :: "string \<Rightarrow> (string \<times> string) option" where
  "split_header [] = None"
| "split_header (c # cs) =
     (if prefix '': '' (c # cs) then Some ([], drop 1 cs)
      else map_option (\<lambda>(k, v). (c # k, v)) (split_header cs))"

partial_function (option) recv_lines :: "'e net \<Rightarrow> bool \<Rightarrow> (string \<times> string) list \<Rightarrow> 'e \<Rightarrow>
    ((string option \<times> (string \<times> string) list) res \<times> 'e) option" where
  "recv_lines N in_header headers e =
     (let (next, e) = net_line N e
      in case next of
           None \<Rightarrow> Some (Ok (None, headers), e)
         | Some l \<Rightarrow>
             (case l of
                None \<Rightarrow> Some (Err (Error (Connection ''failed to read'') (Some foreign_error)), e)
              | Some line \<Rightarrow>
                  if line = [] then recv_lines N False headers e
                  else if in_header then
                    recv_lines N True (case split_header line of Some kv \<Rightarrow> kv # headers | None \<Rightarrow> headers) e
                  else Some (Ok (Some line, headers), e)))"

text \<open>\<open>contents_length - 1\<close> is on \<open>usize\<close>: it wraps for a length of 0.\<close>

definition check_reply :: "string \<Rightarrow> string option \<Rightarrow> (string \<times> string) list \<Rightarrow> string res" where
  "check_reply status contents headers =
     bind_res (ok_or (Connection ''no reply from daemon'') contents) (\<lambda>contents.
     bind_res (ok_or (Msg ''Content-Length is missing'') (map_of headers ''Content-Length'')) (\<lambda>len.
     bind_res (chain_opt (Msg ''invalid Content-Length'') (parse_usize len)) (\<lambda>contents_length.
     (let expected_length = (of_nat contents_length :: u64) - 1
      in if expected_length \<noteq> of_nat (length contents) then bail (Connection ''unexpected length'')
         else if status = ''HTTP/1.1 200 OK'' then Ok contents
         else if status = ''HTTP/1.1 500 Internal Server Error'' then Ok contents
         else bail (Msg ''request failed'')))))"

definition conn_recv :: "'e net \<Rightarrow> ('e, string) prog" where
  "conn_recv N = (\<lambda>e.
     (case net_line N e of
        (None, e) \<Rightarrow> Some (bail (Connection ''disconnected from daemon while receiving''), e)
      | (Some None, e) \<Rightarrow> Some (Err (Error (Msg ''failed to read status'') (Some foreign_error)), e)
      | (Some (Some status), e) \<Rightarrow>
          pbind (recv_lines N True []) (\<lambda>(contents, headers). pret (check_reply status contents headers)) e))"

section \<open>Requests\<close>

datatype network = Bitcoin | Testnet | Regtest

record 'e daemon =
  d_dir :: string
  d_network :: network
  d_env :: 'e
  d_message_id :: u64

definition on_env :: "('e, 'a) prog \<Rightarrow> ('e daemon, 'a) prog" where
  "on_env m = (\<lambda>d. map_option (\<lambda>(r, e). (r, d\<lparr>d_env := e\<rparr>)) (m (d_env d)))"

definition Counter_new :: u64 where
  "Counter_new = 0"

definition Counter_next :: "'e daemon \<Rightarrow> u64 \<times> 'e daemon" where
  "Counter_next d = (d_message_id d + 1, d\<lparr>d_message_id := d_message_id d + 1\<rparr>)"

definition Daemon_reconnect :: "'e net \<Rightarrow> ('e daemon, unit) prog" where
  "Daemon_reconnect N =
     pbind (on_env (Connection_reconnect N)) (\<lambda>_ d. Some (Ok (), d\<lparr>d_message_id := Counter_new\<rparr>))"

definition call_jsonrpc :: "'e net \<Rightarrow> json \<Rightarrow> ('e daemon, json) prog" where
  "call_jsonrpc N request =
     pbind (on_env (conn_send N (json_print N request))) (\<lambda>_.
     pbind (on_env (conn_recv N)) (\<lambda>response.
     pret (chain_opt (Msg ''invalid JSON'') (json_parse N response))))"

definition jsonrpc_request :: "string \<Rightarrow> u64 \<Rightarrow> json \<Rightarrow> json" where
  "jsonrpc_request meth msg_id params =
     JObj [(''method'', JStr meth), (''params'', params), (''id'', JInt (uint msg_id))]"

definition handle_request_batch :: "'e net \<Rightarrow> string \<Rightarrow> json list \<Rightarrow> ('e daemon, json list) prog" where
  "handle_request_batch N meth params_list = (\<lambda>d.
     (let (msg_id, d) = Counter_next d;
          reqs = JArr (map (jsonrpc_request meth msg_id) params_list)
      in pbind (call_jsonrpc N reqs) (\<lambda>replies.
           case as_array replies of
             Some replies_vec \<Rightarrow> pret (mapM_res (\<lambda>reply. parse_jsonrpc_reply reply msg_id) replies_vec)
           | None \<Rightarrow> pret (bail (Msg ''non-array replies''))) d))"

fun connection_error :: "error \<Rightarrow> bool" where
  "connection_error (Error (Connection msg) _) = True"
| "connection_error _ = False"

fun is_connection :: "'a res \<Rightarrow> bool" where
  "is_connection (Err x) = connection_error x"
| "is_connection _ = False"

definition wait_and_reconnect :: "'e net \<Rightarrow> ('e daemon, unit) prog" where
  "wait_and_reconnect N =
     pbind (on_env (wait_secs N 3)) (\<lambda>_. on_env (Connection_reconnect N))"

partial_function (option) retry_request_batch :: "'e net \<Rightarrow> string \<Rightarrow> json list \<Rightarrow> 'e daemon \<Rightarrow>
    (json list res \<times> 'e daemon) option" where
  "retry_request_batch N meth params_list d =
     Option.bind (handle_request_batch N meth params_list d) (\<lambda>(result, d).
       if is_connection result then
         Option.bind (wait_and_reconnect N d) (\<lambda>(r, d).
           case r of
             Ok _ \<Rightarrow> retry_request_batch N meth params_list d
           | Err x \<Rightarrow> Some (Err x, d)
           | Panic p \<Rightarrow> Some (Panic p, d))
       else Some (result, d))"

definition request :: "'e net \<Rightarrow> string \<Rightarrow> json \<Rightarrow> ('e daemon, json) prog" where
  "request N meth params =
     pbind (retry_request_batch N meth [params]) (\<lambda>values.
     pbind (pret (assert_res ''assertion failed: values.len()'' (length values = 1))) (\<lambda>_.
     pret (Ok (hd values))))"

definition requests :: "'e net \<Rightarrow> string \<Rightarrow> json list \<Rightarrow> ('e daemon, json list) prog" where
  "requests N meth params_list = retry_request_batch N meth params_list"

section \<open>The API of bitcoind\<close>

definition getblockchaininfo :: "'e net \<Rightarrow> ('e daemon, blockchain_info) prog" where
  "getblockchaininfo N =
     pbind (request N ''getblockchaininfo'' (JArr [])) (\<lambda>info.
     pret (chain_opt (Msg ''invalid blockchain info'') (de_blockchain_info info)))"

definition getnetworkinfo :: "'e net \<Rightarrow> ('e daemon, network_info) prog" where
  "getnetworkinfo N =
     pbind (request N ''getnetworkinfo'' (JArr [])) (\<lambda>info.
     pret (chain_opt (Msg ''invalid network info'') (de_network_info info)))"

definition get_subversion :: "'e net \<Rightarrow> ('e daemon, string) prog" where
  "get_subversion N = pbind (getnetworkinfo N) (\<lambda>info. pret (Ok (ni_subversion info)))"

definition getbestblockhash :: "deps \<Rightarrow> 'e net \<Rightarrow> ('e daemon, hash) prog" where
  "getbestblockhash D N =
     pbind (request N ''getbestblockhash'' (JArr [])) (\<lambda>v.
     pret (chain_err (Msg ''invalid blockhash'') (parse_hash D v)))"

definition getblockheader :: "deps \<Rightarrow> 'e net \<Rightarrow> hash \<Rightarrow> ('e daemon, block_header) prog" where
  "getblockheader D N blockhash =
     pbind (request N ''getblockheader'' (JArr [JStr (to_hex D blockhash), JBool False])) (\<lambda>v.
     pret (header_from_value D v))"

definition getblockheaders :: "deps \<Rightarrow> 'e net \<Rightarrow> nat list \<Rightarrow> ('e daemon, block_header list) prog" where
  "getblockheaders D N heights =
     pbind (requests N ''getblockhash'' (map (\<lambda>height. JArr [JInt (int height)]) heights)) (\<lambda>hashes.
     pbind (requests N ''getblockheader'' (map (\<lambda>hash. JArr [hash, JBool False]) hashes)) (\<lambda>values.
     pret (mapM_res (header_from_value D) values)))"

definition getblock :: "deps \<Rightarrow> 'e net \<Rightarrow> hash \<Rightarrow> ('e daemon, block) prog" where
  "getblock D N blockhash =
     pbind (request N ''getblock'' (JArr [JStr (to_hex D blockhash), JBool False])) (\<lambda>v.
     pbind (pret (block_from_value D v)) (\<lambda>block.
     pbind (pret (assert_res ''assertion failed: block.bitcoin_hash()''
                    (bitcoin_hash D (blk_header block) = blockhash))) (\<lambda>_.
     pret (Ok block))))"

definition load_blocktxids :: "deps \<Rightarrow> 'e net \<Rightarrow> hash \<Rightarrow> ('e daemon, hash list) prog" where
  "load_blocktxids D N blockhash =
     pbind (request N ''getblock'' (JArr [JStr (to_hex D blockhash), JInt 1])) (\<lambda>v.
     pret (bind_res (ok_or (Msg ''block missing txids'') (json_get v ''tx'')) (\<lambda>txs.
           bind_res (ok_or (Msg ''invalid block txids'') (as_array txs)) (\<lambda>txids.
           mapM_res (parse_hash D) txids))))"

definition getblocktxids :: "(hash, hash list \<times> u64, 'l) lru \<Rightarrow> deps \<Rightarrow> 'e net \<Rightarrow> hash \<Rightarrow>
    ('l sized_lru_cache \<times> 'e daemon, hash list) prog" where
  "getblocktxids L D N blockhash = get_or_else L blockhash (load_blocktxids D N blockhash)"

definition getblocks :: "deps \<Rightarrow> 'e net \<Rightarrow> hash list \<Rightarrow> ('e daemon, block list) prog" where
  "getblocks D N blockhashes =
     pbind (requests N ''getblock'' (map (\<lambda>hash. JArr [JStr (to_hex D hash), JBool False]) blockhashes)) (\<lambda>values.
     pret (mapM_res (block_from_value D) values))"

definition tx_args :: "deps \<Rightarrow> hash \<Rightarrow> bool \<Rightarrow> hash option \<Rightarrow> json" where
  "tx_args D txhash verbose blockhash =
     JArr ([JStr (to_hex D txhash), JBool verbose] @
           (case blockhash of Some b \<Rightarrow> [JStr (to_hex D b)] | None \<Rightarrow> []))"

definition gettransaction :: "deps \<Rightarrow> 'e net \<Rightarrow> hash \<Rightarrow> hash option \<Rightarrow> ('e daemon, transaction) prog" where
  "gettransaction D N txhash blockhash =
     pbind (request N ''getrawtransaction'' (tx_args D txhash False blockhash)) (\<lambda>v.
     pret (tx_from_value D v))"

definition gettransaction_raw :: "deps \<Rightarrow> 'e net \<Rightarrow> hash \<Rightarrow> hash option \<Rightarrow> bool \<Rightarrow> ('e daemon, json) prog" where
  "gettransaction_raw D N txhash blockhash verbose =
     request N ''getrawtransaction'' (tx_args D txhash verbose blockhash)"

definition gettransactions :: "deps \<Rightarrow> 'e net \<Rightarrow> hash list \<Rightarrow> ('e daemon, transaction list) prog" where
  "gettransactions D N txhashes =
     pbind (requests N ''getrawtransaction'' (map (\<lambda>txhash. JArr [JStr (to_hex D txhash), JBool False]) txhashes)) (\<lambda>values.
     pbind (pret (mapM_res (tx_from_value D) values)) (\<lambda>txs.
     pbind (pret (assert_res ''assertion failed: txhashes.len()'' (length txhashes = length txs))) (\<lambda>_.
     pret (Ok txs))))"

text \<open>The result is a \<open>HashSet\<close>: a list without repetitions, whose order the callers do not use.\<close>

definition getmempooltxids :: "deps \<Rightarrow> 'e net \<Rightarrow> ('e daemon, hash list) prog" where
  "getmempooltxids D N =
     pbind (request N ''getrawmempool'' (JArr [JBool False])) (\<lambda>txids.
     pret (bind_res (ok_or (Msg ''non-array result'') (as_array txids)) (\<lambda>values.
           bind_res (mapM_res (\<lambda>value. chain_err (Msg ''invalid txid'') (parse_hash D value)) values) (\<lambda>hs.
           Ok (remdups hs)))))"

primrec header_chunks :: "deps \<Rightarrow> 'e net \<Rightarrow> nat list list \<Rightarrow> ('e daemon, block_header list) prog" where
  "header_chunks D N [] = pret (Ok [])"
| "header_chunks D N (heights # rest) =
     pbind (getblockheaders D N heights) (\<lambda>headers.
     pbind (pret (assert_res ''assertion failed: headers.len() == heights.len()''
                    (length headers = length heights))) (\<lambda>_.
     pbind (header_chunks D N rest) (\<lambda>result.
     pret (Ok (headers @ result)))))"

text \<open>The loop that checks the links from the null hash to the tip.\<close>

definition check_header :: "deps \<Rightarrow> hash \<Rightarrow> block_header \<Rightarrow> hash res" where
  "check_header D blockhash header =
     bind_res (assert_res ''assertion failed: header.prev_blockhash'' (prev_blockhash header = blockhash)) (\<lambda>_.
     Ok (bitcoin_hash D header))"

definition get_all_headers :: "deps \<Rightarrow> 'e net \<Rightarrow> hash \<Rightarrow> ('e daemon, block_header list) prog" where
  "get_all_headers D N tip =
     pbind (request N ''getblockheader'' (JArr [JStr (to_hex D tip)])) (\<lambda>info.
     pbind (pret (expect ''missing height'' (json_get info ''height''))) (\<lambda>height.
     pbind (pret (expect ''non-numeric height'' (as_u64 height))) (\<lambda>tip_height.
     pbind (header_chunks D N (chunks 100000 [0..<Suc tip_height])) (\<lambda>result.
     pbind (pret (foldM_res (check_header D) null_hash result)) (\<lambda>blockhash.
     pbind (pret (assert_res ''assertion failed: blockhash == tip'' (blockhash = tip))) (\<lambda>_.
     pret (Ok result)))))))"

text \<open>The walk back to a known block; the headers found so far are in ascending order.\<close>

partial_function (option) headers_until_known :: "deps \<Rightarrow> 'e net \<Rightarrow> header_list \<Rightarrow> hash \<Rightarrow> block_header list \<Rightarrow>
    'e daemon \<Rightarrow> (block_header list res \<times> 'e daemon) option" where
  "headers_until_known D N indexed_headers blockhash new_headers d =
     (if blockhash = null_hash \<or> header_by_blockhash indexed_headers blockhash \<noteq> None
      then Some (Ok new_headers, d)
      else Option.bind (pchain (Msg ''failed to get header'') (getblockheader D N blockhash) d) (\<lambda>(r, d).
        case r of
          Ok header \<Rightarrow> headers_until_known D N indexed_headers (prev_blockhash header) (header # new_headers) d
        | Err x \<Rightarrow> Some (Err x, d)
        | Panic p \<Rightarrow> Some (Panic p, d)))"

definition get_new_headers :: "deps \<Rightarrow> 'e net \<Rightarrow> header_list \<Rightarrow> hash \<Rightarrow> ('e daemon, block_header list) prog" where
  "get_new_headers D N indexed_headers bestblockhash =
     (if hl_is_empty indexed_headers then get_all_headers D N bestblockhash
      else headers_until_known D N indexed_headers bestblockhash [])"

text \<open>The methods as the index and the mempool tracker call them.\<close>

definition daemon_methods :: "deps \<Rightarrow> 'e net \<Rightarrow> 'e daemon daemon_api" where
  "daemon_methods D N =
     \<lparr>da_reconnect = Daemon_reconnect N, da_getbestblockhash = getbestblockhash D N,
      da_get_new_headers = get_new_headers D N, da_getblocks = getblocks D N,
      da_getmempooltxids = getmempooltxids D N, da_gettransactions = gettransactions D N\<rparr>"

section \<open>Starting\<close>

partial_function (option) wait_synced :: "'e net \<Rightarrow> 'e daemon \<Rightarrow> (unit res \<times> 'e daemon) option" where
  "wait_synced N d =
     Option.bind (getblockchaininfo N d) (\<lambda>(r, d).
       case r of
         Err x \<Rightarrow> Some (Err x, d)
       | Panic p \<Rightarrow> Some (Panic p, d)
       | Ok info \<Rightarrow>
           if \<not> bi_initialblockdownload info then Some (Ok (), d)
           else Option.bind (on_env (wait_secs N 10) d) (\<lambda>(r, d).
             case r of Ok _ \<Rightarrow> wait_synced N d | Err x \<Rightarrow> Some (Err x, d) | Panic p \<Rightarrow> Some (Panic p, d)))"

definition Daemon_checks :: "'e net \<Rightarrow> ('e daemon, unit) prog" where
  "Daemon_checks N =
     pbind (getnetworkinfo N) (\<lambda>network_info.
     if ni_version network_info < 160000 then pret (bail (Msg ''please use bitcoind 0.16+''))
     else pbind (getblockchaininfo N) (\<lambda>blockchain_info.
          if bi_pruned blockchain_info then pret (bail (Msg ''pruned node is not supported''))
          else wait_synced N))"

definition Daemon_new :: "'e net \<Rightarrow> string \<Rightarrow> network \<Rightarrow> 'e \<Rightarrow> ('e daemon res \<times> 'e) option" where
  "Daemon_new N dir network e =
     (case Connection_new N e of
        None \<Rightarrow> None
      | Some (Err x, e) \<Rightarrow> Some (Err x, e)
      | Some (Panic p, e) \<Rightarrow> Some (Panic p, e)
      | Some (Ok _, e) \<Rightarrow>
          (case Daemon_checks N \<lparr>d_dir = dir, d_network = network, d_env = e, d_message_id = Counter_new\<rparr> of
             None \<Rightarrow> None
           | Some (Ok _, d) \<Rightarrow> Some (Ok d, d_env d)
           | Some (Err x, d) \<Rightarrow> Some (Err x, d_env d)
           | Some (Panic p, d) \<Rightarrow> Some (Panic p, d_env d)))"

text \<open>
  \<open>glob\<close> is the \<open>glob\<close> crate: no result for a bad pattern, else one entry per match (\<open>None\<close> a
  path that cannot be read). The matches lie in one directory, so paths are ordered by their bytes.
\<close>

definition list_blk_files :: "(string \<Rightarrow> string option list option) \<Rightarrow> 'e daemon \<Rightarrow> string list res" where
  "list_blk_files glob d =
     bind_res (chain_opt (Msg ''failed to list blk*.dat files'') (glob (d_dir d @ ''/blocks/blk*.dat''))) (\<lambda>entries.
     bind_res (mapM_res (expect ''called `Result::unwrap()` on an `Err` value'') entries) (\<lambda>paths.
     Ok (sort_key (map (of_char :: char \<Rightarrow> nat)) paths)))"

definition Daemon_magic :: "(network \<Rightarrow> u32) \<Rightarrow> 'e daemon \<Rightarrow> u32" where
  "Daemon_magic magic d = magic (d_network d)"

section \<open>Facts about the connection\<close>

lemmas daemon_partials = tcp_connect.simps recv_lines.simps retry_request_batch.simps
  headers_until_known.simps wait_synced.simps

declare tcp_connect.simps [simp del] recv_lines.simps [simp del] retry_request_batch.simps [simp del]
  headers_until_known.simps [simp del] wait_synced.simps [simp del]

lemma wait_kind:
  assumes "Waiter_wait f secs e = Some (r, e')"
  shows "\<not> is_connection r \<and> \<not> panics r"
  using assms by (cases "f e secs"; cases "fst (f e secs)") (auto simp: Waiter_wait_def bail_def split: recv_result.splits)

lemma pbind_eq_Some:
  "pbind m f s = Some (r, s') \<longleftrightarrow>
     (\<exists>x s1. m s = Some (Ok x, s1) \<and> f x s1 = Some (r, s')) \<or>
     (\<exists>x. m s = Some (Err x, s') \<and> r = Err x) \<or> (\<exists>p. m s = Some (Panic p, s') \<and> r = Panic p)"
  by (auto simp: pbind_def split: option.splits res.splits)

text \<open>The propagation of failures that the partial functions write out.\<close>

lemma bind_case_eq_Some:
  "Option.bind m (\<lambda>(r, s). case r of Ok x \<Rightarrow> f x s | Err x \<Rightarrow> Some (Err x, s) | Panic p \<Rightarrow> Some (Panic p, s)) = Some out \<longleftrightarrow>
     (\<exists>x s. m = Some (Ok x, s) \<and> f x s = Some out) \<or>
     (\<exists>x s. m = Some (Err x, s) \<and> out = (Err x, s)) \<or> (\<exists>p s. m = Some (Panic p, s) \<and> out = (Panic p, s))"
proof (cases m)
  case (Some p)
  then show ?thesis by (cases p; cases "fst p") auto
qed simp

lemma on_env_eq_Some:
  "on_env m d = Some (r, d') \<longleftrightarrow> (\<exists>e. m (d_env d) = Some (r, e) \<and> d' = d\<lparr>d_env := e\<rparr>)"
  by (auto simp: on_env_def)

lemma tcp_connect_kind:
  assumes "tcp_connect N e = Some out"
  shows "\<not> is_connection (fst out) \<and> \<not> panics (fst out)"
  using assms
proof (rule tcp_connect.raw_induct [rotated])
  fix f :: "'a net \<Rightarrow> 'a \<Rightarrow> (unit res \<times> 'a) option" and N e out
  assume IH: "\<And>N e out. f N e = Some out \<Longrightarrow> \<not> is_connection (fst out) \<and> \<not> panics (fst out)"
  assume "(let (connected, e) = net_connect N e
      in if connected then Some (Ok (), e)
         else Option.bind (wait_secs N 3 e) (\<lambda>(r, e).
           case r of Ok _ \<Rightarrow> f N e | Err x \<Rightarrow> Some (Err x, e) | Panic p \<Rightarrow> Some (Panic p, e))) = Some out"
  then show "\<not> is_connection (fst out) \<and> \<not> panics (fst out)"
    unfolding bind_case_eq_Some by (auto simp: bind_case_eq_Some split: if_splits prod.splits dest: IH wait_kind)
qed

lemma Connection_new_kind:
  assumes "Connection_new N e = Some (r, e')"
  shows "\<not> is_connection r \<and> \<not> panics r"
proof -
  obtain r1 e1 where t: "tcp_connect N e = Some (r1, e1)"
    using assms by (cases "tcp_connect N e") (auto simp: Connection_new_def pbind_def)
  from tcp_connect_kind [OF this] have "\<not> is_connection r1 \<and> \<not> panics r1" by simp
  with assms t show ?thesis
    by (cases r1; cases "net_clone N e1") (auto simp: Connection_new_def pbind_def split: if_splits)
qed

lemma wait_and_reconnect_kind:
  assumes "wait_and_reconnect N d = Some (r, d')"
  shows "\<not> is_connection r \<and> \<not> panics r"
  using assms
  by (auto simp: wait_and_reconnect_def Connection_reconnect_def pbind_eq_Some on_env_eq_Some
      dest: wait_kind Connection_new_kind)

lemma retry_kind:
  assumes "retry_request_batch N meth ps d = Some out"
  shows "\<not> is_connection (fst out)"
  using assms
proof (rule retry_request_batch.raw_induct [rotated])
  fix f :: "'a net \<Rightarrow> string \<Rightarrow> json list \<Rightarrow> 'a daemon \<Rightarrow> (json list res \<times> 'a daemon) option" and N meth ps d out
  assume IH: "\<And>N meth ps d out. f N meth ps d = Some out \<Longrightarrow> \<not> is_connection (fst out)"
  assume "Option.bind (handle_request_batch N meth ps d) (\<lambda>(result, d).
       if is_connection result then
         Option.bind (wait_and_reconnect N d) (\<lambda>(r, d).
           case r of
             Ok _ \<Rightarrow> f N meth ps d
           | Err x \<Rightarrow> Some (Err x, d)
           | Panic p \<Rightarrow> Some (Panic p, d))
       else Some (result, d)) = Some out"
  then show "\<not> is_connection (fst out)"
    unfolding Option.bind_eq_Some_conv [of "handle_request_batch N meth ps d"]
    by (auto simp: bind_case_eq_Some split: if_splits dest: IH wait_and_reconnect_kind)
qed

section \<open>Replies on the wire\<close>

lemma split_header_colon: "CHR '':'' \<notin> set k \<Longrightarrow> split_header (k @ '': '' @ v) = Some (k, v)"
  by (induction k) (auto simp: prefix_def)

text \<open>Reading the given lines, one after the other.\<close>

primrec reads :: "'e net \<Rightarrow> 'e \<Rightarrow> string list \<Rightarrow> 'e \<Rightarrow> bool" where
  "reads N e [] e' \<longleftrightarrow> e' = e"
| "reads N e (l # ls) e' \<longleftrightarrow> (\<exists>e1. net_line N e = (Some (Some l), e1) \<and> reads N e1 ls e')"

text \<open>The lines of an HTTP reply: its headers, an empty line and a body of one line.\<close>

definition reply_lines :: "(string \<times> string) list \<Rightarrow> string \<Rightarrow> string list" where
  "reply_lines hs body = map (\<lambda>(k, v). k @ '': '' @ v) hs @ [[], body]"

definition headers_ok :: "(string \<times> string) list \<Rightarrow> bool" where
  "headers_ok hs \<longleftrightarrow> (\<forall>(k, v) \<in> set hs. CHR '':'' \<notin> set k)"

lemma recv_lines_step:
  "net_line N e = (Some (Some line), e1) \<Longrightarrow> recv_lines N b acc e =
     (if line = [] then recv_lines N False acc e1
      else if b then recv_lines N True (case split_header line of Some kv \<Rightarrow> kv # acc | None \<Rightarrow> acc) e1
      else Some (Ok (Some line, acc), e1))"
  by (subst recv_lines.simps) simp

lemma recv_lines_reply:
  assumes "reads N e (reply_lines hs body) e'" and "headers_ok hs" and "body \<noteq> []"
  shows "recv_lines N True acc e = Some (Ok (Some body, rev hs @ acc), e')"
  using assms(1,2)
proof (induction hs arbitrary: e acc)
  case Nil
  then show ?case using assms(3) by (auto simp: reply_lines_def recv_lines_step)
next
  case (Cons h hs)
  obtain k v where h: "h = (k, v)" by (cases h)
  obtain e1 where l: "net_line N e = (Some (Some (k @ '': '' @ v)), e1)" and r: "reads N e1 (reply_lines hs body) e'"
    using Cons.prems(1) h by (auto simp: reply_lines_def)
  have "CHR '':'' \<notin> set k" and hs: "headers_ok hs" using Cons.prems(2) h by (auto simp: headers_ok_def)
  with l have "recv_lines N True acc e = recv_lines N True (h # acc) e1"
    by (simp add: recv_lines_step split_header_colon [simplified] h)
  with Cons.IH [OF r hs] show ?case by simp
qed

lemma conn_recv_lines:
  assumes "reads N e (status # reply_lines hs body) e'" and "headers_ok hs" and "body \<noteq> []"
  shows "conn_recv N e = Some (check_reply status (Some body) (rev hs), e')"
proof -
  obtain e1 where "net_line N e = (Some (Some status), e1)" and "reads N e1 (reply_lines hs body) e'"
    using assms(1) by auto
  with recv_lines_reply [OF _ assms(2,3), of N e1 e' "[]"] show ?thesis
    by (simp add: conn_recv_def pbind_def)
qed

lemma check_reply_length:
  assumes "map_of hs ''Content-Length'' = Some (show_nat n)" and "0 < n" and "n < 2 ^ 64" and "length body < 2 ^ 64"
  shows "check_reply status (Some body) hs =
     (if n \<noteq> Suc (length body) then bail (Connection ''unexpected length'')
      else if status = ''HTTP/1.1 200 OK'' \<or> status = ''HTTP/1.1 500 Internal Server Error'' then Ok body
      else bail (Msg ''request failed''))"
proof -
  have "(of_nat n :: u64) - 1 = of_nat (n - 1)" using assms(2) by (simp add: of_nat_diff)
  moreover have "(of_nat (n - 1) :: u64) = of_nat (length body) \<longleftrightarrow> n - 1 = length body"
  proof -
    have "unat (of_nat k :: u64) = k" if "k < 2 ^ 64" for k using that by (simp add: unat_of_nat)
    with assms(3,4) show ?thesis by (metis less_imp_diff_less)
  qed
  ultimately show ?thesis
    using assms(1,2) parse_usize_show_nat [OF assms(3)] by (auto simp: check_reply_def chain_opt_def)
qed

end
