(* ===== verification/Mempool.thy ===== *)
theory Mempool
  imports Index
begin

text \<open>
  \<open>mempool.rs\<close>: the ordered map that imitates the database for unconfirmed transactions, and the
  tracker that keeps it in step with the daemon's mempool. The map counts the rows of its
  transactions with multiplicity (two transactions may write the same key), so the invariant is a
  multiset of keys; with it, no removal panics and the map after any history equals the one built
  from scratch from the current transactions. The order in which a \<open>HashSet\<close> is iterated is not
  specified: it is the argument \<open>iter\<close>.
\<close>

section \<open>The mempool store\<close>

record mempool_store =
  mp_map :: "(bytes, bytes list) btree"

definition MempoolStore_new :: mempool_store where
  "MempoolStore_new = \<lparr>mp_map = []\<rparr>"

definition mp_add_row :: "(bytes, bytes list) btree \<Rightarrow> row \<Rightarrow> (bytes, bytes list) btree" where
  "mp_add_row m row =
     (let (key, value) = into_pair row
      in bt_put key ((case bt_get m key of None \<Rightarrow> [] | Some values \<Rightarrow> values) @ [value]) m)"

definition MempoolStore_add :: "deps \<Rightarrow> mempool_store \<Rightarrow> transaction \<Rightarrow> mempool_store res" where
  "MempoolStore_add D s tx =
     bind_res (index_transaction D tx null_hash) (\<lambda>rows.
     Ok (s\<lparr>mp_map := foldl mp_add_row (mp_map s) rows\<rparr>))"

definition mp_remove_row :: "(bytes, bytes list) btree \<Rightarrow> row \<Rightarrow> (bytes, bytes list) btree res" where
  "mp_remove_row m row =
     (let (key, value) = into_pair row
      in bind_res (expect ''missing key in mempool'' (bt_get m key)) (\<lambda>values.
         bind_res (if values = [] then Panic ''no values found for key''
                   else Ok (last values, butlast values)) (\<lambda>(last_value, values).
         bind_res (assert_res ''wrong value for key'' (value = last_value)) (\<lambda>_.
         (let m = bt_put key values m
          in if values = [] then Ok (bt_remove key m) else Ok m)))))"

definition MempoolStore_remove :: "deps \<Rightarrow> mempool_store \<Rightarrow> transaction \<Rightarrow> mempool_store res" where
  "MempoolStore_remove D s tx =
     bind_res (index_transaction D tx null_hash) (\<lambda>rows.
     bind_res (foldM_res mp_remove_row (mp_map s) rows) (\<lambda>m.
     Ok (s\<lparr>mp_map := m\<rparr>)))"

definition MempoolStore_get :: "mempool_store \<Rightarrow> bytes \<Rightarrow> bytes option res" where
  "MempoolStore_get s key =
     Ok (case bt_get (mp_map s) key of
           None \<Rightarrow> None
         | Some values \<Rightarrow> if values = [] then None else Some (last values))"

primrec mp_scan_rows :: "bytes \<Rightarrow> (bytes, bytes list) btree \<Rightarrow> row list" where
  "mp_scan_rows p [] = []"
| "mp_scan_rows p (e # es) =
     (if \<not> prefix p (fst e) then []
      else (if snd e = [] then [] else [\<lparr>row_key = fst e, row_value = last (snd e)\<rparr>]) @
           mp_scan_rows p es)"

definition MempoolStore_scan :: "mempool_store \<Rightarrow> bytes \<Rightarrow> row list" where
  "MempoolStore_scan s p = mp_scan_rows p (bt_range_from p (mp_map s))"

definition mempool_read_store :: "mempool_store read_store" where
  "mempool_read_store = \<lparr>rs_get = MempoolStore_get, rs_scan = MempoolStore_scan\<rparr>"

section \<open>The tracker\<close>

record tracker =
  tr_items :: "(hash \<times> transaction) list"
  tr_index :: mempool_store

definition Tracker_new :: tracker where
  "Tracker_new = \<lparr>tr_items = [], tr_index = MempoolStore_new\<rparr>"

definition Tracker_add :: "deps \<Rightarrow> tracker \<Rightarrow> hash \<Rightarrow> transaction \<Rightarrow> tracker res" where
  "Tracker_add D t txid tx =
     bind_res (MempoolStore_add D (tr_index t) tx) (\<lambda>s.
     Ok \<lparr>tr_items = (txid, tx) # filter (\<lambda>e. fst e \<noteq> txid) (tr_items t), tr_index = s\<rparr>)"

definition Tracker_remove :: "deps \<Rightarrow> tracker \<Rightarrow> hash \<Rightarrow> tracker res" where
  "Tracker_remove D t txid =
     bind_res (expect ''missing mempool tx'' (map_of (tr_items t) txid)) (\<lambda>tx.
     bind_res (MempoolStore_remove D (tr_index t) tx) (\<lambda>s.
     Ok \<lparr>tr_items = filter (\<lambda>e. fst e \<noteq> txid) (tr_items t), tr_index = s\<rparr>))"

definition Tracker_add_all :: "deps \<Rightarrow> tracker \<Rightarrow> (hash \<times> transaction) list \<Rightarrow> tracker res" where
  "Tracker_add_all D t new =
     foldM_res (\<lambda>t (txid, tx).
       bind_res (assert_res ''assertion failed: txid'' (tx_txid D tx = txid)) (\<lambda>_.
       Tracker_add D t txid tx)) t new"

definition Tracker_update :: "deps \<Rightarrow> 'd daemon_api \<Rightarrow> (hash list \<Rightarrow> hash list) \<Rightarrow>
    (tracker \<times> 'd, unit) prog" where
  "Tracker_update D api iter = (\<lambda>(t, d).
     (case pchain (Msg ''failed to update mempool from daemon'') (da_getmempooltxids api) d of
        None \<Rightarrow> None
      | Some (Err e, d) \<Rightarrow> Some (Err e, (t, d))
      | Some (Panic p, d) \<Rightarrow> Some (Panic p, (t, d))
      | Some (Ok new_txids, d) \<Rightarrow>
          (let old_txids = map fst (tr_items t);
               txids = iter (filter (\<lambda>x. x \<notin> set old_txids) new_txids)
           in case da_gettransactions api txids d of
                None \<Rightarrow> None
              | Some (Err e, d) \<Rightarrow> Some (Ok (), (t, d))
              | Some (Panic p, d) \<Rightarrow> Some (Panic p, (t, d))
              | Some (Ok txs, d) \<Rightarrow>
                  (case bind_res (Tracker_add_all D t (zip txids txs)) (\<lambda>t'.
                          foldM_res (Tracker_remove D) t'
                            (iter (filter (\<lambda>x. x \<notin> set new_txids) old_txids))) of
                     Ok t' \<Rightarrow> Some (Ok (), (t', d))
                   | Err e \<Rightarrow> Some (Err e, (t, d))
                   | Panic p \<Rightarrow> Some (Panic p, (t, d))))))"

section \<open>The store as a multiset of keys\<close>

text \<open>The value of an unconfirmed row is determined by its key: only \<open>T\<close> rows have one.\<close>

definition mp_value :: "bytes \<Rightarrow> bytes" where
  "mp_value k = (if hd k = 84 then hash_bytes null_hash else [])"

definition mp_rep :: "(bytes, bytes list) btree \<Rightarrow> bytes multiset \<Rightarrow> bool" where
  "mp_rep m K \<longleftrightarrow> bt_sorted m \<and>
     (\<forall>k. bt_get m k = (if count K k = 0 then None else Some (replicate (count K k) (mp_value k))))"

definition tx_keys :: "deps \<Rightarrow> transaction \<Rightarrow> bytes multiset" where
  "tx_keys D tx = mset (map row_key (tx_rows D tx null_hash))"

lemma tx_rows_value:
  "r \<in> set (tx_rows D tx null_hash) \<Longrightarrow> row_value r = mp_value (row_key r)"
  by (auto simp: tx_rows_def mp_value_def TxInRow_to_row_def ser_txin_row_def ser_txin_key_def
      txin_row_of_def TxOutRow_to_row_def ser_txout_row_def ser_txout_key_def txout_row_of_def
      TxRow_to_row_def ser_tx_key_def tx_row_of_def)

lemma mp_rep_add_row:
  assumes "mp_rep m K" and "row_value r = mp_value (row_key r)"
  shows "mp_rep (mp_add_row m r) (K + {#row_key r#})"
  using assms
  by (auto simp: mp_rep_def mp_add_row_def into_pair_def bt_get_put bt_sorted_put
      replicate_append_same count_eq_zero_iff)

lemma mp_rep_remove_row:
  assumes "mp_rep m K" and "row_value r = mp_value (row_key r)" and "row_key r \<in># K"
  shows "\<exists>m'. mp_remove_row m r = Ok m' \<and> mp_rep m' (K - {#row_key r#})"
proof -
  obtain n where n: "count K (row_key r) = Suc n"
    using assms(3) by (metis count_greater_zero_iff gr0_implies_Suc)
  let ?vs = "replicate n (mp_value (row_key r))"
  have get: "bt_get m (row_key r) = Some (?vs @ [mp_value (row_key r)])"
    using assms(1) n by (simp add: mp_rep_def replicate_append_same)
  let ?m = "if ?vs = [] then bt_remove (row_key r) (bt_put (row_key r) ?vs m)
            else bt_put (row_key r) ?vs m"
  have "mp_remove_row m r = Ok ?m"
    using get assms(2) by (simp add: mp_remove_row_def into_pair_def)
  moreover have "mp_rep ?m (K - {#row_key r#})"
    using assms(1) n
    by (auto simp: mp_rep_def bt_get_put bt_sorted_put bt_get_remove bt_sorted_remove count_eq_zero_iff)
  ultimately show ?thesis by blast
qed

lemma mp_rep_add_rows:
  "mp_rep m K \<Longrightarrow> \<forall>r \<in> set rs. row_value r = mp_value (row_key r) \<Longrightarrow>
     mp_rep (foldl mp_add_row m rs) (K + mset (map row_key rs))"
proof (induction rs arbitrary: m K)
  case (Cons r rs)
  from mp_rep_add_row [OF Cons.prems(1)] Cons.prems(2)
  have "mp_rep (mp_add_row m r) (K + {#row_key r#})" by simp
  from Cons.IH [OF this] Cons.prems(2) show ?case by (simp add: add_ac)
qed simp

lemma mp_rep_remove_rows:
  "mp_rep m K \<Longrightarrow> \<forall>r \<in> set rs. row_value r = mp_value (row_key r) \<Longrightarrow>
     mset (map row_key rs) \<subseteq># K \<Longrightarrow>
     \<exists>m'. foldM_res mp_remove_row m rs = Ok m' \<and> mp_rep m' (K - mset (map row_key rs))"
proof (induction rs arbitrary: m K)
  case (Cons r rs)
  have "row_key r \<in># K" using Cons.prems(3) by (metis list.set_intros(1) list.simps(9) mset_subset_eqD set_mset_mset)
  then obtain m1 where m1: "mp_remove_row m r = Ok m1" "mp_rep m1 (K - {#row_key r#})"
    using mp_rep_remove_row [OF Cons.prems(1)] Cons.prems(2) by auto
  have "mset (map row_key rs) \<subseteq># K - {#row_key r#}"
    using Cons.prems(3) by (simp add: insert_subset_eq_iff)
  from Cons.IH [OF m1(2) _ this] Cons.prems(2) m1(1) show ?case by simp
qed simp

lemma mp_rep_unique: "mp_rep a K \<Longrightarrow> mp_rep b K \<Longrightarrow> a = b"
  by (rule bt_eqI) (auto simp: mp_rep_def fun_eq_iff)

lemma mp_rep_empty: "mp_rep [] {#}"
  by (simp add: mp_rep_def bt_get_def)

lemma MempoolStore_add_rep:
  assumes "codec_ok D" and "mp_rep (mp_map s) K"
  shows "\<exists>s'. MempoolStore_add D s tx = Ok s' \<and> mp_rep (mp_map s') (K + tx_keys D tx)"
  using mp_rep_add_rows [OF assms(2), of "tx_rows D tx null_hash"] tx_rows_value
  by (simp add: MempoolStore_add_def index_transaction_eq [OF assms(1)] tx_keys_def)

lemma MempoolStore_remove_rep:
  assumes "codec_ok D" and "mp_rep (mp_map s) K" and "tx_keys D tx \<subseteq># K"
  shows "\<exists>s'. MempoolStore_remove D s tx = Ok s' \<and> mp_rep (mp_map s') (K - tx_keys D tx)"
proof -
  have "\<forall>r \<in> set (tx_rows D tx null_hash). row_value r = mp_value (row_key r)"
    using tx_rows_value by blast
  from mp_rep_remove_rows [OF assms(2) this] assms(3) obtain m where
    "foldM_res mp_remove_row (mp_map s) (tx_rows D tx null_hash) = Ok m"
    and "mp_rep m (K - tx_keys D tx)"
    by (auto simp: tx_keys_def)
  then show ?thesis
    by (simp add: MempoolStore_remove_def index_transaction_eq [OF assms(1)])
qed

section \<open>The store is readable\<close>

definition mp_view :: "mempool_store \<Rightarrow> (bytes, bytes) btree" where
  "mp_view s = map (\<lambda>e. (fst e, last (snd e))) (mp_map s)"

definition mp_inv :: "mempool_store \<Rightarrow> bool" where
  "mp_inv s \<longleftrightarrow> bt_sorted (mp_map s) \<and> (\<forall>e \<in> set (mp_map s). snd e \<noteq> [])"

lemma mp_rep_inv: "mp_rep (mp_map s) K \<Longrightarrow> mp_inv s"
proof -
  assume rep: "mp_rep (mp_map s) K"
  have "snd e \<noteq> []" if "e \<in> set (mp_map s)" for e
  proof -
    have "bt_get (mp_map s) (fst e) = Some (snd e)"
      using rep that by (subst bt_get_mem) (auto simp: mp_rep_def)
    with rep show ?thesis by (auto simp: mp_rep_def count_eq_zero_iff split: if_splits)
  qed
  with rep show ?thesis by (simp add: mp_inv_def mp_rep_def)
qed

lemma mp_scan_rows_eq:
  "\<forall>e \<in> set m. snd e \<noteq> [] \<Longrightarrow>
     mp_scan_rows p m = rows_of (map (\<lambda>e. (fst e, last (snd e))) (takeWhile (\<lambda>e. prefix p (fst e)) m))"
  by (induction m) (auto simp: rows_of_def)

lemma bt_get_mp_view: "bt_get (mp_view s) k = map_option last (bt_get (mp_map s) k)"
  unfolding mp_view_def by (rule bt_get_mapped)

interpretation mp: readable mempool_read_store mp_view mp_inv
proof unfold_locales
  fix s k p
  assume inv: "mp_inv s"
  then have sorted: "bt_sorted (mp_map s)" and ne: "\<forall>e \<in> set (mp_map s). snd e \<noteq> []"
    by (auto simp: mp_inv_def)
  show "bt_sorted (mp_view s)"
    using sorted by (simp add: bt_sorted_def mp_view_def comp_def)
  show "rs_get mempool_read_store s k = Ok (bt_get (mp_view s) k)"
  proof (cases "bt_get (mp_map s) k")
    case (Some vs)
    with ne have "vs \<noteq> []" by (auto simp: bt_get_mem [OF sorted])
    with Some show ?thesis by (simp add: mempool_read_store_def MempoolStore_get_def bt_get_mp_view)
  qed (simp add: mempool_read_store_def MempoolStore_get_def bt_get_mp_view)
  have "rs_scan mempool_read_store s p =
      rows_of (map (\<lambda>e. (fst e, last (snd e))) (filter (\<lambda>e. prefix p (fst e)) (mp_map s)))"
    using ne mp_scan_rows_eq [of "bt_range_from p (mp_map s)" p] takeWhile_prefix_range [OF sorted, of p]
    by (simp add: mempool_read_store_def MempoolStore_scan_def bt_range_from_def)
  then show "rs_scan mempool_read_store s p = rows_of (filter (\<lambda>e. prefix p (fst e)) (mp_view s))"
    by (simp add: mp_view_def filter_map comp_def)
qed

section \<open>The tracker follows the mempool\<close>

definition items_keys :: "deps \<Rightarrow> (hash \<times> transaction) list \<Rightarrow> bytes multiset" where
  "items_keys D items = sum_list (map (\<lambda>(_, tx). tx_keys D tx) items)"

definition tracker_inv :: "deps \<Rightarrow> tracker \<Rightarrow> bool" where
  "tracker_inv D t \<longleftrightarrow> distinct (map fst (tr_items t)) \<and>
     (\<forall>(txid, tx) \<in> set (tr_items t). txid = tx_txid D tx) \<and>
     mp_rep (mp_map (tr_index t)) (items_keys D (tr_items t))"

lemma tracker_inv_new: "tracker_inv D Tracker_new"
  by (simp add: tracker_inv_def Tracker_new_def MempoolStore_new_def items_keys_def mp_rep_empty)

lemma filter_fst_fresh: "k \<notin> fst ` set xs \<Longrightarrow> filter (\<lambda>e. fst e \<noteq> k) xs = xs"
  by (induction xs) auto

lemma fst_filter_neq: "fst ` set (filter (\<lambda>e. fst e \<noteq> k) xs) = fst ` set xs - {k}"
  by (induction xs) auto

lemma items_keys_remove:
  "distinct (map fst items) \<Longrightarrow> map_of items k = Some tx \<Longrightarrow>
     items_keys D items = tx_keys D tx + items_keys D (filter (\<lambda>e. fst e \<noteq> k) items)"
proof (induction items)
  case (Cons e items)
  show ?case
  proof (cases "fst e = k")
    case True
    with Cons.prems have "k \<notin> fst ` set items" by auto
    with True Cons.prems show ?thesis
      by (cases e) (simp add: items_keys_def filter_fst_fresh)
  next
    case False
    with Cons show ?thesis by (cases e) (auto simp: items_keys_def add_ac)
  qed
qed simp

lemma Tracker_add_ok:
  assumes "codec_ok D" and "tracker_inv D t" and "tx_txid D tx \<notin> fst ` set (tr_items t)"
  shows "\<exists>t'. Tracker_add D t (tx_txid D tx) tx = Ok t' \<and> tracker_inv D t' \<and>
              tr_items t' = (tx_txid D tx, tx) # tr_items t"
proof -
  obtain s where "MempoolStore_add D (tr_index t) tx = Ok s"
    and "mp_rep (mp_map s) (items_keys D (tr_items t) + tx_keys D tx)"
    using MempoolStore_add_rep [OF assms(1)] assms(2) unfolding tracker_inv_def by blast
  with assms(2,3) show ?thesis
    by (auto simp: Tracker_add_def tracker_inv_def items_keys_def filter_fst_fresh add_ac)
qed

lemma Tracker_remove_ok:
  assumes "codec_ok D" and "tracker_inv D t" and "txid \<in> fst ` set (tr_items t)"
  shows "\<exists>t'. Tracker_remove D t txid = Ok t' \<and> tracker_inv D t' \<and>
              tr_items t' = filter (\<lambda>e. fst e \<noteq> txid) (tr_items t)"
proof -
  have dist: "distinct (map fst (tr_items t))" using assms(2) by (simp add: tracker_inv_def)
  obtain tx where tx: "map_of (tr_items t) txid = Some tx"
    using assms(3) by (metis domD dom_map_of_conv_image_fst)
  note keys = items_keys_remove [OF dist tx, of D]
  have "tx_keys D tx \<subseteq># items_keys D (tr_items t)" unfolding keys by simp
  then obtain s where "MempoolStore_remove D (tr_index t) tx = Ok s"
    and "mp_rep (mp_map s) (items_keys D (tr_items t) - tx_keys D tx)"
    using MempoolStore_remove_rep [OF assms(1)] assms(2) by (metis tracker_inv_def)
  with tx dist assms(2) show ?thesis
    unfolding keys by (auto simp: Tracker_remove_def tracker_inv_def distinct_map_filter)
qed

lemma Tracker_add_all_ok:
  "codec_ok D \<Longrightarrow> tracker_inv D t \<Longrightarrow> distinct (map fst new) \<Longrightarrow>
     fst ` set new \<inter> fst ` set (tr_items t) = {} \<Longrightarrow> \<forall>(txid, tx) \<in> set new. tx_txid D tx = txid \<Longrightarrow>
     \<exists>t'. Tracker_add_all D t new = Ok t' \<and> tracker_inv D t' \<and> tr_items t' = rev new @ tr_items t"
proof (induction new arbitrary: t)
  case (Cons e new)
  obtain txid tx where e: "e = (txid, tx)" by (cases e)
  with Cons.prems have fresh: "tx_txid D tx \<notin> fst ` set (tr_items t)" and txid: "tx_txid D tx = txid"
    by auto
  obtain t1 where t1: "Tracker_add D t txid tx = Ok t1" "tracker_inv D t1"
    "tr_items t1 = (txid, tx) # tr_items t"
    using Tracker_add_ok [OF Cons.prems(1,2) fresh] txid by auto
  have "fst ` set new \<inter> fst ` set (tr_items t1) = {}"
    using Cons.prems(3,4) e t1(3) by auto
  with Cons.IH [OF Cons.prems(1) t1(2)] Cons.prems(3,5) e t1 txid show ?case
    by (auto simp: Tracker_add_all_def)
qed (simp add: Tracker_add_all_def)

lemma Tracker_add_all_inv:
  "Tracker_add_all D t new = Ok t' \<Longrightarrow> \<forall>(txid, tx) \<in> set new. tx_txid D tx = txid"
proof (induction new arbitrary: t)
  case (Cons e new)
  then show ?case by (cases e) (auto simp: Tracker_add_all_def res_simps)
qed simp

lemma Tracker_remove_all_ok:
  "codec_ok D \<Longrightarrow> tracker_inv D t \<Longrightarrow> distinct xs \<Longrightarrow> set xs \<subseteq> fst ` set (tr_items t) \<Longrightarrow>
     \<exists>t'. foldM_res (Tracker_remove D) t xs = Ok t' \<and> tracker_inv D t' \<and>
          tr_items t' = filter (\<lambda>e. fst e \<notin> set xs) (tr_items t)"
proof (induction xs arbitrary: t)
  case (Cons x xs)
  obtain t1 where t1: "Tracker_remove D t x = Ok t1" "tracker_inv D t1"
    "tr_items t1 = filter (\<lambda>e. fst e \<noteq> x) (tr_items t)"
    using Tracker_remove_ok [OF Cons.prems(1,2)] Cons.prems(4) by auto
  have "set xs \<subseteq> fst ` set (tr_items t1)"
    using Cons.prems(3,4) unfolding t1(3) fst_filter_neq by auto
  with Cons.IH [OF Cons.prems(1) t1(2)] Cons.prems(3) obtain t' where
    "foldM_res (Tracker_remove D) t1 xs = Ok t'" "tracker_inv D t'"
    "tr_items t' = filter (\<lambda>e. fst e \<notin> set xs) (tr_items t1)"
    by auto
  with t1 show ?case by (auto simp: conj_commute intro: filter_cong)
qed simp

text \<open>Iterating a \<open>HashSet\<close> visits every element once, in any order.\<close>

definition hash_iter_ok :: "(hash list \<Rightarrow> hash list) \<Rightarrow> bool" where
  "hash_iter_ok iter \<longleftrightarrow> (\<forall>xs. mset (iter xs) = mset xs)"

lemma hash_iter_set: "hash_iter_ok iter \<Longrightarrow> set (iter xs) = set xs"
  by (metis hash_iter_ok_def set_mset_mset)

lemma hash_iter_distinct: "hash_iter_ok iter \<Longrightarrow> distinct (iter xs) \<longleftrightarrow> distinct xs"
  by (metis hash_iter_ok_def mset_eq_imp_distinct_iff)

text \<open>The two loops of an update, on transactions that match the ids asked for.\<close>

lemma Tracker_sync:
  assumes "codec_ok D" and inv: "tracker_inv D t" and iter: "hash_iter_ok iter" and "distinct new"
    and add: "\<forall>(txid, tx) \<in> set (zip (iter (filter (\<lambda>x. x \<notin> fst ` set (tr_items t)) new)) txs). tx_txid D tx = txid"
  shows "\<exists>t'. bind_res (Tracker_add_all D t (zip (iter (filter (\<lambda>x. x \<notin> fst ` set (tr_items t)) new)) txs))
             (\<lambda>t'. foldM_res (Tracker_remove D) t'
                     (iter (filter (\<lambda>x. x \<notin> set new) (map fst (tr_items t))))) = Ok t' \<and>
           tracker_inv D t' \<and>
           tr_items t' = rev (zip (iter (filter (\<lambda>x. x \<notin> fst ` set (tr_items t)) new)) txs) @
             filter (\<lambda>e. fst e \<in> set new) (tr_items t)"
proof -
  let ?ids = "iter (filter (\<lambda>x. x \<notin> fst ` set (tr_items t)) new)"
  let ?gone = "iter (filter (\<lambda>x. x \<notin> set new) (map fst (tr_items t)))"
  have ids: "distinct ?ids" "set ?ids = set new - fst ` set (tr_items t)"
    using assms(4) hash_iter_distinct [OF iter] hash_iter_set [OF iter] by auto
  have zip: "set (map fst (zip ?ids txs)) \<subseteq> set ?ids" "distinct (map fst (zip ?ids txs))"
    using ids(1) by (auto simp: map_fst_zip_take dest: in_set_takeD)
  have "fst ` set (zip ?ids txs) \<inter> fst ` set (tr_items t) = {}"
    using zip(1) ids(2) by auto
  from Tracker_add_all_ok [OF assms(1) inv zip(2) this add] obtain t1 where
    t1: "Tracker_add_all D t (zip ?ids txs) = Ok t1" "tracker_inv D t1"
    "tr_items t1 = rev (zip ?ids txs) @ tr_items t"
    by blast
  have gone: "distinct ?gone" "set ?gone = fst ` set (tr_items t) - set new"
    using inv hash_iter_distinct [OF iter] hash_iter_set [OF iter] by (auto simp: tracker_inv_def)
  have "set ?gone \<subseteq> fst ` set (tr_items t1)" using gone(2) t1(3) by auto
  from Tracker_remove_all_ok [OF assms(1) t1(2) gone(1) this] obtain t2 where
    t2: "foldM_res (Tracker_remove D) t1 ?gone = Ok t2" "tracker_inv D t2"
    "tr_items t2 = filter (\<lambda>e. fst e \<notin> set ?gone) (tr_items t1)"
    by blast
  have "fst e \<notin> set ?gone" if "e \<in> set (zip ?ids txs)" for e
  proof -
    have "fst e \<in> set ?ids" using that by (metis prod.collapse set_zip_leftD)
    then show ?thesis unfolding ids(2) gone(2) by simp
  qed
  then have "filter (\<lambda>e. fst e \<notin> set ?gone) (rev (zip ?ids txs)) = rev (zip ?ids txs)"
    by (intro filter_True) simp
  moreover have "filter (\<lambda>e. fst e \<notin> set ?gone) (tr_items t) = filter (\<lambda>e. fst e \<in> set new) (tr_items t)"
    using gone(2) by (intro filter_cong) auto
  ultimately show ?thesis using t1 t2 by simp
qed

section \<open>What the mempool store shows\<close>

lemma count_items_keys: "k \<in># items_keys D items \<longleftrightarrow> (\<exists>(txid, tx) \<in> set items. k \<in># tx_keys D tx)"
  by (induction items) (auto simp: items_keys_def)

lemma tracker_inv_mp: "tracker_inv D t \<Longrightarrow> mp_inv (tr_index t)"
  using mp_rep_inv by (auto simp: tracker_inv_def)

lemma mp_rep_view:
  assumes "mp_rep (mp_map s) K"
  shows "bt_get (mp_view s) k = (if k \<in># K then Some (mp_value k) else None)"
  using assms by (auto simp: bt_get_mp_view mp_rep_def count_eq_zero_iff simp flip: replicate_append_same)

lemma tracker_view:
  assumes "tracker_inv D t"
  shows "bt_get (mp_view (tr_index t)) (row_key r) = Some (row_value r) \<longleftrightarrow>
           (\<exists>(txid, tx) \<in> set (tr_items t). r \<in> set (tx_rows D tx null_hash))"
proof -
  have rep: "mp_rep (mp_map (tr_index t)) (items_keys D (tr_items t))"
    using assms by (simp add: tracker_inv_def)
  have "row_key r \<in># tx_keys D tx \<and> row_value r = mp_value (row_key r) \<longleftrightarrow>
        r \<in> set (tx_rows D tx null_hash)" for tx
  proof
    assume *: "row_key r \<in># tx_keys D tx \<and> row_value r = mp_value (row_key r)"
    then obtain r' where "r' \<in> set (tx_rows D tx null_hash)" "row_key r' = row_key r"
      by (auto simp: tx_keys_def)
    with * tx_rows_value [of r' D tx] show "r \<in> set (tx_rows D tx null_hash)"
      by (metis row.surjective unit.exhaust)
  qed (auto simp: tx_keys_def tx_rows_value)
  then show ?thesis
    unfolding mp_rep_view [OF rep] count_items_keys by (force split: if_splits)
qed

lemma MempoolStore_add_all_rep:
  "codec_ok D \<Longrightarrow> mp_rep (mp_map s) K \<Longrightarrow>
     \<exists>s'. foldM_res (MempoolStore_add D) s (map snd items) = Ok s' \<and>
          mp_rep (mp_map s') (K + items_keys D items)"
proof (induction items arbitrary: s K)
  case (Cons e items)
  obtain txid tx where e: "e = (txid, tx)" by (cases e)
  from MempoolStore_add_rep [OF Cons.prems] obtain s1 where "MempoolStore_add D s tx = Ok s1"
    "mp_rep (mp_map s1) (K + tx_keys D tx)" by blast
  with Cons.IH [OF Cons.prems(1) this(2)] show ?case
    by (simp add: e items_keys_def add.assoc)
qed (simp add: items_keys_def)

section \<open>Properties\<close>

text \<open>A daemon that serves a fixed mempool, for the closed examples.\<close>

definition ex_mempool_api :: "(hash \<times> transaction) list \<Rightarrow> unit daemon_api" where
  "ex_mempool_api pool = \<lparr>
     da_reconnect = pret (Ok ()),
     da_getbestblockhash = pret (bail (Msg ''none'')),
     da_get_new_headers = (\<lambda>_ _. pret (Ok [])),
     da_getblocks = (\<lambda>_. pret (Ok [])),
     da_getmempooltxids = pret (Ok (map fst pool)),
     da_gettransactions = (\<lambda>ids. pret (Ok (map (\<lambda>i. the (map_of pool i)) ids)))\<rparr>"

definition ex_pool :: "(hash \<times> transaction) list" where
  "ex_pool = map (\<lambda>t. (tx_txid ref_deps t, t)) [ex_tx 7 [] [[81]], ex_tx 8 [(7, 0)] [[82]]]"

lemma hash_iter_ok_id: "hash_iter_ok (\<lambda>x. x)"
  by (simp add: hash_iter_ok_def)

lemma ex_tracker:
  "\<exists>t. Tracker_add_all ref_deps Tracker_new ex_pool = Ok t \<and> tracker_inv ref_deps t \<and>
       tr_items t = rev ex_pool"
  using Tracker_add_all_ok [OF codec_ok_ref_deps tracker_inv_new, of ex_pool]
  by (auto simp: Tracker_new_def ex_pool_def)

lemma ex_update:
  "\<exists>t. Tracker_update ref_deps (ex_mempool_api ex_pool) (\<lambda>x. x) (Tracker_new, ()) = Some (Ok (), (t, ()))"
proof -
  obtain t where t: "Tracker_add_all ref_deps Tracker_new ex_pool = Ok t" using ex_tracker by blast
  have "zip (map fst ex_pool) (map (\<lambda>i. the (map_of ex_pool i)) (map fst ex_pool)) = ex_pool"
    by (simp add: ex_pool_def)
  with t show ?thesis
    by (intro exI [of _ t]) (simp add: Tracker_update_def ex_mempool_api_def pchain_def Tracker_new_def)
qed

lemma Tracker_update_sync:
  assumes "codec_ok D" and "tracker_inv D t" and "hash_iter_ok iter"
    and "da_getmempooltxids api d = Some (Ok new_txids, d1)" and "distinct new_txids"
    and "da_gettransactions api (iter (filter (\<lambda>x. x \<notin> fst ` set (tr_items t)) new_txids)) d1 = Some (Ok txs, d2)"
    and "map (tx_txid D) txs = iter (filter (\<lambda>x. x \<notin> fst ` set (tr_items t)) new_txids)"
  shows "\<exists>t'. Tracker_update D api iter (t, d) = Some (Ok (), (t', d2)) \<and> tracker_inv D t' \<and>
              fst ` set (tr_items t') = set new_txids \<and>
              {e \<in> set (tr_items t). fst e \<in> set new_txids} \<subseteq> set (tr_items t') \<and>
              snd ` set (tr_items t') \<subseteq> set txs \<union> snd ` set (tr_items t)"
proof -
  let ?ids = "iter (filter (\<lambda>x. x \<notin> fst ` set (tr_items t)) new_txids)"
  have "\<forall>(txid, tx) \<in> set (zip ?ids txs). tx_txid D tx = txid"
    unfolding assms(7) [symmetric] by (auto simp: in_set_zip)
  from Tracker_sync [OF assms(1-3,5) this] obtain t' where t':
    "bind_res (Tracker_add_all D t (zip ?ids txs)) (\<lambda>t'. foldM_res (Tracker_remove D) t'
       (iter (filter (\<lambda>x. x \<notin> set new_txids) (map fst (tr_items t))))) = Ok t'"
    "tracker_inv D t'"
    "tr_items t' = rev (zip ?ids txs) @ filter (\<lambda>e. fst e \<in> set new_txids) (tr_items t)"
    by blast
  have "length ?ids = length txs" by (metis assms(7) length_map)
  then have "fst ` set (zip ?ids txs) = set ?ids" by (metis list.set_map map_fst_zip)
  moreover have "set ?ids = set new_txids - fst ` set (tr_items t)"
    using hash_iter_set [OF assms(3)] by auto
  ultimately have "fst ` set (tr_items t') = set new_txids" unfolding t'(3) by auto
  moreover have "Tracker_update D api iter (t, d) = Some (Ok (), (t', d2))"
    using assms(4,6) t'(1) by (simp add: Tracker_update_def pchain_def)
  moreover have "snd ` set (tr_items t') \<subseteq> set txs \<union> snd ` set (tr_items t)"
    unfolding t'(3) by (auto dest: set_zip_rightD)
  ultimately show ?thesis using t'(2,3) by auto
qed

text \<open>
  C24: Following the mempool. If the daemon answers with the ids of its mempool and with the
  transactions of the unknown ones, \<open>Tracker::update\<close> succeeds (no removal panics), the tracked
  transactions afterwards are those of the daemon's mempool, transactions that stay are kept as they
  were, and the store again holds exactly the rows of the tracked transactions.
\<close>

theorem Tracker_update_follows:
  assumes "codec_ok D" and "tracker_inv D t" and "hash_iter_ok iter"
    and "da_getmempooltxids api d = Some (Ok new_txids, d1)" and "distinct new_txids"
    and "da_gettransactions api (iter (filter (\<lambda>x. x \<notin> fst ` set (tr_items t)) new_txids)) d1 = Some (Ok txs, d2)"
    and "map (tx_txid D) txs = iter (filter (\<lambda>x. x \<notin> fst ` set (tr_items t)) new_txids)"
  shows "\<exists>t'. Tracker_update D api iter (t, d) = Some (Ok (), (t', d2)) \<and> tracker_inv D t' \<and>
              fst ` set (tr_items t') = set new_txids \<and>
              {e \<in> set (tr_items t). fst e \<in> set new_txids} \<subseteq> set (tr_items t')"
  using Tracker_update_sync [OF assms] by blast

theorem Tracker_update_follows_witness:
  "\<exists>t'. Tracker_update ref_deps (ex_mempool_api ex_pool) (\<lambda>x. x) (Tracker_new, ()) = Some (Ok (), (t', ())) \<and>
        fst ` set (tr_items t') = {mk_hash [7], mk_hash [8]}"
proof -
  have "\<exists>t'. Tracker_update ref_deps (ex_mempool_api ex_pool) (\<lambda>x. x) (Tracker_new, ()) = Some (Ok (), (t', ())) \<and>
        tracker_inv ref_deps t' \<and> fst ` set (tr_items t') = set (map fst ex_pool) \<and>
        {e \<in> set (tr_items Tracker_new). fst e \<in> set (map fst ex_pool)} \<subseteq> set (tr_items t')"
    by (rule Tracker_update_follows [OF codec_ok_ref_deps tracker_inv_new hash_iter_ok_id,
          where ?d1.0 = "()" and txs = "map snd ex_pool"])
       (simp_all add: ex_mempool_api_def ex_pool_def Tracker_new_def)
  then show ?thesis by (auto simp: ex_pool_def)
qed

text \<open>
  No reply of the daemon can corrupt the tracker. Whatever it answers (errors, missing
  transactions, fewer transactions than asked for), an update that does not panic keeps the
  invariant between tracked transactions and store; when an error is returned, nothing changed.
\<close>

lemma Tracker_update_inv:
  assumes "codec_ok D" and "tracker_inv D t" and "hash_iter_ok iter"
    and "\<And>ids d'. da_getmempooltxids api d = Some (Ok ids, d') \<Longrightarrow> distinct ids"
    and "Tracker_update D api iter (t, d) = Some (r, (t', d'))"
  shows "(\<not> panics r \<longrightarrow> tracker_inv D t') \<and> (\<forall>e. r = Err e \<longrightarrow> t' = t)"
proof (cases "da_getmempooltxids api d")
  case (Some p)
  obtain r1 d1 where p: "p = (r1, d1)" by (cases p)
  show ?thesis
  proof (cases r1)
    case (Ok new)
    let ?ids = "iter (filter (\<lambda>x. x \<notin> fst ` set (tr_items t)) new)"
    have dist: "distinct new" using assms(4) Some p Ok by simp
    obtain r2 d2 where r2: "da_gettransactions api ?ids d1 = Some (r2, d2)"
      using assms(5) Some p Ok
      by (cases "da_gettransactions api ?ids d1") (auto simp: Tracker_update_def pchain_def)
    show ?thesis
    proof (cases r2)
      case (Ok txs)
      let ?run = "bind_res (Tracker_add_all D t (zip ?ids txs)) (\<lambda>t'. foldM_res (Tracker_remove D) t'
          (iter (filter (\<lambda>x. x \<notin> set new) (map fst (tr_items t)))))"
      have run: "(r, t') = (case ?run of Ok t' \<Rightarrow> (Ok (), t') | Err e \<Rightarrow> (Err e, t) | Panic s \<Rightarrow> (Panic s, t))"
        using assms(5) Some p \<open>r1 = Ok new\<close> r2 Ok
        by (auto simp: Tracker_update_def pchain_def split: res.splits)
      have "tracker_inv D t''" if "?run = Ok t''" for t''
      proof -
        have "\<forall>(txid, tx) \<in> set (zip ?ids txs). tx_txid D tx = txid"
          using that by (auto simp: res_simps dest: Tracker_add_all_inv)
        from Tracker_sync [OF assms(1-3) dist this] that show ?thesis by auto
      qed
      with run assms(2) show ?thesis by (auto split: res.splits)
    qed (use assms Some p \<open>r1 = Ok new\<close> r2 in \<open>auto simp: Tracker_update_def pchain_def\<close>)
  qed (use assms Some p in \<open>auto simp: Tracker_update_def pchain_def\<close>)
qed (use assms in \<open>simp add: Tracker_update_def pchain_def\<close>)

text \<open>
  The tracker's store has no history. It equals the store built from nothing by adding the
  currently tracked transactions, whatever was added and removed before; in particular a removal
  undoes an addition even when transactions share keys.
\<close>

lemma tracker_index_rebuild:
  assumes "codec_ok D" and "tracker_inv D t"
  shows "foldM_res (MempoolStore_add D) MempoolStore_new (map snd (tr_items t)) = Ok (tr_index t)"
proof -
  have "mp_rep (mp_map MempoolStore_new) {#}" by (simp add: MempoolStore_new_def mp_rep_empty)
  from MempoolStore_add_all_rep [OF assms(1) this] obtain s where
    "foldM_res (MempoolStore_add D) MempoolStore_new (map snd (tr_items t)) = Ok s"
    "mp_rep (mp_map s) (items_keys D (tr_items t))" by auto
  with assms(2) mp_rep_unique show ?thesis
    by (metis mempool_store.surjective old.unit.exhaust tracker_inv_def)
qed

text \<open>
  Reading the mempool store. A scan never panics and returns, in key order and once each,
  exactly the rows with the prefix that the tracked transactions have.
\<close>

lemma mempool_scan_exact:
  assumes "tracker_inv D t"
  shows "sorted_wrt (<) (map row_key (MempoolStore_scan (tr_index t) p)) \<and>
         (r \<in> set (MempoolStore_scan (tr_index t) p) \<longleftrightarrow>
            prefix p (row_key r) \<and> (\<exists>(txid, tx) \<in> set (tr_items t). r \<in> set (tx_rows D tx null_hash)))"
  using mp.scan_key_order [OF tracker_inv_mp [OF assms], of p]
    mp.scan_mem [OF tracker_inv_mp [OF assms], of r p] tracker_view [OF assms]
  by (simp add: mempool_read_store_def)

end
