(* ===== verification/Bitcoind.thy ===== *)
theory Bitcoind
  imports Daemon Mempool
begin

text \<open>
  What the program relies on of bitcoind and of the network, and that the client of \<open>daemon.rs\<close> then
  provides what the index and the mempool tracker rely on. \<open>serves\<close> states the behaviour of the
  connection: requests are answered, except that the connection may fail finitely often.
  \<open>answers\<close> states the documented results of the JSON-RPC methods for a node with a given chain and
  mempool. The locales \<open>chain_daemon\<close> and \<open>indexer\<close> of \<open>Index\<close> are interpreted on the client and the
  database, and \<open>mempool_daemon\<close> on the client.
\<close>

section \<open>The node\<close>

record node =
  nd_blocks :: "block list"
  nd_mempool :: "transaction list"

text \<open>
  A server seen from this side of the connection: the environments in which it runs, the node behind
  it, the lines it sent that are not yet read, a bound on the failures to come, the largest batch of
  requests it accepts, and the result of a method (none for an error).
\<close>

record 'e server =
  sv_up :: "'e \<Rightarrow> bool"
  sv_node :: "'e \<Rightarrow> node"
  sv_lines :: "'e \<Rightarrow> string list"
  sv_down :: "'e \<Rightarrow> nat"
  sv_limit :: nat
  sv_answer :: "node \<Rightarrow> string \<Rightarrow> json \<Rightarrow> json option"

definition stays :: "'e server \<Rightarrow> 'e \<Rightarrow> 'e \<Rightarrow> bool" where
  "stays S e e' \<longleftrightarrow> sv_up S e' \<and> sv_node S e' = sv_node S e \<and> sv_down S e' \<le> sv_down S e"

text \<open>The reply to a request of a batch: its id, no error, the result.\<close>

definition reply_ok :: "u64 \<Rightarrow> json \<Rightarrow> json \<Rightarrow> bool" where
  "reply_ok msg_id result reply \<longleftrightarrow> (\<exists>m. reply = JObj m \<and> map_of m ''error'' = Some JNull \<and>
     map_of m ''id'' = Some (JInt (uint msg_id)) \<and> map_of m ''result'' = Some result)"

definition http_reply :: "'e net \<Rightarrow> json list \<Rightarrow> string list \<Rightarrow> bool" where
  "http_reply N replies lines \<longleftrightarrow> (\<exists>hs body. lines = ''HTTP/1.1 200 OK'' # reply_lines hs body \<and>
     headers_ok hs \<and> body \<noteq> [] \<and> Suc (length body) < 2 ^ 64 \<and>
     map_of (rev hs) ''Content-Length'' = Some (show_nat (Suc (length body))) \<and>
     json_parse N body = Some (JArr replies))"

text \<open>
  Writing a batch of requests that have results either makes the reply available or fails, then or
  while the reply is read, which happens finitely often.
\<close>

definition write_ok :: "'e net \<Rightarrow> 'e server \<Rightarrow> 'e \<Rightarrow> bool" where
  "write_ok N S e \<longleftrightarrow> (\<forall>cookie meth msg_id ps. sv_lines S e = [] \<longrightarrow> length ps \<le> sv_limit S \<longrightarrow>
        (\<forall>p \<in> set ps. sv_answer S (sv_node S e) meth p \<noteq> None) \<longrightarrow>
        (\<exists>b e'. net_write N e (http_post N cookie (json_print N (JArr (map (jsonrpc_request meth msg_id) ps)))) = (b, e') \<and>
           stays S e e' \<and>
           (b \<and> (\<exists>replies. list_all2 (\<lambda>p r. reply_ok msg_id (the (sv_answer S (sv_node S e) meth p)) r) ps replies \<and>
                           http_reply N replies (sv_lines S e')) \<or>
            sv_lines S e' = [] \<and> sv_down S e' < sv_down S e)))"

definition serves :: "'e net \<Rightarrow> 'e server \<Rightarrow> bool" where
  "serves N S \<longleftrightarrow> 0 < sv_limit S \<and> (\<forall>e. sv_up S e \<longrightarrow>
     (\<exists>b e'. net_connect N e = (b, e') \<and> stays S e e' \<and> sv_lines S e' = [] \<and> (b \<or> sv_down S e' < sv_down S e)) \<and>
     (\<exists>e'. net_clone N e = (True, e') \<and> stays S e e' \<and> sv_lines S e' = sv_lines S e) \<and>
     (\<exists>c e'. net_cookie N e = (Ok c, e') \<and> stays S e e' \<and> sv_lines S e' = sv_lines S e) \<and>
     (\<exists>e'. net_recv_timeout N e 3 = (Timeout, e') \<and> stays S e e' \<and> sv_lines S e' = sv_lines S e) \<and>
     (\<exists>r e'. net_recv_timeout N e 0 = (r, e') \<and> stays S e e' \<and> sv_lines S e' = sv_lines S e) \<and>
     (\<exists>e'. net_line N e = (case sv_lines S e of [] \<Rightarrow> None | l # _ \<Rightarrow> Some (Some l), e') \<and> stays S e e' \<and>
           sv_lines S e' = tl (sv_lines S e)) \<and>
     write_ok N S e)"

section \<open>The connection returns\<close>

lemma stays_refl: "sv_up S e \<Longrightarrow> stays S e e"
  by (simp add: stays_def)

lemma stays_trans: "stays S a b \<Longrightarrow> stays S b c \<Longrightarrow> stays S a c"
  by (simp add: stays_def)

lemma stays_up: "stays S a b \<Longrightarrow> sv_up S b"
  by (simp add: stays_def)

lemma servesD:
  assumes "serves N S" and "sv_up S e"
  shows "\<exists>b e'. net_connect N e = (b, e') \<and> stays S e e' \<and> sv_lines S e' = [] \<and> (b \<or> sv_down S e' < sv_down S e)"
    and "\<exists>e'. net_clone N e = (True, e') \<and> stays S e e' \<and> sv_lines S e' = sv_lines S e"
    and "\<exists>c e'. net_cookie N e = (Ok c, e') \<and> stays S e e' \<and> sv_lines S e' = sv_lines S e"
    and "\<exists>e'. net_recv_timeout N e 3 = (Timeout, e') \<and> stays S e e' \<and> sv_lines S e' = sv_lines S e"
    and "\<exists>r e'. net_recv_timeout N e 0 = (r, e') \<and> stays S e e' \<and> sv_lines S e' = sv_lines S e"
    and "\<exists>e'. net_line N e = (case sv_lines S e of [] \<Rightarrow> None | l # _ \<Rightarrow> Some (Some l), e') \<and> stays S e e' \<and>
           sv_lines S e' = tl (sv_lines S e)"
  using assms unfolding serves_def by blast+

lemma serves_write:
  assumes "serves N S" and "sv_up S e" and "sv_lines S e = []" and "length ps \<le> sv_limit S"
    and "\<forall>p \<in> set ps. sv_answer S (sv_node S e) meth p \<noteq> None"
  shows "\<exists>b e'. net_write N e (http_post N cookie (json_print N (JArr (map (jsonrpc_request meth msg_id) ps)))) = (b, e') \<and>
           stays S e e' \<and>
           (b \<and> (\<exists>replies. list_all2 (\<lambda>p r. reply_ok msg_id (the (sv_answer S (sv_node S e) meth p)) r) ps replies \<and>
                           http_reply N replies (sv_lines S e')) \<or>
            sv_lines S e' = [] \<and> sv_down S e' < sv_down S e)"
proof -
  have "write_ok N S e" using assms(1,2) unfolding serves_def by blast
  then show ?thesis unfolding write_ok_def using assms(3-5) by (elim allE impE) assumption+
qed

lemma wait_serves:
  assumes "serves N S" and "sv_up S e"
  shows "\<exists>e'. wait_secs N 3 e = Some (Ok (), e') \<and> stays S e e' \<and> sv_lines S e' = sv_lines S e"
proof -
  obtain e' where e': "net_recv_timeout N e 3 = (Timeout, e')" "stays S e e'" "sv_lines S e' = sv_lines S e"
    using servesD(4) [OF assms] by blast
  from e'(1) have "wait_secs N 3 e = Some (Ok (), e')" by (simp add: Waiter_wait_def)
  with e' show ?thesis by blast
qed

lemma tcp_connect_serves:
  assumes "serves N S" and "sv_up S e"
  shows "\<exists>e'. tcp_connect N e = Some (Ok (), e') \<and> stays S e e' \<and> sv_lines S e' = []"
  using assms(2)
proof (induction "sv_down S e" arbitrary: e rule: less_induct)
  case less
  obtain b e1 where c: "net_connect N e = (b, e1)" "stays S e e1" "sv_lines S e1 = []" "b \<or> sv_down S e1 < sv_down S e"
    using servesD(1) [OF assms(1) less.prems] by blast
  show ?case
  proof (cases b)
    case True
    with c show ?thesis by (subst tcp_connect.simps) simp
  next
    case False
    obtain e2 where w: "wait_secs N 3 e1 = Some (Ok (), e2)" "stays S e1 e2"
      using wait_serves [OF assms(1) stays_up [OF c(2)]] by blast
    have "sv_down S e2 < sv_down S e" using c(4) False w(2) by (simp add: stays_def)
    from less.hyps [OF this stays_up [OF w(2)]] obtain e3
      where "tcp_connect N e2 = Some (Ok (), e3)" "stays S e2 e3" "sv_lines S e3 = []" by blast
    with c w False show ?thesis
      by (subst tcp_connect.simps) (auto intro: stays_trans)
  qed
qed

lemma Connection_new_serves:
  assumes "serves N S" and "sv_up S e"
  shows "\<exists>e'. Connection_new N e = Some (Ok (), e') \<and> stays S e e' \<and> sv_lines S e' = []"
proof -
  obtain e1 where t: "tcp_connect N e = Some (Ok (), e1)" "stays S e e1" "sv_lines S e1 = []"
    using tcp_connect_serves [OF assms] by blast
  obtain e2 where "net_clone N e1 = (True, e2)" "stays S e1 e2" "sv_lines S e2 = sv_lines S e1"
    using servesD(2) [OF assms(1) stays_up [OF t(2)]] by blast
  with t show ?thesis
    by (auto simp: Connection_new_def pbind_Ok intro: stays_trans)
qed

lemma serves_reads:
  assumes "serves N S" and "sv_up S e" and "sv_lines S e = ls"
  shows "\<exists>e'. reads N e ls e' \<and> stays S e e' \<and> sv_lines S e' = []"
  using assms(2,3)
proof (induction ls arbitrary: e)
  case Nil
  then show ?case by (auto intro: stays_refl)
next
  case (Cons l ls)
  obtain e1 where l: "net_line N e = (Some (Some l), e1)" "stays S e e1" "sv_lines S e1 = ls"
    using servesD(6) [OF assms(1) Cons.prems(1)] Cons.prems(2) by auto
  from Cons.IH [OF stays_up [OF l(2)] l(3)] l show ?case by (auto intro: stays_trans)
qed

section \<open>Requests are answered\<close>

lemma parse_reply_ok: "reply_ok msg_id v r \<Longrightarrow> parse_jsonrpc_reply r msg_id = Ok v"
  by (auto simp: reply_ok_def parse_jsonrpc_reply_def check_error_code_def parse_error_code_def)

lemma parse_replies_ok:
  "list_all2 (\<lambda>p r. reply_ok msg_id (f p) r) ps replies \<Longrightarrow>
     mapM_res (\<lambda>r. parse_jsonrpc_reply r msg_id) replies = Ok (map f ps)"
  by (induction rule: list_all2_induct) (simp_all add: parse_reply_ok)

lemma conn_recv_serves:
  assumes "serves N S" and "sv_up S e" and "http_reply N replies (sv_lines S e)"
  shows "\<exists>body e'. conn_recv N e = Some (Ok body, e') \<and> json_parse N body = Some (JArr replies) \<and>
                   stays S e e' \<and> sv_lines S e' = []"
proof -
  obtain hs body where r: "sv_lines S e = ''HTTP/1.1 200 OK'' # reply_lines hs body" "headers_ok hs" "body \<noteq> []"
    "Suc (length body) < 2 ^ 64" "map_of (rev hs) ''Content-Length'' = Some (show_nat (Suc (length body)))"
    "json_parse N body = Some (JArr replies)"
    using assms(3) unfolding http_reply_def by blast
  obtain e' where e': "reads N e (''HTTP/1.1 200 OK'' # reply_lines hs body) e'" "stays S e e'" "sv_lines S e' = []"
    using serves_reads [OF assms(1,2) r(1)] by blast
  have "check_reply ''HTTP/1.1 200 OK'' (Some body) (rev hs) = Ok body"
    using check_reply_length [OF r(5) _ r(4), of body "''HTTP/1.1 200 OK''"] r(4) by simp
  with conn_recv_lines [OF e'(1) r(2,3)] e' r(6) show ?thesis by auto
qed

lemma conn_recv_dropped:
  assumes "serves N S" and "sv_up S e" and "sv_lines S e = []"
  shows "\<exists>r e'. conn_recv N e = Some (r, e') \<and> is_connection r \<and> stays S e e'"
proof -
  obtain e' where "net_line N e = (None, e')" "stays S e e'"
    using servesD(6) [OF assms(1,2)] assms(3) by auto
  then show ?thesis by (auto simp: conn_recv_def bail_def)
qed

definition daemon_up :: "'e server \<Rightarrow> 'e daemon \<Rightarrow> bool" where
  "daemon_up S d \<longleftrightarrow> sv_up S (d_env d) \<and> sv_lines S (d_env d) = []"

abbreviation node_of :: "'e server \<Rightarrow> 'e daemon \<Rightarrow> node" where
  "node_of S d \<equiv> sv_node S (d_env d)"

abbreviation dstays :: "'e server \<Rightarrow> 'e daemon \<Rightarrow> 'e daemon \<Rightarrow> bool" where
  "dstays S d d' \<equiv> stays S (d_env d) (d_env d')"

lemma conn_send_serves:
  assumes "serves N S" and "sv_up S e" and "sv_lines S e = []" and "length ps \<le> sv_limit S"
    and "\<forall>p \<in> set ps. sv_answer S (sv_node S e) meth p \<noteq> None"
  shows "\<exists>r e'. conn_send N (json_print N (JArr (map (jsonrpc_request meth msg_id) ps))) e = Some (r, e') \<and> stays S e e' \<and>
           (r = Ok () \<and> (\<exists>replies. list_all2 (\<lambda>p r. reply_ok msg_id (the (sv_answer S (sv_node S e) meth p)) r) ps replies \<and>
                                   http_reply N replies (sv_lines S e')) \<or>
            (r = Ok () \<or> is_connection r) \<and> sv_lines S e' = [] \<and> sv_down S e' < sv_down S e)"
proof -
  obtain c e1 where c: "net_cookie N e = (Ok c, e1)" "stays S e e1" "sv_lines S e1 = sv_lines S e"
    using servesD(3) [OF assms(1,2)] by blast
  have e1: "sv_up S e1" "sv_node S e1 = sv_node S e" using c(2) by (simp_all add: stays_def)
  obtain b e2 where w:
    "net_write N e1 (http_post N c (json_print N (JArr (map (jsonrpc_request meth msg_id) ps)))) = (b, e2)"
    "stays S e1 e2"
    "b \<and> (\<exists>replies. list_all2 (\<lambda>p r. reply_ok msg_id (the (sv_answer S (sv_node S e) meth p)) r) ps replies \<and>
                     http_reply N replies (sv_lines S e2)) \<or>
     sv_lines S e2 = [] \<and> sv_down S e2 < sv_down S e1"
    using serves_write [OF assms(1) e1(1), of ps meth c msg_id] assms(3-5) c(3) e1(2) by auto
  have "sv_down S e1 \<le> sv_down S e" using c(2) by (simp add: stays_def)
  with c w show ?thesis
    by (cases b) (auto simp: conn_send_def pbind_def intro: stays_trans)
qed

lemma handle_request_batch_serves:
  assumes "serves N S" and "daemon_up S d" and "length ps \<le> sv_limit S" and "\<forall>p \<in> set ps. sv_answer S (node_of S d) meth p \<noteq> None"
  shows "\<exists>r d'. handle_request_batch N meth ps d = Some (r, d') \<and> dstays S d d' \<and>
           (r = Ok (map (\<lambda>p. the (sv_answer S (node_of S d) meth p)) ps) \<and> daemon_up S d' \<or>
            is_connection r \<and> sv_down S (d_env d') < sv_down S (d_env d))"
proof -
  let ?id = "d_message_id d + 1"
  let ?d = "d\<lparr>d_message_id := ?id\<rparr>"
  let ?req = "JArr (map (jsonrpc_request meth ?id) ps)"
  have up: "sv_up S (d_env d)" "sv_lines S (d_env d) = []" using assms(2) by (simp_all add: daemon_up_def)
  obtain r e1 where s: "conn_send N (json_print N ?req) (d_env d) = Some (r, e1)" "stays S (d_env d) e1"
    "r = Ok () \<and> (\<exists>replies. list_all2 (\<lambda>p r. reply_ok ?id (the (sv_answer S (node_of S d) meth p)) r) ps replies \<and>
                             http_reply N replies (sv_lines S e1)) \<or>
     (r = Ok () \<or> is_connection r) \<and> sv_lines S e1 = [] \<and> sv_down S e1 < sv_down S (d_env d)"
    using conn_send_serves [OF assms(1) up assms(3,4), of ?id] by blast
  have run: "handle_request_batch N meth ps d = pbind (call_jsonrpc N ?req) (\<lambda>replies.
      case as_array replies of
        Some v \<Rightarrow> pret (mapM_res (\<lambda>reply. parse_jsonrpc_reply reply ?id) v)
      | None \<Rightarrow> pret (bail (Msg ''non-array replies''))) ?d"
    by (simp add: handle_request_batch_def Counter_next_def)
  from s(3) consider replies where "r = Ok ()"
      "list_all2 (\<lambda>p r. reply_ok ?id (the (sv_answer S (node_of S d) meth p)) r) ps replies"
      "http_reply N replies (sv_lines S e1)"
    | "r = Ok ()" "sv_lines S e1 = []" "sv_down S e1 < sv_down S (d_env d)"
    | "is_connection r" "sv_down S e1 < sv_down S (d_env d)" by blast
  then show ?thesis
  proof cases
    case 1
    from conn_recv_serves [OF assms(1) stays_up [OF s(2)] 1(3)] obtain body e2 where
      "conn_recv N e1 = Some (Ok body, e2)" "json_parse N body = Some (JArr replies)" "stays S e1 e2" "sv_lines S e2 = []"
      by blast
    with s(1,2) 1 parse_replies_ok [OF 1(2)] show ?thesis
      by (auto simp: run call_jsonrpc_def pbind_def on_env_def chain_opt_def daemon_up_def stays_up intro: stays_trans)
  next
    case 2
    from conn_recv_dropped [OF assms(1) stays_up [OF s(2)] 2(2)] obtain x e2 where
      "conn_recv N e1 = Some (Err x, e2)" "connection_error x" "stays S e1 e2"
      by (metis is_connection.elims(2) is_connection.simps(1))
    with s(1,2) 2 show ?thesis
      by (auto simp: run call_jsonrpc_def pbind_def on_env_def stays_def)
  next
    case 3
    then obtain x where "r = Err x" by (cases r) auto
    with s(1,2) 3 show ?thesis by (auto simp: run call_jsonrpc_def pbind_def on_env_def)
  qed
qed

lemma wait_and_reconnect_serves:
  assumes "serves N S" and "sv_up S (d_env d)"
  shows "\<exists>d'. wait_and_reconnect N d = Some (Ok (), d') \<and> dstays S d d' \<and> daemon_up S d'"
proof -
  obtain e1 where w: "wait_secs N 3 (d_env d) = Some (Ok (), e1)" "stays S (d_env d) e1"
    using wait_serves [OF assms] by blast
  obtain e2 where "Connection_new N e1 = Some (Ok (), e2)" "stays S e1 e2" "sv_lines S e2 = []"
    using Connection_new_serves [OF assms(1) stays_up [OF w(2)]] by blast
  with w show ?thesis
    by (auto simp: wait_and_reconnect_def Connection_reconnect_def pbind_def on_env_def daemon_up_def
        stays_up intro: stays_trans)
qed

text \<open>The retry loop ends with the results: it outlasts the failures of the connection.\<close>

lemma requests_serves:
  assumes "serves N S" and "daemon_up S d" and "length ps \<le> sv_limit S" and "\<forall>p \<in> set ps. sv_answer S (node_of S d) meth p \<noteq> None"
  shows "\<exists>d'. requests N meth ps d = Some (Ok (map (\<lambda>p. the (sv_answer S (node_of S d) meth p)) ps), d') \<and>
              dstays S d d' \<and> daemon_up S d'"
  unfolding requests_def using assms(2,4)
proof (induction "sv_down S (d_env d)" arbitrary: d rule: less_induct)
  case less
  obtain r d1 where h: "handle_request_batch N meth ps d = Some (r, d1)" "dstays S d d1"
    "r = Ok (map (\<lambda>p. the (sv_answer S (node_of S d) meth p)) ps) \<and> daemon_up S d1 \<or>
     is_connection r \<and> sv_down S (d_env d1) < sv_down S (d_env d)"
    using handle_request_batch_serves [OF assms(1) less.prems(1) assms(3) less.prems(2)] by blast
  show ?case
  proof (cases "is_connection r")
    case False
    with h show ?thesis by (subst retry_request_batch.simps) auto
  next
    case True
    obtain d2 where w: "wait_and_reconnect N d1 = Some (Ok (), d2)" "dstays S d1 d2" "daemon_up S d2"
      using wait_and_reconnect_serves [OF assms(1) stays_up [OF h(2)]] by blast
    have "sv_down S (d_env d2) < sv_down S (d_env d)" and nd: "node_of S d2 = node_of S d"
      using True h w by (auto simp: stays_def)
    from less.hyps [OF this(1) w(3)] less.prems(2) nd obtain d3 where
      "retry_request_batch N meth ps d2 = Some (Ok (map (\<lambda>p. the (sv_answer S (node_of S d) meth p)) ps), d3)"
      "dstays S d2 d3" "daemon_up S d3"
      by auto
    with h w True show ?thesis
      by (subst retry_request_batch.simps) (auto intro: stays_trans)
  qed
qed

lemma request_serves:
  assumes "serves N S" and "daemon_up S d" and "sv_answer S (node_of S d) meth p = Some v"
  shows "\<exists>d'. request N meth p d = Some (Ok v, d') \<and> dstays S d d' \<and> daemon_up S d'"
  using requests_serves [OF assms(1,2), of "[p]" meth] assms(1,3)
  by (auto simp: request_def requests_def pbind_Ok serves_def)

section \<open>The documented results\<close>

abbreviation blk_hash :: "deps \<Rightarrow> block \<Rightarrow> hash" where
  "blk_hash D b \<equiv> bitcoin_hash D (blk_header b)"

definition node_ok :: "deps \<Rightarrow> node \<Rightarrow> bool" where
  "node_ok D nd \<longleftrightarrow> valid_chain D (headers_of (nd_blocks nd)) \<and> nd_blocks nd \<noteq> [] \<and>
     length (nd_blocks nd) < 2 ^ 64 \<and> distinct (map (tx_txid D) (nd_mempool nd))"

text \<open>
  The methods that the client calls, for a chain \<open>bs\<close> and a mempool \<open>txs\<close>: the hash of the tip, the
  hash at a height, a header and a block by hash in hexadecimal, the height in the verbose header,
  the transaction ids in the verbose block, the ids of the mempool, a transaction by id.
\<close>

definition answers :: "deps \<Rightarrow> (string \<Rightarrow> json list \<Rightarrow> json option) \<Rightarrow> block list \<Rightarrow> transaction list \<Rightarrow> bool" where
  "answers D call bs txs \<longleftrightarrow>
     call ''getbestblockhash'' [] = Some (JStr (to_hex D (blk_hash D (last bs)))) \<and>
     (\<forall>i < length bs. call ''getblockhash'' [JInt (int i)] = Some (JStr (to_hex D (blk_hash D (bs ! i))))) \<and>
     (\<forall>b \<in> set bs. \<exists>s bytes. call ''getblockheader'' [JStr (to_hex D (blk_hash D b)), JBool False] = Some (JStr s) \<and>
        hex_decode D s = Some bytes \<and> de_header D bytes = Some (blk_header b)) \<and>
     (\<forall>i < length bs. \<exists>m. call ''getblockheader'' [JStr (to_hex D (blk_hash D (bs ! i)))] = Some (JObj m) \<and>
        map_of m ''height'' = Some (JInt (int i))) \<and>
     (\<forall>b \<in> set bs. \<exists>s bytes. call ''getblock'' [JStr (to_hex D (blk_hash D b)), JBool False] = Some (JStr s) \<and>
        hex_decode D s = Some bytes \<and> de_block D bytes = Some b) \<and>
     (\<forall>b \<in> set bs. \<exists>m. call ''getblock'' [JStr (to_hex D (blk_hash D b)), JInt 1] = Some (JObj m) \<and>
        map_of m ''tx'' = Some (JArr (map (\<lambda>t. JStr (to_hex D (tx_txid D t))) (txdata b)))) \<and>
     call ''getrawmempool'' [JBool False] = Some (JArr (map (\<lambda>t. JStr (to_hex D (tx_txid D t))) txs)) \<and>
     (\<forall>t \<in> set txs. \<exists>s bytes. call ''getrawtransaction'' [JStr (to_hex D (tx_txid D t)), JBool False] = Some (JStr s) \<and>
        hex_decode D s = Some bytes \<and> de_tx D bytes = Some t)"

definition bitcoind :: "deps \<Rightarrow> 'e net \<Rightarrow> 'e server \<Rightarrow> bool" where
  "bitcoind D N S \<longleftrightarrow> serves N S \<and> codec_ok D \<and> hex_ok D \<and> 100000 \<le> sv_limit S \<and>
     (\<forall>e. sv_up S e \<longrightarrow> node_ok D (sv_node S e) \<and> length (nd_mempool (sv_node S e)) \<le> sv_limit S \<and>
        answers D (\<lambda>meth ps. sv_answer S (sv_node S e) meth (JArr ps)) (nd_blocks (sv_node S e)) (nd_mempool (sv_node S e)))"

lemma bitcoindD:
  assumes "bitcoind D N S"
  shows "serves N S" and "codec_ok D" and "hex_ok D"
    and "daemon_up S d \<Longrightarrow> node_ok D (node_of S d)"
    and "daemon_up S d \<Longrightarrow> answers D (\<lambda>meth ps. sv_answer S (node_of S d) meth (JArr ps))
           (nd_blocks (node_of S d)) (nd_mempool (node_of S d))"
    and "100000 \<le> sv_limit S" and "daemon_up S d \<Longrightarrow> length (nd_mempool (node_of S d)) \<le> sv_limit S"
  using assms unfolding bitcoind_def daemon_up_def by blast+

lemma parse_hash_hex: "hex_ok D \<Longrightarrow> parse_hash D (JStr (to_hex D h)) = Ok h"
  by (simp add: parse_hash_def hex_ok_def chain_opt_def)

section \<open>The methods on a running node\<close>

lemma Daemon_reconnect_serves:
  assumes "serves N S" and "daemon_up S d"
  shows "\<exists>d'. Daemon_reconnect N d = Some (Ok (), d') \<and> dstays S d d' \<and> daemon_up S d'"
proof -
  obtain e where "Connection_new N (d_env d) = Some (Ok (), e)" "stays S (d_env d) e" "sv_lines S e = []"
    using Connection_new_serves [OF assms(1), of "d_env d"] assms(2) unfolding daemon_up_def by blast
  then show ?thesis
    by (auto simp: Daemon_reconnect_def Connection_reconnect_def pbind_def on_env_def daemon_up_def stays_up)
qed

lemma getbestblockhash_serves:
  assumes "bitcoind D N S" and "daemon_up S d"
  shows "\<exists>d'. getbestblockhash D N d = Some (Ok (blk_hash D (last (nd_blocks (node_of S d)))), d') \<and>
              dstays S d d' \<and> daemon_up S d'"
proof -
  have "sv_answer S (node_of S d) ''getbestblockhash'' (JArr []) =
      Some (JStr (to_hex D (blk_hash D (last (nd_blocks (node_of S d))))))"
    using bitcoindD(5) [OF assms] by (simp add: answers_def)
  from request_serves [OF bitcoindD(1) [OF assms(1)] assms(2) this] bitcoindD(3) [OF assms(1)]
  show ?thesis by (auto simp: getbestblockhash_def pbind_def parse_hash_hex)
qed

lemma getblockheader_serves:
  assumes "bitcoind D N S" and "daemon_up S d" and "b \<in> set (nd_blocks (node_of S d))"
  shows "\<exists>d'. getblockheader D N (blk_hash D b) d = Some (Ok (blk_header b), d') \<and> dstays S d d' \<and> daemon_up S d'"
proof -
  obtain s bytes where "sv_answer S (node_of S d) ''getblockheader'' (JArr [JStr (to_hex D (blk_hash D b)), JBool False]) =
      Some (JStr s)" "hex_decode D s = Some bytes" "de_header D bytes = Some (blk_header b)"
    using bitcoindD(5) [OF assms(1,2)] assms(3) unfolding answers_def by blast
  with request_serves [OF bitcoindD(1) [OF assms(1)] assms(2) this(1)]
  show ?thesis by (auto simp: getblockheader_def pbind_def header_from_value_def chain_opt_def)
qed

text \<open>A batch of requests whose results are decoded one by one.\<close>

lemma batch_serves:
  assumes "serves N S" and "daemon_up S d" and "length xs \<le> sv_limit S"
    and "\<And>x. x \<in> set xs \<Longrightarrow> \<exists>v. sv_answer S (node_of S d) meth (f x) = Some v \<and> g v = Ok (h x)"
  shows "\<exists>d' vs. requests N meth (map f xs) d = Some (Ok vs, d') \<and> mapM_res g vs = Ok (map h xs) \<and>
                 dstays S d d' \<and> daemon_up S d'"
proof -
  have "\<forall>p \<in> set (map f xs). sv_answer S (node_of S d) meth p \<noteq> None" using assms(4) by fastforce
  from requests_serves [OF assms(1,2) _ this] assms(3) obtain d' where
    r: "requests N meth (map f xs) d =
        Some (Ok (map (\<lambda>p. the (sv_answer S (node_of S d) meth p)) (map f xs)), d')" "dstays S d d'" "daemon_up S d'"
    by auto
  have "mapM_res g (map (\<lambda>p. the (sv_answer S (node_of S d) meth p)) (map f xs)) = Ok (map h xs)"
    unfolding mapM_res_map by (rule mapM_res_Ok) (use assms(4) in fastforce)
  with r show ?thesis by blast
qed

lemma getblocks_serves:
  assumes "bitcoind D N S" and "daemon_up S d" and "set bs \<subseteq> set (nd_blocks (node_of S d))" and "length bs \<le> sv_limit S"
  shows "\<exists>d'. getblocks D N (map (blk_hash D) bs) d = Some (Ok bs, d') \<and> dstays S d d' \<and> daemon_up S d'"
proof -
  have "\<exists>v. sv_answer S (node_of S d) ''getblock'' (JArr [JStr (to_hex D (blk_hash D b)), JBool False]) = Some v \<and>
      block_from_value D v = Ok b" if "b \<in> set bs" for b
  proof -
    have "b \<in> set (nd_blocks (node_of S d))" using that assms(3) by blast
    then obtain s bytes where "sv_answer S (node_of S d) ''getblock'' (JArr [JStr (to_hex D (blk_hash D b)), JBool False]) =
        Some (JStr s)" "hex_decode D s = Some bytes" "de_block D bytes = Some b"
      using bitcoindD(5) [OF assms(1,2)] unfolding answers_def by blast
    then show ?thesis by (auto simp: block_from_value_def chain_opt_def)
  qed
  from batch_serves [OF bitcoindD(1) [OF assms(1)] assms(2,4) this, of "\<lambda>b. b"]
  show ?thesis by (auto simp: getblocks_def pbind_def comp_def)
qed

lemma gettransactions_serves:
  assumes "bitcoind D N S" and "daemon_up S d" and "set ts \<subseteq> set (nd_mempool (node_of S d))" and "length ts \<le> sv_limit S"
  shows "\<exists>d'. gettransactions D N (map (tx_txid D) ts) d = Some (Ok ts, d') \<and> dstays S d d' \<and> daemon_up S d'"
proof -
  have "\<exists>v. sv_answer S (node_of S d) ''getrawtransaction'' (JArr [JStr (to_hex D (tx_txid D t)), JBool False]) = Some v \<and>
      tx_from_value D v = Ok t" if "t \<in> set ts" for t
  proof -
    have "t \<in> set (nd_mempool (node_of S d))" using that assms(3) by blast
    then obtain s bytes where "sv_answer S (node_of S d) ''getrawtransaction'' (JArr [JStr (to_hex D (tx_txid D t)), JBool False]) =
        Some (JStr s)" "hex_decode D s = Some bytes" "de_tx D bytes = Some t"
      using bitcoindD(5) [OF assms(1,2)] unfolding answers_def by blast
    then show ?thesis by (auto simp: tx_from_value_def chain_opt_def)
  qed
  from batch_serves [OF bitcoindD(1) [OF assms(1)] assms(2,4) this, of "\<lambda>t. t"]
  show ?thesis by (auto simp: gettransactions_def pbind_def comp_def)
qed

lemma getmempooltxids_serves:
  assumes "bitcoind D N S" and "daemon_up S d"
  shows "\<exists>d'. getmempooltxids D N d = Some (Ok (map (tx_txid D) (nd_mempool (node_of S d))), d') \<and>
              dstays S d d' \<and> daemon_up S d'"
proof -
  let ?ts = "nd_mempool (node_of S d)"
  have "sv_answer S (node_of S d) ''getrawmempool'' (JArr [JBool False]) =
      Some (JArr (map (\<lambda>t. JStr (to_hex D (tx_txid D t))) ?ts))"
    using bitcoindD(5) [OF assms] by (simp add: answers_def)
  note req = request_serves [OF bitcoindD(1) [OF assms(1)] assms(2) this]
  have "mapM_res (\<lambda>v. chain_err (Msg ''invalid txid'') (parse_hash D v)) (map (\<lambda>t. JStr (to_hex D (tx_txid D t))) ?ts) =
      Ok (map (tx_txid D) ?ts)"
    unfolding mapM_res_map by (rule mapM_res_Ok) (simp add: parse_hash_hex bitcoindD(3) [OF assms(1)])
  moreover have "distinct (map (tx_txid D) ?ts)" using bitcoindD(4) [OF assms] by (simp add: node_ok_def)
  ultimately show ?thesis using req
    by (auto simp: getmempooltxids_def pbind_def distinct_remdups_id)
qed

lemma load_blocktxids_serves:
  assumes "bitcoind D N S" and "daemon_up S d" and "b \<in> set (nd_blocks (node_of S d))"
  shows "\<exists>d'. load_blocktxids D N (blk_hash D b) d = Some (Ok (map (tx_txid D) (txdata b)), d') \<and>
              dstays S d d' \<and> daemon_up S d'"
proof -
  obtain m where m: "sv_answer S (node_of S d) ''getblock'' (JArr [JStr (to_hex D (blk_hash D b)), JInt 1]) = Some (JObj m)"
    "map_of m ''tx'' = Some (JArr (map (\<lambda>t. JStr (to_hex D (tx_txid D t))) (txdata b)))"
    using bitcoindD(5) [OF assms(1,2)] assms(3) unfolding answers_def by blast
  have "mapM_res (parse_hash D) (map (\<lambda>t. JStr (to_hex D (tx_txid D t))) (txdata b)) = Ok (map (tx_txid D) (txdata b))"
    unfolding mapM_res_map by (rule mapM_res_Ok) (simp add: parse_hash_hex bitcoindD(3) [OF assms(1)])
  with m request_serves [OF bitcoindD(1) [OF assms(1)] assms(2) m(1)]
  show ?thesis by (auto simp: load_blocktxids_def pbind_def)
qed

lemma getblockheaders_serves:
  assumes "bitcoind D N S" and "daemon_up S d" and "\<forall>i \<in> set heights. i < length (nd_blocks (node_of S d))"
    and "length heights \<le> sv_limit S"
  shows "\<exists>d'. getblockheaders D N heights d =
                Some (Ok (map (\<lambda>i. headers_of (nd_blocks (node_of S d)) ! i) heights), d') \<and> dstays S d d' \<and> daemon_up S d'"
proof -
  let ?bs = "nd_blocks (node_of S d)"
  note serves = bitcoindD(1) [OF assms(1)] and answers = bitcoindD(5) [OF assms(1,2)]
  have q: "\<exists>v. sv_answer S (node_of S d) ''getblockhash'' (JArr [JInt (int i)]) = Some v \<and>
      Ok v = Ok (JStr (to_hex D (blk_hash D (?bs ! i))))" if "i \<in> set heights" for i
    using answers assms(3) that by (simp add: answers_def)
  obtain d1 vs where h:
    "requests N ''getblockhash'' (map (\<lambda>i. JArr [JInt (int i)]) heights) d = Some (Ok vs, d1)"
    "mapM_res Ok vs = Ok (map (\<lambda>i. JStr (to_hex D (blk_hash D (?bs ! i)))) heights)" "dstays S d d1" "daemon_up S d1"
    using batch_serves [OF serves assms(2,4), where f = "\<lambda>i. JArr [JInt (int i)]", OF q] by blast
  have vs: "vs = map (\<lambda>i. JStr (to_hex D (blk_hash D (?bs ! i)))) heights"
    using h(2) by (simp add: mapM_res_Ok [of vs Ok "\<lambda>x. x"])
  have nd: "node_of S d1 = node_of S d" using h(3) by (simp add: stays_def)
  have q: "\<exists>v. sv_answer S (node_of S d1) ''getblockheader'' (JArr [JStr (to_hex D (blk_hash D (?bs ! i))), JBool False]) = Some v \<and>
      header_from_value D v = Ok (headers_of ?bs ! i)" if i: "i \<in> set heights" for i
  proof -
    have "?bs ! i \<in> set ?bs" using assms(3) i by simp
    then obtain s bytes where "sv_answer S (node_of S d) ''getblockheader'' (JArr [JStr (to_hex D (blk_hash D (?bs ! i))), JBool False]) =
        Some (JStr s)" "hex_decode D s = Some bytes" "de_header D bytes = Some (blk_header (?bs ! i))"
      using answers unfolding answers_def by blast
    then show ?thesis using assms(3) i by (auto simp: nd header_from_value_def chain_opt_def headers_of_def)
  qed
  obtain d2 ws where
    "requests N ''getblockheader'' (map (\<lambda>hash. JArr [hash, JBool False]) vs) d1 = Some (Ok ws, d2)"
    "mapM_res (header_from_value D) ws = Ok (map (\<lambda>i. headers_of ?bs ! i) heights)" "dstays S d1 d2" "daemon_up S d2"
    using batch_serves [OF serves h(4) assms(4),
        where f = "\<lambda>i. JArr [JStr (to_hex D (blk_hash D (?bs ! i))), JBool False]", OF q] unfolding vs
    by (auto simp: comp_def)
  with h show ?thesis by (auto simp: getblockheaders_def pbind_def intro: stays_trans)
qed

lemma header_chunks_serves:
  assumes "bitcoind D N S" and "daemon_up S d" and "\<forall>i \<in> set (concat cs). i < length (nd_blocks (node_of S d))"
    and "\<forall>c \<in> set cs. length c \<le> sv_limit S"
  shows "\<exists>d'. header_chunks D N cs d =
                Some (Ok (map (\<lambda>i. headers_of (nd_blocks (node_of S d)) ! i) (concat cs)), d') \<and>
              dstays S d d' \<and> daemon_up S d'"
  using assms(2-4)
proof (induction cs arbitrary: d)
  case Nil
  then show ?case by (auto simp: daemon_up_def stays_refl)
next
  case (Cons c cs)
  obtain d1 where g: "getblockheaders D N c d = Some (Ok (map (\<lambda>i. headers_of (nd_blocks (node_of S d)) ! i) c), d1)"
    "dstays S d d1" "daemon_up S d1"
    using getblockheaders_serves [OF assms(1) Cons.prems(1), of c] Cons.prems(2,3) by auto
  have nd: "node_of S d1 = node_of S d" using g(2) by (simp add: stays_def)
  from Cons.IH [OF g(3)] Cons.prems(2,3) g show ?case
    by (auto simp: nd pbind_def intro: stays_trans)
qed

lemma check_header_linked:
  "linked D p hs \<Longrightarrow> foldM_res (check_header D) p hs = Ok (chain_tip D p hs)"
  by (induction hs arbitrary: p) (auto simp: check_header_def chain_tip_def)

lemma get_all_headers_serves:
  assumes "bitcoind D N S" and "daemon_up S d"
  shows "\<exists>d'. get_all_headers D N (blk_hash D (last (nd_blocks (node_of S d)))) d =
                Some (Ok (headers_of (nd_blocks (node_of S d))), d') \<and> dstays S d d' \<and> daemon_up S d'"
proof -
  let ?bs = "nd_blocks (node_of S d)"
  have nd: "valid_chain D (headers_of ?bs)" "?bs \<noteq> []" "length ?bs < 2 ^ 64"
    using bitcoindD(4) [OF assms] by (simp_all add: node_ok_def)
  have last: "?bs ! (length ?bs - 1) = last ?bs" "length ?bs - 1 < length ?bs"
    using nd(2) by (simp_all add: last_conv_nth)
  obtain m where m: "sv_answer S (node_of S d) ''getblockheader'' (JArr [JStr (to_hex D (blk_hash D (last ?bs)))]) = Some (JObj m)"
    "map_of m ''height'' = Some (JInt (int (length ?bs - 1)))"
    using bitcoindD(5) [OF assms] last unfolding answers_def by metis
  obtain d1 where r: "request N ''getblockheader'' (JArr [JStr (to_hex D (blk_hash D (last ?bs)))]) d = Some (Ok (JObj m), d1)"
    "dstays S d d1" "daemon_up S d1"
    using request_serves [OF bitcoindD(1) [OF assms(1)] assms(2) m(1)] by blast
  have nd1: "node_of S d1 = node_of S d" using r(2) by (simp add: stays_def)
  have u: "as_u64 (JInt (int (length ?bs - 1))) = Some (length ?bs - 1)"
    by (rule as_u64_of_nat) (use nd(3) in simp)
  have all: "concat (chunks 100000 [0..<Suc (length ?bs - 1)]) = [0..<length ?bs]"
    using nd(2) by (simp add: concat_chunks del: upt_Suc)
  have hs: "map (\<lambda>i. headers_of ?bs ! i) [0..<length ?bs] = headers_of ?bs"
    by (metis headers_of_def length_map map_nth)
  obtain d2 where c: "header_chunks D N (chunks 100000 [0..<Suc (length ?bs - 1)]) d1 = Some (Ok (headers_of ?bs), d2)"
    "dstays S d1 d2" "daemon_up S d2"
    using header_chunks_serves [OF assms(1) r(3), of "chunks 100000 [0..<Suc (length ?bs - 1)]"]
      bitcoindD(6) [OF assms(1)] chunks_length [of _ 100000]
    unfolding all nd1 hs by fastforce
  have "foldM_res (check_header D) null_hash (headers_of ?bs) = Ok (blk_hash D (last ?bs))"
    using check_header_linked [of D null_hash "headers_of ?bs"] nd
    by (simp add: valid_chain_def chain_tip_def headers_of_def last_map)
  with r c m(2) u show ?thesis
    by (auto simp: get_all_headers_def pbind_def intro: stays_trans simp del: as_u64.simps upt_Suc)
qed

section \<open>The walk back to a known block\<close>

text \<open>Two chains from the null hash agree up to every block that they share.\<close>

lemma shared_block:
  assumes "valid_chain D hs" and "valid_chain D ns" and "inj_on (bitcoin_hash D) (set hs \<union> set ns)"
    and "i < length ns" and "j < length hs" and "ns ! i = hs ! j"
  shows "j = i \<and> take (Suc i) ns = take (Suc i) hs"
  using assms(4-6)
proof (induction i arbitrary: j)
  case 0
  have "prev_blockhash (ns ! 0) = null_hash"
    using linked_nth [of D null_hash ns 0] assms(2) 0 by (simp add: valid_chain_def)
  then have "j = 0"
    using linked_nth [of D null_hash hs j] assms(1) 0 valid_chain_nonnull [OF assms(1), of "hs ! (j - 1)"]
    by (auto simp: valid_chain_def split: if_splits)
  with 0 show ?case by (simp add: take_Suc_conv_app_nth)
next
  case (Suc i)
  have p: "prev_blockhash (ns ! Suc i) = bitcoin_hash D (ns ! i)"
    using linked_nth [of D null_hash ns "Suc i"] assms(2) Suc.prems(1) by (simp add: valid_chain_def)
  have ni: "ns ! i \<in> set ns" using Suc.prems(1) by simp
  have "j \<noteq> 0"
  proof
    assume "j = 0"
    with linked_nth [of D null_hash hs 0] assms(1) Suc.prems p have "bitcoin_hash D (ns ! i) = null_hash"
      by (simp add: valid_chain_def)
    with valid_chain_nonnull [OF assms(2) ni] show False by simp
  qed
  then obtain k where k: "j = Suc k" by (cases j) auto
  have "bitcoin_hash D (hs ! k) = bitcoin_hash D (ns ! i)"
    using linked_nth [of D null_hash hs j] assms(1) Suc.prems p k by (simp add: valid_chain_def)
  moreover have "hs ! k \<in> set hs" using Suc.prems(2) k by simp
  ultimately have "ns ! i = hs ! k" using assms(3) ni by (metis Un_iff inj_onD)
  from Suc.IH [OF _ _ this] Suc.prems k have "k = i" "take (Suc i) ns = take (Suc i) hs" by auto
  with Suc.prems k show ?case by (simp add: take_Suc_conv_app_nth)
qed

lemma known_iff_below_fork:
  assumes "hl_rep D hl hs" and "valid_chain D ns" and "inj_on (bitcoin_hash D) (set hs \<union> set ns)" and "i < length ns"
  shows "header_by_blockhash hl (bitcoin_hash D (ns ! i)) \<noteq> None \<longleftrightarrow> i < fork_height hs ns"
proof
  assume "header_by_blockhash hl (bitcoin_hash D (ns ! i)) \<noteq> None"
  then obtain h where h: "h \<in> set hs" "bitcoin_hash D h = bitcoin_hash D (ns ! i)"
    using hl_rep_lookup_None [OF assms(1), of "bitcoin_hash D (ns ! i)"] by auto
  moreover have "ns ! i \<in> set ns" using assms(4) by simp
  ultimately have "ns ! i = h" using assms(3) by (metis Un_iff inj_onD)
  with h obtain j where "j < length hs" "ns ! i = hs ! j" by (metis in_set_conv_nth)
  from shared_block [OF _ assms(2-4) this] assms(1) have t: "take (Suc i) ns = take (Suc i) hs"
    by (simp add: hl_rep_def)
  then have "prefix (take (Suc i) ns) (longest_common_prefix hs ns)"
    by (metis longest_common_prefix_max_prefix take_is_prefix)
  then show "i < fork_height hs ns"
    using assms(4) prefix_length_le by (fastforce simp: fork_height_def)
next
  assume i: "i < fork_height hs ns"
  then have "ns ! i = hs ! i" using take_fork_height [of hs ns] by (metis nth_take)
  moreover have "i < length hs" using i fork_height_le(1) [of hs ns] by linarith
  ultimately show "header_by_blockhash hl (bitcoin_hash D (ns ! i)) \<noteq> None"
    using hl_rep_lookup_None [OF assms(1)] by auto
qed

lemma headers_until_known_serves:
  assumes "bitcoind D N S" and "hl_rep D hl hs"
    and "inj_on (bitcoin_hash D) (set hs \<union> set (headers_of (nd_blocks (node_of S d))))"
    and "daemon_up S d" and "n \<le> length (nd_blocks (node_of S d))"
    and "fork_height hs (headers_of (nd_blocks (node_of S d))) \<le> n"
  shows "\<exists>d'. headers_until_known D N hl
           (chain_tip D null_hash (take n (headers_of (nd_blocks (node_of S d)))))
           (drop n (headers_of (nd_blocks (node_of S d)))) d =
         Some (Ok (drop (fork_height hs (headers_of (nd_blocks (node_of S d)))) (headers_of (nd_blocks (node_of S d)))), d') \<and>
         dstays S d d' \<and> daemon_up S d'"
  using assms(3-6)
proof (induction n arbitrary: d)
  case 0
  then show ?case by (subst headers_until_known.simps) (auto simp: chain_tip_def daemon_up_def stays_refl)
next
  case (Suc n)
  let ?bs = "nd_blocks (node_of S d)"
  let ?ns = "headers_of ?bs"
  have nd: "valid_chain D ?ns" using bitcoindD(4) [OF assms(1) Suc.prems(2)] by (simp add: node_ok_def)
  have n: "n < length ?ns" "n < length ?bs" using Suc.prems(3) by (simp_all add: headers_of_def)
  have tip: "chain_tip D null_hash (take (Suc n) ?ns) = bitcoin_hash D (?ns ! n)"
    using n(1) by (simp add: take_Suc_conv_app_nth chain_tip_def)
  have nn: "bitcoin_hash D (?ns ! n) \<noteq> null_hash" using valid_chain_nonnull [OF nd nth_mem [OF n(1)]] .
  note known = known_iff_below_fork [OF assms(2) nd Suc.prems(1) n(1)]
  show ?case
  proof (cases "n < fork_height hs ?ns")
    case True
    then have "fork_height hs ?ns = Suc n" using Suc.prems(4) by simp
    with True known Suc.prems(2) show ?thesis unfolding tip
      by (subst headers_until_known.simps) (auto simp: daemon_up_def stays_refl)
  next
    case False
    obtain d1 where g: "getblockheader D N (blk_hash D (?bs ! n)) d = Some (Ok (blk_header (?bs ! n)), d1)"
      "dstays S d d1" "daemon_up S d1"
      using getblockheader_serves [OF assms(1) Suc.prems(2) nth_mem [OF n(2)]] by blast
    have nd1: "node_of S d1 = node_of S d" using g(2) by (simp add: stays_def)
    have hd: "blk_header (?bs ! n) = ?ns ! n" using n by (simp add: headers_of_def)
    have prev: "prev_blockhash (?ns ! n) = chain_tip D null_hash (take n ?ns)"
      using linked_nth [of D null_hash ?ns n] nd n(1)
      by (cases n) (auto simp: valid_chain_def chain_tip_def take_Suc_conv_app_nth)
    have "drop n ?ns = ?ns ! n # drop (Suc n) ?ns" using n(1) by (simp add: Cons_nth_drop_Suc)
    with Suc.IH [of d1] Suc.prems g(3) False obtain d2 where
      "headers_until_known D N hl (prev_blockhash (?ns ! n)) (?ns ! n # drop (Suc n) ?ns) d1 =
         Some (Ok (drop (fork_height hs ?ns) ?ns), d2)" "dstays S d1 d2" "daemon_up S d2"
      unfolding nd1 prev by auto
    with g False known nn hd show ?thesis unfolding tip
      by (subst headers_until_known.simps) (auto simp: pchain_def intro: stays_trans)
  qed
qed

lemma get_new_headers_serves:
  assumes "bitcoind D N S" and "hl_rep D hl hs" and "daemon_up S d"
    and "inj_on (bitcoin_hash D) (set hs \<union> set (headers_of (nd_blocks (node_of S d))))"
  shows "\<exists>d'. get_new_headers D N hl (blk_hash D (last (nd_blocks (node_of S d)))) d =
           Some (Ok (drop (fork_height hs (headers_of (nd_blocks (node_of S d)))) (headers_of (nd_blocks (node_of S d)))), d') \<and>
           dstays S d d' \<and> daemon_up S d'"
proof (cases "hs = []")
  case True
  then have "hl_is_empty hl" using assms(2) by (simp add: hl_rep_def hl_is_empty_def)
  then show ?thesis using get_all_headers_serves [OF assms(1,3)] True
    by (simp add: get_new_headers_def fork_height_def)
next
  case False
  then have "\<not> hl_is_empty hl" using assms(2) by (simp add: hl_rep_def hl_is_empty_def)
  let ?bs = "nd_blocks (node_of S d)"
  have "?bs \<noteq> []" using bitcoindD(4) [OF assms(1,3)] by (simp add: node_ok_def)
  then have "chain_tip D null_hash (take (length ?bs) (headers_of ?bs)) = blk_hash D (last ?bs)"
    by (simp add: chain_tip_def headers_of_def last_map)
  moreover have "fork_height hs (headers_of ?bs) \<le> length ?bs"
    using fork_height_le(2) [of hs "headers_of ?bs"] by (simp add: headers_of_def)
  moreover have "drop (length ?bs) (headers_of ?bs) = []" by (simp add: headers_of_def)
  ultimately show ?thesis
    using headers_until_known_serves [OF assms(1,2,4,3), of "length ?bs"] \<open>\<not> hl_is_empty hl\<close>
    by (simp add: get_new_headers_def)
qed

section \<open>The interfaces of the index\<close>

abbreviation daemon_poll :: "'e net \<Rightarrow> ('e daemon, unit) prog" where
  "daemon_poll N \<equiv> on_env (Waiter_poll (net_recv_timeout N))"

text \<open>No signal is pending, whenever the program looks.\<close>

definition no_signal :: "'e net \<Rightarrow> 'e server \<Rightarrow> bool" where
  "no_signal N S \<longleftrightarrow> (\<forall>e. sv_up S e \<longrightarrow> fst (net_recv_timeout N e 0) = Timeout)"

lemma poll_serves:
  assumes "serves N S" and "daemon_up S d"
  shows "\<exists>r d'. daemon_poll N d = Some (r, d') \<and> \<not> panics r \<and> (no_signal N S \<longrightarrow> is_ok r) \<and> dstays S d d' \<and> daemon_up S d'"
proof -
  obtain r e where "net_recv_timeout N (d_env d) 0 = (r, e)" "stays S (d_env d) e" "sv_lines S e = sv_lines S (d_env d)"
    using servesD(5) [OF assms(1), of "d_env d"] assms(2) unfolding daemon_up_def by blast
  with assms(2) Waiter_wait_returns [of "net_recv_timeout N" 0 "d_env d"] show ?thesis
    by (auto simp: Waiter_poll_def on_env_def daemon_up_def stays_up no_signal_def intro!: exI [of _ "d_env d"])
qed

lemma dstays_node: "dstays S d d' \<Longrightarrow> node_of S d' = node_of S d"
  by (simp add: stays_def)

interpretation client: chain_daemon D "daemon_methods D N" "daemon_poll N"
  "\<lambda>d. nd_blocks (node_of S d)" "\<lambda>d. bitcoind D N S \<and> daemon_up S d \<and> node_of S d = nd" "sv_limit S" "no_signal N S"
  for D and N :: "'e net" and S nd
proof (unfold_locales, goal_cases)
  case (1 d)
  then show ?case using bitcoindD(4) [of D N S d] by (simp add: node_ok_def)
next
  case (2 d)
  then show ?case using Daemon_reconnect_serves [OF bitcoindD(1), of D N S d]
    by (auto simp: daemon_methods_def dstays_node)
next
  case (3 d)
  then show ?case using getbestblockhash_serves [of D N S d] by (auto simp: daemon_methods_def dstays_node)
next
  case (4 d hl hs)
  then show ?case using get_new_headers_serves [of D N S hl hs d] by (auto simp: daemon_methods_def dstays_node)
next
  case (5 d bs)
  then show ?case using getblocks_serves [of D N S d bs] by (auto simp: daemon_methods_def dstays_node)
next
  case (6 d)
  then show ?case using poll_serves [OF bitcoindD(1), of D N S d] by (auto simp: dstays_node)
qed

interpretation index_db: indexer "db_read_store R" "\<lambda>s. c (db_handle s)" "\<lambda>s. rocksdb_ok R c" "db_write_store R"
  D "daemon_methods D N" "daemon_poll N" "\<lambda>d. nd_blocks (node_of S d)" "\<lambda>d. bitcoind D N S \<and> daemon_up S d \<and> node_of S d = nd"
  "sv_limit S" "no_signal N S"
  for R :: "'r rocksdb" and c D and N :: "'e net" and S nd
  by unfold_locales (auto dest: bitcoindD(2))

section \<open>What \<open>update\<close> leaves in the database\<close>

text \<open>
  After the rows of some new blocks were written, the database records a chain again: the one from
  before when nothing was written, else the part of the node's chain written so far.
\<close>

lemma store_after_blocks:
  assumes "store_headers D m hs" and "store_chain D m hs0" and "valid_chain D (headers_of bs)"
  defines "k \<equiv> fork_height hs (headers_of bs)"
  shows "store_chain D (put_rows m (concat (map (indexed_rows D) (take j (drop k bs)))))
           (if take j (drop k bs) = [] then hs0 else headers_of (take (k + j) bs))"
proof (cases "take j (drop k bs) = []")
  case True
  show ?thesis unfolding True using assms(2) by simp
next
  case False
  have base: "store_headers D m (take k hs)"
    using assms(1) by (auto simp: store_headers_def dest: in_set_takeD)
  have eq: "take k hs @ map blk_header (take j (drop k bs)) = headers_of (take (k + j) bs)"
    using take_fork_height [of hs "headers_of bs"]
    by (simp add: headers_of_def take_map drop_map take_add flip: k_def [unfolded headers_of_def])
  have "valid_chain D (headers_of (take (k + j) bs))"
    using valid_chain_take [OF assms(3), of "k + j"] by (simp add: headers_of_def take_map)
  with store_chain_index_blocks [OF base, of "take j (drop k bs)"] False eq show ?thesis by simp
qed

lemma Index_update_client:
  assumes "bitcoind D N S" and "daemon_up S (is_daemon st)" and "rocksdb_ok R c"
    and "0 < ix_batch_size (is_index st)" "ix_batch_size (is_index st) \<le> sv_limit S" and "hl_rep D (ix_headers (is_index st)) hs"
    and "store_headers D (c (db_handle (is_store st))) hs" and "store_chain D (c (db_handle (is_store st))) hs0"
    and "inj_on (bitcoin_hash D) (set hs \<union> set (headers_of bs))" and bs: "nd_blocks (node_of S (is_daemon st)) = bs"
  defines "k \<equiv> fork_height hs (headers_of bs)"
  shows "\<exists>r st' j. Index_update D (daemon_methods D N) (daemon_poll N) (db_write_store R) st = Some (r, st') \<and>
           daemon_up S (is_daemon st') \<and> node_of S (is_daemon st') = node_of S (is_daemon st) \<and>
           c (db_handle (is_store st')) = put_rows (c (db_handle (is_store st))) (concat (map (indexed_rows D) (take j (drop k bs)))) \<and>
           store_chain D (c (db_handle (is_store st'))) (if take j (drop k bs) = [] then hs0 else headers_of (take (k + j) bs)) \<and>
           (case r of
              Ok tip \<Rightarrow> tip = blk_hash D (last bs) \<and> hl_rep D (ix_headers (is_index st')) (headers_of bs) \<and>
                        ix_batch_size (is_index st') = ix_batch_size (is_index st) \<and> length bs \<le> j + k
            | Err e \<Rightarrow> is_index st' = is_index st \<and> \<not> no_signal N S
            | Panic p \<Rightarrow> False)"
proof -
  let ?nd = "node_of S (is_daemon st)"
  have live: "index_db.live R c S D N ?nd st bs" unfolding index_db.live_def using assms(1-3) bs by simp
  obtain r st' j where u:
    "Index_update D (daemon_methods D N) (daemon_poll N) (db_write_store R) st = Some (r, st')"
    "index_db.live R c S D N ?nd st' bs"
    "c (db_handle (is_store st')) = put_rows (c (db_handle (is_store st))) (concat (map (indexed_rows D) (take j (drop k bs))))"
    "case r of
       Ok tip \<Rightarrow> tip = blk_hash D (last bs) \<and> length bs \<le> j + k \<and>
                 hl_rep D (ix_headers (is_index st')) (headers_of bs) \<and>
                 ix_batch_size (is_index st') = ix_batch_size (is_index st)
     | Err e \<Rightarrow> is_index st' = is_index st \<and> \<not> no_signal N S
     | Panic p \<Rightarrow> False"
    using index_db.Index_update_run [OF live assms(4,5,6,9)] unfolding k_def by blast
  have "valid_chain D (headers_of bs)"
    using bitcoindD(4) [OF assms(1,2)] bs by (simp add: node_ok_def)
  from store_after_blocks [OF assms(7,8) this, of j]
  have "store_chain D (c (db_handle (is_store st'))) (if take j (drop k bs) = [] then hs0 else headers_of (take (k + j) bs))"
    unfolding u(3) k_def .
  moreover have "daemon_up S (is_daemon st') \<and> node_of S (is_daemon st') = ?nd"
    using u(2) unfolding index_db.live_def by blast
  ultimately show ?thesis using u
    by (intro exI [of _ r] exI [of _ st'] exI [of _ j]) (cases r; simp)
qed

end
