(* ===== verification/Node_Example.thy ===== *)
theory Node_Example
  imports Bitcoind
begin

text \<open>
  A small node behind a connection, as a concrete instance of what \<open>Bitcoind\<close> states of bitcoind: two
  blocks, one transaction in the mempool, answers from a table, and a counter of requests that are
  refused before the node answers. The closed examples of the client run on it; no theorem depends
  on it.
\<close>

section \<open>The answers\<close>

definition ex_deps :: deps where
  "ex_deps = ref_deps\<lparr>
     de_block := (\<lambda>bs. map_option (\<lambda>h. \<lparr>blk_header = h, txdata = []\<rparr>) (dec_header bs)),
     de_tx := (\<lambda>bs. case bs of [n] \<Rightarrow> Some (ex_tx n [] [[81]]) | _ \<Rightarrow> None)\<rparr>"

definition ex_node :: node where
  "ex_node = \<lparr>nd_blocks = ex_blocks, nd_mempool = [ex_tx 7 [] [[81]]]\<rparr>"

definition block_table :: "nat \<Rightarrow> block \<Rightarrow> ((string \<times> json list) \<times> json) list" where
  "block_table i b =
     (let h = JStr (to_hex ex_deps (blk_hash ex_deps b)); hex = JStr (enc_hex (enc_header (blk_header b)))
      in [((''getblockhash'', [JInt (int i)]), h),
          ((''getblockheader'', [h, JBool False]), hex),
          ((''getblockheader'', [h]), JObj [(''height'', JInt (int i))]),
          ((''getblock'', [h, JBool False]), hex),
          ((''getblock'', [h, JInt 1]), JObj [(''tx'', JArr [])])])"

definition ex_table :: "((string \<times> json list) \<times> json) list" where
  "ex_table =
     block_table 0 \<lparr>blk_header = ex_header 0 1, txdata = []\<rparr> @
     block_table 1 \<lparr>blk_header = ex_header 1 2, txdata = []\<rparr> @
     [((''getbestblockhash'', []), JStr (to_hex ex_deps (mk_hash [2]))),
      ((''getrawmempool'', [JBool False]), JArr [JStr (to_hex ex_deps (mk_hash [7]))]),
      ((''getrawtransaction'', [JStr (to_hex ex_deps (mk_hash [7])), JBool False]), JStr (enc_hex [7]))]"

definition ex_answer :: "string \<Rightarrow> json \<Rightarrow> json option" where
  "ex_answer meth p = Option.bind (as_array p) (\<lambda>ps. map_of ex_table (meth, ps))"

lemma ex_deps_simps [simp]:
  "bitcoin_hash ex_deps = bitcoin_hash ref_deps" "tx_txid ex_deps = tx_txid ref_deps"
  "to_hex ex_deps = to_hex ref_deps" "hex_decode ex_deps = dec_hex" "de_header ex_deps = dec_header"
  "de_block ex_deps = (\<lambda>bs. map_option (\<lambda>h. \<lparr>blk_header = h, txdata = []\<rparr>) (dec_header bs))"
  "de_tx ex_deps = (\<lambda>bs. case bs of [n] \<Rightarrow> Some (ex_tx n [] [[81]]) | _ \<Rightarrow> None)"
  by (simp_all add: ex_deps_def ref_deps_def)

lemma codec_ok_ex_deps: "codec_ok ex_deps"
  using codec_ok_ref_deps by (simp add: codec_ok_def ex_deps_def)

lemma hex_ok_ex_deps: "hex_ok ex_deps"
  using hex_ok_ref_deps by (simp add: hex_ok_def ex_deps_def)

lemma ex_blocks_eq:
  "ex_blocks = [\<lparr>blk_header = ex_header 0 1, txdata = []\<rparr>, \<lparr>blk_header = ex_header 1 2, txdata = []\<rparr>]"
  by (simp add: ex_blocks_def ex_chain_def)

lemmas ex_table_simps = ex_answer_def ex_table_def block_table_def Let_def to_hex_inject [OF hex_ok_ref_deps]

lemma ex_answers: "answers ex_deps (\<lambda>meth ps. ex_answer meth (JArr ps)) ex_blocks [ex_tx 7 [] [[81]]]"
proof -
  have len: "length ex_blocks = 2" by (simp add: ex_blocks_eq)
  have all: "(\<forall>i < length ex_blocks. P i) \<longleftrightarrow> P 0 \<and> P (1 :: nat)" for P
    unfolding len by (auto simp: numeral_2_eq_2 All_less_Suc)
  show ?thesis unfolding answers_def all
    by (simp add: ex_blocks_eq ex_table_simps dec_enc_hex dec_enc_header)
qed

lemma node_ok_ex: "node_ok ex_deps ex_node"
proof -
  have "headers_of ex_blocks = ex_chain" by (simp add: headers_of_def ex_blocks_def comp_def)
  moreover have "valid_chain ref_deps ex_chain"
    using valid_chain_take [OF ex_chain_valid(1), of 2] by (simp add: ex_chain_def)
  moreover have "valid_chain ex_deps hs = valid_chain ref_deps hs" for hs
  proof -
    have "linked ex_deps p hs = linked ref_deps p hs" for p by (induction hs arbitrary: p) auto
    then show ?thesis by (simp add: valid_chain_def)
  qed
  ultimately show ?thesis by (simp add: node_ok_def ex_node_def ex_blocks_eq)
qed

section \<open>The connection\<close>

text \<open>The environment: how many requests are still refused, and the lines of the reply not yet read.\<close>

type_synonym ex_env = "nat \<times> string list"

definition ex_reply :: "json \<Rightarrow> json" where
  "ex_reply req =
     (case (json_get req ''method'', json_get req ''params'', json_get req ''id'') of
        (Some (JStr m), Some p, Some i) \<Rightarrow>
          (case ex_answer m p of
             Some v \<Rightarrow> JObj [(''result'', v), (''error'', JNull), (''id'', i)]
           | None \<Rightarrow> JObj [(''result'', JNull), (''error'', JObj [(''code'', JInt (- 8))]), (''id'', i)])
      | _ \<Rightarrow> JNull)"

definition ex_reply_lines :: "string \<Rightarrow> string list" where
  "ex_reply_lines msg =
     (case parse_json msg of
        Some (JArr reqs) \<Rightarrow>
          (let body = enc_json (JArr (map ex_reply reqs))
           in ''HTTP/1.1 200 OK'' # reply_lines [(''Content-Length'', show_nat (Suc (length body)))] body)
      | _ \<Rightarrow> [''HTTP/1.1 400 Bad Request''])"

definition request_body :: "string \<Rightarrow> string" where
  "request_body msg = rev (takeWhile (\<lambda>c. 64 \<le> (of_char c :: nat)) (rev msg))"

definition ex_net :: "ex_env net" where
  "ex_net = \<lparr>
     net_connect = (\<lambda>(n, ls). (True, (n, []))),
     net_clone = (\<lambda>e. (True, e)),
     net_cookie = (\<lambda>e. (Ok [], e)),
     net_write = (\<lambda>(n, ls) msg. if 0 < n then (False, (n - 1, [])) else (True, (0, ex_reply_lines (request_body msg)))),
     net_line = (\<lambda>(n, ls). (case ls of [] \<Rightarrow> None | l # _ \<Rightarrow> Some (Some l), (n, tl ls))),
     net_recv_timeout = (\<lambda>e secs. (Timeout, e)),
     base64_encode = (\<lambda>c. []),
     json_print = enc_json,
     json_parse = parse_json\<rparr>"

definition ex_server :: "ex_env server" where
  "ex_server = \<lparr>sv_up = (\<lambda>e. True), sv_node = (\<lambda>e. ex_node), sv_lines = snd, sv_down = fst, sv_limit = 100000,
     sv_answer = (\<lambda>nd. ex_answer)\<rparr>"

lemma ex_server_simps:
  "sv_up ex_server e" "sv_node ex_server e = ex_node" "sv_lines ex_server e = snd e" "sv_down ex_server e = fst e"
  "sv_limit ex_server = 100000" "sv_answer ex_server nd = ex_answer"
  "stays ex_server e e' \<longleftrightarrow> fst e' \<le> fst e"
  by (simp_all add: stays_def) (simp_all add: ex_server_def)

lemma request_body_post: "request_body (http_post ex_net cookie (enc_json j)) = enc_json j"
proof -
  have "takeWhile (\<lambda>c. 64 \<le> (of_char c :: nat)) (rev (enc_json j) @ newline @ xs) = rev (enc_json j)" for xs
    using enc_json_range [of j] by (subst takeWhile_append2) (auto simp: newline_def)
  then show ?thesis by (simp add: request_body_def http_post_def newline_def)
qed

lemma length_show_nat: "n < 10 ^ Suc k \<Longrightarrow> length (show_nat n) \<le> Suc k"
proof (induction k arbitrary: n)
  case 0
  then show ?case by (subst show_nat.simps) simp
next
  case (Suc k)
  then have "n div 10 < 10 ^ Suc k" by (simp add: div_less_iff_less_mult)
  from Suc.IH [OF this] show ?case by (subst show_nat.simps) simp
qed

lemma length_show_u64: "length (show_nat (nat (uint (w :: u64)))) \<le> 20"
proof -
  have "unat w < 2 ^ 64" using unsigned_less [of w, where ?'a = nat] by simp
  also have "(2 :: nat) ^ 64 < 10 ^ Suc 19" by simp
  finally have "nat (uint w) < 10 ^ Suc 19" by simp
  from length_show_nat [OF this] show ?thesis by simp
qed

lemma length_enc_char [simp]: "length (enc_char c) = 2"
  by (simp add: enc_char_def Let_def)

lemma length_enc_hex: "length (enc_hex bs) = 2 * length bs"
  by (induction bs) (simp_all add: enc_hex_def)

lemma ex_table_lengths: "e \<in> set ex_table \<Longrightarrow> length (enc_json (snd e)) \<le> 2000"
proof -
  have "length (to_hex ref_deps h) = 64" for h by (simp add: ref_deps_def length_enc_hex)
  moreover have "length (enc_header h) = 80" for h by (simp add: enc_header_def)
  moreover have "length (show_nat 0) = 1" "length (show_nat 1) = 1" by (simp_all add: show_nat.simps)
  moreover assume "e \<in> set ex_table"
  ultimately show ?thesis
    by (auto simp: ex_table_def block_table_def Let_def length_enc_str length_enc_hex)
qed

lemma ex_answer_length: "ex_answer meth p = Some v \<Longrightarrow> length (enc_json v) \<le> 2000"
  using ex_table_lengths by (fastforce simp: ex_answer_def Option.bind_eq_Some_conv dest: map_of_SomeD)

lemma ex_reply_request:
  assumes "ex_answer meth p = Some v"
  shows "ex_reply (jsonrpc_request meth msg_id p) = JObj [(''result'', v), (''error'', JNull), (''id'', JInt (uint msg_id))]"
  using assms by (simp add: ex_reply_def jsonrpc_request_def)

lemma ex_reply_length:
  assumes "ex_answer meth p = Some v"
  shows "length (enc_json (ex_reply (jsonrpc_request meth msg_id p))) \<le> 3000"
  using ex_answer_length [OF assms] length_show_u64 [of msg_id]
  by (simp add: ex_reply_request [OF assms] length_enc_str)

lemma length_enc_arr:
  assumes "\<forall>x \<in> set xs. length (enc_json x) \<le> m"
  shows "length (enc_json (JArr xs)) \<le> Suc (length xs * Suc m)"
  using assms by (induction xs) auto

lemma ex_write:
  assumes "length ps \<le> 100000" and "\<forall>p \<in> set ps. ex_answer meth p \<noteq> None"
  shows "\<exists>replies. list_all2 (\<lambda>p r. reply_ok msg_id (the (ex_answer meth p)) r) ps replies \<and>
           http_reply ex_net replies (ex_reply_lines (enc_json (JArr (map (jsonrpc_request meth msg_id) ps))))"
proof -
  let ?replies = "map (\<lambda>p. ex_reply (jsonrpc_request meth msg_id p)) ps"
  let ?body = "enc_json (JArr ?replies)"
  have "list_all2 (\<lambda>p r. reply_ok msg_id (the (ex_answer meth p)) r) ps ?replies"
    using assms(2) by (auto simp: list_all2_map2 list_all2_same reply_ok_def ex_reply_request)
  moreover have "\<forall>x \<in> set ?replies. length (enc_json x) \<le> 3000"
    using assms(2) by (auto intro: ex_reply_length)
  from length_enc_arr [OF this] assms(1) have len: "Suc (length ?body) < 2 ^ 64" by simp
  have "ex_reply_lines (enc_json (JArr (map (jsonrpc_request meth msg_id) ps))) =
      ''HTTP/1.1 200 OK'' # reply_lines [(''Content-Length'', show_nat (Suc (length ?body)))] ?body"
    by (simp add: ex_reply_lines_def parse_enc_json comp_def Let_def)
  moreover have "json_parse ex_net ?body = Some (JArr ?replies)" by (simp add: ex_net_def parse_enc_json)
  ultimately show ?thesis using len
    by (intro exI [of _ ?replies])
       (auto simp: http_reply_def headers_ok_def enc_json_nonempty
         intro!: exI [of _ "[(''Content-Length'', show_nat (Suc (length ?body)))]"] exI [of _ ?body])
qed

lemma serves_ex: "serves ex_net ex_server"
proof -
  have w: "write_ok ex_net ex_server e" for e
  proof -
    obtain n ls where e: "e = (n, ls)" by (cases e)
    have print: "json_print ex_net = enc_json" by (simp add: ex_net_def)
    show ?thesis
    proof (cases "0 < n")
      case True
      then show ?thesis
        unfolding write_ok_def e by (auto simp: ex_server_simps ex_net_def)
    next
      case False
      have "net_write ex_net (0, ls) (http_post ex_net cookie (enc_json j)) = (True, (0, ex_reply_lines (enc_json j)))" for cookie j
        by (simp add: request_body_post ex_net_def [unfolded atomize_eq, THEN arg_cong [of _ _ net_write]])
      with False ex_write show ?thesis
        unfolding write_ok_def e print by (auto simp: ex_server_simps)
    qed
  qed
  show ?thesis unfolding serves_def
  proof (intro conjI allI impI w)
  qed (auto simp: ex_net_def ex_server_def stays_def split: list.splits)
qed

lemma no_signal_ex: "no_signal ex_net ex_server"
  by (simp add: no_signal_def ex_net_def)

lemma bitcoind_ex: "bitcoind ex_deps ex_net ex_server"
  using serves_ex codec_ok_ex_deps hex_ok_ex_deps node_ok_ex ex_answers
  by (simp add: bitcoind_def ex_server_def) (simp add: ex_node_def)

text \<open>A client of the node whose first two requests are refused.\<close>

definition ex_daemon :: "ex_env daemon" where
  "ex_daemon = \<lparr>d_dir = '''', d_network = network.Bitcoin, d_env = (2, []), d_message_id = 0\<rparr>"

lemma ex_daemon_up: "daemon_up ex_server ex_daemon" "node_of ex_server ex_daemon = ex_node"
  by (simp_all add: daemon_up_def ex_daemon_def ex_server_simps)

end
