(* ===== verification/Query.thy ===== *)
theory Query
  imports Mempool
begin

text \<open>
  \<open>query.rs\<close>: the history of a script hash, from the database (confirmed) and from the mempool
  store. The code runs the same scans on both stores through \<open>&dyn ReadStore\<close>; the lemmas are
  proved once for any \<open>readable\<close> store whose transaction rows are those of a set of indexed
  transactions, and hold for both by interpretation. A \<open>usize\<close> block height is a \<open>nat\<close>.
\<close>

section \<open>Results\<close>

record txo =
  txo_txid :: hash
  txo_vout :: nat
  txo_blockindex :: nat

type_synonym out_point = "hash \<times> nat"

record spending_input =
  sp_txid :: hash
  sp_outpoint :: out_point
  sp_blockindex :: nat

record tx_block_index =
  tbi_txid :: hash
  tbi_blockindex :: nat

record status =
  st_confirmed :: "txo list \<times> spending_input list"
  st_mempool :: "txo list \<times> spending_input list"

definition status_funding :: "status \<Rightarrow> txo list" where
  "status_funding s = fst (st_confirmed s) @ fst (st_mempool s)"

definition status_spending :: "status \<Rightarrow> spending_input list" where
  "status_spending s = snd (st_confirmed s) @ snd (st_mempool s)"

text \<open>\<open>sort_unstable\<close> and \<open>dedup\<close>, which drops repetitions of consecutive elements.\<close>

definition history :: "status \<Rightarrow> hash list" where
  "history s = remdups_adj (sort (map txo_txid (status_funding s) @ map sp_txid (status_spending s)))"

text \<open>
  \<open>oldest\<close>: the two loops share the variables \<open>min_found\<close>, \<open>min_block_index\<close> and \<open>min_tx\<close>;
  the first two are the state here, \<open>min_tx\<close> is \<open>None\<close> exactly when nothing was found.
\<close>

definition oldest_step :: "(nat \<times> tx_block_index option) \<Rightarrow> (hash \<times> nat) \<Rightarrow> (nat \<times> tx_block_index option)" where
  "oldest_step acc f =
     (let (min_block_index, min_tx) = acc; (txid, blockindex) = f
      in if min_tx = None \<or> (min_block_index = 0 \<and> blockindex > 0) \<or> blockindex < min_block_index
         then (blockindex, Some \<lparr>tbi_txid = txid, tbi_blockindex = blockindex\<rparr>)
         else acc)"

definition oldest :: "status \<Rightarrow> tx_block_index option" where
  "oldest s =
     snd (foldl oldest_step
       (foldl oldest_step (0, None) (map (\<lambda>f. (txo_txid f, txo_blockindex f)) (status_funding s)))
       (map (\<lambda>f. (sp_txid f, sp_blockindex f)) (status_spending s)))"

section \<open>Queries on a store\<close>

record 's query =
  q_store :: 's
  q_index :: index
  q_tracker :: tracker
  q_txid_limit :: nat

definition Query_new :: "'s \<Rightarrow> index \<Rightarrow> nat \<Rightarrow> 's query" where
  "Query_new store index txid_limit =
     \<lparr>q_store = store, q_index = index, q_tracker = Tracker_new, q_txid_limit = txid_limit\<rparr>"

definition get_txrows_by_prefix :: "'s read_store \<Rightarrow> 's \<Rightarrow> bytes \<Rightarrow> tx_row list res" where
  "get_txrows_by_prefix RS store p = mapM_res TxRow_from_row (rs_scan RS store (TxRow_filter_prefix p))"

definition get_txoutrows_by_script_hash :: "deps \<Rightarrow> 's read_store \<Rightarrow> 's \<Rightarrow> bytes \<Rightarrow> txout_row list res" where
  "get_txoutrows_by_script_hash D RS store script_hash =
     bind_res (TxOutRow_filter script_hash) (\<lambda>f. mapM_res (TxOutRow_from_row D) (rs_scan RS store f))"

definition get_prefixes_by_funding_txo :: "deps \<Rightarrow> 's read_store \<Rightarrow> 's \<Rightarrow> hash \<Rightarrow> nat \<Rightarrow> bytes list res" where
  "get_prefixes_by_funding_txo D RS store txid vout =
     bind_res (TxInRow_filter D txid vout) (\<lambda>f.
     bind_res (mapM_res (TxInRow_from_row D) (rs_scan RS store f)) (\<lambda>rows.
     Ok (map tir_txid_prefix rows)))"

definition get_txrows_by_prefixes :: "'s read_store \<Rightarrow> 's \<Rightarrow> bytes list \<Rightarrow> tx_row list res" where
  "get_txrows_by_prefixes RS store ps =
     map_res concat (mapM_res (get_txrows_by_prefix RS store) ps)"

definition get_block_index :: "index \<Rightarrow> hash \<Rightarrow> header_entry res" where
  "get_block_index index block_hash =
     ok_or (Msg ''no headers indexed'') (get_header_by_block_hash index block_hash)"

text \<open>The height of the block of a row; 0 when the block is not in the indexed chain.\<close>

definition txrow_height :: "deps \<Rightarrow> index \<Rightarrow> tx_row \<Rightarrow> nat res" where
  "txrow_height D index txrow =
     bind_res (expect ''called `Result::unwrap()` on an `Err` value'' (de_hash D (txr_block_hash txrow)))
       (\<lambda>b. Ok (case get_block_index index b of Ok header \<Rightarrow> he_height header | _ \<Rightarrow> 0))"

definition txrow_txid :: "deps \<Rightarrow> tx_row \<Rightarrow> hash res" where
  "txrow_txid D txrow =
     expect ''called `Result::unwrap()` on an `Err` value'' (de_hash D (txk_txid (txr_key txrow)))"

text \<open>The loop that both searches run over the rows they found: skip what is too recent.\<close>

primrec rows_up_to :: "deps \<Rightarrow> index \<Rightarrow> nat \<Rightarrow> tx_row list \<Rightarrow> (hash \<times> nat) list res" where
  "rows_up_to D index cur [] = Ok []"
| "rows_up_to D index cur (r # rs) =
     bind_res (txrow_height D index r) (\<lambda>h.
       if h > cur then rows_up_to D index cur rs
       else bind_res (txrow_txid D r) (\<lambda>t.
            bind_res (rows_up_to D index cur rs) (\<lambda>rest. Ok ((t, h) # rest))))"

definition find_spending_input :: "deps \<Rightarrow> 's read_store \<Rightarrow> 's \<Rightarrow> index \<Rightarrow> txo \<Rightarrow> nat \<Rightarrow>
    spending_input option res" where
  "find_spending_input D RS store index txo current_block_index =
     bind_res (get_prefixes_by_funding_txo D RS store (txo_txid txo) (txo_vout txo)) (\<lambda>ps.
     bind_res (get_txrows_by_prefixes RS store ps) (\<lambda>txrows.
     bind_res (rows_up_to D index current_block_index txrows) (\<lambda>found.
     (let spendings = map (\<lambda>(t, h). \<lparr>sp_txid = t, sp_outpoint = (txo_txid txo, txo_vout txo),
                                     sp_blockindex = h\<rparr>) found
      in bind_res (assert_res ''assertion failed: spendings.len() <= 1'' (length spendings \<le> 1)) (\<lambda>_.
         Ok (if length spendings = 1 then Some (hd spendings) else None))))))"

definition find_funding_outputs :: "deps \<Rightarrow> 's read_store \<Rightarrow> 's \<Rightarrow> index \<Rightarrow> bytes \<Rightarrow> nat \<Rightarrow> txo list res" where
  "find_funding_outputs D RS store index script_hash current_block_index =
     bind_res (get_txoutrows_by_script_hash D RS store script_hash) (\<lambda>txout_rows.
     map_res concat (mapM_res (\<lambda>row.
       bind_res (get_txrows_by_prefixes RS store [tor_txid_prefix row]) (\<lambda>txrows.
       bind_res (rows_up_to D index current_block_index txrows) (\<lambda>found.
       Ok (map (\<lambda>(t, h). \<lparr>txo_txid = t, txo_vout = unat (tor_vout row), txo_blockindex = h\<rparr>) found))))
       txout_rows))"

text \<open>The \<open>for\<close> loop over the funding outputs that collects their spenders.\<close>

definition find_spendings :: "deps \<Rightarrow> 's read_store \<Rightarrow> 's \<Rightarrow> index \<Rightarrow> txo list \<Rightarrow> nat \<Rightarrow>
    spending_input list res" where
  "find_spendings D RS store index txos cur =
     map_res (List.map_filter id) (mapM_res (\<lambda>txo. find_spending_input D RS store index txo cur) txos)"

definition check_limit :: "'s query \<Rightarrow> bool \<Rightarrow> txo list \<Rightarrow> unit res" where
  "check_limit q use_txid_limit txos =
     (if use_txid_limit \<and> q_txid_limit q > 0 \<and> length txos > q_txid_limit q
      then bail (Msg ''transactions found, query may take a long time'') else Ok ())"

definition confirmed_status :: "deps \<Rightarrow> 's read_store \<Rightarrow> 's query \<Rightarrow> bytes \<Rightarrow> nat \<Rightarrow> bool \<Rightarrow>
    (txo list \<times> spending_input list) res" where
  "confirmed_status D RS q script_hash current_block_index use_txid_limit =
     bind_res (find_funding_outputs D RS (q_store q) (q_index q) script_hash current_block_index) (\<lambda>funding.
     bind_res (check_limit q use_txid_limit funding) (\<lambda>_.
     bind_res (find_spendings D RS (q_store q) (q_index q) funding current_block_index) (\<lambda>spending.
     Ok (funding, spending))))"

definition mempool_status :: "deps \<Rightarrow> 's query \<Rightarrow> bytes \<Rightarrow> txo list \<Rightarrow> bool \<Rightarrow>
    (txo list \<times> spending_input list) res" where
  "mempool_status D q script_hash confirmed_funding use_txid_limit =
     (let store = tr_index (q_tracker q)
      in bind_res (find_funding_outputs D mempool_read_store store (q_index q) script_hash 9999999999) (\<lambda>funding.
         bind_res (check_limit q use_txid_limit funding) (\<lambda>_.
         bind_res (find_spendings D mempool_read_store store (q_index q) (funding @ confirmed_funding) 9999999999)
           (\<lambda>spending. Ok (funding, spending)))))"

definition query_status :: "deps \<Rightarrow> 's read_store \<Rightarrow> 's query \<Rightarrow> bytes \<Rightarrow> nat \<Rightarrow> bool \<Rightarrow> status res" where
  "query_status D RS q script_hash current_block_index use_txid_limit =
     bind_res (chain_err (Msg ''failed to get confirmed status'')
                (confirmed_status D RS q script_hash current_block_index use_txid_limit)) (\<lambda>confirmed.
     bind_res (chain_err (Msg ''failed to get mempool status'')
                (mempool_status D q script_hash (fst confirmed) use_txid_limit)) (\<lambda>mempool.
     Ok \<lparr>st_confirmed = confirmed, st_mempool = mempool\<rparr>))"

definition oldest_tx :: "deps \<Rightarrow> 's read_store \<Rightarrow> 's query \<Rightarrow> bytes \<Rightarrow> nat \<Rightarrow> tx_block_index res" where
  "oldest_tx D RS q script_hash current_block_index =
     bind_res (unwrap_res ''called `Result::unwrap()` on an `Err` value''
                (query_status D RS q script_hash current_block_index True)) (\<lambda>all_status.
     ok_or (Msg ''no txs for address'') (oldest all_status))"

definition get_best_header :: "'s query \<Rightarrow> header_entry res" where
  "get_best_header q = ok_or (Msg ''no headers indexed'') (best_header (q_index q))"

section \<open>What a store indexes\<close>

text \<open>
  \<open>indexes D m T\<close>: the \<open>I\<close>, \<open>O\<close> and \<open>T\<close> rows of the contents \<open>m\<close> are those of the transactions \<open>T\<close>,
  each paired with the block it was last indexed in (the null hash in the mempool).
\<close>

definition indexes :: "deps \<Rightarrow> (bytes, bytes) btree \<Rightarrow> (transaction \<times> hash) set \<Rightarrow> bool" where
  "indexes D m T \<longleftrightarrow>
     (\<forall>k v. k \<noteq> [] \<and> hd k \<in> {73, 79, 84} \<longrightarrow>
        (bt_get m k = Some v \<longleftrightarrow> (\<exists>(t, b) \<in> T. \<lparr>row_key = k, row_value = v\<rparr> \<in> set (tx_rows D t b))))"

definition block_height :: "index \<Rightarrow> hash \<Rightarrow> nat" where
  "block_height index b = (case get_header_by_block_hash index b of None \<Rightarrow> 0 | Some e \<Rightarrow> he_height e)"

definition row_loc :: "index \<Rightarrow> tx_row \<Rightarrow> hash \<times> nat" where
  "row_loc index r = (mk_hash (txk_txid (txr_key r)), block_height index (mk_hash (txr_block_hash r)))"

definition spends_output :: "transaction \<Rightarrow> hash \<Rightarrow> nat \<Rightarrow> bool" where
  "spends_output t txid vout \<longleftrightarrow>
     (\<exists>i \<in> set (spends t). hprefix (op_txid (previous_output i)) = hprefix txid \<and>
        (ucast (op_vout (previous_output i)) :: u16) = of_nat vout)"

lemma codes [simp]:
  "tor_key (txout_row_of D txid n out) = \<lparr>tok_code = 79,
     tok_script_hash_prefix = take HASH_PREFIX_LEN (sha256 D (script_pubkey out))\<rparr>"
  "tir_txid_prefix (txin_row_of txid i) = hprefix txid"
  "tor_txid_prefix (txout_row_of D txid n out) = hprefix txid"
  "tor_vout (txout_row_of D txid n out) = of_nat n"
  by (simp_all add: txout_row_of_def txin_row_of_def)

lemma row_key_cases:
  "row_key (TxInRow_to_row D (txin_row_of txid i)) = 73 # tl (row_key (TxInRow_to_row D (txin_row_of txid i)))"
  "row_key (TxOutRow_to_row D (txout_row_of D txid n out)) = 79 # tl (row_key (TxOutRow_to_row D (txout_row_of D txid n out)))"
  "row_key (TxRow_to_row (tx_row_of txid b)) = 84 # hash_bytes txid"
  by (simp_all add: TxInRow_to_row_def ser_txin_row_def ser_txin_key_def txin_row_of_def
      TxOutRow_to_row_def ser_txout_row_def ser_txout_key_def txout_row_of_def
      TxRow_to_row_def ser_tx_key_def tx_row_of_def)

text \<open>The rows of a transaction, by the first byte of their keys.\<close>

lemma tx_rows_by_code:
  "r \<in> set (tx_rows D t b) \<and> row_key r \<noteq> [] \<and> hd (row_key r) = 73 \<longleftrightarrow>
     (\<exists>i \<in> set (spends t). r = TxInRow_to_row D (txin_row_of (tx_txid D t) i))"
  "r \<in> set (tx_rows D t b) \<and> row_key r \<noteq> [] \<and> hd (row_key r) = 79 \<longleftrightarrow>
     (\<exists>n < length (tx_output t). r = TxOutRow_to_row D (txout_row_of D (tx_txid D t) n (tx_output t ! n)))"
  "r \<in> set (tx_rows D t b) \<and> row_key r \<noteq> [] \<and> hd (row_key r) = 84 \<longleftrightarrow>
     r = TxRow_to_row (tx_row_of (tx_txid D t) b)"
proof -
  have outs: "set (enumerate 0 xs) = {(n, xs ! n) | n. n < length xs}" for xs :: "txout list"
    by (force simp: in_set_enumerate_eq)
  have mem: "r \<in> set (tx_rows D t b) \<longleftrightarrow>
      (\<exists>i \<in> set (spends t). r = TxInRow_to_row D (txin_row_of (tx_txid D t) i)) \<or>
      (\<exists>n < length (tx_output t). r = TxOutRow_to_row D (txout_row_of D (tx_txid D t) n (tx_output t ! n))) \<or>
      r = TxRow_to_row (tx_row_of (tx_txid D t) b)"
    unfolding tx_rows_def set_append set_map outs by auto
  have c: "row_key (TxInRow_to_row D (txin_row_of x i)) \<noteq> [] \<and> hd (row_key (TxInRow_to_row D (txin_row_of x i))) = 73"
    "row_key (TxOutRow_to_row D (txout_row_of D x n out)) \<noteq> [] \<and> hd (row_key (TxOutRow_to_row D (txout_row_of D x n out))) = 79"
    "row_key (TxRow_to_row (tx_row_of x b)) \<noteq> [] \<and> hd (row_key (TxRow_to_row (tx_row_of x b))) = 84"
    for x i n out by (subst (1 2) row_key_cases, simp)+
  note ne = c [THEN conjunct1] and hd = c [THEN conjunct2]
  show "r \<in> set (tx_rows D t b) \<and> row_key r \<noteq> [] \<and> hd (row_key r) = 73 \<longleftrightarrow>
     (\<exists>i \<in> set (spends t). r = TxInRow_to_row D (txin_row_of (tx_txid D t) i))"
    unfolding mem by (auto simp: ne hd)
  show "r \<in> set (tx_rows D t b) \<and> row_key r \<noteq> [] \<and> hd (row_key r) = 79 \<longleftrightarrow>
     (\<exists>n < length (tx_output t). r = TxOutRow_to_row D (txout_row_of D (tx_txid D t) n (tx_output t ! n)))"
    unfolding mem by (auto simp: ne hd)
  show "r \<in> set (tx_rows D t b) \<and> row_key r \<noteq> [] \<and> hd (row_key r) = 84 \<longleftrightarrow>
     r = TxRow_to_row (tx_row_of (tx_txid D t) b)"
    unfolding mem by (auto simp: ne hd)
qed

lemma mk_hash_tx_row_of [simp]: "row_loc ix (tx_row_of txid b) = (txid, block_height ix b)"
  by (simp add: row_loc_def tx_row_of_def)

lemma wf_tx_row_decode:
  assumes "codec_ok D" and "length bs = 32"
  shows "de_hash D bs = Some (mk_hash bs)"
proof -
  have "hash_bytes (mk_hash bs) = bs" using assms(2) by simp
  with codec_okD(3) [OF assms(1), of "mk_hash bs"] show ?thesis by (simp only:)
qed

lemma txrow_height_eq:
  assumes "codec_ok D" and "wf_tx_row r"
  shows "txrow_height D ix r = Ok (snd (row_loc ix r))" and "txrow_txid D r = Ok (fst (row_loc ix r))"
  using assms wf_tx_row_decode [OF assms(1)]
  by (auto simp: txrow_height_def txrow_txid_def wf_tx_row_def row_loc_def block_height_def
      get_block_index_def bail_def split: option.splits)

lemma rows_up_to_eq:
  assumes "codec_ok D"
  shows "list_all wf_tx_row rs \<Longrightarrow>
     rows_up_to D ix cur rs = Ok (filter (\<lambda>x. snd x \<le> cur) (map (row_loc ix) rs))"
  by (induction rs) (simp_all add: txrow_height_eq [OF assms, where ix = ix] not_le)

section \<open>The searches, on any readable store\<close>

context readable
begin

text \<open>The rows that a scan with a filter of one of the three kinds returns.\<close>

lemma scan_indexed:
  assumes "inv s" and "indexes D (view s) T" and "c \<in> {73, 79, 84}"
  shows "r \<in> set (rs_scan RS s (c # p)) \<longleftrightarrow>
     (\<exists>(t, b) \<in> T. r \<in> set (tx_rows D t b) \<and> row_key r \<noteq> [] \<and> hd (row_key r) = c \<and> prefix (c # p) (row_key r))"
proof -
  have "prefix (c # p) (row_key r) \<Longrightarrow> row_key r \<noteq> [] \<and> hd (row_key r) = c"
    by (cases "row_key r") auto
  moreover have "row_key r \<noteq> [] \<and> hd (row_key r) = c \<Longrightarrow>
      bt_get (view s) (row_key r) = Some (row_value r) \<longleftrightarrow> (\<exists>(t, b) \<in> T. r \<in> set (tx_rows D t b))"
    using assms(2,3) unfolding indexes_def by (cases r) auto
  ultimately show ?thesis
    unfolding scan_mem [OF assms(1)] by blast
qed

lemma distinct_decoded:
  assumes "inv s" and "rs_scan RS s p = map f rs"
  shows "distinct rs"
proof -
  have "distinct (map row_key (map f rs))" using scan_distinct_keys [OF assms(1)] assms(2) by metis
  then show ?thesis by (metis distinct_map)
qed

lemma txrows_by_prefix:
  assumes "inv s" and "indexes D (view s) T"
  shows "\<exists>rs. get_txrows_by_prefix RS s p = Ok rs \<and> list_all wf_tx_row rs \<and>
              distinct (map (\<lambda>r. txk_txid (txr_key r)) rs) \<and>
              set rs = {tx_row_of (tx_txid D t) b | t b. (t, b) \<in> T \<and> prefix p (hash_bytes (tx_txid D t))}"
proof -
  let ?rows = "rs_scan RS s (TxRow_filter_prefix p)"
  let ?R = "{tx_row_of (tx_txid D t) b | t b. (t, b) \<in> T \<and> prefix p (hash_bytes (tx_txid D t))}"
  have "r \<in> set ?rows \<longleftrightarrow> (\<exists>(t, b) \<in> T. r = TxRow_to_row (tx_row_of (tx_txid D t) b) \<and> prefix (84 # p) (row_key r))" for r
    using scan_indexed [OF assms, of 84 r p] tx_rows_by_code(3) unfolding TxRow_filter_prefix_def
    by (simp; blast)
  moreover have "prefix (84 # p) (row_key (TxRow_to_row (tx_row_of x b))) \<longleftrightarrow> prefix p (hash_bytes x)" for x b
    by (simp add: row_key_cases(3))
  ultimately have "set ?rows = TxRow_to_row ` ?R" by (simp add: set_eq_iff image_iff) blast
  from tx.decode_scan [OF this] wf_tx_row_of obtain rs where rs: "mapM_res TxRow_from_row ?rows = Ok rs"
    "?rows = map TxRow_to_row rs" "list_all wf_tx_row rs" "set rs = ?R" by blast
  have "map row_key ?rows = map (Cons 84) (map (\<lambda>r. txk_txid (txr_key r)) rs)"
    unfolding rs(2) using rs(3) by (auto simp: TxRow_to_row_def ser_tx_key_def wf_tx_row_def list_all_iff)
  then have "distinct (map (\<lambda>r. txk_txid (txr_key r)) rs)"
    using scan_distinct_keys [OF assms(1)] by (metis distinct_map)
  with rs show ?thesis by (simp add: get_txrows_by_prefix_def)
qed

lemma txoutrows_by_script_hash:
  assumes "codec_ok D" and "inv s" and "indexes D (view s) T" and "length sh = 32"
  shows "\<exists>rs. get_txoutrows_by_script_hash D RS s sh = Ok rs \<and> distinct rs \<and>
              set rs = {txout_row_of D (tx_txid D t) n (tx_output t ! n) | t b n.
                 (t, b) \<in> T \<and> n < length (tx_output t) \<and>
                 take HASH_PREFIX_LEN (compute_script_hash D (script_pubkey (tx_output t ! n))) = take HASH_PREFIX_LEN sh}"
proof -
  obtain f p where f: "TxOutRow_filter sh = Ok f" "f = 79 # p"
    using TxOutRow_filter_eq [OF assms(4)] by (simp add: ser_txout_key_def)
  let ?P = "\<lambda>t n. n < length (tx_output t) \<and>
     take HASH_PREFIX_LEN (compute_script_hash D (script_pubkey (tx_output t ! n))) = take HASH_PREFIX_LEN sh"
  let ?rows = "rs_scan RS s f"
  let ?R = "{txout_row_of D (tx_txid D t) n (tx_output t ! n) | t b n. (t, b) \<in> T \<and> ?P t n}"
  have "r \<in> set ?rows \<longleftrightarrow> (\<exists>(t, b) \<in> T. (\<exists>n < length (tx_output t).
      r = TxOutRow_to_row D (txout_row_of D (tx_txid D t) n (tx_output t ! n))) \<and> prefix f (row_key r))" for r
    using scan_indexed [OF assms(2,3), of 79 r p] tx_rows_by_code(2) unfolding f(2)
    by (simp; blast)
  then have "set ?rows = TxOutRow_to_row D ` ?R"
    using TxOutRow_filter_selects [OF assms(1,4) f(1)] by (simp add: set_eq_iff image_iff) blast
  from txo.decode_scan [OF this] wf_txout_row_of [OF assms(1)] obtain rs where
    rs: "mapM_res (TxOutRow_from_row D) ?rows = Ok rs" "?rows = map (TxOutRow_to_row D) rs" "set rs = ?R"
    by blast
  with f(1) distinct_decoded [OF assms(2) rs(2)] show ?thesis
    by (simp add: get_txoutrows_by_script_hash_def)
qed

lemma prefixes_by_funding_txo:
  assumes "codec_ok D" and "inv s" and "indexes D (view s) T"
  shows "\<exists>ps. get_prefixes_by_funding_txo D RS s txid vout = Ok ps \<and> distinct ps \<and>
              set ps = {hprefix (tx_txid D t) | t b. (t, b) \<in> T \<and> spends_output t txid vout}"
proof -
  obtain f p where f: "TxInRow_filter D txid vout = Ok f" "f = 73 # p"
    using TxInRow_filter_eq by (simp add: ser_txin_key_def)
  let ?P = "\<lambda>i. hprefix (op_txid (previous_output i)) = hprefix txid \<and>
     (ucast (op_vout (previous_output i)) :: u16) = of_nat vout"
  let ?rows = "rs_scan RS s f"
  let ?R = "{txin_row_of (tx_txid D t) i | t b i. (t, b) \<in> T \<and> i \<in> set (spends t) \<and> ?P i}"
  have "r \<in> set ?rows \<longleftrightarrow> (\<exists>(t, b) \<in> T. (\<exists>i \<in> set (spends t).
      r = TxInRow_to_row D (txin_row_of (tx_txid D t) i)) \<and> prefix f (row_key r))" for r
    using scan_indexed [OF assms(2,3), of 73 r p] tx_rows_by_code(1) unfolding f(2)
    by (simp; blast)
  then have "set ?rows = TxInRow_to_row D ` ?R"
    using TxInRow_filter_selects [OF assms(1) f(1)] by (simp add: set_eq_iff image_iff) blast
  from txin.decode_scan [OF this] wf_txin_row_of [OF assms(1)] obtain rs where
    rs: "mapM_res (TxInRow_from_row D) ?rows = Ok rs" "?rows = map (TxInRow_to_row D) rs" "set rs = ?R"
    by blast
  have "inj_on tir_txid_prefix (set rs)"
    unfolding rs(3) by (rule inj_onI) (auto simp: txin_row_of_def)
  then have "distinct (map tir_txid_prefix rs)"
    using distinct_decoded [OF assms(2) rs(2)] by (simp add: distinct_map)
  moreover have "set (map tir_txid_prefix rs) =
      {hprefix (tx_txid D t) | t b. (t, b) \<in> T \<and> spends_output t txid vout}"
    unfolding set_map rs(3) spends_output_def by (auto simp: image_iff; force)
  ultimately show ?thesis
    using rs(1) f(1) by (simp add: get_prefixes_by_funding_txo_def)
qed

lemma txrows_by_prefixes:
  assumes "inv s" and "indexes D (view s) T" and "distinct ps" and "\<forall>p \<in> set ps. length p = n"
  shows "\<exists>rs. get_txrows_by_prefixes RS s ps = Ok rs \<and> list_all wf_tx_row rs \<and>
              distinct (map (\<lambda>r. txk_txid (txr_key r)) rs) \<and>
              set rs = {tx_row_of (tx_txid D t) b | t b. (t, b) \<in> T \<and> take n (hash_bytes (tx_txid D t)) \<in> set ps}"
  using assms(3,4)
proof (induction ps)
  case (Cons p ps)
  obtain a where a: "get_txrows_by_prefix RS s p = Ok a" "list_all wf_tx_row a"
    "distinct (map (\<lambda>r. txk_txid (txr_key r)) a)"
    "set a = {tx_row_of (tx_txid D t) b | t b. (t, b) \<in> T \<and> prefix p (hash_bytes (tx_txid D t))}"
    using txrows_by_prefix [OF assms(1,2), of p] by blast
  obtain rs where rs: "get_txrows_by_prefixes RS s ps = Ok rs" "list_all wf_tx_row rs"
    "distinct (map (\<lambda>r. txk_txid (txr_key r)) rs)"
    "set rs = {tx_row_of (tx_txid D t) b | t b. (t, b) \<in> T \<and> take n (hash_bytes (tx_txid D t)) \<in> set ps}"
    using Cons by auto
  have pre: "prefix p (hash_bytes x) \<longleftrightarrow> take n (hash_bytes x) = p" for x
    using Cons.prems(2) by (simp add: prefix_iff_take)
  have "txk_txid (txr_key r) \<noteq> txk_txid (txr_key r')" if "r \<in> set a" "r' \<in> set rs" for r r'
    using that Cons.prems(1) unfolding a(4) rs(4) pre by (auto simp: tx_row_of_def)
  then have "distinct (map (\<lambda>r. txk_txid (txr_key r)) (a @ rs))"
    using a(3) rs(3) by auto
  moreover have "set (a @ rs) =
      {tx_row_of (tx_txid D t) b | t b. (t, b) \<in> T \<and> take n (hash_bytes (tx_txid D t)) \<in> set (p # ps)}"
    unfolding set_append a(4) rs(4) pre by auto
  moreover have "get_txrows_by_prefixes RS s (p # ps) = Ok (a @ rs)"
    using a(1) rs(1) by (auto simp: get_txrows_by_prefixes_def res_simps)
  ultimately show ?case using a(2) rs(2) by (intro exI [of _ "a @ rs"]) simp
qed (simp add: get_txrows_by_prefixes_def)

text \<open>The transactions behind a list of prefixes, no deeper than a height.\<close>

lemma found_rows:
  assumes "codec_ok D" and "inv s" and "indexes D (view s) T" and "distinct ps"
    and "\<forall>p \<in> set ps. length p = HASH_PREFIX_LEN"
  shows "\<exists>found. bind_res (get_txrows_by_prefixes RS s ps) (rows_up_to D ix cur) = Ok found \<and>
            distinct (map fst found) \<and>
            set found = {(tx_txid D t, block_height ix b) | t b.
              (t, b) \<in> T \<and> hprefix (tx_txid D t) \<in> set ps \<and> block_height ix b \<le> cur}"
proof -
  obtain rs where rs: "get_txrows_by_prefixes RS s ps = Ok rs" "list_all wf_tx_row rs"
    "distinct (map (\<lambda>r. txk_txid (txr_key r)) rs)"
    "set rs = {tx_row_of (tx_txid D t) b | t b. (t, b) \<in> T \<and> hprefix (tx_txid D t) \<in> set ps}"
    using txrows_by_prefixes [OF assms(2-5)] by blast
  let ?found = "filter (\<lambda>x. snd x \<le> cur) (map (row_loc ix) rs)"
  have "bind_res (get_txrows_by_prefixes RS s ps) (rows_up_to D ix cur) = Ok ?found"
    using rs(1) rows_up_to_eq [OF assms(1) rs(2)] by simp
  moreover have "set ?found = {(tx_txid D t, block_height ix b) | t b.
      (t, b) \<in> T \<and> hprefix (tx_txid D t) \<in> set ps \<and> block_height ix b \<le> cur}"
  proof -
    have img: "f ` {g t b | t b. P t b} = {f (g t b) | t b. P t b}" for f g and P :: "transaction \<Rightarrow> hash \<Rightarrow> bool"
      by blast
    show ?thesis unfolding set_filter set_map rs(4) img mk_hash_tx_row_of by (auto; blast)
  qed
  moreover have "distinct (map fst ?found)"
  proof -
    have "inj_on (\<lambda>r. mk_hash (txk_txid (txr_key r))) (set rs)"
    proof (rule inj_onI)
      fix x y assume xy: "x \<in> set rs" "y \<in> set rs" "mk_hash (txk_txid (txr_key x)) = mk_hash (txk_txid (txr_key y))"
      then have "txk_txid (txr_key x) = txk_txid (txr_key y)"
        unfolding rs(4) by (auto simp: tx_row_of_def)
      with xy rs(3) show "x = y" by (auto simp: distinct_map inj_on_def)
    qed
    moreover have "distinct rs" using rs(3) by (simp add: distinct_map)
    ultimately have "distinct (map (\<lambda>r. mk_hash (txk_txid (txr_key r))) rs)" by (simp add: distinct_map)
    then have "distinct (map fst (map (row_loc ix) rs))" by (simp add: row_loc_def comp_def)
    then show ?thesis by (rule distinct_map_filter)
  qed
  ultimately show ?thesis by blast
qed

lemma find_funding_outputs_set:
  assumes "codec_ok D" and "inv s" and "indexes D (view s) T" and "length sh = 32"
  shows "\<exists>res. find_funding_outputs D RS s ix sh cur = Ok res \<and>
     set res = {x. \<exists>t' b' n. ((t', b') \<in> T \<and> n < length (tx_output t') \<and>
         take HASH_PREFIX_LEN (compute_script_hash D (script_pubkey (tx_output t' ! n))) = take HASH_PREFIX_LEN sh) \<and>
         (\<exists>t b. x = \<lparr>txo_txid = tx_txid D t, txo_vout = n mod 65536, txo_blockindex = block_height ix b\<rparr> \<and>
            (t, b) \<in> T \<and> hprefix (tx_txid D t) = hprefix (tx_txid D t') \<and> block_height ix b \<le> cur)}"
    (is "\<exists>res. _ \<and> set res = ?res")
proof -
  obtain rs where rs: "get_txoutrows_by_script_hash D RS s sh = Ok rs"
    "set rs = {txout_row_of D (tx_txid D t) n (tx_output t ! n) | t b n.
       (t, b) \<in> T \<and> n < length (tx_output t) \<and>
       take HASH_PREFIX_LEN (compute_script_hash D (script_pubkey (tx_output t ! n))) = take HASH_PREFIX_LEN sh}"
    using txoutrows_by_script_hash [OF assms] by blast
  let ?f = "\<lambda>row. bind_res (get_txrows_by_prefixes RS s [tor_txid_prefix row]) (\<lambda>txrows.
       bind_res (rows_up_to D ix cur txrows) (\<lambda>found.
       Ok (map (\<lambda>(t, h). \<lparr>txo_txid = t, txo_vout = unat (tor_vout row), txo_blockindex = h\<rparr>) found)))"
  let ?S = "\<lambda>row. {\<lparr>txo_txid = tx_txid D t, txo_vout = unat (tor_vout row),
        txo_blockindex = block_height ix b\<rparr> | t b.
        (t, b) \<in> T \<and> hprefix (tx_txid D t) = tor_txid_prefix row \<and> block_height ix b \<le> cur}"
  have "\<forall>row \<in> set rs. \<exists>l. ?f row = Ok l \<and> set l = ?S row"
  proof
    fix row assume row: "row \<in> set rs"
    have "length (tor_txid_prefix row) = HASH_PREFIX_LEN"
      using row unfolding rs(2) by (auto simp: HASH_PREFIX_LEN_def)
    then obtain found where found: "bind_res (get_txrows_by_prefixes RS s [tor_txid_prefix row]) (rows_up_to D ix cur) = Ok found"
      "set found = {(tx_txid D t, block_height ix b) | t b.
         (t, b) \<in> T \<and> hprefix (tx_txid D t) = tor_txid_prefix row \<and> block_height ix b \<le> cur}"
      using found_rows [OF assms(1-3), of "[tor_txid_prefix row]" ix cur] by auto
    let ?l = "map (\<lambda>(t, h). \<lparr>txo_txid = t, txo_vout = unat (tor_vout row), txo_blockindex = h\<rparr>) found"
    have "?f row = Ok ?l" using found(1) by (auto simp: res_simps)
    moreover have "set ?l = ?S row" unfolding set_map found(2) by (auto simp: image_iff; blast)
    ultimately show "\<exists>l. ?f row = Ok l \<and> set l = ?S row" by blast
  qed
  from bchoice [OF this] obtain g where "\<forall>row \<in> set rs. ?f row = Ok (g row) \<and> set (g row) = ?S row" ..
  then have g: "\<And>row. row \<in> set rs \<Longrightarrow> ?f row = Ok (g row)" "\<And>row. row \<in> set rs \<Longrightarrow> set (g row) = ?S row"
    by simp_all
  have "mapM_res ?f rs = Ok (map g rs)" using g(1) by (rule mapM_res_Ok)
  then have "find_funding_outputs D RS s ix sh cur = Ok (concat (map g rs))"
    by (simp add: find_funding_outputs_def rs(1))
  moreover have "set (concat (map g rs)) = ?res"
  proof -
    have un: "(\<Union>row \<in> {r t b n | t b n. P t b n}. F row) = {x. \<exists>t b n. P t b n \<and> x \<in> F (r t b n)}"
      for r and P :: "transaction \<Rightarrow> hash \<Rightarrow> nat \<Rightarrow> bool" and F :: "_ \<Rightarrow> txo set" by blast
    have vout: "unat (of_nat n :: u16) = n mod 65536" for n by (simp add: unat_of_nat)
    have "set (concat (map g rs)) = (\<Union>row \<in> set rs. {\<lparr>txo_txid = tx_txid D t, txo_vout = unat (tor_vout row),
        txo_blockindex = block_height ix b\<rparr> | t b.
        (t, b) \<in> T \<and> hprefix (tx_txid D t) = tor_txid_prefix row \<and> block_height ix b \<le> cur})"
      using g(2) by simp
    also have "\<dots> = ?res" unfolding rs(2) un codes vout mem_Collect_eq ..
    finally show ?thesis .
  qed
  ultimately show ?thesis by blast
qed

lemma find_spending_input_found:
  assumes "codec_ok D" and "inv s" and "indexes D (view s) T"
  shows "\<exists>found. find_spending_input D RS s ix txo cur =
     (case found of [] \<Rightarrow> Ok None
      | [(t, h)] \<Rightarrow> Ok (Some \<lparr>sp_txid = t, sp_outpoint = (txo_txid txo, txo_vout txo), sp_blockindex = h\<rparr>)
      | _ \<Rightarrow> Panic ''assertion failed: spendings.len() <= 1'') \<and>
     distinct (map fst found) \<and>
     set found = {(tx_txid D t, block_height ix b) | t b t' b'.
       (t, b) \<in> T \<and> (t', b') \<in> T \<and> spends_output t' (txo_txid txo) (txo_vout txo) \<and>
       hprefix (tx_txid D t) = hprefix (tx_txid D t') \<and> block_height ix b \<le> cur}"
proof -
  obtain ps where ps: "get_prefixes_by_funding_txo D RS s (txo_txid txo) (txo_vout txo) = Ok ps" "distinct ps"
    "set ps = {hprefix (tx_txid D t) | t b. (t, b) \<in> T \<and> spends_output t (txo_txid txo) (txo_vout txo)}"
    using prefixes_by_funding_txo [OF assms] by blast
  have "\<forall>p \<in> set ps. length p = HASH_PREFIX_LEN"
    unfolding ps(3) by (auto simp: HASH_PREFIX_LEN_def)
  from found_rows [OF assms ps(2) this, of ix cur] obtain found where found:
    "bind_res (get_txrows_by_prefixes RS s ps) (rows_up_to D ix cur) = Ok found" "distinct (map fst found)"
    "set found = {(tx_txid D t, block_height ix b) | t b.
        (t, b) \<in> T \<and> hprefix (tx_txid D t) \<in> set ps \<and> block_height ix b \<le> cur}"
    by blast
  then obtain rows where rows: "get_txrows_by_prefixes RS s ps = Ok rows" "rows_up_to D ix cur rows = Ok found"
    by (auto simp: res_simps)
  have "find_spending_input D RS s ix txo cur =
     (case found of [] \<Rightarrow> Ok None
      | [(t, h)] \<Rightarrow> Ok (Some \<lparr>sp_txid = t, sp_outpoint = (txo_txid txo, txo_vout txo), sp_blockindex = h\<rparr>)
      | _ \<Rightarrow> Panic ''assertion failed: spendings.len() <= 1'')"
    by (simp add: find_spending_input_def ps(1) rows split: list.splits)
  moreover have "set found = {(tx_txid D t, block_height ix b) | t b t' b'.
       (t, b) \<in> T \<and> (t', b') \<in> T \<and> spends_output t' (txo_txid txo) (txo_vout txo) \<and>
       hprefix (tx_txid D t) = hprefix (tx_txid D t') \<and> block_height ix b \<le> cur}"
    unfolding found(3) ps(3) by blast
  ultimately show ?thesis using found(2) by blast
qed

end

section \<open>Exact answers when 8-byte prefixes do not collide\<close>

text \<open>
  The index keeps 8 bytes of a hash and 16 bits of an output number. \<open>collision_free D sh X\<close> says that
  this loses nothing on the transactions \<open>X\<close> and the script hash \<open>sh\<close> asked for.
\<close>

definition collision_free :: "deps \<Rightarrow> bytes \<Rightarrow> transaction set \<Rightarrow> bool" where
  "collision_free D sh X \<longleftrightarrow>
     (\<forall>t \<in> X. \<forall>t' \<in> X. hprefix (tx_txid D t) = hprefix (tx_txid D t') \<longrightarrow> t = t') \<and>
     (\<forall>t \<in> X. \<forall>i \<in> set (spends t). unat (op_vout (previous_output i)) < 65536 \<and>
        (\<forall>t' \<in> X. hprefix (op_txid (previous_output i)) = hprefix (tx_txid D t') \<longrightarrow>
                   op_txid (previous_output i) = tx_txid D t')) \<and>
     (\<forall>t \<in> X. length (tx_output t) \<le> 65536 \<and>
        (\<forall>out \<in> set (tx_output t).
           take HASH_PREFIX_LEN (compute_script_hash D (script_pubkey out)) = take HASH_PREFIX_LEN sh \<longrightarrow>
           compute_script_hash D (script_pubkey out) = sh))"

definition spends_txo :: "transaction \<Rightarrow> txo \<Rightarrow> bool" where
  "spends_txo t txo \<longleftrightarrow>
     (\<exists>i \<in> set (spends t). op_txid (previous_output i) = txo_txid txo \<and>
                          unat (op_vout (previous_output i)) = txo_vout txo)"

text \<open>The outputs of \<open>T\<close> that pay to a script hash, and the inputs of \<open>T\<close> that spend given outputs.\<close>

definition funding_of :: "deps \<Rightarrow> index \<Rightarrow> (transaction \<times> hash) set \<Rightarrow> bytes \<Rightarrow> nat \<Rightarrow> txo set" where
  "funding_of D ix T sh cur =
     {\<lparr>txo_txid = tx_txid D t, txo_vout = n, txo_blockindex = block_height ix b\<rparr> | t b n.
        (t, b) \<in> T \<and> n < length (tx_output t) \<and>
        compute_script_hash D (script_pubkey (tx_output t ! n)) = sh \<and> block_height ix b \<le> cur}"

definition spending_of :: "deps \<Rightarrow> index \<Rightarrow> (transaction \<times> hash) set \<Rightarrow> txo set \<Rightarrow> nat \<Rightarrow> spending_input set" where
  "spending_of D ix T txos cur =
     {\<lparr>sp_txid = tx_txid D t, sp_outpoint = (txo_txid txo, txo_vout txo),
       sp_blockindex = block_height ix b\<rparr> | t b txo.
        (t, b) \<in> T \<and> txo \<in> txos \<and> spends_txo t txo \<and> block_height ix b \<le> cur}"

definition no_double_spend :: "index \<Rightarrow> (transaction \<times> hash) set \<Rightarrow> txo set \<Rightarrow> nat \<Rightarrow> bool" where
  "no_double_spend ix T txos cur \<longleftrightarrow>
     (\<forall>txo \<in> txos. \<forall>(t, b) \<in> T. \<forall>(t', b') \<in> T.
        spends_txo t txo \<and> spends_txo t' txo \<and> block_height ix b \<le> cur \<and> block_height ix b' \<le> cur \<longrightarrow> t = t')"

text \<open>A transaction is indexed in one block: its \<open>T\<close> row has one value.\<close>

lemma indexes_functional:
  assumes "indexes D m T" and "(t, b) \<in> T" and "(t, b') \<in> T"
  shows "b = b'"
proof -
  have "bt_get m (84 # hash_bytes (tx_txid D t)) = Some (hash_bytes x)" if "(t, x) \<in> T" for x
  proof -
    have "TxRow_to_row (tx_row_of (tx_txid D t) x) \<in> set (tx_rows D t x)"
      by (simp add: tx_rows_def)
    moreover have "TxRow_to_row (tx_row_of (tx_txid D t) x) =
        \<lparr>row_key = 84 # hash_bytes (tx_txid D t), row_value = hash_bytes x\<rparr>"
      by (simp add: TxRow_to_row_def ser_tx_key_def tx_row_of_def)
    ultimately show ?thesis using assms(1) that unfolding indexes_def by (auto intro!: bexI [of _ "(t, x)"])
  qed
  with assms(2,3) show ?thesis by (metis hash_bytes_eq option.inject)
qed

lemma spends_output_txo:
  assumes "collision_free D sh X" and "t \<in> X" and "t0 \<in> X" and "txo_txid txo = tx_txid D t0"
    and "txo_vout txo < 65536"
  shows "spends_output t (txo_txid txo) (txo_vout txo) \<longleftrightarrow> spends_txo t txo"
proof -
  have "hprefix (op_txid (previous_output i)) = hprefix (txo_txid txo) \<longleftrightarrow> op_txid (previous_output i) = txo_txid txo"
    "(ucast (op_vout (previous_output i)) :: u16) = of_nat (txo_vout txo) \<longleftrightarrow>
       unat (op_vout (previous_output i)) = txo_vout txo" if i: "i \<in> set (spends t)" for i
  proof -
    show "hprefix (op_txid (previous_output i)) = hprefix (txo_txid txo) \<longleftrightarrow> op_txid (previous_output i) = txo_txid txo"
      using assms i unfolding collision_free_def by metis
    have "(ucast (op_vout (previous_output i)) :: u16) = of_nat (unat (op_vout (previous_output i)))" by simp
    moreover have "unat (op_vout (previous_output i)) < 65536"
      using assms(1,2) i unfolding collision_free_def by blast
    ultimately show "(ucast (op_vout (previous_output i)) :: u16) = of_nat (txo_vout txo) \<longleftrightarrow>
       unat (op_vout (previous_output i)) = txo_vout txo"
      using word_of_nat_eq_iff [of "unat (op_vout (previous_output i))" "txo_vout txo", where ?'a = 16] assms(5)
      by (simp add: take_bit_eq_mod)
  qed
  then show ?thesis unfolding spends_output_def spends_txo_def by (intro bex_cong) auto
qed

context readable
begin

lemma find_funding_outputs_exact:
  assumes "codec_ok D" and "inv s" and ix: "indexes D (view s) T" and "length sh = 32"
    and free: "collision_free D sh X" and X: "fst ` T \<subseteq> X"
  shows "\<exists>res. find_funding_outputs D RS s ix sh cur = Ok res \<and> set res = funding_of D ix T sh cur"
proof -
  have eqs: "t = t' \<and> b = b'" if "(t, b) \<in> T" "(t', b') \<in> T" "hprefix (tx_txid D t) = hprefix (tx_txid D t')" for t b t' b'
  proof -
    have "t \<in> X" "t' \<in> X" using that X by force+
    with that(3) free have "t = t'" unfolding collision_free_def by blast
    with indexes_functional [OF ix] that show ?thesis by blast
  qed
  have script: "take HASH_PREFIX_LEN (compute_script_hash D (script_pubkey (tx_output t ! n))) = take HASH_PREFIX_LEN sh \<longleftrightarrow>
      compute_script_hash D (script_pubkey (tx_output t ! n)) = sh" and vout: "n mod 65536 = n"
    if "(t, b) \<in> T" "n < length (tx_output t)" for t b n
  proof -
    have "t \<in> X" using that(1) X by force
    moreover have "tx_output t ! n \<in> set (tx_output t)" using that(2) by simp
    ultimately show "take HASH_PREFIX_LEN (compute_script_hash D (script_pubkey (tx_output t ! n))) = take HASH_PREFIX_LEN sh \<longleftrightarrow>
      compute_script_hash D (script_pubkey (tx_output t ! n)) = sh" and "n mod 65536 = n"
      using free that(2) unfolding collision_free_def by (metis, fastforce)
  qed
  obtain res where "find_funding_outputs D RS s ix sh cur = Ok res" and
    res: "set res = {x. \<exists>t' b' n. ((t', b') \<in> T \<and> n < length (tx_output t') \<and>
         take HASH_PREFIX_LEN (compute_script_hash D (script_pubkey (tx_output t' ! n))) = take HASH_PREFIX_LEN sh) \<and>
         (\<exists>t b. x = \<lparr>txo_txid = tx_txid D t, txo_vout = n mod 65536, txo_blockindex = block_height ix b\<rparr> \<and>
            (t, b) \<in> T \<and> hprefix (tx_txid D t) = hprefix (tx_txid D t') \<and> block_height ix b \<le> cur)}"
    using find_funding_outputs_set [OF assms(1-4), of ix cur] by blast
  moreover have "set res = funding_of D ix T sh cur"
    unfolding res funding_of_def
    by (rule Collect_cong) (metis (no_types, lifting) eqs script vout)
  ultimately show ?thesis by blast
qed

lemma find_spending_input_exact:
  fixes ix :: index and cur :: nat
  assumes "codec_ok D" and "inv s" and ix: "indexes D (view s) T"
    and free: "collision_free D sh X" and X: "fst ` T \<subseteq> X" and "t0 \<in> X" "txo_txid txo = tx_txid D t0" "txo_vout txo < 65536"
  defines "Sp \<equiv> {(t, b). (t, b) \<in> T \<and> spends_txo t txo \<and> block_height ix b \<le> cur}"
  shows "(Sp = {} \<longrightarrow> find_spending_input D RS s ix txo cur = Ok None) \<and>
         (\<forall>t b. Sp = {(t, b)} \<longrightarrow> find_spending_input D RS s ix txo cur =
            Ok (Some \<lparr>sp_txid = tx_txid D t, sp_outpoint = (txo_txid txo, txo_vout txo), sp_blockindex = block_height ix b\<rparr>)) \<and>
         (\<forall>p \<in> Sp. \<forall>q \<in> Sp. p \<noteq> q \<longrightarrow>
            find_spending_input D RS s ix txo cur = Panic ''assertion failed: spendings.len() <= 1'')"
proof -
  have inX: "t \<in> X" if "(t, b) \<in> T" for t b using that X by force
  have eqs: "t = t' \<and> b = b'" if "(t, b) \<in> T" "(t', b') \<in> T" "hprefix (tx_txid D t) = hprefix (tx_txid D t')" for t b t' b'
    using that inX free indexes_functional [OF ix] unfolding collision_free_def by blast
  obtain found where find: "find_spending_input D RS s ix txo cur =
     (case found of [] \<Rightarrow> Ok None
      | [(t, h)] \<Rightarrow> Ok (Some \<lparr>sp_txid = t, sp_outpoint = (txo_txid txo, txo_vout txo), sp_blockindex = h\<rparr>)
      | _ \<Rightarrow> Panic ''assertion failed: spendings.len() <= 1'')"
    and dist: "distinct (map fst found)"
    and set0: "set found = {(tx_txid D t, block_height ix b) | t b t' b'.
       (t, b) \<in> T \<and> (t', b') \<in> T \<and> spends_output t' (txo_txid txo) (txo_vout txo) \<and>
       hprefix (tx_txid D t) = hprefix (tx_txid D t') \<and> block_height ix b \<le> cur}"
    using find_spending_input_found [OF assms(1-3)] by blast
  have sp: "spends_output t (txo_txid txo) (txo_vout txo) \<longleftrightarrow> spends_txo t txo" if "(t, b) \<in> T" for t b
    using spends_output_txo [OF free inX [OF that] assms(6-8)] .
  have set_found: "set found = (\<lambda>(t, b). (tx_txid D t, block_height ix b)) ` Sp"
    unfolding set0 Sp_def
    by (auto simp: image_iff) (metis eqs sp)+
  have inj: "p = q" if "p \<in> Sp" "q \<in> Sp" "tx_txid D (fst p) = tx_txid D (fst q)" for p q
    using that eqs unfolding Sp_def by (cases p, cases q) auto
  have zero: "found = []" if "Sp = {}" using set_found that by simp
  have one: "found = [(tx_txid D t, block_height ix b)]" if "Sp = {(t, b)}" for t b
  proof -
    have "set found = {(tx_txid D t, block_height ix b)}" using set_found that by simp
    moreover have "distinct found" using dist by (simp add: distinct_map)
    ultimately show ?thesis by (metis distinct_card card.empty card.insert empty_iff finite.emptyI
        length_0_conv length_Suc_conv list.set(1) list.set(2) One_nat_def singleton_insert_inj_eq insertI1)
  qed
  have two: "\<exists>x y l. found = x # y # l" if "p \<in> Sp" "q \<in> Sp" "p \<noteq> q" for p q
  proof -
    let ?g = "\<lambda>(t, b). (tx_txid D t, block_height ix b)"
    have "?g p \<in> set found" "?g q \<in> set found" "?g p \<noteq> ?g q"
      using set_found that inj [OF that(1,2)] by (auto split: prod.splits)
    then show ?thesis by (cases found rule: remdups_adj.cases) auto
  qed
  show ?thesis
  proof (intro conjI allI impI ballI)
    show "find_spending_input D RS s ix txo cur = Panic ''assertion failed: spendings.len() <= 1''"
      if "p \<in> Sp" "q \<in> Sp" "p \<noteq> q" for p q
    proof -
      from two [OF that] obtain x y l where "found = x # y # l" by blast
      then show ?thesis unfolding find by (cases x) simp
    qed
  qed (simp_all add: find zero one)
qed

lemma find_spendings_exact:
  assumes "codec_ok D" and "inv s" and ix: "indexes D (view s) T"
    and free: "collision_free D sh X" and X: "fst ` T \<subseteq> X"
    and txos: "\<forall>txo \<in> set txos. (\<exists>t0 \<in> X. txo_txid txo = tx_txid D t0) \<and> txo_vout txo < 65536"
    and single: "no_double_spend ix T (set txos) cur"
  shows "\<exists>l. find_spendings D RS s ix txos cur = Ok l \<and> set l = spending_of D ix T (set txos) cur"
proof -
  let ?Sp = "\<lambda>txo. {(t, b). (t, b) \<in> T \<and> spends_txo t txo \<and> block_height ix b \<le> cur}"
  let ?mk = "\<lambda>txo t b. \<lparr>sp_txid = tx_txid D t, sp_outpoint = (txo_txid txo, txo_vout txo), sp_blockindex = block_height ix b\<rparr>"
  have "\<forall>txo \<in> set txos. \<exists>x. find_spending_input D RS s ix txo cur = Ok x \<and>
          set_option x = {?mk txo t b | t b. (t, b) \<in> ?Sp txo}"
  proof
    fix txo assume txo: "txo \<in> set txos"
    then obtain t0 where "t0 \<in> X" "txo_txid txo = tx_txid D t0" "txo_vout txo < 65536" using txos by blast
    note exact = find_spending_input_exact [OF assms(1-3) free X this, of ix cur]
    show "\<exists>x. find_spending_input D RS s ix txo cur = Ok x \<and> set_option x = {?mk txo t b | t b. (t, b) \<in> ?Sp txo}"
    proof (cases "?Sp txo = {}")
      case True
      then have "find_spending_input D RS s ix txo cur = Ok None" using exact by blast
      with True show ?thesis by (intro exI [of _ None]) simp
    next
      case False
      then obtain t b where tb: "(t, b) \<in> ?Sp txo" by auto
      have uniq: "t' = t \<and> b' = b" if "(t', b') \<in> ?Sp txo" for t' b'
      proof -
        have "t' = t" using single txo tb that unfolding no_double_spend_def by fastforce
        then show ?thesis using indexes_functional [OF ix] tb that by auto
      qed
      have eq: "?Sp txo = {(t, b)}"
      proof (intro equalityI subsetI)
        fix p assume p: "p \<in> ?Sp txo"
        obtain t' b' where "p = (t', b')" by (cases p)
        with uniq [of t' b'] p show "p \<in> {(t, b)}" by blast
      next
        fix p assume "p \<in> {(t, b)}"
        with tb show "p \<in> ?Sp txo" by blast
      qed
      have "find_spending_input D RS s ix txo cur = Ok (Some (?mk txo t b))"
        by (rule exact [THEN conjunct2, THEN conjunct1, rule_format, OF eq])
      then show ?thesis unfolding eq by (intro exI [of _ "Some (?mk txo t b)"]) simp
    qed
  qed
  from bchoice [OF this] obtain g where
    g: "\<forall>txo \<in> set txos. find_spending_input D RS s ix txo cur = Ok (g txo) \<and>
          set_option (g txo) = {?mk txo t b | t b. (t, b) \<in> ?Sp txo}" ..
  have "mapM_res (\<lambda>txo. find_spending_input D RS s ix txo cur) txos = Ok (map g txos)"
    using g by (intro mapM_res_Ok) simp
  moreover have "set (List.map_filter id (map g txos)) = (\<Union>txo \<in> set txos. set_option (g txo))"
    by (force simp: List.map_filter_def)
  moreover have "(\<Union>txo \<in> set txos. set_option (g txo)) = spending_of D ix T (set txos) cur"
    using g unfolding spending_of_def by auto
  ultimately show ?thesis by (simp add: find_spendings_def)
qed

end

section \<open>What the two stores index\<close>

lemma tx_rows_row_value:
  "r \<in> set (tx_rows D tx b) \<Longrightarrow> row_value r = (if hd (row_key r) = 84 then hash_bytes b else [])"
  by (auto simp: tx_rows_def TxInRow_to_row_def ser_txin_row_def ser_txin_key_def
      txin_row_of_def TxOutRow_to_row_def ser_txout_row_def ser_txout_key_def txout_row_of_def
      TxRow_to_row_def ser_tx_key_def tx_row_of_def)

lemma tx_rows_keys: "row_key ` set (tx_rows D t b) = row_key ` set (tx_rows D t b')"
proof -
  have "map row_key (tx_rows D t b) = map row_key (tx_rows D t b')"
    by (simp add: tx_rows_def TxRow_to_row_def tx_row_of_def)
  then show ?thesis by (metis list.set_map)
qed

definition mempool_txs :: "tracker \<Rightarrow> (transaction \<times> hash) set" where
  "mempool_txs t = (\<lambda>(txid, tx). (tx, null_hash)) ` set (tr_items t)"

lemma indexes_mempool:
  assumes "tracker_inv D t"
  shows "indexes D (mp_view (tr_index t)) (mempool_txs t)"
  unfolding indexes_def mempool_txs_def
  using tracker_view [OF assms, of "\<lparr>row_key = k, row_value = v\<rparr>" for k v] by (auto split: prod.splits; force)

text \<open>Indexing a block: its transactions are now found in it, also those indexed before in another.\<close>

definition index_block_txs :: "deps \<Rightarrow> (transaction \<times> hash) set \<Rightarrow> block \<Rightarrow> (transaction \<times> hash) set" where
  "index_block_txs D T b =
     {(t, h) \<in> T. tx_txid D t \<notin> tx_txid D ` set (txdata b)} \<union>
     (\<lambda>t. (t, bitcoin_hash D (blk_header b))) ` set (txdata b)"

lemma indexes_empty: "indexes D [] {}"
  by (simp add: indexes_def bt_get_def)

text \<open>
  Writing rows in any order: if the \<open>I\<close>, \<open>O\<close> and \<open>T\<close> rows written are those of the transactions \<open>N\<close>, each in
  one block, these are now found there, also those indexed before in another block.
\<close>

lemma indexes_put_rows:
  assumes idx: "indexes D m T" and sorted: "bt_sorted m" and inj: "inj_on (tx_txid D) (fst ` T \<union> fst ` N)"
    and W: "\<And>r. row_key r \<noteq> [] \<Longrightarrow> hd (row_key r) \<in> {73, 79, 84} \<Longrightarrow> r \<in> set W \<longleftrightarrow> (\<exists>(t, b) \<in> N. r \<in> set (tx_rows D t b))"
    and fn: "\<And>t b b'. (t, b) \<in> N \<Longrightarrow> (t, b') \<in> N \<Longrightarrow> b = b'"
  shows "indexes D (put_rows m W) ({(t, h) \<in> T. tx_txid D t \<notin> tx_txid D ` fst ` N} \<union> N)"
  unfolding indexes_def
proof (intro allI impI)
  let ?T = "{(t, h) \<in> T. tx_txid D t \<notin> tx_txid D ` fst ` N} \<union> N"
  fix k v assume k: "k \<noteq> [] \<and> hd k \<in> {73, 79, 84 :: byte}"
  have W: "r \<in> set W \<longleftrightarrow> (\<exists>(t, b) \<in> N. r \<in> set (tx_rows D t b))" if "row_key r = k" for r using W [of r] k that by blast
  have key: "k = 84 # hash_bytes (tx_txid D t)" if "r \<in> set (tx_rows D t b)" "row_key r = k" "hd k = 84" for r t b
    using tx_rows_by_code(3) [of r D t b] that k row_key_cases(3) by metis
  have same: "b' = b \<and> (t', b) \<in> N" if "(t, b) \<in> N" "(t', b') \<in> ?T" "tx_txid D t = tx_txid D t'" for t b t' b'
  proof -
    have t: "t \<in> fst ` N" using that(1) by force
    then have "tx_txid D t' \<in> tx_txid D ` fst ` N" unfolding that(3) [symmetric] by (rule imageI)
    then have t': "(t', b') \<in> N" using that(2) by blast
    then have "t' \<in> fst ` N" by force
    with t have "t = t'" using inj_onD [OF inj that(3)] by blast
    with fn that(1) t' show ?thesis by blast
  qed
  show "bt_get (put_rows m W) k = Some v \<longleftrightarrow> (\<exists>(t, b) \<in> ?T. \<lparr>row_key = k, row_value = v\<rparr> \<in> set (tx_rows D t b))"
  proof (cases "k \<in> row_key ` set W")
    case True
    then obtain r t b where r: "r \<in> set W" "row_key r = k" "(t, b) \<in> N" "r \<in> set (tx_rows D t b)" using W by blast
    have val: "row_value r' = row_value r" if "row_key r' = k" "(t', b') \<in> ?T" "r' \<in> set (tx_rows D t' b')" for r' t' b'
    proof (cases "hd k = 84")
      case True
      have "b' = b" using same [OF r(3) that(2)] key [OF r(4,2) True] key [OF that(3,1) True] by simp
      with tx_rows_row_value [OF that(3)] tx_rows_row_value [OF r(4)] r(2) that(1) show ?thesis by simp
    qed (use tx_rows_row_value [OF that(3)] tx_rows_row_value [OF r(4)] r(2) that(1) in simp)
    then have get: "bt_get (put_rows m W) k = Some (row_value r)"
      using True W by (intro bt_get_put_rows_mem [OF sorted]) blast+
    have rec: "\<lparr>row_key = k, row_value = row_value r\<rparr> = r" using r(2) by (cases r) simp
    have "\<exists>(t, b) \<in> ?T. \<lparr>row_key = k, row_value = row_value r\<rparr> \<in> set (tx_rows D t b)"
      unfolding rec using r(3,4) by blast
    moreover have "v = row_value r" if "\<exists>(t, b) \<in> ?T. \<lparr>row_key = k, row_value = v\<rparr> \<in> set (tx_rows D t b)"
      using that val [of "\<lparr>row_key = k, row_value = v\<rparr>"] by auto
    ultimately show ?thesis unfolding get by blast
  next
    case False
    have "(\<exists>(t, b) \<in> ?T. \<lparr>row_key = k, row_value = v\<rparr> \<in> set (tx_rows D t b)) \<longleftrightarrow>
        (\<exists>(t, b) \<in> T. \<lparr>row_key = k, row_value = v\<rparr> \<in> set (tx_rows D t b))" (is "?new \<longleftrightarrow> ?old")
    proof
      assume ?new
      moreover have "\<not> (\<exists>(t, b) \<in> N. \<lparr>row_key = k, row_value = v\<rparr> \<in> set (tx_rows D t b))"
        using W [of "\<lparr>row_key = k, row_value = v\<rparr>"] False by force
      ultimately show ?old by blast
    next
      assume ?old
      then obtain t b where tb: "(t, b) \<in> T" "\<lparr>row_key = k, row_value = v\<rparr> \<in> set (tx_rows D t b)" by blast
      have "tx_txid D t \<notin> tx_txid D ` fst ` N"
      proof
        assume "tx_txid D t \<in> tx_txid D ` fst ` N"
        then obtain t0 b0 where t0: "(t0, b0) \<in> N" "tx_txid D t = tx_txid D t0" by force
        have "t = t0" by (rule inj_onD [OF inj t0(2)]) (use tb(1) t0(1) in force)+
        with tb(2) obtain r where "r \<in> set (tx_rows D t0 b0)" "row_key r = k" using tx_rows_keys [of D t0 b b0] by force
        with False W [of r] t0(1) show False by blast
      qed
      with tb show ?new by blast
    qed
    with bt_get_put_rows_notin [OF sorted False] idx k show ?thesis unfolding indexes_def by simp
  qed
qed

lemma indexes_index_block:
  assumes "indexes D m T" and "bt_sorted m" and "inj_on (tx_txid D) (fst ` T \<union> set (txdata blk))"
  shows "indexes D (put_rows m (indexed_rows D blk)) (index_block_txs D T blk)"
proof -
  let ?N = "(\<lambda>t. (t, bitcoin_hash D (blk_header blk))) ` set (txdata blk)"
  have fst: "fst ` ?N = set (txdata blk)" by force
  have "r \<in> set (indexed_rows D blk) \<longleftrightarrow> (\<exists>(t, b) \<in> ?N. r \<in> set (tx_rows D t b))"
    if "row_key r \<noteq> []" "hd (row_key r) \<in> {73, 79, 84}" for r
    using that by (auto simp: indexed_rows_def block_rows_def last_indexed_block_def)
  from indexes_put_rows [OF assms(1,2), of ?N, unfolded fst, OF assms(3) this] show ?thesis
    unfolding index_block_txs_def fst by blast
qed

lemma index_block_txs_fst: "fst ` index_block_txs D T b \<subseteq> fst ` T \<union> set (txdata b)"
  by (force simp: index_block_txs_def)

lemma indexes_index_blocks:
  "indexes D m T \<Longrightarrow> bt_sorted m \<Longrightarrow> inj_on (tx_txid D) (fst ` T \<union> (\<Union>b \<in> set bs. set (txdata b))) \<Longrightarrow>
     indexes D (put_rows m (concat (map (indexed_rows D) bs))) (foldl (index_block_txs D) T bs)"
proof (induction bs arbitrary: m T)
  case (Cons b bs)
  have "inj_on (tx_txid D) (fst ` T \<union> set (txdata b))"
    by (rule inj_on_subset [OF Cons.prems(3)]) auto
  from indexes_index_block [OF Cons.prems(1,2) this]
  have idx: "indexes D (put_rows m (indexed_rows D b)) (index_block_txs D T b)" .
  have "inj_on (tx_txid D) (fst ` index_block_txs D T b \<union> (\<Union>b \<in> set bs. set (txdata b)))"
    by (rule inj_on_subset [OF Cons.prems(3)]) (use index_block_txs_fst [of D T b] in auto)
  from Cons.IH [OF idx _ this] Cons.prems(2) show ?case by (simp add: store_simps)
qed simp

section \<open>The answer to a query\<close>

lemma funding_of_bounds:
  assumes "collision_free D sh X" and "fst ` T \<subseteq> X" and "txo \<in> funding_of D ix T sh cur"
  shows "(\<exists>t0 \<in> X. txo_txid txo = tx_txid D t0) \<and> txo_vout txo < 65536"
proof -
  obtain t b n where tb: "(t, b) \<in> T" "n < length (tx_output t)" "txo_txid txo = tx_txid D t" "txo_vout txo = n"
    using assms(3) by (auto simp: funding_of_def)
  moreover have "t \<in> X" using tb(1) assms(2) by force
  moreover have "length (tx_output t) \<le> 65536"
    using assms(1) \<open>t \<in> X\<close> by (simp add: collision_free_def)
  ultimately show ?thesis by auto
qed

lemma confirmed_status_exact:
  assumes "codec_ok D" and "rocksdb_ok R c" and idx: "indexes D (c (db_handle (q_store q))) T" and "length sh = 32"
    and free: "collision_free D sh X" and X: "fst ` T \<subseteq> X" and limit: "\<not> use_limit \<or> q_txid_limit q = 0"
    and single: "no_double_spend (q_index q) T (funding_of D (q_index q) T sh cur) cur"
  shows "\<exists>f p. confirmed_status D (db_read_store R) q sh cur use_limit = Ok (f, p) \<and>
           set f = funding_of D (q_index q) T sh cur \<and>
           set p = spending_of D (q_index q) T (funding_of D (q_index q) T sh cur) cur"
proof -
  obtain f where f: "find_funding_outputs D (db_read_store R) (q_store q) (q_index q) sh cur = Ok f"
    "set f = funding_of D (q_index q) T sh cur"
    using db.find_funding_outputs_exact [OF assms(1,2) idx assms(4) free X] by blast
  have "\<forall>txo \<in> set f. (\<exists>t0 \<in> X. txo_txid txo = tx_txid D t0) \<and> txo_vout txo < 65536"
    unfolding f(2) using funding_of_bounds [OF free X] by blast
  from db.find_spendings_exact [OF assms(1,2) idx free X this, where ix = "q_index q" and cur = cur] single f(2) obtain p where
    "find_spendings D (db_read_store R) (q_store q) (q_index q) f cur = Ok p"
    "set p = spending_of D (q_index q) T (funding_of D (q_index q) T sh cur) cur" by auto
  then show ?thesis using f limit by (auto simp: confirmed_status_def check_limit_def)
qed

lemma mempool_status_exact:
  assumes "codec_ok D" and inv: "tracker_inv D (q_tracker q)" and "length sh = 32"
    and free: "collision_free D sh X" and M: "fst ` mempool_txs (q_tracker q) \<subseteq> X"
    and limit: "\<not> use_limit \<or> q_txid_limit q = 0"
    and conf: "\<forall>txo \<in> set conf. (\<exists>t0 \<in> X. txo_txid txo = tx_txid D t0) \<and> txo_vout txo < 65536"
    and single: "no_double_spend (q_index q) (mempool_txs (q_tracker q))
      (funding_of D (q_index q) (mempool_txs (q_tracker q)) sh 9999999999 \<union> set conf) 9999999999"
  shows "\<exists>f p. mempool_status D q sh conf use_limit = Ok (f, p) \<and>
           set f = funding_of D (q_index q) (mempool_txs (q_tracker q)) sh 9999999999 \<and>
           set p = spending_of D (q_index q) (mempool_txs (q_tracker q)) (set f \<union> set conf) 9999999999"
proof -
  note idx = indexes_mempool [OF inv] and inv' = tracker_inv_mp [OF inv]
  obtain f where f: "find_funding_outputs D mempool_read_store (tr_index (q_tracker q)) (q_index q) sh 9999999999 = Ok f"
    "set f = funding_of D (q_index q) (mempool_txs (q_tracker q)) sh 9999999999"
    using mp.find_funding_outputs_exact [OF assms(1) inv' idx assms(3) free M] by blast
  have "\<forall>txo \<in> set (f @ conf). (\<exists>t0 \<in> X. txo_txid txo = tx_txid D t0) \<and> txo_vout txo < 65536"
    using conf f(2) funding_of_bounds [OF free M] by auto
  from mp.find_spendings_exact [OF assms(1) inv' idx free M this, where ix = "q_index q" and cur = 9999999999] single f(2) obtain p where
    "find_spendings D mempool_read_store (tr_index (q_tracker q)) (q_index q) (f @ conf) 9999999999 = Ok p"
    "set p = spending_of D (q_index q) (mempool_txs (q_tracker q)) (set (f @ conf)) 9999999999" by auto
  then show ?thesis using f limit by (auto simp: mempool_status_def check_limit_def)
qed

lemma history_sorted: "sorted (history s) \<and> distinct (history s) \<and>
    set (history s) = txo_txid ` set (status_funding s) \<union> sp_txid ` set (status_spending s)"
  by (simp add: history_def distinct_remdups_adj_sorted)

section \<open>Properties\<close>

text \<open>
  The closed examples: transaction 7 pays to the script \<open>[81]\<close> in block 1, transaction 8 spends that
  output in block 2, transaction 9 spends it as well.
\<close>

definition ex_tx_blocks :: "block list" where
  "ex_tx_blocks = [\<lparr>blk_header = ex_header 0 1, txdata = [ex_tx 7 [] [[81]]]\<rparr>,
                   \<lparr>blk_header = ex_header 1 2, txdata = [ex_tx 8 [(7, 0)] [[82]]]\<rparr>]"

definition ex_fork_block :: block where
  "ex_fork_block = \<lparr>blk_header = ex_header 1 3, txdata = [ex_tx 9 [(7, 0)] [[83]]]\<rparr>"

definition ex_query :: "block list \<Rightarrow> memdb dbstore query" where
  "ex_query bs = Query_new
     (mem_store\<lparr>db_handle := mem_put mem_empty (map into_pair (concat (map (indexed_rows ref_deps) bs)))\<rparr>)
     \<lparr>ix_headers = ex_headers, ix_batch_size = 100\<rparr> 0"

definition ex_script_hash :: bytes where
  "ex_script_hash = compute_script_hash ref_deps [81]"

definition ex_txs :: "(transaction \<times> hash) set" where
  "ex_txs = {(ex_tx 7 [] [[81]], mk_hash [1]), (ex_tx 8 [(7, 0)] [[82]], mk_hash [2])}"

lemma hprefix_single [simp]: "hprefix (mk_hash [a]) = [a, 0, 0, 0, 0, 0, 0, 0]"
  by (simp add: HASH_PREFIX_LEN_def numeral_eq_Suc)

lemma ex_tx_sel [simp]:
  "tx_output (ex_tx n ins outs) = map (\<lambda>s. \<lparr>script_pubkey = s\<rparr>) outs"
  "spends (ex_tx n [] outs) = []"
  "spends (ex_tx n [(7, 0)] outs) = [\<lparr>previous_output = \<lparr>op_txid = mk_hash [7], op_vout = 0\<rparr>\<rparr>]"
  by (simp_all add: spends_def ex_tx_def)

lemma ex_tx_eq [simp]: "ex_tx n ins outs = ex_tx n' ins' outs' \<Longrightarrow> n = n'"
  by (simp add: ex_tx_def)

lemma ex_scripts [simp]:
  "compute_script_hash ref_deps [b] = b # replicate 31 0"
  "take HASH_PREFIX_LEN (b # replicate 31 (0 :: byte)) = b # replicate 7 0"
  by (simp_all add: compute_script_hash_def ref_deps_def HASH_PREFIX_LEN_def)

lemma length_ex_script_hash [simp]: "length ex_script_hash = 32"
  by (simp add: ex_script_hash_def)

lemma ex_query_contents:
  "mem_contents (db_handle (q_store (ex_query bs))) = put_rows [] (concat (map (indexed_rows ref_deps) bs))"
  by (simp add: ex_query_def Query_new_def put_rows_def)

lemma ex_indexes: "indexes ref_deps (mem_contents (db_handle (q_store (ex_query ex_tx_blocks)))) ex_txs"
proof -
  have "inj_on (tx_txid ref_deps) (fst ` {} \<union> (\<Union>b \<in> set ex_tx_blocks. set (txdata b)))"
    by (auto simp: inj_on_def ex_tx_blocks_def)
  from indexes_index_blocks [OF indexes_empty _ this]
  have "indexes ref_deps (mem_contents (db_handle (q_store (ex_query ex_tx_blocks))))
      (foldl (index_block_txs ref_deps) {} ex_tx_blocks)"
    unfolding ex_query_contents by simp
  moreover have "foldl (index_block_txs ref_deps) {} ex_tx_blocks = ex_txs"
    by (auto simp: ex_tx_blocks_def ex_txs_def index_block_txs_def)
  ultimately show ?thesis by simp
qed

lemma ex_collision_free: "collision_free ref_deps ex_script_hash
    {ex_tx 7 [] [[81]], ex_tx 8 [(7, 0)] [[82]], ex_tx 9 [(7, 0)] [[83]]}"
  by (simp add: collision_free_def ex_script_hash_def)

lemma ex_heights:
  "block_height \<lparr>ix_headers = ex_headers, ix_batch_size = n\<rparr> (mk_hash [1]) = 0"
  "block_height \<lparr>ix_headers = ex_headers, ix_batch_size = n\<rparr> (mk_hash [2]) = 1"
  "block_height \<lparr>ix_headers = ex_headers, ix_batch_size = n\<rparr> (mk_hash [3]) = 0"
proof -
  have "header_by_blockhash ex_headers (mk_hash [1]) = Some (chain_entry ref_deps 0 (ex_header 0 1))"
    "header_by_blockhash ex_headers (mk_hash [2]) = Some (chain_entry ref_deps 1 (ex_header 1 2))"
    "header_by_blockhash ex_headers (mk_hash [3]) = None"
    by (simp_all add: header_by_blockhash_def ex_headers_def ex_chain_def chain_entries_Cons)
  then show "block_height \<lparr>ix_headers = ex_headers, ix_batch_size = n\<rparr> (mk_hash [1]) = 0"
    "block_height \<lparr>ix_headers = ex_headers, ix_batch_size = n\<rparr> (mk_hash [2]) = 1"
    "block_height \<lparr>ix_headers = ex_headers, ix_batch_size = n\<rparr> (mk_hash [3]) = 0"
    by (simp_all add: block_height_def get_header_by_block_hash_def)
qed

lemma query_status_spec:
  fixes D :: deps and q :: "'db dbstore query" and T :: "(transaction \<times> hash) set" and sh :: bytes and cur :: nat
  defines "ix \<equiv> q_index q" and "M \<equiv> mempool_txs (q_tracker q)"
  defines "F \<equiv> funding_of D ix T sh cur" and "FM \<equiv> funding_of D ix M sh 9999999999"
  assumes "codec_ok D" and "rocksdb_ok R c" and "indexes D (c (db_handle (q_store q))) T"
    and "tracker_inv D (q_tracker q)" and "length sh = 32"
    and "collision_free D sh (fst ` T \<union> fst ` M)" and "\<not> use_limit \<or> q_txid_limit q = 0"
    and "no_double_spend ix T F cur" and "no_double_spend ix M (FM \<union> F) 9999999999"
  shows "\<exists>st. query_status D (db_read_store R) q sh cur use_limit = Ok st \<and>
           set (status_funding st) = F \<union> FM \<and>
           set (status_spending st) = spending_of D ix T F cur \<union> spending_of D ix M (FM \<union> F) 9999999999"
proof -
  let ?X = "fst ` T \<union> fst ` M"
  obtain f p where conf: "confirmed_status D (db_read_store R) q sh cur use_limit = Ok (f, p)"
    "set f = F" "set p = spending_of D ix T F cur"
    using confirmed_status_exact [OF assms(5-7,9,10) _ assms(11)] assms(12) unfolding F_def ix_def by blast
  have bounds: "\<forall>txo \<in> set f. (\<exists>t0 \<in> ?X. txo_txid txo = tx_txid D t0) \<and> txo_vout txo < 65536"
    unfolding conf(2) F_def using funding_of_bounds [OF assms(10)] by blast
  obtain f' p' where mp: "mempool_status D q sh f use_limit = Ok (f', p')"
    "set f' = FM" "set p' = spending_of D ix M (FM \<union> F) 9999999999"
    using mempool_status_exact [OF assms(5,8,9,10) _ assms(11) bounds] assms(13) conf(2)
    unfolding FM_def M_def ix_def by auto
  show ?thesis using conf mp by (simp add: query_status_def status_funding_def status_spending_def)
qed

text \<open>
  C6: The answer to a query is exact. Let the database index the transactions \<open>T\<close> and the tracker
  the mempool, let the 8-byte prefixes not collide on them and let no output that pays to the script
  be spent twice. Then \<open>status\<close> succeeds; its funding outputs are exactly the outputs that pay to the
  script (confirmed up to the given height, or in the mempool) and its spending inputs exactly the
  inputs that spend those.
\<close>

theorem query_status_exact:
  fixes D :: deps and q :: "'db dbstore query" and T :: "(transaction \<times> hash) set" and sh :: bytes and cur :: nat
  defines "ix \<equiv> q_index q" and "M \<equiv> mempool_txs (q_tracker q)"
  defines "F \<equiv> funding_of D ix T sh cur" and "FM \<equiv> funding_of D ix M sh 9999999999"
  assumes "codec_ok D" and "rocksdb_ok R c" and "indexes D (c (db_handle (q_store q))) T"
    and "tracker_inv D (q_tracker q)" and "length sh = 32"
    and "collision_free D sh (fst ` T \<union> fst ` M)" and "\<not> use_limit \<or> q_txid_limit q = 0"
    and "no_double_spend ix T F cur" and "no_double_spend ix M (FM \<union> F) 9999999999"
  shows "\<exists>st. query_status D (db_read_store R) q sh cur use_limit = Ok st \<and>
           set (status_funding st) = F \<union> FM \<and>
           set (status_spending st) = spending_of D ix T F cur \<union> spending_of D ix M (FM \<union> F) 9999999999"
  using assms(5-13) unfolding F_def FM_def ix_def M_def by (rule query_status_spec)

lemma no_txs [simp]:
  "funding_of D ix {} sh cur = {}" "spending_of D ix {} txos cur = {}" "no_double_spend ix {} txos cur"
  by (simp_all add: funding_of_def spending_of_def no_double_spend_def)

lemma ex_status_facts:
  "q_index (ex_query bs) = \<lparr>ix_headers = ex_headers, ix_batch_size = 100\<rparr>"
  "q_tracker (ex_query bs) = Tracker_new" "mempool_txs Tracker_new = {}" "q_txid_limit (ex_query bs) = 0"
  by (simp_all add: ex_query_def Query_new_def mempool_txs_def Tracker_new_def)

lemma ex_funding:
  "funding_of ref_deps \<lparr>ix_headers = ex_headers, ix_batch_size = 100\<rparr> ex_txs ex_script_hash 5 =
     {\<lparr>txo_txid = mk_hash [7], txo_vout = 0, txo_blockindex = 0\<rparr>}"
  by (auto simp: funding_of_def ex_txs_def ex_script_hash_def ex_heights
      intro!: exI [of _ "ex_tx 7 [] [[81]]"] exI [of _ "mk_hash [1]"])

theorem query_status_exact_witness:
  "\<exists>st. query_status ref_deps (db_read_store mem_rocksdb) (ex_query ex_tx_blocks) ex_script_hash 5 False = Ok st \<and>
        set (status_funding st) = {\<lparr>txo_txid = mk_hash [7], txo_vout = 0, txo_blockindex = 0\<rparr>}"
proof -
  have "collision_free ref_deps ex_script_hash (fst ` ex_txs \<union> fst ` {})"
    by (simp add: collision_free_def ex_script_hash_def ex_txs_def)
  moreover have "no_double_spend \<lparr>ix_headers = ex_headers, ix_batch_size = 100\<rparr> ex_txs
      {\<lparr>txo_txid = mk_hash [7], txo_vout = 0, txo_blockindex = 0\<rparr>} 5"
    by (auto simp: no_double_spend_def ex_txs_def spends_txo_def)
  ultimately show ?thesis
    using query_status_exact [OF codec_ok_ref_deps mem_rocksdb_ok ex_indexes, of ex_script_hash False 5]
    by (auto simp: ex_status_facts ex_funding tracker_inv_new)
qed

text \<open>
  Writing a batch of blocks keeps the database in step. If it indexed the transactions \<open>T\<close>, then
  after the rows of the blocks \<open>bs\<close> are written it indexes \<open>T\<close> with the transactions of \<open>bs\<close> added, a
  transaction that was indexed before being found in its latest block.
\<close>

lemma batch_write_indexes:
  assumes "codec_ok D" and "rocksdb_ok R c" and "indexes D (c (db_handle s)) T"
    and "inj_on (tx_txid D) (fst ` T \<union> (\<Union>b \<in> set bs. set (txdata b)))"
  shows "\<exists>s'. bind_res (batch_rows D bs) (db_write R s) = Ok s' \<and>
              indexes D (c (db_handle s')) (foldl (index_block_txs D) T bs)"
proof -
  obtain s' where "db_write R s (concat (map (indexed_rows D) bs)) = Ok s'"
    "c (db_handle s') = put_rows (c (db_handle s)) (concat (map (indexed_rows D) bs))"
    using db_write_contents [OF assms(2)] by blast
  moreover have "bt_sorted (c (db_handle s))" using assms(2) by (simp add: rocksdb_ok_def)
  ultimately show ?thesis
    using indexes_index_blocks [OF assms(3) _ assms(4)] by (simp add: batch_rows_eq [OF assms(1)])
qed

text \<open>
  C30: A double spend in the index stops every query for the script. Rows of abandoned blocks are never
  removed, so after a reorganisation that replaced a spending transaction both spenders stay indexed;
  then \<open>status\<close> of the script they spend from panics, by the assertion that there is at most one.
\<close>

theorem query_status_double_spend:
  assumes "codec_ok D" and "rocksdb_ok R c" and idx: "indexes D (c (db_handle (q_store q))) T"
    and "length sh = 32" and free: "collision_free D sh (fst ` T)" and limit: "\<not> use_limit \<or> q_txid_limit q = 0"
    and txo: "txo \<in> funding_of D (q_index q) T sh cur"
    and t: "(t, b) \<in> T" "spends_txo t txo" "block_height (q_index q) b \<le> cur"
    and t': "(t', b') \<in> T" "spends_txo t' txo" "block_height (q_index q) b' \<le> cur" and "t \<noteq> t'"
  shows "panics (query_status D (db_read_store R) q sh cur use_limit)"
proof -
  obtain f where f: "find_funding_outputs D (db_read_store R) (q_store q) (q_index q) sh cur = Ok f"
    "set f = funding_of D (q_index q) T sh cur"
    using db.find_funding_outputs_exact [OF assms(1,2) idx assms(4) free] by blast
  obtain t0 where t0: "t0 \<in> fst ` T" "txo_txid txo = tx_txid D t0" "txo_vout txo < 65536"
    using funding_of_bounds [OF free _ txo] by blast
  let ?S = "{(t, b). (t, b) \<in> T \<and> spends_txo t txo \<and> block_height (q_index q) b \<le> cur}"
  have S: "(t, b) \<in> ?S" "(t', b') \<in> ?S" "(t, b) \<noteq> (t', b')" using t t' assms(14) by simp_all
  have "find_spending_input D (db_read_store R) (q_store q) (q_index q) txo cur =
      Panic ''assertion failed: spendings.len() <= 1''"
    by (rule db.find_spending_input_exact [OF assms(1,2) idx free subset_refl t0, THEN conjunct2,
          THEN conjunct2, rule_format, OF S])
  moreover have "panics (find_spending_input D (db_read_store R) (q_store q) (q_index q) x cur) \<or>
      is_ok (find_spending_input D (db_read_store R) (q_store q) (q_index q) x cur)" for x
  proof -
    obtain found where eq: "find_spending_input D (db_read_store R) (q_store q) (q_index q) x cur =
       (case found of [] \<Rightarrow> Ok None
        | [(t, h)] \<Rightarrow> Ok (Some \<lparr>sp_txid = t, sp_outpoint = (txo_txid x, txo_vout x), sp_blockindex = h\<rparr>)
        | _ \<Rightarrow> Panic ''assertion failed: spendings.len() <= 1'')"
      using db.find_spending_input_found [OF assms(1,2) idx] by blast
    show ?thesis unfolding eq by (cases found rule: remdups_adj.cases) (auto split: prod.splits)
  qed
  moreover have "panics (mapM_res g xs)" if "x \<in> set xs" "panics (g x)" "\<And>y. panics (g y) \<or> is_ok (g y)"
    for g :: "txo \<Rightarrow> spending_input option res" and x xs
    using that
  proof (induction xs)
    case (Cons y xs)
    show ?case
    proof (cases "g y")
      case (Ok v)
      with Cons have "panics (mapM_res g xs)" by auto
      then show ?thesis using Ok by (cases "mapM_res g xs") auto
    qed (use Cons.prems(3) [of y] in auto)
  qed simp
  ultimately have "panics (mapM_res (\<lambda>txo. find_spending_input D (db_read_store R) (q_store q) (q_index q) txo cur) f)"
    using txo f(2) by (metis (no_types, lifting) panics.simps(1))
  then obtain msg where "mapM_res (\<lambda>txo. find_spending_input D (db_read_store R) (q_store q) (q_index q) txo cur) f = Panic msg"
    by (rule panics.elims(2))
  then show ?thesis
    using f(1) limit by (auto simp: query_status_def confirmed_status_def check_limit_def find_spendings_def)
qed

lemma ex_indexes_fork:
  "indexes ref_deps (mem_contents (db_handle (q_store (ex_query (ex_tx_blocks @ [ex_fork_block])))))
     (insert (ex_tx 9 [(7, 0)] [[83]], mk_hash [3]) ex_txs)"
proof -
  have "inj_on (tx_txid ref_deps) (fst ` {} \<union> (\<Union>b \<in> set (ex_tx_blocks @ [ex_fork_block]). set (txdata b)))"
    by (auto simp: inj_on_def ex_tx_blocks_def ex_fork_block_def)
  from indexes_index_blocks [OF indexes_empty _ this]
  have "indexes ref_deps (mem_contents (db_handle (q_store (ex_query (ex_tx_blocks @ [ex_fork_block])))))
      (foldl (index_block_txs ref_deps) {} (ex_tx_blocks @ [ex_fork_block]))"
    unfolding ex_query_contents by simp
  moreover have "foldl (index_block_txs ref_deps) {} (ex_tx_blocks @ [ex_fork_block]) =
      insert (ex_tx 9 [(7, 0)] [[83]], mk_hash [3]) ex_txs"
    by (auto simp: ex_tx_blocks_def ex_fork_block_def ex_txs_def index_block_txs_def)
  ultimately show ?thesis by simp
qed

theorem query_status_double_spend_witness:
  "panics (query_status ref_deps (db_read_store mem_rocksdb) (ex_query (ex_tx_blocks @ [ex_fork_block]))
     ex_script_hash 5 False)"
proof -
  let ?T = "insert (ex_tx 9 [(7, 0)] [[83]], mk_hash [3]) ex_txs"
  let ?txo = "\<lparr>txo_txid = mk_hash [7], txo_vout = 0, txo_blockindex = 0\<rparr>"
  have "collision_free ref_deps ex_script_hash (fst ` ?T)"
    by (simp add: collision_free_def ex_script_hash_def ex_txs_def)
  moreover have "?txo \<in> funding_of ref_deps (q_index (ex_query (ex_tx_blocks @ [ex_fork_block]))) ?T ex_script_hash 5"
    by (auto simp: funding_of_def ex_status_facts ex_txs_def ex_script_hash_def ex_heights
        intro!: exI [of _ "ex_tx 7 [] [[81]]"] exI [of _ "mk_hash [1]"])
  moreover have "ex_tx 8 [(7, 0)] [[82]] \<noteq> ex_tx 9 [(7, 0)] [[83]]" by (simp add: ex_tx_def)
  ultimately show ?thesis
    by (intro query_status_double_spend [OF codec_ok_ref_deps mem_rocksdb_ok ex_indexes_fork _, where txo = ?txo and
          t = "ex_tx 8 [(7, 0)] [[82]]" and b = "mk_hash [2]" and t' = "ex_tx 9 [(7, 0)] [[83]]" and b' = "mk_hash [3]"])
       (simp_all add: ex_status_facts ex_heights ex_txs_def spends_txo_def)
qed

text \<open>
  Exceeding the limit. With more funding outputs than \<open>txid_limit\<close> (and the limit in use) the
  status is an error, which \<open>oldest_tx\<close> turns into a panic.
\<close>

lemma query_limit:
  assumes "find_funding_outputs D RS (q_store q) (q_index q) sh cur = Ok txos"
    and "0 < q_txid_limit q" and "q_txid_limit q < length txos"
  shows "(\<exists>e. query_status D RS q sh cur True = Err e \<and> kind e = Msg ''failed to get confirmed status'') \<and>
         panics (oldest_tx D RS q sh cur)"
  using assms by (simp add: query_status_def confirmed_status_def check_limit_def bail_def oldest_tx_def)

definition ex_busy_query :: "memdb dbstore query" where
  "ex_busy_query = (ex_query [\<lparr>blk_header = ex_header 0 1, txdata = [ex_tx 7 [] [[81], [81]]]\<rparr>])\<lparr>q_txid_limit := 1\<rparr>"

lemma ex_busy_funding:
  "\<exists>txos. find_funding_outputs ref_deps (db_read_store mem_rocksdb) (q_store ex_busy_query) (q_index ex_busy_query)
     ex_script_hash 5 = Ok txos \<and> 1 < length txos"
proof -
  let ?b = "\<lparr>blk_header = ex_header 0 1, txdata = [ex_tx 7 [] [[81], [81]]]\<rparr>"
  let ?T = "{(ex_tx 7 [] [[81], [81]], mk_hash [1])}"
  have "indexes ref_deps (put_rows [] (concat (map (indexed_rows ref_deps) [?b]))) (foldl (index_block_txs ref_deps) {} [?b])"
    by (rule indexes_index_blocks [OF indexes_empty]) simp_all
  then have idx: "indexes ref_deps (mem_contents (db_handle (q_store ex_busy_query))) ?T"
    using ex_query_contents [of "[?b]"] by (simp add: ex_busy_query_def index_block_txs_def)
  have free: "collision_free ref_deps ex_script_hash (fst ` ?T)"
    by (simp add: collision_free_def ex_script_hash_def)
  obtain res where res: "find_funding_outputs ref_deps (db_read_store mem_rocksdb) (q_store ex_busy_query)
      (q_index ex_busy_query) ex_script_hash 5 = Ok res"
    "set res = funding_of ref_deps (q_index ex_busy_query) ?T ex_script_hash 5"
    using db.find_funding_outputs_exact [OF codec_ok_ref_deps mem_rocksdb_ok idx length_ex_script_hash free] by blast
  have "\<lparr>txo_txid = mk_hash [7], txo_vout = n, txo_blockindex = 0\<rparr> \<in> set res" if "n < 2" for n
    unfolding res(2) funding_of_def using that
    by (auto simp: ex_busy_query_def ex_status_facts ex_script_hash_def ex_heights less_2_cases_iff
        intro!: exI [of _ "ex_tx 7 [] [[81], [81]]"] exI [of _ "mk_hash [1]"])
  from this [of 0] this [of 1] have "1 < length res"
    by (cases res rule: remdups_adj.cases) auto
  with res(1) show ?thesis by blast
qed

section \<open>The oldest transaction\<close>

definition status_entries :: "status \<Rightarrow> (hash \<times> nat) list" where
  "status_entries s = map (\<lambda>f. (txo_txid f, txo_blockindex f)) (status_funding s) @
     map (\<lambda>f. (sp_txid f, sp_blockindex f)) (status_spending s)"

lemma oldest_foldl: "oldest s = snd (foldl oldest_step (0, None) (status_entries s))"
  by (simp add: oldest_def status_entries_def)

lemma oldest_positive:
  "xs \<noteq> [] \<Longrightarrow> \<forall>x \<in> set xs. 0 < snd x \<Longrightarrow>
     \<exists>i < length xs. foldl oldest_step (0, None) xs =
         (snd (xs ! i), Some \<lparr>tbi_txid = fst (xs ! i), tbi_blockindex = snd (xs ! i)\<rparr>) \<and>
       (\<forall>j < length xs. snd (xs ! i) \<le> snd (xs ! j)) \<and> (\<forall>j < i. snd (xs ! i) < snd (xs ! j))"
proof (induction xs rule: rev_induct)
  case (snoc x xs)
  show ?case
  proof (cases "xs = []")
    case True
    then show ?thesis by (cases x) (simp add: oldest_step_def)
  next
    case False
    then obtain i where i: "i < length xs" "foldl oldest_step (0, None) xs =
         (snd (xs ! i), Some \<lparr>tbi_txid = fst (xs ! i), tbi_blockindex = snd (xs ! i)\<rparr>)"
       "\<forall>j < length xs. snd (xs ! i) \<le> snd (xs ! j)" "\<forall>j < i. snd (xs ! i) < snd (xs ! j)"
      using snoc by auto
    have pos: "snd (xs ! i) \<noteq> 0" using snoc.prems(2) i(1) by (metis in_set_conv_decomp nat_neq_iff not_less0 nth_mem set_append UnI1)
    let ?e = "\<lambda>y. (snd y, Some \<lparr>tbi_txid = fst y, tbi_blockindex = snd y\<rparr>)"
    have step: "foldl oldest_step (0, None) (xs @ [x]) = (if snd x < snd (xs ! i) then ?e x else ?e (xs ! i))"
      using i(2) pos by (cases x) (simp add: oldest_step_def [of "(a, b)" for a b])
    show ?thesis
    proof (cases "snd x < snd (xs ! i)")
      case True
      then have "\<forall>j < length xs. snd x < snd (xs ! j)" using i(3) by (meson less_le_trans)
      then show ?thesis unfolding step using True
        by (intro exI [of _ "length xs"]) (auto simp: nth_append less_Suc_eq)
    next
      case False
      then show ?thesis unfolding step using i(1,3,4)
        by (intro exI [of _ i]) (auto simp: nth_append less_Suc_eq)
    qed
  qed
qed simp

text \<open>
  When every entry is confirmed above height 0, \<open>oldest\<close> returns the first entry of least height.
\<close>

lemma oldest_is_minimum:
  assumes "status_entries s \<noteq> []" and "\<forall>x \<in> set (status_entries s). 0 < snd x"
  shows "\<exists>i < length (status_entries s).
           oldest s = Some \<lparr>tbi_txid = fst (status_entries s ! i), tbi_blockindex = snd (status_entries s ! i)\<rparr> \<and>
           (\<forall>j < length (status_entries s). snd (status_entries s ! i) \<le> snd (status_entries s ! j)) \<and>
           (\<forall>j < i. snd (status_entries s ! i) < snd (status_entries s ! j))"
proof -
  let ?xs = "status_entries s"
  obtain i where i: "i < length ?xs" "foldl oldest_step (0, None) ?xs =
       (snd (?xs ! i), Some \<lparr>tbi_txid = fst (?xs ! i), tbi_blockindex = snd (?xs ! i)\<rparr>)"
     "\<forall>j < length ?xs. snd (?xs ! i) \<le> snd (?xs ! j)" "\<forall>j < i. snd (?xs ! i) < snd (?xs ! j)"
    using oldest_positive [OF assms] by blast
  have "oldest s = Some \<lparr>tbi_txid = fst (?xs ! i), tbi_blockindex = snd (?xs ! i)\<rparr>"
    unfolding oldest_foldl i(2) by simp
  with i show ?thesis by blast
qed

definition ex_status :: "nat list \<Rightarrow> status" where
  "ex_status hs = \<lparr>st_confirmed = (map (\<lambda>h. \<lparr>txo_txid = mk_hash [of_nat h], txo_vout = 0, txo_blockindex = h\<rparr>) hs, []),
     st_mempool = ([], [])\<rparr>"

lemma ex_status_entries [simp]: "status_entries (ex_status hs) = map (\<lambda>h. (mk_hash [of_nat h], h)) hs"
  by (simp add: status_entries_def status_funding_def status_spending_def ex_status_def)

text \<open>
  An unconfirmed entry replaces an older confirmed one. If the last entry of a status is
  unconfirmed (height 0) and all entries before it are confirmed, \<open>oldest\<close> returns the unconfirmed
  one: the test \<open>blockindex < min_block_index\<close> takes height 0 for the least height.
\<close>

lemma oldest_prefers_unconfirmed:
  assumes "status_entries s = xs @ [(txid, 0)]" and "xs \<noteq> []" and "\<forall>x \<in> set xs. 0 < snd x"
  shows "oldest s = Some \<lparr>tbi_txid = txid, tbi_blockindex = 0\<rparr>"
proof -
  obtain i where i: "i < length xs" "foldl oldest_step (0, None) xs =
         (snd (xs ! i), Some \<lparr>tbi_txid = fst (xs ! i), tbi_blockindex = snd (xs ! i)\<rparr>)"
    using oldest_positive [OF assms(2,3)] by blast
  have "0 < snd (xs ! i)" using assms(3) i(1) by simp
  with i(2) show ?thesis unfolding oldest_foldl assms(1) by (simp add: oldest_step_def)
qed

section \<open>The transactions of indexed blocks\<close>

lemma indexed_transactions:
  assumes "inj_on (tx_txid D) (fst ` T \<union> (\<Union>b \<in> set bs. set (txdata b)))"
  shows "fst ` foldl (index_block_txs D) T bs = fst ` T \<union> (\<Union>b \<in> set bs. set (txdata b))"
  using assms
proof (induction bs arbitrary: T)
  case (Cons b bs)
  have fst_filter: "fst ` {(t, h) \<in> T. P t} = {t \<in> fst ` T. P t}" for P :: "transaction \<Rightarrow> bool" by force
  have "tx_txid D t \<in> tx_txid D ` set (txdata b) \<longleftrightarrow> t \<in> set (txdata b)" if "t \<in> fst ` T" for t
    using inj_on_image_mem_iff [OF Cons.prems, of t "set (txdata b)"] that by auto
  then have "{t \<in> fst ` T. tx_txid D t \<notin> tx_txid D ` set (txdata b)} = fst ` T - set (txdata b)" by blast
  then have one: "fst ` index_block_txs D T b = fst ` T \<union> set (txdata b)"
    unfolding index_block_txs_def image_Un fst_filter by (simp add: image_image)
  have "fst ` index_block_txs D T b \<union> (\<Union>b \<in> set bs. set (txdata b)) = fst ` T \<union> (\<Union>b \<in> set (b # bs). set (txdata b))"
    unfolding one by simp blast
  with Cons.IH [of "index_block_txs D T b"] Cons.prems show ?case by simp
qed simp

lemma hl_rep_block_height:
  assumes "hl_rep D (ix_headers ix) hs"
  shows "block_height ix b \<le> length hs"
proof (cases "header_by_blockhash (ix_headers ix) b")
  case (Some e)
  with hl_rep_lookup [OF assms, of b e] obtain i where "i < length hs" "e = chain_entry D i (hs ! i)" by blast
  with Some show ?thesis by (simp add: block_height_def get_header_by_block_hash_def chain_entry_def)
qed (simp add: block_height_def get_header_by_block_hash_def)

end
