(* ===== verification/Bulk.thy ===== *)
theory Bulk
  imports Index
begin

text \<open>
  \<open>bulk.rs\<close>: parsing bitcoind's block files and the parallel bulk import. \<open>parse_blocks\<close> is the loop
  over a cursor, by recursion on its position. The import runs a reader, several indexers and a
  writer that communicate through rendezvous channels and share the set of indexed block hashes; it is
  the step relation \<open>bulk_step\<close>, one step per file handed to an indexer, per block indexed (the lock
  is taken once per block) and per list of rows written. Its invariant gives, for every interleaving,
  that the \<open>L\<close> row written at the end never names a block that is not completely indexed with all its
  ancestors. Reading a file is the argument \<open>read_file\<close>; the errors of the decoder are opaque.
\<close>

section \<open>Parsing block files\<close>

definition decode_error :: error where
  "decode_error = Error (Msg ''decoding error'') None"

text \<open>\<open>u32::consensus_decode\<close> at a position of the cursor; \<open>None\<close> at the end of the data.\<close>

definition read_u32 :: "deps \<Rightarrow> bytes \<Rightarrow> nat \<Rightarrow> u32 option" where
  "read_u32 D blob pos =
     (if pos + 4 \<le> length blob then Some (de_u32 D (take 4 (drop pos blob))) else None)"

function parse_from :: "deps \<Rightarrow> bytes \<Rightarrow> u32 \<Rightarrow> nat \<Rightarrow> block list res" where
  "parse_from D blob magic offset =
     (if offset < length blob then
        (case read_u32 D blob offset of
           None \<Rightarrow> Ok []
         | Some value \<Rightarrow>
             if magic \<noteq> value then parse_from D blob magic (offset + 1)
             else case read_u32 D blob (offset + 4) of
                 None \<Rightarrow> Err (Error (Msg ''no block size'') (Some decode_error))
               | Some block_size \<Rightarrow>
                   (let start = offset + 8; end' = start + unat block_size
                    in case read_u32 D blob start of
                         None \<Rightarrow> Ok []
                       | Some value \<Rightarrow>
                           if magic = value then parse_from D blob magic start
                           else if length blob < end' then Panic ''range end index out of range for slice''
                           else case de_block D (take (end' - start) (drop start blob)) of
                               None \<Rightarrow> Err (Error (Msg ''failed to parse block'') (Some decode_error))
                             | Some block \<Rightarrow>
                                 bind_res (parse_from D blob magic end') (\<lambda>blocks. Ok (block # blocks))))
      else Ok [])"
  by pat_completeness auto
termination by (relation "measure (\<lambda>(D, blob, magic, offset). length blob - offset)") auto

declare parse_from.simps [simp del]

definition parse_blocks :: "deps \<Rightarrow> bytes \<Rightarrow> u32 \<Rightarrow> block list res" where
  "parse_blocks D blob magic = parse_from D blob magic 0"

section \<open>The parser\<close>

record parser =
  p_magic :: u32
  p_headers :: header_list
  p_indexed :: "hash set"

definition load_headers :: "deps \<Rightarrow> 'd daemon_api \<Rightarrow> ('d, header_list) prog" where
  "load_headers D api =
     pbind (da_getbestblockhash api) (\<lambda>tip.
     pbind (da_get_new_headers api hl_empty tip) (\<lambda>hs.
     pret (bind_res (order D hl_empty hs) (\<lambda>new_headers. apply_headers hl_empty new_headers tip))))"

definition Parser_new :: "deps \<Rightarrow> 'd daemon_api \<Rightarrow> u32 \<Rightarrow> hash set \<Rightarrow> ('d, parser) prog" where
  "Parser_new D api magic indexed =
     pbind (load_headers D api) (\<lambda>headers.
     pret (Ok \<lparr>p_magic = magic, p_headers = headers, p_indexed = indexed\<rparr>))"

definition last_indexed_row :: "deps \<Rightarrow> header_list \<Rightarrow> hash set \<Rightarrow> row res" where
  "last_indexed_row D headers indexed =
     (let run = takeWhile (\<lambda>h. he_hash h \<in> indexed) (hl_headers headers)
      in if run = [] then Panic ''no indexed header found''
         else Ok (last_indexed_block D (he_hash (last run))))"

definition read_blkfile :: "(string \<Rightarrow> bytes option) \<Rightarrow> string \<Rightarrow> bytes res" where
  "read_blkfile read_file path = ok_or (Msg ''failed to read'') (read_file path)"

text \<open>
  The body of the loop over the blocks of a file. The hash is entered before \<open>index_block\<close> runs; the set after a
  panic of \<open>index_block\<close> is that of \<open>indexer_block\<close> in \<open>Bulk_Threads\<close>.
\<close>

definition index_file_block :: "deps \<Rightarrow> header_list \<Rightarrow> (hash set \<times> row list) \<Rightarrow> block \<Rightarrow> (hash set \<times> row list) res" where
  "index_file_block D headers acc block =
     (let (indexed, rows) = acc;
          blockhash = bitcoin_hash D (blk_header block)
      in case header_by_blockhash headers blockhash of
           None \<Rightarrow> Ok (indexed, rows)
         | Some _ \<Rightarrow>
             if blockhash \<notin> indexed
             then bind_res (index_block D block) (\<lambda>new. Ok (insert blockhash indexed, rows @ new))
             else Ok (indexed, rows))"

text \<open>\<open>sort_unstable_by\<close> may order rows with equal keys in any way: the argument \<open>srt\<close>.\<close>

definition index_blkfile :: "deps \<Rightarrow> (row list \<Rightarrow> row list) \<Rightarrow> parser \<Rightarrow> bytes \<Rightarrow> (row list \<times> parser) res" where
  "index_blkfile D srt parser blob =
     bind_res (parse_blocks D blob (p_magic parser)) (\<lambda>blocks.
     bind_res (foldM_res (index_file_block D (p_headers parser)) (p_indexed parser, []) blocks) (\<lambda>(indexed, rows).
     Ok (srt rows, parser\<lparr>p_indexed := indexed\<rparr>)))"

section \<open>The parallel import\<close>

text \<open>An indexer is idle, or has blocks of its file left and the rows made so far.\<close>

record 's bulk_state =
  bs_files :: "string list"
  bs_indexed :: "hash set"
  bs_indexers :: "(block list \<times> row list) option list"
  bs_store :: 's

definition bulk_init :: "string list \<Rightarrow> hash set \<Rightarrow> nat \<Rightarrow> 's \<Rightarrow> 's bulk_state" where
  "bulk_init blk_files indexed index_threads store =
     \<lparr>bs_files = blk_files, bs_indexed = indexed,
      bs_indexers = replicate index_threads None, bs_store = store\<rparr>"

text \<open>
  The successful steps, without the channels: a free indexer takes the next file, indexes a block, has its rows
  written. The threads of \<open>index_blk_files\<close> with their channels, failures and joins are the relation \<open>thread_step\<close> of
  \<open>Bulk_Threads\<close>, where the runs that succeed are shown to be the complete runs of these steps.
\<close>

inductive bulk_step :: "deps \<Rightarrow> (string \<Rightarrow> bytes option) \<Rightarrow> u32 \<Rightarrow> header_list \<Rightarrow> 's write_store \<Rightarrow>
    's bulk_state \<Rightarrow> 's bulk_state \<Rightarrow> bool"
  for D read_file magic headers WS where
  bulk_read:
    "bulk_step D read_file magic headers WS st
       (st\<lparr>bs_files := rest, bs_indexers := (bs_indexers st)[i := Some (blocks, [])]\<rparr>)"
    if "bs_files st = path # rest" and "i < length (bs_indexers st)" and "bs_indexers st ! i = None"
      and "read_blkfile read_file path = Ok blob" and "parse_blocks D blob magic = Ok blocks"
| bulk_index:
    "bulk_step D read_file magic headers WS st
       (st\<lparr>bs_indexed := indexed, bs_indexers := (bs_indexers st)[i := Some (blocks, rows')]\<rparr>)"
    if "i < length (bs_indexers st)" and "bs_indexers st ! i = Some (block # blocks, rows)"
      and "index_file_block D headers (bs_indexed st, rows) block = Ok (indexed, rows')"
| bulk_write:
    "bulk_step D read_file magic headers WS st
       (st\<lparr>bs_indexers := (bs_indexers st)[i := None], bs_store := store\<rparr>)"
    if "i < length (bs_indexers st)" and "bs_indexers st ! i = Some ([], rows)"
      and "mset rows' = mset rows" and "sorted (map row_key rows')"
      and "ws_write WS (bs_store st) rows' = Ok store"

definition bulk_done :: "'s bulk_state \<Rightarrow> bool" where
  "bulk_done st \<longleftrightarrow> bs_files st = [] \<and> (\<forall>w \<in> set (bs_indexers st). w = None)"

text \<open>What the writer does when both channels are closed: the \<open>L\<close> row.\<close>

definition bulk_finish :: "deps \<Rightarrow> header_list \<Rightarrow> 's write_store \<Rightarrow> 's bulk_state \<Rightarrow> 's res" where
  "bulk_finish D headers WS st =
     bind_res (last_indexed_row D headers (bs_indexed st)) (\<lambda>row. ws_write WS (bs_store st) [row])"

inductive_cases bulk_stepE: "bulk_step D read_file magic headers WS st st'"

lemmas bulk_step_elim = bulk_stepE [consumes 1, case_names bulk_read bulk_index bulk_write]

section \<open>Parsing by suffixes\<close>

lemma read_u32_append: "read_u32 D (pre @ blob) (length pre + k) = read_u32 D blob k"
  by (simp add: read_u32_def)

lemma parse_from_append: "parse_from D (pre @ blob) magic (length pre + k) = parse_from D blob magic k"
proof (induction D blob magic k rule: parse_from.induct)
  case (1 D blob magic k)
  note r = read_u32_append [of D pre blob] and IH = 1
  have r4: "read_u32 D (pre @ blob) (length pre + k + n) = read_u32 D blob (k + n)" for n
    using r [of "k + n"] by (simp add: add.assoc)
  show ?case
  proof (cases "k < length blob")
    case lt: True
    show ?thesis
    proof (cases "read_u32 D blob k")
      case (Some v)
      show ?thesis
      proof (cases "magic = v")
        case False
        then have "parse_from D (pre @ blob) magic (length pre + k + 1) = parse_from D blob magic (k + 1)"
          using IH(1) [OF lt Some] by (simp add: add.assoc)
        with lt Some False r show ?thesis by (subst (1 2) parse_from.simps) simp
      next
        case magic: True
        show ?thesis
        proof (cases "read_u32 D blob (k + 4)")
          case size: (Some sz)
          show ?thesis
          proof (cases "read_u32 D blob (k + 8)")
            case None
            with lt Some magic size r r4 show ?thesis by (subst (1 2) parse_from.simps) simp
          next
            case peek: (Some w)
            show ?thesis
            proof (cases "magic = w")
              case True
              then have "parse_from D (pre @ blob) magic (length pre + k + 8) = parse_from D blob magic (k + 8)"
                using IH(2) [OF lt Some _ size refl refl peek] magic by (simp add: add.assoc)
              with lt Some magic size peek True r r4 show ?thesis
                by (subst (1 2) parse_from.simps) (simp add: Let_def)
            next
              case False
              let ?body = "take (unat sz) (drop (k + 8) blob)"
              show ?thesis
              proof (cases "length blob < k + 8 + unat sz \<or> de_block D ?body = None")
                case True
                with lt Some magic size peek False r r4 show ?thesis
                  by (subst (1 2) parse_from.simps) (auto simp: Let_def add.assoc)
              next
                case good: False
                then obtain b where b: "de_block D ?body = Some b" by auto
                have "parse_from D (pre @ blob) magic (length pre + k + (8 + unat sz)) =
                    parse_from D blob magic (k + (8 + unat sz))"
                  using IH(3) [OF lt Some _ size refl refl peek] magic False good b by (simp add: add.assoc)
                with lt Some magic size peek False good b r r4 show ?thesis
                  by (subst (1 2) parse_from.simps) (simp add: Let_def add.assoc)
              qed
            qed
          qed
        qed (use lt Some magic r r4 in \<open>subst (1 2) parse_from.simps, simp\<close>)
      qed
    qed (use lt r in \<open>subst (1 2) parse_from.simps, simp\<close>)
  qed (subst (1 2) parse_from.simps, simp)
qed

lemma parse_from_drop:
  assumes "n \<le> length blob"
  shows "parse_from D blob magic n = parse_blocks D (drop n blob) magic"
  using parse_from_append [of D "take n blob" "drop n blob" magic 0] assms
  by (simp add: parse_blocks_def)

text \<open>\<open>parse_blocks\<close> read as a recursion on what is left of the file.\<close>

lemma parse_blocks_skip:
  assumes "read_u32 D (x # blob) 0 = Some v" and "magic \<noteq> v"
  shows "parse_blocks D (x # blob) magic = parse_blocks D blob magic"
  using assms parse_from_drop [of 1 "x # blob" D magic]
  by (subst parse_blocks_def, subst parse_from.simps) simp

lemma parse_blocks_short: "read_u32 D blob 0 = None \<Longrightarrow> parse_blocks D blob magic = Ok []"
  by (subst parse_blocks_def, subst parse_from.simps) simp

lemma parse_blocks_frame:
  assumes "length m = 4" "length s = 4" "de_u32 D m = magic" "4 \<le> length rest"
  shows "parse_blocks D (m @ s @ rest) magic =
     (if de_u32 D (take 4 rest) = magic then parse_blocks D rest magic
      else if length rest < unat (de_u32 D s) then Panic ''range end index out of range for slice''
      else case de_block D (take (unat (de_u32 D s)) rest) of
          None \<Rightarrow> Err (Error (Msg ''failed to parse block'') (Some decode_error))
        | Some b \<Rightarrow> bind_res (parse_blocks D (drop (unat (de_u32 D s)) rest) magic) (\<lambda>bs. Ok (b # bs)))"
proof -
  let ?blob = "m @ s @ rest" and ?n = "unat (de_u32 D s)"
  have r: "read_u32 D ?blob 0 = Some magic" "read_u32 D ?blob 4 = Some (de_u32 D s)"
    "read_u32 D ?blob 8 = Some (de_u32 D (take 4 rest))"
    using assms by (simp_all add: read_u32_def)
  have "parse_from D ?blob magic 8 = parse_blocks D rest magic"
    using parse_from_drop [of 8 ?blob D magic] assms(1,2) by simp
  moreover have "parse_from D ?blob magic (8 + ?n) = parse_blocks D (drop ?n rest) magic" if "?n \<le> length rest"
    using parse_from_drop [of "8 + ?n" ?blob D magic] assms(1,2) that by simp
  moreover have "drop 8 ?blob = rest" using assms(1,2) by simp
  moreover have "length ?blob = 8 + length rest" using assms(1,2) by simp
  ultimately show ?thesis using r assms(4)
    by (subst parse_blocks_def, subst parse_from.simps) (auto simp: Let_def not_less split: option.splits)
qed

section \<open>What a block file holds\<close>

text \<open>
  The layout of a \<open>blk*.dat\<close> file: frames of magic, size and body; frames whose body was not written,
  which bitcoind continues with the next frame; and zero padding (the files are preallocated).
\<close>

datatype blk_item = Frame bytes | Bodyless u32 | Pad nat

fun enc_item :: "u32 \<Rightarrow> blk_item \<Rightarrow> bytes" where
  "enc_item magic (Frame body) = le_bytes 4 (unat magic) @ le_bytes 4 (length body) @ body"
| "enc_item magic (Bodyless sz) = le_bytes 4 (unat magic) @ le_bytes 4 (unat sz)"
| "enc_item magic (Pad n) = replicate n 0"

definition blk_file :: "u32 \<Rightarrow> blk_item list \<Rightarrow> bytes" where
  "blk_file magic items = concat (map (enc_item magic) items)"

fun items_ok :: "deps \<Rightarrow> u32 \<Rightarrow> blk_item list \<Rightarrow> bool" where
  "items_ok D magic [] = True"
| "items_ok D magic (Frame body # items) \<longleftrightarrow>
     4 \<le> length body \<and> length body < 2 ^ 32 \<and> de_u32 D (take 4 body) \<noteq> magic \<and>
     de_block D body \<noteq> None \<and> items_ok D magic items"
| "items_ok D magic (Bodyless sz # items) \<longleftrightarrow>
     (case items of Pad n # _ \<Rightarrow> False | _ \<Rightarrow> True) \<and> items_ok D magic items"
| "items_ok D magic (Pad n # items) \<longleftrightarrow> items_ok D magic items"

fun items_blocks :: "deps \<Rightarrow> blk_item list \<Rightarrow> block list" where
  "items_blocks D [] = []"
| "items_blocks D (Frame body # items) = the (de_block D body) # items_blocks D items"
| "items_blocks D (Bodyless sz # items) = items_blocks D items"
| "items_blocks D (Pad n # items) = items_blocks D items"

text \<open>Consensus encoding of integers is little-endian.\<close>

definition u32_le :: "deps \<Rightarrow> bool" where
  "u32_le D \<longleftrightarrow> (\<forall>bs. length bs = 4 \<longrightarrow> de_u32 D bs = of_nat (le_nat bs))"

lemma le_nat_bound: "le_nat bs < 256 ^ length bs"
proof (induction bs)
  case (Cons b bs)
  have "unat b < 256" using unsigned_less [of b, where ?'a = nat] by simp
  with Cons show ?case by simp
qed simp

lemma le_bytes_le_nat: "le_bytes (length bs) (le_nat bs) = bs"
proof (induction bs)
  case (Cons b bs)
  have "unat b < 256" using unsigned_less [of b, where ?'a = nat] by simp
  then have "(unat b + 256 * le_nat bs) mod 256 = unat b" "(unat b + 256 * le_nat bs) div 256 = le_nat bs"
    by simp_all
  with Cons show ?case by simp
qed simp

lemma u32_le_encode:
  assumes "u32_le D" and "n < 2 ^ 32"
  shows "de_u32 D (le_bytes 4 n) = of_nat n" and "unat (de_u32 D (le_bytes 4 n)) = n"
proof -
  show "de_u32 D (le_bytes 4 n) = of_nat n" using assms by (simp add: u32_le_def le_nat_le_bytes)
  then show "unat (de_u32 D (le_bytes 4 n)) = n" using assms(2) by (simp add: unat_of_nat)
qed

lemma u32_le_magic:
  assumes "u32_le D"
  shows "de_u32 D (le_bytes 4 (unat magic)) = magic"
  using u32_le_encode(1) [OF assms, of "unat magic"] unsigned_less [of magic, where ?'a = nat] by simp

lemma u32_le_inject:
  assumes "u32_le D" and "length bs = 4" and "de_u32 D bs = magic"
  shows "bs = le_bytes 4 (unat magic)"
proof -
  have "magic = of_nat (le_nat bs)" using assms by (simp add: u32_le_def)
  moreover have "le_nat bs < 2 ^ 32" using le_nat_bound [of bs] assms(2) by simp
  ultimately have "unat magic = le_nat bs" by (simp add: unat_of_nat)
  then show ?thesis using le_bytes_le_nat [of bs] assms(2) by simp
qed

text \<open>Zero bytes before a frame are skipped one by one.\<close>

lemma parse_blocks_pad:
  assumes "u32_le D" and "hd (le_bytes 4 (unat magic)) \<noteq> 0"
  shows "parse_blocks D (replicate n 0 @ blob) magic = parse_blocks D blob magic"
proof (induction n)
  case (Suc n)
  let ?blob = "0 # replicate n 0 @ blob"
  have "parse_blocks D ?blob magic = parse_blocks D (replicate n 0 @ blob) magic"
  proof (cases "read_u32 D ?blob 0")
    case None
    then have "read_u32 D (replicate n 0 @ blob) 0 = None" by (auto simp: read_u32_def split: if_splits)
    with None show ?thesis by (simp add: parse_blocks_short)
  next
    case (Some v)
    have "magic \<noteq> v"
    proof
      assume "magic = v"
      with Some have "take 4 ?blob = le_bytes 4 (unat magic)" and "4 \<le> length ?blob"
        using u32_le_inject [OF assms(1), of "take 4 ?blob"] by (auto simp: read_u32_def split: if_splits)
      with assms(2) show False by (metis hd_take list.sel(1) zero_less_numeral)
    qed
    with parse_blocks_skip [OF Some] show ?thesis by simp
  qed
  with Suc show ?case by simp
qed simp

text \<open>A frame of which at most three bytes of the body are left ends the parsing without an error.\<close>

lemma parse_blocks_headless:
  assumes "length m = 4" "length s = 4" "de_u32 D m = magic" "length rest < 4"
  shows "parse_blocks D (m @ s @ rest) magic = Ok []"
proof -
  have "read_u32 D (m @ s @ rest) 0 = Some magic" "read_u32 D (m @ s @ rest) 4 = Some (de_u32 D s)"
    "read_u32 D (m @ s @ rest) 8 = None"
    using assms by (simp_all add: read_u32_def)
  then show ?thesis by (subst parse_blocks_def, subst parse_from.simps) simp
qed

lemma parse_blocks_no_size:
  assumes "length m = 4" "de_u32 D m = magic" "length rest < 4"
  shows "parse_blocks D (m @ rest) magic = Err (Error (Msg ''no block size'') (Some decode_error))"
proof -
  have "read_u32 D (m @ rest) 0 = Some magic" "read_u32 D (m @ rest) 4 = None"
    using assms by (simp_all add: read_u32_def)
  then show ?thesis using assms(1) by (subst parse_blocks_def, subst parse_from.simps) simp
qed

text \<open>What follows the items: after a frame without a body another frame, or the end of the file.\<close>

definition follows_items :: "u32 \<Rightarrow> blk_item list \<Rightarrow> bytes \<Rightarrow> bool" where
  "follows_items magic items rest \<longleftrightarrow>
     (items \<noteq> [] \<longrightarrow> (\<exists>sz. last items = Bodyless sz) \<longrightarrow> length rest < 4 \<or> prefix (le_bytes 4 (unat magic)) rest)"

lemma parse_blocks_prefix:
  assumes le: "u32_le D" and magic: "hd (le_bytes 4 (unat magic)) \<noteq> 0"
  shows "items_ok D magic items \<Longrightarrow> follows_items magic items rest \<Longrightarrow>
     parse_blocks D (blk_file magic items @ rest) magic =
       bind_res (parse_blocks D rest magic) (\<lambda>bs. Ok (items_blocks D items @ bs))"
proof (induction items)
  case Nil
  show ?case by (cases "parse_blocks D rest magic") (simp_all add: blk_file_def)
next
  case (Cons item items)
  let ?tl = "blk_file magic items @ rest"
  have m: "de_u32 D (le_bytes 4 (unat magic)) = magic" by (rule u32_le_magic [OF le])
  have IH: "parse_blocks D ?tl magic = bind_res (parse_blocks D rest magic) (\<lambda>bs. Ok (items_blocks D items @ bs))"
    using Cons by (cases item; auto simp: follows_items_def split: if_splits)
  show ?case
  proof (cases item)
    case (Frame body)
    have ok: "4 \<le> length body" "length body < 2 ^ 32" "de_u32 D (take 4 body) \<noteq> magic"
      using Cons.prems Frame by simp_all
    obtain b where b: "de_block D body = Some b" using Cons.prems Frame by auto
    have "parse_blocks D (le_bytes 4 (unat magic) @ le_bytes 4 (length body) @ (body @ ?tl)) magic =
        bind_res (parse_blocks D ?tl magic) (\<lambda>bs. Ok (b # bs))"
      using parse_blocks_frame [of "le_bytes 4 (unat magic)" "le_bytes 4 (length body)" D magic "body @ ?tl"]
        m ok b u32_le_encode(2) [OF le ok(2)] by simp
    then show ?thesis using Frame b IH by (cases "parse_blocks D rest magic") (simp_all add: blk_file_def)
  next
    case (Bodyless sz)
    have "length ?tl < 4 \<or> prefix (le_bytes 4 (unat magic)) ?tl"
    proof (cases items)
      case Nil
      then show ?thesis using Cons.prems(2) Bodyless by (simp add: follows_items_def blk_file_def)
    next
      case (Cons item' items')
      then show ?thesis using Cons.prems(1) Bodyless by (cases item') (auto simp: blk_file_def)
    qed
    then have "parse_blocks D (le_bytes 4 (unat magic) @ le_bytes 4 (unat sz) @ ?tl) magic = parse_blocks D ?tl magic"
    proof
      assume "length ?tl < 4"
      with parse_blocks_headless [of "le_bytes 4 (unat magic)" "le_bytes 4 (unat sz)" D magic ?tl] m
      show ?thesis by (simp add: parse_blocks_short read_u32_def)
    next
      assume "prefix (le_bytes 4 (unat magic)) ?tl"
      then obtain zs where "?tl = le_bytes 4 (unat magic) @ zs" by (elim prefixE)
      then have "4 \<le> length ?tl" "take 4 ?tl = le_bytes 4 (unat magic)"
        by (simp_all del: length_append take_append add: length_append [of "le_bytes 4 (unat magic)"] take_append [of 4 "le_bytes 4 (unat magic)"])
      with parse_blocks_frame [of "le_bytes 4 (unat magic)" "le_bytes 4 (unat sz)" D magic ?tl] m show ?thesis by simp
    qed
    with IH Bodyless show ?thesis by (simp add: blk_file_def)
  next
    case (Pad n)
    with IH parse_blocks_pad [OF le magic, of n ?tl] show ?thesis by (simp add: blk_file_def)
  qed
qed

lemma parse_blocks_items:
  assumes "u32_le D" and "hd (le_bytes 4 (unat magic)) \<noteq> 0" and "items_ok D magic items"
  shows "parse_blocks D (blk_file magic items) magic = Ok (items_blocks D items)"
  using parse_blocks_prefix [OF assms(1,2,3), of "[]"]
  by (simp add: follows_items_def parse_blocks_short read_u32_def)

section \<open>The invariant of the import\<close>

text \<open>\<open>U\<close> is a set of headers with distinct hashes that contains all headers the import meets.\<close>

definition header_rows_in :: "deps \<Rightarrow> block_header set \<Rightarrow> row list \<Rightarrow> bool" where
  "header_rows_in D U rows \<longleftrightarrow>
     (\<forall>r \<in> set rows. prefix [66] (row_key r) \<longrightarrow> r \<in> block_row D ` U) \<and> (\<forall>r \<in> set rows. row_key r \<noteq> [76])"

definition header_keys_in :: "deps \<Rightarrow> block_header set \<Rightarrow> (bytes, bytes) btree \<Rightarrow> bool" where
  "header_keys_in D U m \<longleftrightarrow>
     (\<forall>k v. bt_get m k = Some v \<longrightarrow> prefix [66] k \<longrightarrow> \<lparr>row_key = k, row_value = v\<rparr> \<in> block_row D ` U)"

definition has_header :: "deps \<Rightarrow> (bytes, bytes) btree \<Rightarrow> block_header \<Rightarrow> bool" where
  "has_header D m h \<longleftrightarrow> bt_get m (row_key (block_row D h)) = Some (row_value (block_row D h))"

definition pending :: "'s bulk_state \<Rightarrow> row \<Rightarrow> bool" where
  "pending st r \<longleftrightarrow> (\<exists>i < length (bs_indexers st). \<exists>bs rows. bs_indexers st ! i = Some (bs, rows) \<and> r \<in> set rows)"

definition files_in :: "deps \<Rightarrow> (string \<Rightarrow> bytes option) \<Rightarrow> u32 \<Rightarrow> block_header set \<Rightarrow> string list \<Rightarrow> bool" where
  "files_in D read_file magic U files \<longleftrightarrow>
     (\<forall>path \<in> set files. \<forall>blob bs. read_file path = Some blob \<longrightarrow> parse_blocks D blob magic = Ok bs \<longrightarrow>
        blk_header ` set bs \<subseteq> U)"

definition bulk_inv :: "deps \<Rightarrow> (string \<Rightarrow> bytes option) \<Rightarrow> u32 \<Rightarrow> block_header set \<Rightarrow> ('s \<Rightarrow> (bytes, bytes) btree) \<Rightarrow>
    's bulk_state \<Rightarrow> bool" where
  "bulk_inv D read_file magic U view st \<longleftrightarrow>
     files_in D read_file magic U (bs_files st) \<and> header_keys_in D U (view (bs_store st)) \<and>
     (\<forall>i < length (bs_indexers st). \<forall>bs rows. bs_indexers st ! i = Some (bs, rows) \<longrightarrow>
        blk_header ` set bs \<subseteq> U \<and> header_rows_in D U rows) \<and>
     (\<forall>x \<in> bs_indexed st. \<exists>h \<in> U. bitcoin_hash D h = x \<and>
        (has_header D (view (bs_store st)) h \<or> pending st (block_row D h)))"

lemma block_row_inj:
  assumes "inj_on (bitcoin_hash D) U" and "h \<in> U" and "h' \<in> U" and "row_key (block_row D h) = row_key (block_row D h')"
  shows "h = h'"
  using inj_onD [OF assms(1) _ assms(2,3)] assms(4) by simp

lemma has_header_put_rows:
  assumes "bt_sorted m" and "inj_on (bitcoin_hash D) U" and "header_rows_in D U rows" and "h \<in> U"
    and "has_header D m h \<or> block_row D h \<in> set rows"
  shows "has_header D (put_rows m rows) h"
proof (cases "row_key (block_row D h) \<in> row_key ` set rows")
  case True
  have "row_value r = row_value (block_row D h)" if r: "r \<in> set rows" "row_key r = row_key (block_row D h)" for r
  proof -
    have "prefix [66] (row_key r)" unfolding r(2) by simp
    then obtain h' where h': "h' \<in> U" "r = block_row D h'"
      using assms(3) r(1) by (auto simp: header_rows_in_def)
    from block_row_inj [OF assms(2) h'(1) assms(4)] h'(2) r(2) show ?thesis by blast
  qed
  with True show ?thesis unfolding has_header_def by (intro bt_get_put_rows_mem [OF assms(1)]) auto
next
  case False
  then have "block_row D h \<notin> set rows" by blast
  with assms(5) bt_get_put_rows_notin [OF assms(1) False] show ?thesis by (simp add: has_header_def)
qed

lemma header_keys_put_rows:
  assumes "bt_sorted m" and "header_keys_in D U m" and "header_rows_in D U rows"
  shows "header_keys_in D U (put_rows m rows)"
  unfolding header_keys_in_def
proof (intro allI impI)
  fix k v assume kv: "bt_get (put_rows m rows) k = Some v" and k: "prefix [66] k"
  show "\<lparr>row_key = k, row_value = v\<rparr> \<in> block_row D ` U"
  proof (cases "find (\<lambda>r. row_key r = k) (rev rows)")
    case None
    with kv have "bt_get m k = Some v" by (simp add: bt_get_put_rows [OF assms(1)])
    with assms(2) k show ?thesis by (simp add: header_keys_in_def)
  next
    case (Some r)
    with kv have r: "r \<in> set rows" "row_key r = k" "row_value r = v"
      using find_SomeD [OF Some] by (simp_all add: bt_get_put_rows [OF assms(1)])
    have "r \<in> block_row D ` U" using assms(3) k r by (auto simp: header_rows_in_def)
    moreover have "\<lparr>row_key = k, row_value = v\<rparr> = r"
      unfolding r(2,3) [symmetric] by (cases r) simp
    ultimately show ?thesis by (simp only:)
  qed
qed

lemma header_keys_rows_ok:
  assumes "header_keys_in D U m"
  shows "header_rows_ok D m"
  unfolding header_rows_ok_def
proof (intro allI impI)
  fix k v assume "bt_get m k = Some v" "prefix [66] k"
  then have "\<lparr>row_key = k, row_value = v\<rparr> \<in> block_row D ` U" using assms by (simp add: header_keys_in_def)
  then show "\<exists>h. k = row_key (block_row D h) \<and> v = row_value (block_row D h)" by (metis imageE row.select_convs)
qed

lemma header_rows_in_mset: "mset a = mset b \<Longrightarrow> header_rows_in D U a = header_rows_in D U b"
  using mset_eq_setD by (metis header_rows_in_def)

lemma header_rows_in_block:
  assumes "blk_header b \<in> U"
  shows "header_rows_in D U (block_rows D b)"
proof -
  have "\<not> prefix [66] (row_key r) \<and> row_key r \<noteq> [76]" if "r \<in> set (tx_rows D t h)" for r t h
    using tx_rows_code [OF that] by auto
  then show ?thesis using assms by (auto simp: header_rows_in_def block_rows_def)
qed

lemma index_file_block_cases:
  assumes "codec_ok D" and "index_file_block D headers (indexed, rows) b = Ok (indexed', rows')"
  shows "(indexed' = indexed \<and> rows' = rows) \<or>
         (indexed' = insert (bitcoin_hash D (blk_header b)) indexed \<and> rows' = rows @ block_rows D b)"
  using assms by (auto simp: index_file_block_def Let_def index_block_eq split: option.splits if_splits)

lemma pending_update:
  assumes "bs_indexers st' = (bs_indexers st)[i := w]" and "pending st r"
    and "\<And>bs rows. bs_indexers st ! i = Some (bs, rows) \<Longrightarrow> r \<in> set rows \<Longrightarrow>
      \<exists>bs' rows'. w = Some (bs', rows') \<and> r \<in> set rows'"
  shows "pending st' r"
proof -
  obtain j bs rs where j: "j < length (bs_indexers st)" "bs_indexers st ! j = Some (bs, rs)" "r \<in> set rs"
    using assms(2) by (auto simp: pending_def)
  show ?thesis
  proof (cases "j = i")
    case True
    with j assms(1,3) show ?thesis unfolding pending_def by (intro exI [of _ i]) auto
  next
    case False
    with j assms(1) show ?thesis unfolding pending_def by (intro exI [of _ j]) auto
  qed
qed

context writable
begin

lemma bulk_step_inv:
  assumes "codec_ok D" and inj: "inj_on (bitcoin_hash D) U" and "inv (bs_store st)"
    and I: "bulk_inv D read_file magic U view st" and step: "bulk_step D read_file magic headers WS st st'"
  shows "inv (bs_store st') \<and> bulk_inv D read_file magic U view st'"
  using step
proof (cases rule: bulk_step_elim)
  case (bulk_read path rest i blob blocks)
  have keep: "pending st' r" if "pending st r" for r
    by (rule pending_update [OF _ that]) (use bulk_read in auto)
  have eqs: "bs_indexed st' = bs_indexed st" "bs_store st' = bs_store st" "bs_files st' = rest"
    "bs_indexers st' = (bs_indexers st)[i := Some (blocks, [])]" using bulk_read(1) by simp_all
  have "\<forall>x \<in> bs_indexed st'. \<exists>h \<in> U. bitcoin_hash D h = x \<and>
        (has_header D (view (bs_store st')) h \<or> pending st' (block_row D h))"
    unfolding eqs using I keep unfolding bulk_inv_def by blast
  moreover have "blk_header ` set blocks \<subseteq> U"
    using I bulk_read(2,5,6) by (auto simp: bulk_inv_def files_in_def read_blkfile_def res_simps)
  ultimately show ?thesis
    using I assms(3) bulk_read(2,3) eqs
    by (auto simp: bulk_inv_def files_in_def header_rows_in_def nth_list_update split: if_splits)
next
  case (bulk_index i block blocks rows indexed rows')
  have "blk_header ` set (block # blocks) \<subseteq> U \<and> header_rows_in D U rows"
    using I bulk_index(2,3) unfolding bulk_inv_def by blast
  then have blk: "blk_header block \<in> U" "blk_header ` set blocks \<subseteq> U" "header_rows_in D U rows"
    by auto
  have grow: "set rows \<subseteq> set rows'" "header_rows_in D U rows'"
    using index_file_block_cases [OF assms(1) bulk_index(4)] blk header_rows_in_block [OF blk(1), of D]
    by (auto simp: header_rows_in_def)
  have keep: "pending st' r" if "pending st r" for r
    by (rule pending_update [OF _ that]) (use bulk_index grow(1) in auto)
  have new: "pending st' (block_row D (blk_header block))" if "bs_indexed st' \<noteq> bs_indexed st"
  proof -
    have "block_row D (blk_header block) \<in> set rows'"
      using index_file_block_cases [OF assms(1) bulk_index(4)] that bulk_index(1) by (auto simp: block_rows_def)
    then show ?thesis using bulk_index by (auto simp: pending_def)
  qed
  have idx: "\<forall>x \<in> bs_indexed st'. x \<in> bs_indexed st \<or> (bs_indexed st' \<noteq> bs_indexed st \<and> x = bitcoin_hash D (blk_header block))"
    using index_file_block_cases [OF assms(1) bulk_index(4)] bulk_index(1) by auto
  have "\<forall>x \<in> bs_indexed st'. \<exists>h \<in> U. bitcoin_hash D h = x \<and>
        (has_header D (view (bs_store st')) h \<or> pending st' (block_row D h))"
  proof
    fix x assume "x \<in> bs_indexed st'"
    with idx consider "x \<in> bs_indexed st" | "bs_indexed st' \<noteq> bs_indexed st" "x = bitcoin_hash D (blk_header block)" by blast
    then show "\<exists>h \<in> U. bitcoin_hash D h = x \<and> (has_header D (view (bs_store st')) h \<or> pending st' (block_row D h))"
    proof cases
      case 1
      then obtain h where "h \<in> U" "bitcoin_hash D h = x" "has_header D (view (bs_store st)) h \<or> pending st (block_row D h)"
        using I by (auto simp: bulk_inv_def)
      with keep bulk_index(1) show ?thesis by auto
    next
      case 2
      with new blk(1) show ?thesis by blast
    qed
  qed
  then show ?thesis
    using I assms(3) bulk_index(1,2) grow(2) blk(2)
    by (auto simp: bulk_inv_def nth_list_update split: if_splits)
next
  case (bulk_write i rows rows' store)
  have sorted: "bt_sorted (view (bs_store st))" by (rule view_sorted [OF assms(3)])
  obtain s' where s': "ws_write WS (bs_store st) rows' = Ok s'" "inv s'" "view s' = put_rows (view (bs_store st)) rows'"
    using write_view [OF assms(3)] by blast
  then have store: "bs_store st' = s'" using bulk_write by simp
  have rows: "header_rows_in D U rows'"
    using I bulk_write header_rows_in_mset [OF bulk_write(4), of D U] by (auto simp: bulk_inv_def)
  have set_rows: "set rows' = set rows" using bulk_write(4) by (rule mset_eq_setD)
  have pend: "pending st' r \<or> r \<in> set rows'" if "pending st r" for r
    using pending_update [of st' st i None r] that bulk_write(1,3) set_rows by auto
  have "\<forall>x \<in> bs_indexed st'. \<exists>h \<in> U. bitcoin_hash D h = x \<and>
        (has_header D (view (bs_store st')) h \<or> pending st' (block_row D h))"
  proof
    fix x assume "x \<in> bs_indexed st'"
    then obtain h where h: "h \<in> U" "bitcoin_hash D h = x"
      "has_header D (view (bs_store st)) h \<or> pending st (block_row D h)"
      using I bulk_write(1) by (auto simp: bulk_inv_def)
    with pend has_header_put_rows [OF sorted inj rows h(1)] show "\<exists>h \<in> U. bitcoin_hash D h = x \<and>
        (has_header D (view (bs_store st')) h \<or> pending st' (block_row D h))"
      unfolding store s'(3) by blast
  qed
  moreover have "header_keys_in D U (view (bs_store st'))"
    unfolding store s'(3) using I by (intro header_keys_put_rows [OF sorted _ rows]) (simp add: bulk_inv_def)
  moreover have "bs_files st' = bs_files st" "bs_indexers st' = (bs_indexers st)[i := None]"
    using bulk_write(1) by simp_all
  ultimately show ?thesis
    using I s'(2) store bulk_write(2) by (auto simp: bulk_inv_def nth_list_update split: if_splits)
qed

text \<open>No step touches the \<open>L\<close> row or a header row: what the database recorded, it still records.\<close>

lemma bulk_step_keeps_chain:
  assumes inj: "inj_on (bitcoin_hash D) U" and "inv (bs_store st)" and I: "bulk_inv D read_file magic U view st"
    and step: "bulk_step D read_file magic headers WS st st'" and I': "bulk_inv D read_file magic U view st'"
    and chain: "store_chain D (view (bs_store st)) hs" and "set hs \<subseteq> U"
  shows "store_chain D (view (bs_store st')) hs"
  using step
proof (cases rule: bulk_step_elim)
  case (bulk_write i rows rows' store)
  have sorted: "bt_sorted (view (bs_store st))" by (rule view_sorted [OF assms(2)])
  obtain s' where s': "ws_write WS (bs_store st) rows' = Ok s'" "view s' = put_rows (view (bs_store st)) rows'"
    using write_view [OF assms(2)] by blast
  then have store: "bs_store st' = s'" using bulk_write by simp
  have rows: "header_rows_in D U rows'"
    using I bulk_write header_rows_in_mset [OF bulk_write(4), of D U] by (auto simp: bulk_inv_def)
  have "has_header D (view s') h" if "h \<in> set hs" for h
    unfolding s'(2) using chain assms(7) that
    by (intro has_header_put_rows [OF sorted inj rows]) (auto simp: store_chain_def has_header_def)
  moreover have "[76] \<notin> row_key ` set rows'" using rows by (auto simp: header_rows_in_def)
  moreover have "header_rows_ok D (view s')"
    using I' store by (intro header_keys_rows_ok [of D U]) (simp add: bulk_inv_def)
  ultimately show ?thesis
    using chain sorted unfolding store
    by (simp add: store_chain_def has_header_def s'(2) bt_get_put_rows_notin)
qed (use chain in simp_all)

lemma bulk_steps_inv:
  assumes "codec_ok D" and "inj_on (bitcoin_hash D) U"
    and "(bulk_step D read_file magic headers WS)\<^sup>*\<^sup>* st st'" and "inv (bs_store st)"
    and "bulk_inv D read_file magic U view st"
  shows "inv (bs_store st') \<and> bulk_inv D read_file magic U view st'"
  using assms(3-5) by (induction rule: rtranclp_induct) (use bulk_step_inv [OF assms(1,2)] in blast)+

lemma bulk_steps_keep_chain:
  assumes "codec_ok D" and "inj_on (bitcoin_hash D) U"
    and "(bulk_step D read_file magic headers WS)\<^sup>*\<^sup>* st st'" and "inv (bs_store st)"
    and "bulk_inv D read_file magic U view st" and "store_chain D (view (bs_store st)) hs" and "set hs \<subseteq> U"
  shows "store_chain D (view (bs_store st')) hs"
  using assms(3,6)
proof (induction rule: rtranclp_induct)
  case (step st1 st2)
  have "inv (bs_store st1) \<and> bulk_inv D read_file magic U view st1"
    by (rule bulk_steps_inv [OF assms(1,2) step.hyps(1) assms(4,5)])
  then show ?case
    using bulk_step_inv [OF assms(1,2) _ _ step.hyps(2)] bulk_step_keeps_chain [OF assms(2) _ _ step.hyps(2)]
      step.IH [OF step.prems] assms(7) by blast
qed simp

end

section \<open>The import ends\<close>

definition bulk_measure :: "'s bulk_state \<Rightarrow> nat \<times> nat" where
  "bulk_measure st = (length (bs_files st),
     sum_list (map (\<lambda>w. case w of None \<Rightarrow> 0 | Some (bs, _) \<Rightarrow> Suc (length bs)) (bs_indexers st)))"

lemma sum_list_update_less:
  "i < length xs \<Longrightarrow> (f y :: nat) < f (xs ! i) \<Longrightarrow> sum_list (map f (xs[i := y])) < sum_list (map f xs)"
proof (induction xs arbitrary: i)
  case (Cons x xs)
  then show ?case by (cases i) auto
qed simp

lemma bulk_step_measure:
  assumes "bulk_step D read_file magic headers WS st st'"
  shows "(bulk_measure st', bulk_measure st) \<in> less_than <*lex*> less_than"
  using assms
proof (cases rule: bulk_step_elim)
  case (bulk_index i block blocks rows indexed rows')
  then show ?thesis using sum_list_update_less [OF bulk_index(2)] by (simp add: bulk_measure_def)
next
  case (bulk_write i rows rows' store)
  then show ?thesis using sum_list_update_less [OF bulk_write(2)] by (simp add: bulk_measure_def)
qed (simp add: bulk_measure_def)

lemma bulk_step_wf: "wfP (\<lambda>st' st. bulk_step D read_file magic headers WS st st')"
proof -
  have "wf (inv_image (less_than <*lex*> less_than) bulk_measure)" by (intro wf_inv_image wf_lex_prod wf_less_than)
  then have "wf {(st', st). bulk_step D read_file magic headers WS st st'}"
    by (rule wf_subset) (auto dest: bulk_step_measure)
  then show ?thesis by (simp add: wfp_def)
qed

definition files_parse :: "deps \<Rightarrow> (string \<Rightarrow> bytes option) \<Rightarrow> u32 \<Rightarrow> string list \<Rightarrow> bool" where
  "files_parse D read_file magic files \<longleftrightarrow>
     (\<forall>path \<in> set files. \<exists>blob bs. read_file path = Some blob \<and> parse_blocks D blob magic = Ok bs)"

lemma bulk_step_files:
  assumes "bulk_step D read_file magic headers WS st st'"
  shows "set (bs_files st') \<subseteq> set (bs_files st) \<and> length (bs_indexers st') = length (bs_indexers st)"
  using assms by (cases rule: bulk_step_elim) auto

lemma index_file_block_total:
  assumes "codec_ok D"
  shows "\<exists>p. index_file_block D headers acc b = Ok p"
  using assms by (cases acc) (auto simp: index_file_block_def Let_def index_block_eq split: option.splits)

text \<open>A list of rows can be sorted by key.\<close>

lemma sorted_rows_exist: "\<exists>rows'. mset rows' = mset rows \<and> sorted (map row_key rows')"
  by (rule exI [of _ "sort_key row_key rows"]) simp

text \<open>The last row names the end of the run of indexed headers.\<close>

lemma last_indexed_row_run:
  assumes "hl_rep D headers hs" and run: "takeWhile (\<lambda>h. bitcoin_hash D h \<in> X) hs \<noteq> []"
  shows "last_indexed_row D headers X = Ok (last_indexed_block D (bitcoin_hash D (last (takeWhile (\<lambda>h. bitcoin_hash D h \<in> X) hs))))"
proof -
  let ?run = "takeWhile (\<lambda>h. bitcoin_hash D h \<in> X) hs" and ?entries = "takeWhile (\<lambda>h. he_hash h \<in> X) (hl_headers headers)"
  have hashes: "map he_hash (hl_headers headers) = map (bitcoin_hash D) hs"
    using assms(1) by (auto simp: hl_rep_def intro!: nth_equalityI)
  have "map he_hash ?entries = takeWhile (\<lambda>x. x \<in> X) (map he_hash (hl_headers headers))"
    by (simp add: takeWhile_map comp_def)
  also have "\<dots> = map (bitcoin_hash D) ?run" unfolding hashes by (simp add: takeWhile_map comp_def)
  finally have eq: "map he_hash ?entries = map (bitcoin_hash D) ?run" .
  then have "?entries \<noteq> []" and "he_hash (last ?entries) = bitcoin_hash D (last ?run)"
    using run by (metis map_is_Nil_conv, metis last_map map_is_Nil_conv)
  then show ?thesis by (simp add: last_indexed_row_def)
qed

lemma bulk_done_pending: "bulk_done st \<Longrightarrow> \<not> pending st r"
  unfolding bulk_done_def pending_def by (metis nth_mem option.distinct(1))

context writable
begin

lemma bulk_no_deadlock:
  assumes "codec_ok D" and "inv (bs_store st)" and "0 < length (bs_indexers st)"
    and "files_parse D read_file magic (bs_files st)" and "\<not> bulk_done st"
  shows "\<exists>st'. bulk_step D read_file magic headers WS st st'"
proof (cases "\<exists>i < length (bs_indexers st). bs_indexers st ! i \<noteq> None")
  case True
  then obtain i bs rows where i: "i < length (bs_indexers st)" "bs_indexers st ! i = Some (bs, rows)" by auto
  show ?thesis
  proof (cases bs)
    case Nil
    obtain rows' where rows': "mset rows' = mset rows" "sorted (map row_key rows')" using sorted_rows_exist by blast
    obtain s' where "ws_write WS (bs_store st) rows' = Ok s'" using write_view [OF assms(2)] by blast
    with i Nil rows' show ?thesis by (blast intro: bulk_write)
  next
    case (Cons b bs')
    obtain p where "index_file_block D headers (bs_indexed st, rows) b = Ok p"
      using index_file_block_total [OF assms(1)] by blast
    with i Cons show ?thesis by (cases p) (blast intro: bulk_index)
  qed
next
  case False
  then have "bs_files st \<noteq> []" using assms(5) by (auto simp: bulk_done_def in_set_conv_nth)
  then obtain path rest where files: "bs_files st = path # rest" by (cases "bs_files st") auto
  then obtain blob bs where "read_file path = Some blob" "parse_blocks D blob magic = Ok bs"
    using assms(4) by (auto simp: files_parse_def)
  moreover from this have "read_blkfile read_file path = Ok blob" by (simp add: read_blkfile_def)
  ultimately show ?thesis using files False assms(3) by (blast intro: bulk_read)
qed

lemma bulk_step_store:
  assumes "inv (bs_store st)" and "bulk_step D read_file magic headers WS st st'"
  shows "inv (bs_store st')"
  using assms(2)
proof (cases rule: bulk_step_elim)
  case (bulk_write i rows rows' store)
  with write_view [OF assms(1), of rows'] show ?thesis by auto
qed (use assms(1) in auto)

lemma bulk_steps_good:
  assumes "(bulk_step D read_file magic headers WS)\<^sup>*\<^sup>* st st'" and "inv (bs_store st)"
    and "0 < length (bs_indexers st)" and "files_parse D read_file magic (bs_files st)"
  shows "inv (bs_store st') \<and> 0 < length (bs_indexers st') \<and> files_parse D read_file magic (bs_files st')"
  using assms
proof (induction rule: rtranclp_induct)
  case (step st1 st2)
  then show ?case
    using bulk_step_files [OF step.hyps(2)] bulk_step_store [OF _ step.hyps(2)] by (auto simp: files_parse_def)
qed blast

lemma bulk_reaches_done:
  assumes "codec_ok D" and "inv (bs_store st)" and "0 < length (bs_indexers st)"
    and "files_parse D read_file magic (bs_files st)"
  shows "\<exists>st'. (bulk_step D read_file magic headers WS)\<^sup>*\<^sup>* st st' \<and> bulk_done st'"
  using assms(2-4)
proof (induction st rule: wfp_induct_rule [OF bulk_step_wf [of D read_file magic headers WS]])
  case (1 st)
  show ?case
  proof (cases "bulk_done st")
    case False
    then obtain st1 where st1: "bulk_step D read_file magic headers WS st st1"
      using bulk_no_deadlock [OF assms(1) 1(2-4)] by blast
    have "inv (bs_store st1) \<and> 0 < length (bs_indexers st1) \<and> files_parse D read_file magic (bs_files st1)"
      using bulk_steps_good [OF r_into_rtranclp [of "bulk_step D read_file magic headers WS", OF st1] 1(2-4)] .
    with 1(1) [OF st1] st1 show ?thesis by (meson converse_rtranclp_into_rtranclp)
  qed blast
qed

lemma bulk_finish_chain:
  assumes "codec_ok D" and inj: "inj_on (bitcoin_hash D) U" and "inv (bs_store st)"
    and I: "bulk_inv D read_file magic U view st" and fin: "bulk_done st" and rep: "hl_rep D headers hs" and "set hs \<subseteq> U"
    and ne: "hs \<noteq> []" "bitcoin_hash D (hd hs) \<in> bs_indexed st"
  shows "\<exists>s'. bulk_finish D headers WS st = Ok s' \<and> inv s' \<and>
     store_chain D (view s') (takeWhile (\<lambda>h. bitcoin_hash D h \<in> bs_indexed st) hs)"
proof -
  let ?run = "takeWhile (\<lambda>h. bitcoin_hash D h \<in> bs_indexed st) hs"
  have run: "?run \<noteq> []" using ne by (cases hs) auto
  note row = last_indexed_row_run [OF rep run]
  obtain s' where s': "ws_write WS (bs_store st) [last_indexed_block D (bitcoin_hash D (last ?run))] = Ok s'" "inv s'"
    "view s' = put_rows (view (bs_store st)) [last_indexed_block D (bitcoin_hash D (last ?run))]"
    using write_view [OF assms(3)] by blast
  have sorted: "bt_sorted (view (bs_store st))" by (rule view_sorted [OF assms(3)])
  have get: "bt_get (view s') k = (if k = [76] then Some (ser_hash D (bitcoin_hash D (last ?run))) else bt_get (view (bs_store st)) k)" for k
    unfolding s'(3) by (simp add: store_simps last_indexed_block_def bt_get_put [OF sorted])
  have keys: "header_keys_in D U (view (bs_store st))" using I by (simp add: bulk_inv_def)
  have "has_header D (view (bs_store st)) h" if h: "h \<in> set ?run" for h
  proof -
    have "bitcoin_hash D h \<in> bs_indexed st" "h \<in> U" using h assms(7) by (auto dest: set_takeWhileD)
    then obtain h' where "h' \<in> U" "bitcoin_hash D h' = bitcoin_hash D h"
      "has_header D (view (bs_store st)) h' \<or> pending st (block_row D h')"
      using I by (auto simp: bulk_inv_def)
    moreover have "\<not> pending st r" for r by (rule bulk_done_pending [OF fin])
    ultimately show ?thesis using inj_onD [OF inj _ _ \<open>h \<in> U\<close>] by metis
  qed
  then have "\<forall>h \<in> set ?run. bt_get (view s') (row_key (block_row D h)) = Some (row_value (block_row D h))"
    using get by (simp add: has_header_def)
  moreover have "header_keys_in D U (view s')" using keys get by (auto simp: header_keys_in_def)
  then have "header_rows_ok D (view s')" by (rule header_keys_rows_ok)
  moreover have "valid_chain D ?run"
    using rep valid_chain_take [of D hs "length ?run"] takeWhile_eq_take [of "\<lambda>h. bitcoin_hash D h \<in> bs_indexed st" hs]
    by (simp add: hl_rep_def)
  ultimately have "store_chain D (view s') ?run"
    using run get view_sorted [OF s'(2)] by (simp add: store_chain_def)
  then show ?thesis using row s' by (auto simp: bulk_finish_def)
qed

end

section \<open>The import is complete\<close>

text \<open>A block hash is covered when it is indexed, or still in a file to be read or in the work of an indexer.\<close>

definition covered :: "deps \<Rightarrow> (string \<Rightarrow> bytes option) \<Rightarrow> u32 \<Rightarrow> 's bulk_state \<Rightarrow> hash \<Rightarrow> bool" where
  "covered D read_file magic st x \<longleftrightarrow> x \<in> bs_indexed st \<or>
     (\<exists>path \<in> set (bs_files st). \<exists>blob bs. read_file path = Some blob \<and> parse_blocks D blob magic = Ok bs \<and>
        x \<in> (\<lambda>b. bitcoin_hash D (blk_header b)) ` set bs) \<or>
     (\<exists>i < length (bs_indexers st). \<exists>bs rows. bs_indexers st ! i = Some (bs, rows) \<and>
        x \<in> (\<lambda>b. bitcoin_hash D (blk_header b)) ` set bs)"

lemma index_file_block_indexes:
  assumes "index_file_block D headers (indexed, rows) b = Ok (indexed', rows')"
  shows "indexed \<subseteq> indexed'"
    and "header_by_blockhash headers (bitcoin_hash D (blk_header b)) \<noteq> None \<Longrightarrow> bitcoin_hash D (blk_header b) \<in> indexed'"
  using assms by (auto simp: index_file_block_def Let_def res_simps split: option.splits if_splits)

lemma covered_step:
  assumes "bulk_step D read_file magic headers WS st st'" and "header_by_blockhash headers x \<noteq> None"
    and "covered D read_file magic st x"
  shows "covered D read_file magic st' x"
  using assms(1)
proof (cases rule: bulk_step_elim)
  case (bulk_read path rest i blob blocks)
  have read: "read_file path = Some blob" using bulk_read(5) by (simp add: read_blkfile_def res_simps)
  from assms(3) consider "x \<in> bs_indexed st"
    | p blob' bs where "p \<in> set (bs_files st)" "read_file p = Some blob'" "parse_blocks D blob' magic = Ok bs"
        "x \<in> (\<lambda>b. bitcoin_hash D (blk_header b)) ` set bs"
    | j bs rows where "j < length (bs_indexers st)" "bs_indexers st ! j = Some (bs, rows)"
        "x \<in> (\<lambda>b. bitcoin_hash D (blk_header b)) ` set bs"
    unfolding covered_def by blast
  then show ?thesis
  proof cases
    case (2 p blob' bs)
    show ?thesis
    proof (cases "p = path")
      case True
      with 2 read bulk_read(6) have "x \<in> (\<lambda>b. bitcoin_hash D (blk_header b)) ` set blocks" by simp
      with bulk_read(1,3) show ?thesis unfolding covered_def by (intro disjI2 exI [of _ i]) auto
    next
      case False
      with 2 bulk_read(1,2) show ?thesis unfolding covered_def by auto
    qed
  next
    case (3 j bs rows)
    then have "j \<noteq> i" using bulk_read(4) by auto
    with 3 bulk_read(1) show ?thesis unfolding covered_def by (intro disjI2 exI [of _ j]) auto
  qed (use bulk_read(1) in \<open>simp add: covered_def\<close>)
next
  case (bulk_index i block blocks rows indexed rows')
  note grow = index_file_block_indexes [OF bulk_index(4)]
  have eqs: "bs_indexed st' = indexed" "bs_files st' = bs_files st" "bs_indexers st' = (bs_indexers st)[i := Some (blocks, rows')]"
    using bulk_index(1) by simp_all
  from assms(3) consider "x \<in> indexed"
    | p blob' bs where "p \<in> set (bs_files st)" "read_file p = Some blob'" "parse_blocks D blob' magic = Ok bs"
        "x \<in> (\<lambda>b. bitcoin_hash D (blk_header b)) ` set bs"
    | j bs rs where "j < length (bs_indexers st)" "bs_indexers st ! j = Some (bs, rs)"
        "x \<in> (\<lambda>b. bitcoin_hash D (blk_header b)) ` set bs"
    unfolding covered_def using grow(1) by blast
  then show ?thesis
  proof cases
    case (3 j bs rs)
    show ?thesis
    proof (cases "j = i")
      case True
      with 3 bulk_index(3) have "x = bitcoin_hash D (blk_header block) \<or> x \<in> (\<lambda>b. bitcoin_hash D (blk_header b)) ` set blocks"
        by auto
      then show ?thesis
      proof
        assume "x = bitcoin_hash D (blk_header block)"
        with grow(2) assms(2) show ?thesis unfolding covered_def eqs by blast
      next
        assume "x \<in> (\<lambda>b. bitcoin_hash D (blk_header b)) ` set blocks"
        with bulk_index(2) show ?thesis unfolding covered_def eqs by (intro disjI2 exI [of _ i]) auto
      qed
    next
      case False
      with 3 show ?thesis unfolding covered_def eqs by (intro disjI2 exI [of _ j]) auto
    qed
  qed (unfold covered_def eqs, blast+)
next
  case (bulk_write i rows rows' store)
  have eqs: "bs_indexed st' = bs_indexed st" "bs_files st' = bs_files st" "bs_indexers st' = (bs_indexers st)[i := None]"
    using bulk_write(1) by simp_all
  have "bs_indexers st' ! j = Some (bs, rs)" if "j < length (bs_indexers st)" "bs_indexers st ! j = Some (bs, rs)" "bs \<noteq> []" for j bs rs
    using that bulk_write(3) unfolding eqs by (cases "j = i") auto
  moreover have "length (bs_indexers st') = length (bs_indexers st)" unfolding eqs by simp
  ultimately show ?thesis using assms(3) unfolding covered_def eqs(1,2) by fastforce
qed

lemma covered_done: "covered D read_file magic st x \<Longrightarrow> bulk_done st \<Longrightarrow> x \<in> bs_indexed st"
  unfolding covered_def bulk_done_def by (metis empty_iff empty_set nth_mem option.distinct(1))

lemma bulk_covers:
  assumes "(bulk_step D read_file magic headers WS)\<^sup>*\<^sup>* st st'" and "header_by_blockhash headers x \<noteq> None"
    and "covered D read_file magic st x" and "bulk_done st'"
  shows "x \<in> bs_indexed st'"
proof -
  have "covered D read_file magic st' x"
    using assms(1,3) by (induction rule: rtranclp_induct) (auto intro: covered_step [OF _ assms(2)])
  with assms(4) show ?thesis by (intro covered_done)
qed

section \<open>Properties\<close>

text \<open>
  C28: Block files are read back. Let a file consist of frames with complete blocks (whose version is not the
  magic), frames whose body was not written, and zero padding, where a frame without a body is followed by another
  frame or by the end of the file. It is parsed to exactly the blocks of its complete frames, in order. (What
  happens when padding follows a frame without a body is part of \<open>parse_blocks_cut\<close>.)
\<close>

theorem parse_blocks_roundtrip:
  assumes "u32_le D" and "hd (le_bytes 4 (unat magic)) \<noteq> 0" and "items_ok D magic items"
  shows "parse_blocks D (blk_file magic items) magic = Ok (items_blocks D items)"
  using assms by (rule parse_blocks_items)

definition ex_block_deps :: deps where
  "ex_block_deps = ref_deps\<lparr>de_block := (\<lambda>bs. if length bs = 5 then Some \<lparr>blk_header = ex_header (bs ! 3) (bs ! 4), txdata = []\<rparr> else None)\<rparr>"

lemma ex_block_deps_ok: "u32_le ex_block_deps" "codec_ok ex_block_deps"
  "bitcoin_hash ex_block_deps = bitcoin_hash ref_deps"
  using codec_ok_ref_deps by (simp_all add: u32_le_def ex_block_deps_def ref_deps_def codec_ok_def)

definition ex_items :: "blk_item list" where
  "ex_items = [Frame [1, 0, 0, 0, 1], Bodyless 99, Frame [1, 0, 0, 1, 2], Pad 7]"

lemma ex_items_ok: "items_ok ex_block_deps 7 ex_items"
  "items_blocks ex_block_deps ex_items = [\<lparr>blk_header = ex_header 0 1, txdata = []\<rparr>, \<lparr>blk_header = ex_header 1 2, txdata = []\<rparr>]"
  by (simp_all add: ex_items_def ex_block_deps_def ref_deps_def)

lemma hd_le_bytes: "hd (le_bytes 4 n) = of_nat (n mod 256)"
  by (simp add: le_bytes.simps(2) [of 3 n, simplified])

lemma ex_magic: "hd (le_bytes 4 (unat (7 :: u32))) \<noteq> 0"
  by (simp add: hd_le_bytes)

theorem parse_blocks_roundtrip_witness:
  "parse_blocks ex_block_deps (blk_file 7 ex_items) 7 =
     Ok [\<lparr>blk_header = ex_header 0 1, txdata = []\<rparr>, \<lparr>blk_header = ex_header 1 2, txdata = []\<rparr>]"
  using parse_blocks_roundtrip [OF ex_block_deps_ok(1) ex_magic ex_items_ok(1)] ex_items_ok(2) by simp

lemma parse_blocks_slice_panics:
  assumes "u32_le D" and "hd (le_bytes 4 (unat magic)) \<noteq> 0" and "items_ok D magic items"
    and "sz < 2 ^ 32" and "4 \<le> length part" and "length part < sz" and "de_u32 D (take 4 part) \<noteq> magic"
  shows "parse_blocks D (blk_file magic items @ le_bytes 4 (unat magic) @ le_bytes 4 sz @ part) magic =
     Panic ''range end index out of range for slice''"
  using parse_blocks_prefix [OF assms(1-3), of "le_bytes 4 (unat magic) @ le_bytes 4 sz @ part"]
    parse_blocks_frame [of "le_bytes 4 (unat magic)" "le_bytes 4 sz" D magic part] u32_le_magic [OF assms(1)] assms(4-7)
    u32_le_encode(2) [OF assms(1,4)] by (simp add: follows_items_def)

lemma parse_blocks_lost_body:
  assumes "u32_le D" and "hd (le_bytes 4 (unat magic)) \<noteq> 0" and "items_ok D magic items"
    and "4 \<le> n" and "n < unat sz"
  shows "parse_blocks D (blk_file magic (items @ [Bodyless sz, Pad n])) magic = Panic ''range end index out of range for slice''"
proof -
  have "magic \<noteq> de_u32 D (replicate 4 0)"
    using u32_le_inject [OF assms(1), of "replicate 4 0" magic] assms(2) by fastforce
  then have "de_u32 D (take 4 (replicate n 0)) \<noteq> magic" using assms(4) by (simp add: min_absorb1)
  then show ?thesis
    using parse_blocks_slice_panics [OF assms(1-3), of "unat sz" "replicate n 0"] assms(4,5) unsigned_less [of sz, where ?'a = nat]
    by (simp add: blk_file_def)
qed

lemma parse_blocks_cut_frame:
  assumes "u32_le D" and "hd (le_bytes 4 (unat magic)) \<noteq> 0" and "items_ok D magic items"
    and body: "items_ok D magic [Frame body]" and k: "k < length (enc_item magic (Frame body))"
  shows "parse_blocks D (blk_file magic items @ take k (enc_item magic (Frame body))) magic =
    (if k < 4 \<or> 8 \<le> k \<and> k < 12 then Ok (items_blocks D items)
     else if k < 8 then Err (Error (Msg ''no block size'') (Some decode_error))
     else Panic ''range end index out of range for slice'')"
proof -
  let ?m = "le_bytes 4 (unat magic)" and ?s = "le_bytes 4 (length body)"
  note prefix = parse_blocks_prefix [OF assms(1-3)] and m = u32_le_magic [OF assms(1), of magic]
  consider "k < 4" | "4 \<le> k" "k < 8" | "8 \<le> k" "k < 12" | "12 \<le> k" by linarith
  then show ?thesis
  proof cases
    case 1
    then show ?thesis using prefix [of "take k ?m"] by (simp add: follows_items_def parse_blocks_short read_u32_def)
  next
    case 2
    then show ?thesis using prefix [of "?m @ take (k - 4) ?s"] parse_blocks_no_size [of ?m D magic "take (k - 4) ?s"] m
      by (simp add: follows_items_def)
  next
    case 3
    then show ?thesis
      using prefix [of "?m @ ?s @ take (k - 8) body"] parse_blocks_headless [of ?m ?s D magic "take (k - 8) body"] m
      by (simp add: follows_items_def)
  next
    case 4
    then show ?thesis
      using parse_blocks_slice_panics [OF assms(1-3), of "length body" "take (k - 8) body"] body k by (simp add: min_absorb1)
  qed
qed

text \<open>
  C39: Block files that end too early. Let the last frame of a file, after any items that can be read, be cut after
  \<open>k\<close> bytes. If less than its magic is left, or its magic and size and at most three bytes of its body, parsing
  succeeds with the blocks before and nothing tells that one is missing; if the size is cut, parsing fails; and
  if four bytes or more of the body are left, it panics on the slice, and the blocks before are lost too. It panics
  also when the body of a frame was never written and zero padding follows, at least four bytes of it but fewer
  than the frame announces, though the comment in the code means to skip such frames.
\<close>

theorem parse_blocks_cut:
  assumes "u32_le D" and "hd (le_bytes 4 (unat magic)) \<noteq> 0" and "items_ok D magic items"
  shows "(\<forall>body k. items_ok D magic [Frame body] \<and> k < length (enc_item magic (Frame body)) \<longrightarrow>
           parse_blocks D (blk_file magic items @ take k (enc_item magic (Frame body))) magic =
             (if k < 4 \<or> 8 \<le> k \<and> k < 12 then Ok (items_blocks D items)
              else if k < 8 then Err (Error (Msg ''no block size'') (Some decode_error))
              else Panic ''range end index out of range for slice'')) \<and>
         (\<forall>sz n. 4 \<le> n \<and> n < unat sz \<longrightarrow>
           parse_blocks D (blk_file magic (items @ [Bodyless sz, Pad n])) magic =
             Panic ''range end index out of range for slice'')"
  using parse_blocks_cut_frame [OF assms] parse_blocks_lost_body [OF assms] by blast

theorem parse_blocks_cut_witness:
  "parse_blocks ex_block_deps (blk_file 7 ex_items @ take 10 (enc_item 7 (Frame [1, 0, 0, 0, 1]))) 7 =
     Ok [\<lparr>blk_header = ex_header 0 1, txdata = []\<rparr>, \<lparr>blk_header = ex_header 1 2, txdata = []\<rparr>] \<and>
   parse_blocks ex_block_deps (blk_file 7 ex_items @ take 12 (enc_item 7 (Frame [1, 0, 0, 0, 1]))) 7 =
     Panic ''range end index out of range for slice'' \<and>
   parse_blocks ex_block_deps (blk_file 7 (ex_items @ [Bodyless 99, Pad 7])) 7 = Panic ''range end index out of range for slice''"
proof -
  note cut = parse_blocks_cut [OF ex_block_deps_ok(1) ex_magic ex_items_ok(1)]
  have "items_ok ex_block_deps 7 [Frame [1, 0, 0, 0, 1]]" by (simp add: ex_block_deps_def ref_deps_def)
  then show ?thesis
    using cut [THEN conjunct1, rule_format, of "[1, 0, 0, 0, 1]" 10] cut [THEN conjunct1, rule_format, of "[1, 0, 0, 0, 1]" 12]
      cut [THEN conjunct2, rule_format, of 7 99] ex_items_ok(2) by simp
qed

lemma bulk_init_inv:
  assumes "codec_ok D" and "rocksdb_ok R c" and "files_in D read_file magic U files"
    and "header_keys_in D U (c (db_handle s))"
    and "read_indexed_blockhashes D (db_read_store R) s = Ok indexed"
  shows "bulk_inv D read_file magic U (\<lambda>s. c (db_handle s)) (bulk_init files indexed n s)"
proof -
  let ?m = "c (db_handle s)"
  have rows: "header_rows_ok D ?m" using assms(4) by (rule header_keys_rows_ok)
  have indexed: "indexed = {bitcoin_hash D h | h. has_header D ?m h}"
    using db.read_indexed_blockhashes_eq [OF assms(1,2) rows] assms(5) by (simp add: has_header_def)
  have "\<exists>h' \<in> U. bitcoin_hash D h' = bitcoin_hash D h \<and> has_header D ?m h'" if "has_header D ?m h" for h
  proof -
    have "\<lparr>row_key = row_key (block_row D h), row_value = row_value (block_row D h)\<rparr> \<in> block_row D ` U"
      using assms(4) that by (simp add: header_keys_in_def has_header_def)
    then obtain h' where h': "h' \<in> U" "block_row D h' = block_row D h" by (auto simp: block_row_def)
    moreover have "bitcoin_hash D h' = bitcoin_hash D h" "ser_header D h' = ser_header D h"
      using arg_cong [OF h'(2), of row_key] arg_cong [OF h'(2), of row_value] by simp_all
    ultimately show ?thesis using that by (intro bexI [of _ h']) (simp_all add: has_header_def)
  qed
  then show ?thesis using assms(3,4) by (auto simp: bulk_inv_def bulk_init_def indexed)
qed

lemma bulk_import_chain:
  assumes "codec_ok D" and "rocksdb_ok R c" and "inj_on (bitcoin_hash D) U"
    and "hl_rep D headers hs" and "set hs \<subseteq> U" and "files_in D read_file magic U files"
    and "header_keys_in D U (c (db_handle s))"
    and "read_indexed_blockhashes D (db_read_store R) s = Ok indexed"
    and "(bulk_step D read_file magic headers (db_write_store R))\<^sup>*\<^sup>* (bulk_init files indexed n s) st"
    and "bulk_done st" and "hs \<noteq> []" and "bitcoin_hash D (hd hs) \<in> bs_indexed st"
  shows "\<exists>s' hl. bulk_finish D headers (db_write_store R) st = Ok s' \<and>
     store_chain D (c (db_handle s')) (takeWhile (\<lambda>h. bitcoin_hash D h \<in> bs_indexed st) hs) \<and>
     read_indexed_headers D (db_read_store R) s' = Ok hl \<and>
     hl_rep D hl (takeWhile (\<lambda>h. bitcoin_hash D h \<in> bs_indexed st) hs)"
proof -
  note init = bulk_init_inv [OF assms(1,2,6,7,8), of n]
  from db.bulk_steps_inv [OF assms(1,3,9) _ init] assms(2)
  have "bulk_inv D read_file magic U (\<lambda>s. c (db_handle s)) st" by blast
  from db.bulk_finish_chain [OF assms(1,3,2) this assms(10,4,5,11,12)] obtain s' where
    "bulk_finish D headers (db_write_store R) st = Ok s'"
    "store_chain D (c (db_handle s')) (takeWhile (\<lambda>h. bitcoin_hash D h \<in> bs_indexed st) hs)" by blast
  with db.read_indexed_headers_chain [OF assms(1,2) this(2)] show ?thesis by blast
qed

text \<open>
  C12: The parallel import is safe under every interleaving. Whatever the schedule of the reader, the
  indexers and the writer, when all files are done and the first block of the chain is indexed, the
  final \<open>L\<close> row is written and the database records exactly the longest run of the best chain whose
  blocks are all indexed; in particular every block up to the tip it names has its header row, so the
  index can be read back.
\<close>

theorem bulk_import_safe:
  assumes "codec_ok D" and "rocksdb_ok R c" and "inj_on (bitcoin_hash D) U"
    and "hl_rep D headers hs" and "set hs \<subseteq> U" and "files_in D read_file magic U files"
    and "header_keys_in D U (c (db_handle s))"
    and "read_indexed_blockhashes D (db_read_store R) s = Ok indexed"
    and "(bulk_step D read_file magic headers (db_write_store R))\<^sup>*\<^sup>* (bulk_init files indexed n s) st"
    and "bulk_done st" and "hs \<noteq> []" and "bitcoin_hash D (hd hs) \<in> bs_indexed st"
  shows "\<exists>s' hl. bulk_finish D headers (db_write_store R) st = Ok s' \<and>
     store_chain D (c (db_handle s')) (takeWhile (\<lambda>h. bitcoin_hash D h \<in> bs_indexed st) hs) \<and>
     read_indexed_headers D (db_read_store R) s' = Ok hl \<and>
     hl_rep D hl (takeWhile (\<lambda>h. bitcoin_hash D h \<in> bs_indexed st) hs)"
  using assms by (rule bulk_import_chain)

text \<open>The closed example: one file with the two blocks of the chain, one indexer, an empty database.\<close>

definition ex_read_file :: "string \<Rightarrow> bytes option" where
  "ex_read_file path = (if path = ''blk00000.dat'' then Some (blk_file 7 ex_items) else None)"

lemma ex_block_hash [simp]: "bitcoin_hash ex_block_deps (ex_header p n) = mk_hash [n]"
  by (simp add: ex_block_deps_ok(3))

lemma ex_parse: "parse_blocks ex_block_deps (blk_file 7 ex_items) 7 = Ok ex_blocks"
  using parse_blocks_items [OF ex_block_deps_ok(1) ex_magic ex_items_ok(1)] ex_items_ok(2)
  by (simp add: ex_blocks_def ex_chain_def)

lemma ex_rep: "hl_rep ex_block_deps ex_headers ex_chain"
proof -
  have "valid_chain ex_block_deps ex_chain" by (simp add: valid_chain_def ex_chain_def)
  then show ?thesis
    by (auto simp: hl_rep_def ex_headers_def ex_chain_def less_Suc_eq chain_entries_Cons chain_entry_def)
qed

lemma ex_inj: "inj_on (bitcoin_hash ex_block_deps) (set ex_chain)"
  by (simp add: ex_chain_def inj_on_def)

lemma ex_index_step:
  assumes "h \<in> {1, 2}" and "mk_hash [h] \<notin> X"
  shows "index_file_block ex_block_deps ex_headers (X, rows) \<lparr>blk_header = ex_header p h, txdata = []\<rparr> =
     Ok (insert (mk_hash [h]) X, rows @ block_rows ex_block_deps \<lparr>blk_header = ex_header p h, txdata = []\<rparr>)"
proof -
  have "header_by_blockhash ex_headers (mk_hash [h]) \<noteq> None"
    using hl_rep_lookup_None [OF ex_rep, of "mk_hash [h]"] assms(1) by (auto simp: ex_chain_def)
  then show ?thesis
    using assms(2) by (auto simp: index_file_block_def index_block_eq [OF ex_block_deps_ok(2)])
qed

lemma ex_bulk_run:
  "\<exists>st. (bulk_step ex_block_deps ex_read_file 7 ex_headers (db_write_store mem_rocksdb))\<^sup>*\<^sup>*
       (bulk_init [''blk00000.dat''] {} 1 mem_store) st \<and> bulk_done st \<and>
       bs_indexed st = {mk_hash [2], mk_hash [1]}"
proof -
  let ?step = "bulk_step ex_block_deps ex_read_file 7 ex_headers (db_write_store mem_rocksdb)"
  let ?b1 = "\<lparr>blk_header = ex_header 0 1, txdata = []\<rparr>" and ?b2 = "\<lparr>blk_header = ex_header 1 2, txdata = []\<rparr>"
  let ?r1 = "block_rows ex_block_deps ?b1" and ?r2 = "block_rows ex_block_deps ?b2"
  let ?st = "\<lambda>f x w s. \<lparr>bs_files = f, bs_indexed = x, bs_indexers = [w], bs_store = s\<rparr>"
  have "?step (?st [''blk00000.dat''] {} None mem_store) (?st [] {} (Some ([?b1, ?b2], [])) mem_store)"
    using bulk_read [of "?st [''blk00000.dat''] {} None mem_store" "''blk00000.dat''" "[]" 0 ex_read_file "blk_file 7 ex_items"
        ex_block_deps 7 "[?b1, ?b2]"] ex_parse
    by (simp add: read_blkfile_def ex_read_file_def ex_blocks_def ex_chain_def)
  moreover have "?step (?st [] {} (Some ([?b1, ?b2], [])) mem_store) (?st [] {mk_hash [1]} (Some ([?b2], ?r1)) mem_store)"
    using bulk_index [of 0 "?st [] {} (Some ([?b1, ?b2], [])) mem_store" ?b1 "[?b2]" "[]" ex_block_deps ex_headers "{mk_hash [1]}" ?r1]
      ex_index_step [of 1 "{}" "[]" 0] by simp
  moreover have "?step (?st [] {mk_hash [1]} (Some ([?b2], ?r1)) mem_store)
      (?st [] {mk_hash [2], mk_hash [1]} (Some ([], ?r1 @ ?r2)) mem_store)"
    using bulk_index [of 0 "?st [] {mk_hash [1]} (Some ([?b2], ?r1)) mem_store" ?b2 "[]" ?r1 ex_block_deps ex_headers
        "{mk_hash [2], mk_hash [1]}" "?r1 @ ?r2"] ex_index_step [of 2 "{mk_hash [1]}" ?r1 1] by simp
  moreover obtain rows where rows: "mset rows = mset (?r1 @ ?r2)" "sorted (map row_key rows)"
    using sorted_rows_exist [of "?r1 @ ?r2"] by blast
  moreover obtain s' where "ws_write (db_write_store mem_rocksdb) mem_store rows = Ok s'"
    using db.write_view [OF mem_rocksdb_ok] by blast
  then have "?step (?st [] {mk_hash [2], mk_hash [1]} (Some ([], ?r1 @ ?r2)) mem_store)
      (?st [] {mk_hash [2], mk_hash [1]} None s')"
    using bulk_write [of 0 "?st [] {mk_hash [2], mk_hash [1]} (Some ([], ?r1 @ ?r2)) mem_store" "?r1 @ ?r2" rows] rows by simp
  ultimately have "?step\<^sup>*\<^sup>* (?st [''blk00000.dat''] {} None mem_store) (?st [] {mk_hash [2], mk_hash [1]} None s')"
    by (meson converse_rtranclp_into_rtranclp rtranclp.rtrancl_refl)
  then show ?thesis by (intro exI [of _ "?st [] {mk_hash [2], mk_hash [1]} None s'"]) (simp add: bulk_init_def bulk_done_def)
qed

lemma ex_bulk_start:
  "read_indexed_blockhashes ex_block_deps (db_read_store mem_rocksdb) mem_store = Ok {}"
  by (simp add: read_indexed_blockhashes_def db_read_store_def db_scan_def mem_rocksdb_def mem_store_def
      bt_range_from_def List.map_filter_def)

theorem bulk_import_safe_witness:
  "\<exists>st s'. (bulk_step ex_block_deps ex_read_file 7 ex_headers (db_write_store mem_rocksdb))\<^sup>*\<^sup>*
       (bulk_init [''blk00000.dat''] {} 1 mem_store) st \<and>
     bulk_finish ex_block_deps ex_headers (db_write_store mem_rocksdb) st = Ok s' \<and>
     store_chain ex_block_deps (mem_contents (db_handle s')) ex_chain"
proof -
  obtain st where st: "(bulk_step ex_block_deps ex_read_file 7 ex_headers (db_write_store mem_rocksdb))\<^sup>*\<^sup>*
       (bulk_init [''blk00000.dat''] {} 1 mem_store) st" "bulk_done st" "bs_indexed st = {mk_hash [2], mk_hash [1]}"
    using ex_bulk_run by blast
  have files: "files_in ex_block_deps ex_read_file 7 (set ex_chain) [''blk00000.dat'']"
    using ex_parse by (auto simp: files_in_def ex_read_file_def ex_blocks_def)
  have keys: "header_keys_in ex_block_deps (set ex_chain) (mem_contents (db_handle mem_store))"
    by (simp add: header_keys_in_def mem_store_def bt_get_def)
  have "takeWhile (\<lambda>h. bitcoin_hash ex_block_deps h \<in> bs_indexed st) ex_chain = ex_chain"
    by (simp add: st(3) ex_chain_def)
  with bulk_import_safe [OF ex_block_deps_ok(2) mem_rocksdb_ok ex_inj ex_rep subset_refl files keys ex_bulk_start st(1,2)] st
  show ?thesis by (auto simp: ex_chain_def)
qed

text \<open>
  The parallel import ends. If every file can be read and parsed and there is at least one
  indexer thread, no schedule runs forever, no schedule gets stuck before all files are done, and
  the end is reachable.
\<close>

lemma bulk_import_ends:
  assumes "codec_ok D" and "rocksdb_ok R c" and "0 < n" and "files_parse D read_file magic files"
  shows "wfP (\<lambda>st' st. bulk_step D read_file magic headers (db_write_store R) st st') \<and>
     (\<exists>st. (bulk_step D read_file magic headers (db_write_store R))\<^sup>*\<^sup>* (bulk_init files indexed n s) st \<and> bulk_done st) \<and>
     (\<forall>st. (bulk_step D read_file magic headers (db_write_store R))\<^sup>*\<^sup>* (bulk_init files indexed n s) st \<and> \<not> bulk_done st \<longrightarrow>
        (\<exists>st'. bulk_step D read_file magic headers (db_write_store R) st st'))"
proof -
  let ?init = "bulk_init files indexed n s"
  have init: "0 < length (bs_indexers ?init)" "files_parse D read_file magic (bs_files ?init)"
    using assms(3,4) by (simp_all add: bulk_init_def)
  have "\<exists>st'. bulk_step D read_file magic headers (db_write_store R) st st'"
    if "(bulk_step D read_file magic headers (db_write_store R))\<^sup>*\<^sup>* ?init st" "\<not> bulk_done st" for st
    using db.bulk_steps_good [OF that(1) assms(2) init] db.bulk_no_deadlock [OF assms(1,2) _ _ that(2)] by blast
  with bulk_step_wf db.bulk_reaches_done [OF assms(1,2) init] show ?thesis by blast
qed

text \<open>
  The parallel import is complete. When every block of the best chain was indexed before or is in
  one of the files, then under every interleaving the import ends with the whole best chain recorded.
\<close>

lemma bulk_import_complete:
  assumes "codec_ok D" and "rocksdb_ok R c" and "inj_on (bitcoin_hash D) U"
    and "hl_rep D headers hs" and "set hs \<subseteq> U" and "hs \<noteq> []" and "files_in D read_file magic U files"
    and "header_keys_in D U (c (db_handle s))"
    and "read_indexed_blockhashes D (db_read_store R) s = Ok indexed"
    and "\<And>h. h \<in> set hs \<Longrightarrow> bitcoin_hash D h \<in> indexed \<or>
      (\<exists>path \<in> set files. \<exists>blob bs. read_file path = Some blob \<and> parse_blocks D blob magic = Ok bs \<and> h \<in> blk_header ` set bs)"
    and "(bulk_step D read_file magic headers (db_write_store R))\<^sup>*\<^sup>* (bulk_init files indexed n s) st"
    and "bulk_done st"
  shows "\<exists>s'. bulk_finish D headers (db_write_store R) st = Ok s' \<and> store_chain D (c (db_handle s')) hs"
proof -
  have all: "bitcoin_hash D h \<in> bs_indexed st" if h: "h \<in> set hs" for h
  proof (rule bulk_covers [OF assms(11) _ _ assms(12)])
    show "header_by_blockhash headers (bitcoin_hash D h) \<noteq> None"
      using hl_rep_lookup_None [OF assms(4)] h by auto
    show "covered D read_file magic (bulk_init files indexed n s) (bitcoin_hash D h)"
      using assms(10) [OF h] by (fastforce simp: covered_def bulk_init_def)
  qed
  then have "takeWhile (\<lambda>h. bitcoin_hash D h \<in> bs_indexed st) hs = hs" by (simp add: takeWhile_eq_all_conv)
  with bulk_import_chain [OF assms(1-5,7-9,11,12,6)] all assms(6) show ?thesis by auto
qed

text \<open>
  An interrupted import loses nothing. Whenever the import stops, by a signal, a failing thread or
  a crash, at whatever point of whatever schedule, the database still records the chain that it
  recorded before, so the next start reads that chain and the import resumes from it.
\<close>

lemma bulk_import_interrupted:
  assumes "codec_ok D" and "rocksdb_ok R c" and "inj_on (bitcoin_hash D) U"
    and "files_in D read_file magic U files" and "header_keys_in D U (c (db_handle s))"
    and "read_indexed_blockhashes D (db_read_store R) s = Ok indexed"
    and "(bulk_step D read_file magic headers (db_write_store R))\<^sup>*\<^sup>* (bulk_init files indexed n s) st"
    and "store_chain D (c (db_handle s)) hs" and "set hs \<subseteq> U"
  shows "\<exists>hl. read_indexed_headers D (db_read_store R) (bs_store st) = Ok hl \<and> hl_rep D hl hs"
proof -
  have "store_chain D (c (db_handle (bs_store st))) hs"
    using db.bulk_steps_keep_chain [OF assms(1,3,7) _ bulk_init_inv [OF assms(1,2,4-6)]] assms(2,8,9)
    by (simp add: bulk_init_def)
  from db.read_indexed_headers_chain [OF assms(1,2) this] show ?thesis .
qed

end
