(* ===== verification/Channels.thy ===== *)
theory Channels
  imports Prelude
begin

text \<open>
  The channels of \<open>util.rs\<close>: \<open>SyncChannel\<close> with a bounded buffer and \<open>Channel\<close> without a bound, both a
  sender and the receiver of a channel of the standard library. A channel is its buffer, its bound, the
  number of senders that exist and whether its receiver exists: a receiver of an empty channel waits as
  long as there is a sender, and a sender fails as soon as the receiver is gone. The locale
  \<open>fifo_channel\<close> is what the threads rely on, and gives that items come out in the order they went in.
\<close>

section \<open>The two channel types\<close>

record 'a sync_channel =
  sc_bound :: "nat option"
  sc_queue :: "'a list"
  sc_senders :: nat
  sc_receiver :: bool

definition SyncChannel_new :: "nat \<Rightarrow> 'a sync_channel" where
  "SyncChannel_new n = \<lparr>sc_bound = Some n, sc_queue = [], sc_senders = 1, sc_receiver = True\<rparr>"

definition Channel_unbounded :: "'a sync_channel" where
  "Channel_unbounded = \<lparr>sc_bound = None, sc_queue = [], sc_senders = 1, sc_receiver = True\<rparr>"

text \<open>\<open>sender()\<close> clones the sender; \<open>into_receiver()\<close> keeps the receiver and drops the channel's own sender.\<close>

definition channel_sender :: "'a sync_channel \<Rightarrow> 'a sync_channel" where
  "channel_sender ch = ch\<lparr>sc_senders := sc_senders ch + 1\<rparr>"

definition drop_sender :: "'a sync_channel \<Rightarrow> 'a sync_channel" where
  "drop_sender ch = ch\<lparr>sc_senders := sc_senders ch - 1\<rparr>"

definition into_receiver :: "'a sync_channel \<Rightarrow> 'a sync_channel" where
  "into_receiver ch = drop_sender ch"

text \<open>Dropping a \<open>SyncChannel\<close> or \<open>Channel\<close> value: its own sender and the receiver go.\<close>

definition drop_channel :: "'a sync_channel \<Rightarrow> 'a sync_channel" where
  "drop_channel ch = (drop_sender ch)\<lparr>sc_receiver := False\<rparr>"

section \<open>Sending and receiving\<close>

datatype 'b chan_result = Done 'b | Blocked | Disconnected

text \<open>A channel with bound 0 is a rendezvous: a send of its own always waits for the receiver.\<close>

definition chan_full :: "'a sync_channel \<Rightarrow> bool" where
  "chan_full ch \<longleftrightarrow> (case sc_bound ch of None \<Rightarrow> False | Some n \<Rightarrow> n \<le> length (sc_queue ch))"

definition chan_send :: "'a sync_channel \<Rightarrow> 'a \<Rightarrow> 'a sync_channel chan_result" where
  "chan_send ch x =
     (if \<not> sc_receiver ch then Disconnected
      else if chan_full ch then Blocked
      else Done (ch\<lparr>sc_queue := sc_queue ch @ [x]\<rparr>))"

definition chan_recv :: "'a sync_channel \<Rightarrow> ('a \<times> 'a sync_channel) chan_result" where
  "chan_recv ch =
     (case sc_queue ch of
        x # xs \<Rightarrow> Done (x, ch\<lparr>sc_queue := xs\<rparr>)
      | [] \<Rightarrow> if sc_senders ch = 0 then Disconnected else Blocked)"

named_theorems chan_simps

lemmas [chan_simps] = SyncChannel_new_def Channel_unbounded_def channel_sender_def drop_sender_def
  into_receiver_def drop_channel_def

lemma chan_send_Done [chan_simps]:
  "chan_send ch x = Done ch' \<longleftrightarrow> sc_receiver ch \<and> \<not> chan_full ch \<and> ch' = ch\<lparr>sc_queue := sc_queue ch @ [x]\<rparr>"
  by (auto simp: chan_send_def)

lemma chan_send_Disconnected [chan_simps]: "chan_send ch x = Disconnected \<longleftrightarrow> \<not> sc_receiver ch"
  by (simp add: chan_send_def)

lemma chan_recv_Done [chan_simps]:
  "chan_recv ch = Done (x, ch') \<longleftrightarrow> (\<exists>xs. sc_queue ch = x # xs \<and> ch' = ch\<lparr>sc_queue := xs\<rparr>)"
  by (auto simp: chan_recv_def split: list.splits)

lemma chan_recv_Disconnected [chan_simps]:
  "chan_recv ch = Disconnected \<longleftrightarrow> sc_queue ch = [] \<and> sc_senders ch = 0"
  by (auto simp: chan_recv_def split: list.splits)

section \<open>What the threads rely on\<close>

datatype 'a chan_event = Sent 'a | Received 'a

primrec sent :: "'a chan_event list \<Rightarrow> 'a list" where
  "sent [] = []"
| "sent (e # es) = (case e of Sent x \<Rightarrow> x # sent es | Received _ \<Rightarrow> sent es)"

primrec received :: "'a chan_event list \<Rightarrow> 'a list" where
  "received [] = []"
| "received (e # es) = (case e of Sent _ \<Rightarrow> received es | Received x \<Rightarrow> x # received es)"

locale fifo_channel =
  fixes send :: "'c \<Rightarrow> 'a \<Rightarrow> 'c chan_result"
    and recv :: "'c \<Rightarrow> ('a \<times> 'c) chan_result"
    and queue :: "'c \<Rightarrow> 'a list"
    and fits :: "'c \<Rightarrow> bool"
  assumes send_queue: "send ch x = Done ch' \<Longrightarrow> queue ch' = queue ch @ [x]"
    and recv_queue: "recv ch = Done (x, ch') \<Longrightarrow> queue ch = x # queue ch'"
    and send_fits: "send ch x = Done ch' \<Longrightarrow> fits ch \<Longrightarrow> fits ch'"
    and recv_fits: "recv ch = Done (x, ch') \<Longrightarrow> fits ch \<Longrightarrow> fits ch'"
begin

inductive chan_run :: "'c \<Rightarrow> 'a chan_event list \<Rightarrow> 'c \<Rightarrow> bool" where
  chan_stop: "chan_run ch [] ch"
| chan_sent: "send ch x = Done ch' \<Longrightarrow> chan_run ch' es ch'' \<Longrightarrow> chan_run ch (Sent x # es) ch''"
| chan_received: "recv ch = Done (x, ch') \<Longrightarrow> chan_run ch' es ch'' \<Longrightarrow> chan_run ch (Received x # es) ch''"

lemma in_order: "chan_run ch es ch' \<Longrightarrow> queue ch @ sent es = received es @ queue ch'"
  by (induction rule: chan_run.induct) (auto dest: send_queue recv_queue)

lemma within_bound: "chan_run ch es ch' \<Longrightarrow> fits ch \<Longrightarrow> fits ch'"
  by (induction rule: chan_run.induct) (auto dest: send_fits recv_fits)

lemma received_prefix: "chan_run ch es ch' \<Longrightarrow> queue ch = [] \<Longrightarrow> \<exists>later. sent es = received es @ later"
  using in_order by fastforce

end

definition chan_fits :: "'a sync_channel \<Rightarrow> bool" where
  "chan_fits ch \<longleftrightarrow> (case sc_bound ch of None \<Rightarrow> True | Some n \<Rightarrow> length (sc_queue ch) \<le> n)"

interpretation chan: fifo_channel chan_send chan_recv sc_queue chan_fits
  by unfold_locales (auto simp: chan_simps chan_fits_def chan_full_def split: option.splits)

lemma chan_fits_simps [chan_simps]:
  "chan_fits (SyncChannel_new n)" "chan_fits (channel_sender ch) = chan_fits ch"
  "chan_fits (drop_sender ch) = chan_fits ch" "chan_fits (drop_channel ch) = chan_fits ch"
  by (simp_all add: chan_fits_def SyncChannel_new_def channel_sender_def drop_sender_def drop_channel_def
    split: option.splits)

text \<open>A new channel hands its items over in their order, keeping at most as many as its size.\<close>

lemma sync_channel_in_order:
  assumes "chan.chan_run (SyncChannel_new n) es ch"
  shows "sent es = received es @ sc_queue ch \<and> chan_fits ch"
  using chan.in_order [OF assms] chan.within_bound [OF assms] chan_fits_simps(1) [of n]
  by (simp add: SyncChannel_new_def)

lemma unbounded_in_order:
  assumes "chan.chan_run Channel_unbounded es ch"
  shows "sent es = received es @ sc_queue ch"
  using chan.in_order [OF assms] by (simp add: Channel_unbounded_def)

end
