(* ===== verification/Rpc_Server.thy ===== *)
theory Rpc_Server
  imports Channels "HOL-Library.Word"
begin

text \<open>
  \<open>RPC::start\<close>, \<open>RPC::start_acceptor\<close> and the \<open>Drop\<close> of \<open>RPC\<close> in \<open>rpc.rs\<close>: the acceptor thread binds the
  socket and sends every accepted stream through an unbounded channel to the server thread, which starts one
  thread per connection and stores its handle in a table; the new thread enters its sender in another table, runs
  the connection and removes both entries. When the server thread receives \<open>None\<close> it tells every connection
  to stop and joins all threads. Every panic of these threads is a step: the acceptor's on \<open>bind\<close>, \<open>accept\<close>,
  \<open>set_nonblocking\<close> and \<open>send\<close>, the server's on a closed channel, on a thread that cannot be started and
  on the overflow of its counter.
  The threads take the locks of the tables one by one, so the server is a step relation with one
  step per critical section. The loops that close and join hold the lock of their table
  until they end, because the guard is a temporary of the \<open>for\<close> expression. No thread panics while it holds
  a lock, so none is ever poisoned.
\<close>

section \<open>Steps\<close>

text \<open>
  The thread of a connection: started, running it (\<open>Connection::run\<close>, which may panic, in its \<open>try_clone().expect\<close>
  for one), past the first removal, ended, or ended by a panic.
\<close>

datatype peer_phase = Starting | Running | Leaving | Ended | Panicked

text \<open>The acceptor thread: not started yet, about to bind, listening, or ended by a panic (it has no other end).\<close>

datatype acceptor_phase = Unstarted | Binding | Listening | Acceptor_dead

text \<open>Why the server thread panicked: \<open>recv().unwrap()\<close>, \<open>spawn_thread\<close>, or \<open>handle_count += 1\<close>.\<close>

datatype crash_cause = Recv_failed | Spawn_failed | Count_overflow

text \<open>
  The server thread: starting the acceptor, in its loop, closing the connections, joining their threads
  (those left), ended, or ended by a panic.
\<close>

datatype server_phase = Launching | Accepting | Closing "nat list" | Joining "nat list" | Finished | Crashed crash_cause

text \<open>
  The threads of the connections are numbered in the order they are started, each with its \<open>handle_id\<close>; the
  tables go from a \<open>handle_id\<close> to the thread whose sender or handle they hold. \<open>handle_count\<close> is an \<open>i32\<close>, kept
  as the word of its bits. \<open>rpc_spawned\<close>: the connection whose thread runs but whose handle is not stored yet.
\<close>

record rpc_state =
  handle_count :: "32 word"
  rpc_threads :: "(32 word \<times> peer_phase) list"
  rpc_spawned :: "(32 word \<times> nat) option"
  rpc_senders :: "32 word \<rightharpoonup> nat"
  rpc_handles :: "32 word \<rightharpoonup> nat"
  rpc_acceptor :: acceptor_phase
  acceptor_chan :: "nat option sync_channel"
  rpc_phase :: server_phase

text \<open>
  The channel that \<open>start_acceptor\<close> returns, with its own sender, and of which the acceptor got a clone; a
  message is the address of a peer or \<open>None\<close>.
\<close>

definition start_acceptor :: "nat option sync_channel" where
  "start_acceptor = channel_sender Channel_unbounded"

definition rpc_init :: rpc_state where
  "rpc_init = \<lparr>handle_count = 0, rpc_threads = [], rpc_spawned = None, rpc_senders = Map.empty, rpc_handles = Map.empty,
     rpc_acceptor = Unstarted, acceptor_chan = start_acceptor, rpc_phase = Launching\<rparr>"

primrec holds_senders :: "server_phase \<Rightarrow> bool" where
  "holds_senders Launching = False"
| "holds_senders Accepting = False"
| "holds_senders (Closing is) = True"
| "holds_senders (Joining is) = False"
| "holds_senders Finished = False"
| "holds_senders (Crashed c) = False"

primrec holds_handles :: "server_phase \<Rightarrow> bool" where
  "holds_handles Launching = False"
| "holds_handles Accepting = False"
| "holds_handles (Closing is) = False"
| "holds_handles (Joining is) = True"
| "holds_handles Finished = False"
| "holds_handles (Crashed c) = False"

text \<open>A panic of the acceptor drops its sender; the end of the server thread drops the channel.\<close>

definition acceptor_panics :: "rpc_state \<Rightarrow> rpc_state" where
  "acceptor_panics st = st\<lparr>rpc_acceptor := Acceptor_dead, acceptor_chan := drop_sender (acceptor_chan st)\<rparr>"

definition server_ends :: "server_phase \<Rightarrow> rpc_state \<Rightarrow> rpc_state" where
  "server_ends p st = st\<lparr>rpc_phase := p, acceptor_chan := drop_channel (acceptor_chan st)\<rparr>"

text \<open>
  \<open>checks\<close>: the build checks for overflow (a debug build does, the release profile of \<open>Cargo.toml\<close> does not, and
  the addition wraps). \<open>refused\<close>: the system may refuse to start a thread, on which \<open>spawn_thread\<close> panics; when
  it refuses the acceptor, the clone of its sender goes too, with the closure.
\<close>

inductive rpc_step :: "bool \<Rightarrow> bool \<Rightarrow> rpc_state \<Rightarrow> rpc_state \<Rightarrow> bool" for checks refused where
  acceptor_bind:
    "rpc_step checks refused st (st\<lparr>rpc_acceptor := Listening\<rparr>)"
    if "rpc_acceptor st = Binding"
| acceptor_bind_panic:
    "rpc_step checks refused st (acceptor_panics st)"
    if "rpc_acceptor st = Binding"
| acceptor_send:
    "rpc_step checks refused st (st\<lparr>acceptor_chan := ch\<rparr>)"
    if "rpc_acceptor st = Listening" and "chan_send (acceptor_chan st) (Some addr) = Done ch"
| acceptor_send_panic:
    "rpc_step checks refused st (acceptor_panics st)"
    if "rpc_acceptor st = Listening" and "chan_send (acceptor_chan st) (Some addr) = Disconnected"
| acceptor_accept_panic:
    "rpc_step checks refused st (acceptor_panics st)"
    if "rpc_acceptor st = Listening"
| rpc_launch:
    "rpc_step checks refused st (st\<lparr>rpc_acceptor := Binding, rpc_phase := Accepting\<rparr>)"
    if "rpc_phase st = Launching"
| rpc_launch_panic:
    "rpc_step checks refused st (server_ends (Crashed Spawn_failed) (st\<lparr>acceptor_chan := drop_sender (acceptor_chan st)\<rparr>))"
    if "rpc_phase st = Launching" and "refused"
| rpc_recv_panic:
    "rpc_step checks refused st (server_ends (Crashed Recv_failed) st)"
    if "rpc_phase st = Accepting" and "rpc_spawned st = None" and "chan_recv (acceptor_chan st) = Disconnected"
| rpc_accept:
    "rpc_step checks refused st (st\<lparr>acceptor_chan := ch, handle_count := handle_count st + 1,
       rpc_spawned := Some (handle_count st, length (rpc_threads st)),
       rpc_threads := rpc_threads st @ [(handle_count st, Starting)]\<rparr>)"
    if "rpc_phase st = Accepting" and "rpc_spawned st = None" and "chan_recv (acceptor_chan st) = Done (Some addr, ch)"
      and "\<not> (checks \<and> sint (handle_count st) = 2 ^ 31 - 1)"
| rpc_overflow_panic:
    "rpc_step checks refused st (server_ends (Crashed Count_overflow) (st\<lparr>acceptor_chan := ch\<rparr>))"
    if "rpc_phase st = Accepting" and "rpc_spawned st = None" and "chan_recv (acceptor_chan st) = Done (Some addr, ch)"
      and "checks" and "sint (handle_count st) = 2 ^ 31 - 1"
| rpc_spawn_panic:
    "rpc_step checks refused st (server_ends (Crashed Spawn_failed) (st\<lparr>acceptor_chan := ch, handle_count := handle_count st + 1\<rparr>))"
    if "rpc_phase st = Accepting" and "rpc_spawned st = None" and "chan_recv (acceptor_chan st) = Done (Some addr, ch)"
      and "\<not> (checks \<and> sint (handle_count st) = 2 ^ 31 - 1)" and "refused"
| rpc_store:
    "rpc_step checks refused st (st\<lparr>rpc_handles := (rpc_handles st)(handle_id \<mapsto> n), rpc_spawned := None\<rparr>)"
    if "rpc_spawned st = Some (handle_id, n)"
| rpc_close:
    "rpc_step checks refused st (st\<lparr>acceptor_chan := ch, rpc_phase := Closing is\<rparr>)"
    if "rpc_phase st = Accepting" and "rpc_spawned st = None" and "chan_recv (acceptor_chan st) = Done (None, ch)"
      and "set is = ran (rpc_senders st)" and "distinct is"
| rpc_send_done:
    "rpc_step checks refused st (st\<lparr>rpc_phase := Closing is\<rparr>)"
    if "rpc_phase st = Closing (n # is)"
| rpc_drain:
    "rpc_step checks refused st (st\<lparr>rpc_handles := Map.empty, rpc_phase := Joining is\<rparr>)"
    if "rpc_phase st = Closing []" and "set is = ran (rpc_handles st)" and "distinct is"
| rpc_join:
    "rpc_step checks refused st (st\<lparr>rpc_phase := Joining is\<rparr>)"
    if "rpc_phase st = Joining (n # is)" and "snd (rpc_threads st ! n) \<in> {Ended, Panicked}"
| rpc_end:
    "rpc_step checks refused st (server_ends Finished st)"
    if "rpc_phase st = Joining []"
| peer_enter:
    "rpc_step checks refused st (st\<lparr>rpc_senders := (rpc_senders st)(handle_id \<mapsto> n), rpc_threads := (rpc_threads st)[n := (handle_id, Running)]\<rparr>)"
    if "n < length (rpc_threads st)" and "rpc_threads st ! n = (handle_id, Starting)" and "\<not> holds_senders (rpc_phase st)"
| peer_leave:
    "rpc_step checks refused st (st\<lparr>rpc_senders := (rpc_senders st)(handle_id := None), rpc_threads := (rpc_threads st)[n := (handle_id, Leaving)]\<rparr>)"
    if "n < length (rpc_threads st)" and "rpc_threads st ! n = (handle_id, Running)" and "\<not> holds_senders (rpc_phase st)"
| peer_forget:
    "rpc_step checks refused st (st\<lparr>rpc_handles := (rpc_handles st)(handle_id := None), rpc_threads := (rpc_threads st)[n := (handle_id, Ended)]\<rparr>)"
    if "n < length (rpc_threads st)" and "rpc_threads st ! n = (handle_id, Leaving)" and "\<not> holds_handles (rpc_phase st)"
| peer_panic:
    "rpc_step checks refused st (st\<lparr>rpc_threads := (rpc_threads st)[n := (handle_id, Panicked)]\<rparr>)"
    if "n < length (rpc_threads st)" and "rpc_threads st ! n = (handle_id, Running)"

inductive_cases rpc_step_cases: "rpc_step checks refused st st'"

lemmas rpc_stepE = rpc_step_cases [consumes 1, case_names acceptor_bind acceptor_bind_panic acceptor_send acceptor_send_panic
  acceptor_accept_panic rpc_launch rpc_launch_panic rpc_recv_panic rpc_accept rpc_overflow_panic rpc_spawn_panic
  rpc_store rpc_close rpc_send_done rpc_drain rpc_join rpc_end peer_enter peer_leave peer_forget peer_panic]

lemmas rpc_ends = acceptor_panics_def server_ends_def

text \<open>
  Dropping the \<open>RPC\<close> value joins the server thread and unwraps its result: it returns or panics only if some
  schedule lets that thread end, by its last statement or by a panic. The value is \<open>None\<close> when none does,
  in a release build on a system that starts the threads it is asked for.
\<close>

definition rpc_server_ends :: bool where
  "rpc_server_ends \<longleftrightarrow> (\<exists>st. (rpc_step False False)\<^sup>*\<^sup>* rpc_init st \<and> (rpc_phase st = Finished \<or> (\<exists>c. rpc_phase st = Crashed c)))"

definition RPC_drop :: "unit option" where
  "RPC_drop = (if rpc_server_ends then Some () else None)"

section \<open>The channel stays open\<close>

text \<open>How the server thread can be, other than in its loop.\<close>

definition allowed_phases :: "bool \<Rightarrow> bool \<Rightarrow> server_phase set" where
  "allowed_phases checks refused =
     {Launching, Accepting} \<union> (if refused then {Crashed Spawn_failed} else {}) \<union> (if checks then {Crashed Count_overflow} else {})"

text \<open>
  The count of senders: one of the server itself as long as its thread runs, one of the acceptor until that
  thread panics. No \<open>None\<close> is ever in the channel.
\<close>

definition chan_inv :: "bool \<Rightarrow> bool \<Rightarrow> rpc_state \<Rightarrow> bool" where
  "chan_inv checks refused st \<longleftrightarrow>
     rpc_phase st \<in> allowed_phases checks refused \<and> None \<notin> set (sc_queue (acceptor_chan st)) \<and>
     (rpc_phase st = Launching \<longrightarrow> rpc_acceptor st = Unstarted \<and> rpc_threads st = [] \<and> rpc_spawned st = None) \<and>
     (rpc_acceptor st = Unstarted \<longrightarrow> rpc_phase st \<noteq> Accepting) \<and>
     (rpc_phase st \<in> {Launching, Accepting} \<longrightarrow> sc_receiver (acceptor_chan st) \<and>
        sc_senders (acceptor_chan st) = (if rpc_acceptor st = Acceptor_dead then 1 else 2))"

lemma chan_inv_init: "chan_inv checks refused rpc_init"
  by (simp add: chan_inv_def allowed_phases_def rpc_init_def start_acceptor_def chan_simps)

lemma chan_inv_step:
  assumes "rpc_step checks refused st st'" and "chan_inv checks refused st"
  shows "chan_inv checks refused st'"
  using assms
  by (cases rule: rpc_stepE)
    (auto simp: chan_inv_def allowed_phases_def rpc_ends chan_simps chan_full_def split: if_splits)

lemma chan_inv_reachable: "(rpc_step checks refused)\<^sup>*\<^sup>* rpc_init st \<Longrightarrow> chan_inv checks refused st"
  by (induction rule: rtranclp_induct) (auto intro: chan_inv_init chan_inv_step)

section \<open>The server thread never ends\<close>

lemma RPC_drop_blocks [simp]: "RPC_drop = None"
  by (auto simp: RPC_drop_def rpc_server_ends_def chan_inv_def allowed_phases_def dest!: chan_inv_reachable)

text \<open>The server that nobody sends to: the acceptor has panicked and all it sent has been received.\<close>

definition rpc_orphaned :: "rpc_state \<Rightarrow> bool" where
  "rpc_orphaned st \<longleftrightarrow> rpc_phase st = Accepting \<and> rpc_acceptor st = Acceptor_dead \<and> rpc_spawned st = None \<and>
     sc_queue (acceptor_chan st) = []"

lemma rpc_orphaned_step:
  assumes "rpc_step checks refused st st'" and "rpc_orphaned st" and "chan_inv checks refused st"
  shows "rpc_orphaned st' \<and> length (rpc_threads st') = length (rpc_threads st)"
  using assms by (cases rule: rpc_stepE) (auto simp: rpc_orphaned_def chan_inv_def chan_simps)

lemma rpc_orphaned_forever:
  assumes "(rpc_step checks refused)\<^sup>*\<^sup>* st st'" and "rpc_orphaned st" and "chan_inv checks refused st"
  shows "rpc_orphaned st' \<and> length (rpc_threads st') = length (rpc_threads st) \<and> chan_inv checks refused st'"
  using assms
proof (induction rule: rtranclp_induct)
  case (step y z)
  then show ?case using rpc_orphaned_step [OF step(2)] chan_inv_step [OF step(2)] by metis
qed simp

lemma orphaned_recv_blocks: "rpc_orphaned st \<Longrightarrow> chan_inv checks refused st \<Longrightarrow> chan_recv (acceptor_chan st) = Blocked"
  by (simp add: rpc_orphaned_def chan_inv_def chan_recv_def)

text \<open>
  C21: The server cannot be stopped. Under every schedule, whatever threads panic, the server thread does not leave its
  loop: it ends only by a panic, when the system refuses it a thread or when a build that checks overflow has
  counted \<open>2 ^ 31 - 1\<close> connections. Its \<open>recv\<close> never fails, because its own sender keeps the channel open when the
  acceptor has panicked, and the \<open>None\<close> that would end it is never sent. So dropping the \<open>RPC\<close> value, which joins
  that thread, does not return; and once the acceptor has panicked (on a failed \<open>bind\<close>, say) and what it had
  accepted is served, the server thread waits forever and no connection is ever started again.
\<close>

theorem rpc_never_stops:
  assumes "(rpc_step checks refused)\<^sup>*\<^sup>* rpc_init st"
  shows "rpc_phase st \<in> {Launching, Accepting} \<union> (if refused then {Crashed Spawn_failed} else {}) \<union>
           (if checks then {Crashed Count_overflow} else {}) \<and>
         (rpc_phase st = Accepting \<longrightarrow> chan_recv (acceptor_chan st) \<noteq> Disconnected) \<and>
         (rpc_phase st = Accepting \<and> rpc_acceptor st = Acceptor_dead \<and> rpc_spawned st = None \<and> sc_queue (acceptor_chan st) = [] \<longrightarrow>
            (\<forall>st'. (rpc_step checks refused)\<^sup>*\<^sup>* st st' \<longrightarrow>
               rpc_phase st' = Accepting \<and> chan_recv (acceptor_chan st') = Blocked \<and>
               length (rpc_threads st') = length (rpc_threads st))) \<and>
         RPC_drop = None"
proof -
  note inv = chan_inv_reachable [OF assms]
  have "rpc_phase st' = Accepting \<and> chan_recv (acceptor_chan st') = Blocked \<and> length (rpc_threads st') = length (rpc_threads st)"
    if "(rpc_step checks refused)\<^sup>*\<^sup>* st st'" and "rpc_orphaned st" for st'
    using rpc_orphaned_forever [OF that inv] orphaned_recv_blocks by (auto simp: rpc_orphaned_def)
  moreover have "rpc_phase st = Accepting \<longrightarrow> chan_recv (acceptor_chan st) \<noteq> Disconnected"
    using inv by (simp add: chan_inv_def chan_simps)
  ultimately show ?thesis using inv unfolding chan_inv_def allowed_phases_def rpc_orphaned_def RPC_drop_blocks by blast
qed

text \<open>A server whose acceptor cannot bind its address.\<close>

definition ex_unbound :: rpc_state where
  "ex_unbound = acceptor_panics (rpc_init\<lparr>rpc_acceptor := Binding, rpc_phase := Accepting\<rparr>)"

lemma ex_unbound_reachable: "(rpc_step checks refused)\<^sup>*\<^sup>* rpc_init ex_unbound"
proof -
  have "rpc_step checks refused rpc_init (rpc_init\<lparr>rpc_acceptor := Binding, rpc_phase := Accepting\<rparr>)"
    by (rule rpc_launch) (simp add: rpc_init_def)
  moreover have "rpc_step checks refused (rpc_init\<lparr>rpc_acceptor := Binding, rpc_phase := Accepting\<rparr>) ex_unbound"
    unfolding ex_unbound_def by (rule acceptor_bind_panic) simp
  ultimately show ?thesis by (metis (no_types, lifting) converse_rtranclp_into_rtranclp r_into_rtranclp)
qed

theorem rpc_never_stops_witness:
  "(rpc_step True True)\<^sup>*\<^sup>* rpc_init ex_unbound \<and> rpc_acceptor ex_unbound = Acceptor_dead \<and>
   {st'. (rpc_step True True)\<^sup>*\<^sup>* ex_unbound st'} \<subseteq> {st'. rpc_phase st' = Accepting \<and> rpc_threads st' = []} \<and> RPC_drop = None"
proof -
  have "rpc_phase ex_unbound = Accepting" "rpc_acceptor ex_unbound = Acceptor_dead" "rpc_spawned ex_unbound = None"
    "sc_queue (acceptor_chan ex_unbound) = []" "rpc_threads ex_unbound = []"
    by (simp_all add: ex_unbound_def rpc_ends rpc_init_def start_acceptor_def chan_simps)
  with rpc_never_stops [OF ex_unbound_reachable, of True True] ex_unbound_reachable show ?thesis by auto
qed

text \<open>
  Nor would a \<open>None\<close> help while a connection is ending: the server thread holds the lock of the table
  of handles while it joins, the thread of the connection waits for that lock to remove its handle.
\<close>

lemma rpc_join_deadlock:
  assumes "(rpc_step checks refused)\<^sup>*\<^sup>* st st'" and "rpc_phase st = Joining is" and "n \<in> set is"
    and "n < length (rpc_threads st)" and "snd (rpc_threads st ! n) = Leaving" and "rpc_spawned st = None"
  shows "\<exists>is'. rpc_phase st' = Joining is' \<and> n \<in> set is' \<and> n < length (rpc_threads st') \<and>
           snd (rpc_threads st' ! n) = Leaving \<and> rpc_spawned st' = None"
  using assms
proof (induction rule: rtranclp_induct)
  case (step y z)
  then obtain is' where y: "rpc_phase y = Joining is'" "n \<in> set is'" "n < length (rpc_threads y)"
    "snd (rpc_threads y ! n) = Leaving" "rpc_spawned y = None" by blast
  from step(2) y show ?case by (cases rule: rpc_stepE) (auto simp: rpc_ends nth_list_update)
qed blast

section \<open>The tables\<close>

text \<open>
  What the tables hold as long as no two connections have got the same \<open>handle_id\<close>: those of the first
  \<open>2 ^ 32\<close> are different, later ones replace the entries of earlier ones.
\<close>

definition rpc_inv :: "rpc_state \<Rightarrow> bool" where
  "rpc_inv st \<longleftrightarrow>
     (rpc_phase st \<in> {Launching, Accepting} \<longrightarrow> handle_count st = of_nat (length (rpc_threads st))) \<and>
     (\<forall>n < length (rpc_threads st). fst (rpc_threads st ! n) = of_nat n) \<and>
     (\<forall>i n. rpc_spawned st = Some (i, n) \<longrightarrow> i = of_nat n \<and> Suc n = length (rpc_threads st)) \<and>
     (length (rpc_threads st) \<le> 2 ^ 32 \<longrightarrow>
       (\<forall>i. rpc_senders st i \<noteq> None \<longrightarrow> unat i < length (rpc_threads st)) \<and>
       (\<forall>n < length (rpc_threads st).
          rpc_senders st (of_nat n) = (if snd (rpc_threads st ! n) \<in> {Running, Panicked} then Some n else None) \<and>
          (snd (rpc_threads st ! n) \<noteq> Ended \<longrightarrow> rpc_spawned st = Some (of_nat n, n) \<or> rpc_handles st (of_nat n) = Some n)))"

lemma handle_id_unat: "n < 2 ^ 32 \<Longrightarrow> unat (of_nat n :: 32 word) = n"
  by (simp add: unsigned_of_nat take_bit_nat_eq_self)

lemma handle_id_inj: "m < 2 ^ 32 \<Longrightarrow> n < 2 ^ 32 \<Longrightarrow> (of_nat m :: 32 word) = of_nat n \<longleftrightarrow> m = n"
  by (metis handle_id_unat)

lemma rpc_inv_accept:
  assumes "rpc_inv st" and "rpc_spawned st = None" and "rpc_phase st = Accepting"
  shows "rpc_inv (st\<lparr>acceptor_chan := ch, handle_count := handle_count st + 1,
       rpc_spawned := Some (handle_count st, length (rpc_threads st)),
       rpc_threads := rpc_threads st @ [(handle_count st, Starting)]\<rparr>)"
proof -
  have "rpc_senders st (of_nat (length (rpc_threads st))) = None" if "length (rpc_threads st) < 2 ^ 32"
    using assms(1) that handle_id_unat [OF that] unfolding rpc_inv_def by (metis less_imp_le_nat less_irrefl)
  with assms show ?thesis
    by (auto simp: rpc_inv_def nth_append less_Suc_eq all_conj_distrib add.commute)
qed

lemma rpc_inv_peer:
  assumes "rpc_inv st" and "n < length (rpc_threads st)" and "rpc_threads st ! n = (i, p)" and "p \<noteq> Ended"
    and st': "handle_count st' = handle_count st" "rpc_phase st' = rpc_phase st" "rpc_spawned st' = rpc_spawned st"
      "rpc_threads st' = (rpc_threads st)[n := (i, p')]"
      "\<And>j. j \<noteq> i \<Longrightarrow> rpc_senders st' j = rpc_senders st j" "\<And>j. j \<noteq> i \<Longrightarrow> rpc_handles st' j = rpc_handles st j"
      "length (rpc_threads st) \<le> 2 ^ 32 \<Longrightarrow> rpc_senders st' i = (if p' \<in> {Running, Panicked} then Some n else None)"
      "p' \<noteq> Ended \<Longrightarrow> rpc_handles st' i = rpc_handles st i"
  shows "rpc_inv st'"
proof -
  have i: "i = of_nat n" using assms(1-3) unfolding rpc_inv_def by (metis fst_conv)
  have p: "snd (rpc_threads st ! n) \<noteq> Ended" using assms(3,4) by simp
  have len: "length (rpc_threads st') = length (rpc_threads st)" using st'(4) by simp
  have "rpc_senders st' (of_nat k) = (if snd (rpc_threads st' ! k) \<in> {Running, Panicked} then Some k else None) \<and>
      (snd (rpc_threads st' ! k) \<noteq> Ended \<longrightarrow> rpc_spawned st' = Some (of_nat k, k) \<or> rpc_handles st' (of_nat k) = Some k)"
    if "length (rpc_threads st) \<le> 2 ^ 32" "k < length (rpc_threads st)" for k
  proof (cases "k = n")
    case True
    then show ?thesis using assms(1,2) p st'(3,4,7,8) that unfolding rpc_inv_def i by auto
  next
    case False
    then have "(of_nat k :: 32 word) \<noteq> i" using i that assms(2) handle_id_inj [of k n] by auto
    with False show ?thesis using assms(1) st'(3-6) that unfolding rpc_inv_def by auto
  qed
  moreover have "unat j < length (rpc_threads st)" if "length (rpc_threads st) \<le> 2 ^ 32" "rpc_senders st' j \<noteq> None" for j
    using that st'(5) [of j] assms(1,2) handle_id_unat [of n] i unfolding rpc_inv_def by (cases "j = i") auto
  ultimately show ?thesis
    using assms(1,2) st'(1-4) i unfolding rpc_inv_def len by (auto simp: nth_list_update)
qed

lemma rpc_inv_step:
  assumes "rpc_step checks refused st st'" and "chan_inv checks refused st" and "rpc_inv st"
  shows "rpc_inv st'"
  using assms
proof (cases rule: rpc_stepE)
  case rpc_accept
  then show ?thesis using rpc_inv_accept assms(3) by blast
next
  case (rpc_store handle_id n)
  with assms(3) show ?thesis by (auto simp: rpc_inv_def handle_id_inj)
next
  case (peer_enter n handle_id)
  show ?thesis by (rule rpc_inv_peer [where p' = Running, OF assms(3) peer_enter(2,3)]) (simp_all add: peer_enter(1))
next
  case (peer_leave n handle_id)
  show ?thesis by (rule rpc_inv_peer [where p' = Leaving, OF assms(3) peer_leave(2,3)]) (simp_all add: peer_leave(1))
next
  case (peer_forget n handle_id)
  have "rpc_senders st handle_id = None" if "length (rpc_threads st) \<le> 2 ^ 32"
    using assms(3) that peer_forget(2,3) unfolding rpc_inv_def by (metis fst_conv snd_conv insert_iff peer_phase.distinct empty_iff)
  then show ?thesis by (intro rpc_inv_peer [where p' = Ended, OF assms(3) peer_forget(2,3)]) (simp_all add: peer_forget(1))
next
  case (peer_panic n handle_id)
  have "rpc_senders st handle_id = Some n" if "length (rpc_threads st) \<le> 2 ^ 32"
    using assms(3) that peer_panic(2,3) unfolding rpc_inv_def by (metis fst_conv snd_conv insert_iff)
  then show ?thesis by (intro rpc_inv_peer [where p' = Panicked, OF assms(3) peer_panic(2,3)]) (simp_all add: peer_panic(1))
qed (auto simp: rpc_inv_def chan_inv_def allowed_phases_def rpc_ends split: if_splits)

lemma rpc_inv_reachable:
  assumes "(rpc_step checks refused)\<^sup>*\<^sup>* rpc_init st"
  shows "rpc_inv st"
  using assms
proof (induction rule: rtranclp_induct)
  case base
  show ?case by (simp add: rpc_inv_def rpc_init_def)
qed (use chan_inv_reachable rpc_inv_step in blast)

text \<open>
  The tables of the server. Under every schedule of up to \<open>2 ^ 32\<close> connections the table of senders holds exactly the
  connections that run (or whose thread panicked, which nothing removes), and every thread of a connection that
  has not ended can be joined: its handle is stored, or is about to be stored by the accepting thread.
\<close>

lemma rpc_tables_invariant:
  assumes "(rpc_step checks refused)\<^sup>*\<^sup>* rpc_init st" and "length (rpc_threads st) \<le> 2 ^ 32"
    and "n < length (rpc_threads st)"
  shows "rpc_senders st (of_nat n) = (if snd (rpc_threads st ! n) \<in> {Running, Panicked} then Some n else None) \<and>
         (snd (rpc_threads st ! n) \<noteq> Ended \<longrightarrow> rpc_spawned st = Some (of_nat n, n) \<or> rpc_handles st (of_nat n) = Some n)"
  using rpc_inv_reachable [OF assms(1)] assms(2,3) by (simp add: rpc_inv_def)

section \<open>Handles that are never removed\<close>

text \<open>The table of handles after \<open>n\<close> connections of which none was removed.\<close>

definition first_handles :: "nat \<Rightarrow> 32 word \<rightharpoonup> nat" where
  "first_handles n = (\<lambda>i. if unat i < n then Some (unat i) else None)"

lemma first_handles_simps:
  "first_handles 0 = Map.empty"
  "n < 2 ^ 32 \<Longrightarrow> (first_handles n)(of_nat n \<mapsto> n) = first_handles (Suc n)"
  "n < 2 ^ 32 \<Longrightarrow> (first_handles n)(of_nat n := None) = first_handles n"
proof -
  show "(first_handles n)(of_nat n \<mapsto> n) = first_handles (Suc n)" if "n < 2 ^ 32"
  proof
    fix i :: "32 word"
    show "((first_handles n)(of_nat n \<mapsto> n)) i = first_handles (Suc n) i"
      using handle_id_unat [OF that] by (cases "unat i = n") (auto simp: first_handles_def less_Suc_eq)
  qed
  show "(first_handles n)(of_nat n := None) = first_handles n" if "n < 2 ^ 32"
    using handle_id_unat [OF that] by (auto simp: first_handles_def fun_eq_iff)
qed (simp add: first_handles_def)

text \<open>The server after \<open>n\<close> connections that all ended before their handle was stored.\<close>

definition leaked_state :: "nat \<Rightarrow> rpc_state" where
  "leaked_state n = rpc_init\<lparr>rpc_acceptor := Listening, rpc_phase := Accepting, handle_count := of_nat n,
     rpc_threads := map (\<lambda>k. (of_nat k, Ended)) [0..<n], rpc_handles := first_handles n\<rparr>"

lemma rpc_leak_one:
  assumes "n < 2 ^ 31 - 1"
  shows "(rpc_step checks refused)\<^sup>*\<^sup>* (leaked_state n) (leaked_state (Suc n))"
proof -
  let ?i = "of_nat n :: 32 word" and ?ts = "map (\<lambda>k. (of_nat k, Ended)) [0..<n] :: (32 word \<times> peer_phase) list"
  let ?st0 = "(leaked_state n)\<lparr>acceptor_chan := start_acceptor\<lparr>sc_queue := [Some 0]\<rparr>\<rparr>"
  let ?st1 = "(leaked_state n)\<lparr>handle_count := of_nat (Suc n), rpc_spawned := Some (?i, n), rpc_threads := ?ts @ [(?i, Starting)]\<rparr>"
  let ?st2 = "?st1\<lparr>rpc_senders := [?i \<mapsto> n], rpc_threads := ?ts @ [(?i, Running)]\<rparr>"
  let ?st3 = "?st2\<lparr>rpc_senders := Map.empty, rpc_threads := ?ts @ [(?i, Leaving)]\<rparr>"
  let ?st4 = "?st3\<lparr>rpc_threads := ?ts @ [(?i, Ended)]\<rparr>"
  have n: "n < 2 ^ 32" "sint ?i \<noteq> 2147483647"
    using assms by (auto simp: signed_of_nat signed_take_bit_int_eq_self)
  note facts = leaked_state_def rpc_init_def start_acceptor_def chan_simps chan_full_def nth_append list_update_append
    first_handles_simps(2,3) [OF n(1)] n(2) add.commute
  have "rpc_step checks refused (leaked_state n) ?st0"
    by (rule acceptor_send [where addr = 0]) (simp_all add: facts)
  moreover have "rpc_step checks refused ?st0 ?st1"
    using rpc_accept [of ?st0 0 start_acceptor checks refused] by (simp add: facts)
  moreover have "rpc_step checks refused ?st1 ?st2"
    using peer_enter [of n ?st1 ?i checks refused] by (simp add: facts)
  moreover have "rpc_step checks refused ?st2 ?st3"
    using peer_leave [of n ?st2 ?i checks refused] by (simp add: facts)
  moreover have "rpc_step checks refused ?st3 ?st4"
    using peer_forget [of n ?st3 ?i checks refused] by (simp add: facts)
  moreover have "rpc_step checks refused ?st4 (leaked_state (Suc n))"
    using rpc_store [of ?st4 ?i n checks refused] by (simp add: facts)
  ultimately show ?thesis by (metis (no_types, lifting) converse_rtranclp_into_rtranclp rtranclp.rtrancl_refl)
qed

text \<open>
  Handles can pile up. For any number of connections there is a schedule after which no connection
  is left and yet the table holds the handle of every one of them: each thread removed its handle before
  the accepting thread stored it, and nothing removes it later.
\<close>

lemma rpc_handles_leak:
  assumes "n < 2 ^ 31"
  shows "\<exists>st. (rpc_step checks refused)\<^sup>*\<^sup>* rpc_init st \<and> length (rpc_threads st) = n \<and>
              snd ` set (rpc_threads st) \<subseteq> {Ended} \<and> rpc_senders st = Map.empty \<and>
              rpc_spawned st = None \<and> (\<forall>k < n. rpc_handles st (of_nat k) = Some k)"
proof -
  have "(rpc_step checks refused)\<^sup>*\<^sup>* rpc_init (leaked_state n)"
    using assms
  proof (induction n)
    case 0
    let ?st = "rpc_init\<lparr>rpc_acceptor := Binding, rpc_phase := Accepting\<rparr>"
    have "rpc_step checks refused rpc_init ?st" by (rule rpc_launch) (simp add: rpc_init_def)
    moreover have "rpc_step checks refused ?st (leaked_state 0)"
      using acceptor_bind [of ?st checks refused] by (simp add: leaked_state_def rpc_init_def first_handles_simps)
    ultimately show ?case by (metis (no_types, lifting) converse_rtranclp_into_rtranclp r_into_rtranclp)
  next
    case (Suc n)
    then have "(rpc_step checks refused)\<^sup>*\<^sup>* (leaked_state n) (leaked_state (Suc n))" by (intro rpc_leak_one) simp
    with Suc show ?case by (simp add: rtranclp_trans)
  qed
  with assms show ?thesis
    by (intro exI [of _ "leaked_state n"])
      (auto simp: leaked_state_def rpc_init_def first_handles_def handle_id_unat)
qed

end
