(* ===== verification/App.thy ===== *)
theory App
  imports Node_Example Query Bulk Rpc_Server
begin

text \<open>
  \<open>app.rs\<close> and the server of \<open>bin/addrindexrs.rs\<close>: the start of the index (from the database, by
  JSON-RPC or by the bulk import of block files), and the loop that follows the daemon's chain and
  mempool. The several \<open>Daemon\<close> values of the program are connections to one bitcoind; here they
  share one environment, and \<open>reconnect\<close> of a copy is a reconnection in place. The theorems
  compose the components: what the start and every round of the loop leave in the index, the
  database and the tracker, on a node as \<open>Bitcoind\<close> states it, and after an interruption.
\<close>

section \<open>The application\<close>

record ('r, 'e) app =
  app_store :: "'r dbstore"
  app_index :: index
  app_daemon :: "'e daemon"
  app_tip :: hash

definition App_new :: "'e net \<Rightarrow> 'r dbstore \<Rightarrow> index \<Rightarrow> ('e daemon, ('r, 'e) app) prog" where
  "App_new N store index =
     pbind (Daemon_reconnect N) (\<lambda>_ d.
       Some (Ok \<lparr>app_store = store, app_index = index, app_daemon = d, app_tip = null_hash\<rparr>, d))"

definition on_app_daemon :: "('e daemon, 'a) prog \<Rightarrow> (('r, 'e) app, 'a) prog" where
  "on_app_daemon m = (\<lambda>a. map_option (\<lambda>(r, d). (r, a\<lparr>app_daemon := d\<rparr>)) (m (app_daemon a)))"

text \<open>\<open>self.index().update(self.write_store(), &signal)\<close>\<close>

definition App_index_update :: "deps \<Rightarrow> 'e net \<Rightarrow> 'r rocksdb \<Rightarrow> (('r, 'e) app, hash) prog" where
  "App_index_update D N R = (\<lambda>a.
     map_option (\<lambda>(r, st). (r, a\<lparr>app_store := is_store st, app_index := is_index st, app_daemon := is_daemon st\<rparr>))
       (Index_update D (daemon_methods D N) (daemon_poll N) (db_write_store R)
          \<lparr>is_index = app_index a, is_store = app_store a, is_daemon = app_daemon a\<rparr>))"

definition App_update :: "deps \<Rightarrow> 'e net \<Rightarrow> 'r rocksdb \<Rightarrow> (('r, 'e) app, bool) prog" where
  "App_update D N R =
     pbind (on_app_daemon (getbestblockhash D N)) (\<lambda>best a.
       (let new_block = (app_tip a \<noteq> best)
        in if new_block
           then pbind (App_index_update D N R) (\<lambda>tip a. Some (Ok new_block, a\<lparr>app_tip := tip\<rparr>)) a
           else Some (Ok new_block, a)))"

section \<open>The server loop\<close>

text \<open>\<open>sst_rpc\<close>: the RPC server was started.\<close>

record ('r, 'e) server_state =
  sst_app :: "('r, 'e) app"
  sst_tracker :: tracker
  sst_rpc :: bool

definition on_sst_app :: "(('r, 'e) app, 'a) prog \<Rightarrow> (('r, 'e) server_state, 'a) prog" where
  "on_sst_app m = (\<lambda>s. map_option (\<lambda>(r, a). (r, s\<lparr>sst_app := a\<rparr>)) (m (sst_app s)))"

definition update_mempool :: "deps \<Rightarrow> 'e net \<Rightarrow> (hash list \<Rightarrow> hash list) \<Rightarrow> (('r, 'e) server_state, unit) prog" where
  "update_mempool D N iter = (\<lambda>s.
     map_option (\<lambda>(r, (t, d)). (r, s\<lparr>sst_tracker := t, sst_app := (sst_app s)\<lparr>app_daemon := d\<rparr>\<rparr>))
       (Tracker_update D (daemon_methods D N) iter (sst_tracker s, app_daemon (sst_app s))))"

definition server_round :: "deps \<Rightarrow> 'e net \<Rightarrow> 'r rocksdb \<Rightarrow> (hash list \<Rightarrow> hash list) \<Rightarrow>
    (('r, 'e) server_state, unit) prog" where
  "server_round D N R iter =
     pbind (on_sst_app (App_update D N R)) (\<lambda>_.
     pbind (update_mempool D N iter) (\<lambda>_ s.
     Some (Ok (), s\<lparr>sst_rpc := True\<rparr>)))"

text \<open>
  The loop. When a round fails, \<open>?\<close> returns from \<open>run_server\<close> and drops its variables; so does a panic. If
  the RPC server was started, dropping it joins its thread (\<open>RPC_drop\<close>). When the wait of five seconds
  is interrupted, \<open>process::exit\<close> ends the process at once, with status 1; this is the error of the wait here.
\<close>

definition leave_run_server :: "('r, 'e) server_state \<Rightarrow> 'a \<Rightarrow> 'a option" where
  "leave_run_server s x = (if sst_rpc s then Option.bind RPC_drop (\<lambda>_. Some x) else Some x)"

partial_function (option) server_loop :: "deps \<Rightarrow> 'e net \<Rightarrow> 'r rocksdb \<Rightarrow> (hash list \<Rightarrow> hash list) \<Rightarrow>
    ('r, 'e) server_state \<Rightarrow> (unit res \<times> ('r, 'e) server_state) option" where
  "server_loop D N R iter s =
     Option.bind (server_round D N R iter s) (\<lambda>(r, s).
       case r of
         Err x \<Rightarrow> leave_run_server s (Err x, s)
       | Panic p \<Rightarrow> leave_run_server s (Panic p, s)
       | Ok _ \<Rightarrow>
           Option.bind (on_sst_app (on_app_daemon (on_env (wait_secs N 5))) s) (\<lambda>(r, s).
             case r of Ok _ \<Rightarrow> server_loop D N R iter s | Err x \<Rightarrow> Some (Err x, s) | Panic p \<Rightarrow> Some (Panic p, s)))"

declare server_loop.simps [simp del]

section \<open>The start\<close>

text \<open>
  The initial import of \<open>run_server\<close>. The argument \<open>bulk\<close> is \<open>bulk::index_blk_files\<close>, whose runs are
  the step relation of \<open>Bulk\<close>.
\<close>

definition initial_import :: "deps \<Rightarrow> 'e net \<Rightarrow> 'r rocksdb \<Rightarrow> ('r dbstore \<Rightarrow> ('e daemon, 'r dbstore) prog) \<Rightarrow> bool \<Rightarrow>
    index \<Rightarrow> 'r dbstore \<Rightarrow> ('e daemon, index \<times> 'r dbstore) prog" where
  "initial_import D N R bulk jsonrpc_import index store = (\<lambda>d.
     pbind (pret (is_fully_compacted (db_read_store R) store)) (\<lambda>compacted.
       if compacted then pret (Ok (index, store))
       else if jsonrpc_import then (\<lambda>d.
         (case Index_update D (daemon_methods D N) (daemon_poll N) (db_write_store R)
                 \<lparr>is_index = index, is_store = store, is_daemon = d\<rparr> of
            None \<Rightarrow> None
          | Some (Ok _, st) \<Rightarrow>
              Some (bind_res (full_compaction R (is_store st)) (\<lambda>store. Ok (is_index st, store)), is_daemon st)
          | Some (Err e, st) \<Rightarrow> Some (Err e, is_daemon st)
          | Some (Panic p, st) \<Rightarrow> Some (Panic p, is_daemon st)))
       else pbind (bulk store) (\<lambda>store.
            pret (bind_res (full_compaction R store) (\<lambda>store.
                  bind_res (Index_reload D (db_read_store R) store index) (\<lambda>index.
                  Ok (index, store)))))) d)"

definition start_app :: "deps \<Rightarrow> 'e net \<Rightarrow> 'r rocksdb \<Rightarrow> ('r dbstore \<Rightarrow> ('e daemon, 'r dbstore) prog) \<Rightarrow>
    string \<Rightarrow> bool \<Rightarrow> nat \<Rightarrow> ('e daemon, ('r, 'e) app) prog" where
  "start_app D N R bulk db_path jsonrpc_import index_batch_size =
     pbind (pret (db_open R db_path jsonrpc_import)) (\<lambda>store.
     pbind (Index_load D (daemon_methods D N) (db_read_store R) store index_batch_size) (\<lambda>index.
     pbind (initial_import D N R bulk jsonrpc_import index store) (\<lambda>(index, store).
     pbind (pret (db_enable_compaction R store)) (\<lambda>store.
     App_new N store index))))"

text \<open>The server: connect to the daemon, start the application, run the loop.\<close>

definition run_server :: "deps \<Rightarrow> 'e net \<Rightarrow> 'r rocksdb \<Rightarrow> ('r dbstore \<Rightarrow> ('e daemon, 'r dbstore) prog) \<Rightarrow>
    (hash list \<Rightarrow> hash list) \<Rightarrow> string \<Rightarrow> network \<Rightarrow> string \<Rightarrow> bool \<Rightarrow> nat \<Rightarrow> 'e \<Rightarrow> unit res option" where
  "run_server D N R bulk iter daemon_dir network db_path jsonrpc_import index_batch_size e =
     (case Daemon_new N daemon_dir network e of
        None \<Rightarrow> None
      | Some (Err x, _) \<Rightarrow> Some (Err x)
      | Some (Panic p, _) \<Rightarrow> Some (Panic p)
      | Some (Ok d, _) \<Rightarrow>
          (case start_app D N R bulk db_path jsonrpc_import index_batch_size d of
             None \<Rightarrow> None
           | Some (Err x, _) \<Rightarrow> Some (Err x)
           | Some (Panic p, _) \<Rightarrow> Some (Panic p)
           | Some (Ok a, _) \<Rightarrow>
               map_option fst (server_loop D N R iter
                 \<lparr>sst_app = a, sst_tracker = Tracker_new, sst_rpc = False\<rparr>)))"

section \<open>The invariant of the application\<close>

text \<open>
  The index represents the chain \<open>hs\<close>, whose headers are in the database; the database records some
  chain (so that a restart can read it back); the tip last seen is none or the tip of \<open>hs\<close>.
\<close>

definition db_contents :: "('r \<Rightarrow> (bytes, bytes) btree) \<Rightarrow> 'r dbstore \<Rightarrow> (bytes, bytes) btree" where
  "db_contents c s = c (db_handle s)"

definition app_ok :: "deps \<Rightarrow> 'e server \<Rightarrow> ('r \<Rightarrow> (bytes, bytes) btree) \<Rightarrow> ('r, 'e) app \<Rightarrow> block_header list \<Rightarrow> bool" where
  "app_ok D S c a hs \<longleftrightarrow>
     hl_rep D (ix_headers (app_index a)) hs \<and>
     0 < ix_batch_size (app_index a) \<and> ix_batch_size (app_index a) \<le> sv_limit S \<and>
     store_headers D (db_contents c (app_store a)) hs \<and>
     (\<exists>hs0. store_chain D (db_contents c (app_store a)) hs0) \<and>
     (app_tip a = null_hash \<or> app_tip a = chain_tip D null_hash hs)"

lemma store_chain_store_headers: "store_chain D m hs \<Longrightarrow> store_headers D m hs"
  by (simp add: store_chain_def store_headers_def)

lemma longest_common_prefix_same [simp]: "longest_common_prefix xs xs = xs"
  by (induction xs) auto

lemma fork_height_same [simp]: "fork_height hs hs = length hs"
  by (simp add: fork_height_def)

text \<open>Chains with the same tip are the same chain.\<close>

lemma chain_eq_of_tip:
  assumes "valid_chain D hs" and "valid_chain D ns" and "inj_on (bitcoin_hash D) (set hs \<union> set ns)"
    and "hs \<noteq> []" and "ns \<noteq> []" and "bitcoin_hash D (last hs) = bitcoin_hash D (last ns)"
  shows "hs = ns"
proof -
  have "last hs \<in> set hs" "last ns \<in> set ns" using assms(4,5) by simp_all
  then have "last ns = last hs" using assms(3,6) by (metis Un_iff inj_onD)
  then have "ns ! (length ns - 1) = hs ! (length hs - 1)" using assms(4,5) by (simp add: last_conv_nth)
  from shared_block [OF assms(1-3) _ _ this] assms(4,5)
  have "length hs - 1 = length ns - 1" "take (length ns) ns = take (length ns) hs"
    by (auto simp: Suc_diff_1)
  moreover have "length hs = length ns" using calculation(1) assms(4,5) by (cases hs; cases ns) auto
  ultimately show ?thesis by simp
qed

lemma on_app_daemon_Some:
  "m (app_daemon a) = Some (r, d) \<Longrightarrow> on_app_daemon m a = Some (r, a\<lparr>app_daemon := d\<rparr>)"
  by (simp add: on_app_daemon_def)

lemma App_index_update_client:
  assumes "bitcoind D N S" and "daemon_up S (app_daemon a)" and "rocksdb_ok R c" and "app_ok D S c a hs"
    and "nd_blocks (node_of S (app_daemon a)) = bs" and "inj_on (bitcoin_hash D) (set hs \<union> set (headers_of bs))"
    and "indexes D (db_contents c (app_store a)) T"
    and "inj_on (tx_txid D) (fst ` T \<union> (\<Union>b \<in> set bs. set (txdata b)))"
  shows "\<exists>r a'. App_index_update D N R a = Some (r, a') \<and>
           daemon_up S (app_daemon a') \<and> node_of S (app_daemon a') = node_of S (app_daemon a) \<and> app_tip a' = app_tip a \<and>
           (\<exists>hs1. store_chain D (db_contents c (app_store a')) hs1) \<and>
           (case r of
              Ok tip \<Rightarrow> tip = blk_hash D (last bs) \<and> app_ok D S c (a'\<lparr>app_tip := tip\<rparr>) (headers_of bs) \<and>
                indexes D (db_contents c (app_store a')) (foldl (index_block_txs D) T (drop (fork_height hs (headers_of bs)) bs))
            | Err e \<Rightarrow> app_index a' = app_index a \<and> \<not> no_signal N S
            | Panic p \<Rightarrow> False)"
proof -
  let ?st = "\<lparr>is_index = app_index a, is_store = app_store a, is_daemon = app_daemon a\<rparr>"
  let ?k = "fork_height hs (headers_of bs)"
  let ?m = "db_contents c (app_store a)"
  obtain hs0 where ok: "hl_rep D (ix_headers (is_index ?st)) hs" "0 < ix_batch_size (is_index ?st)"
    "ix_batch_size (is_index ?st) \<le> sv_limit S" "store_headers D ?m hs" "store_chain D ?m hs0"
    using assms(4) by (auto simp: app_ok_def)
  obtain r st' j where u:
    "Index_update D (daemon_methods D N) (daemon_poll N) (db_write_store R) ?st = Some (r, st')"
    "daemon_up S (is_daemon st')" "node_of S (is_daemon st') = node_of S (app_daemon a)"
    "db_contents c (is_store st') = put_rows ?m (concat (map (indexed_rows D) (take j (drop ?k bs))))"
    "store_chain D (db_contents c (is_store st')) (if take j (drop ?k bs) = [] then hs0 else headers_of (take (?k + j) bs))"
    "case r of
       Ok tip \<Rightarrow> tip = blk_hash D (last bs) \<and> hl_rep D (ix_headers (is_index st')) (headers_of bs) \<and>
                 ix_batch_size (is_index st') = ix_batch_size (is_index ?st) \<and> length bs \<le> j + ?k
     | Err e \<Rightarrow> is_index st' = is_index ?st \<and> \<not> no_signal N S
     | Panic p \<Rightarrow> False"
    using Index_update_client [of D N S ?st R c hs hs0 bs] assms(1-3,5,6) ok unfolding db_contents_def by auto
  let ?a = "a\<lparr>app_store := is_store st', app_index := is_index st', app_daemon := is_daemon st'\<rparr>"
  have run: "App_index_update D N R a = Some (r, ?a)" using u(1) by (simp add: App_index_update_def)
  have nd: "valid_chain D (headers_of bs)" "bs \<noteq> []"
    using bitcoindD(4) [OF assms(1,2)] assms(5) by (auto simp: node_ok_def)
  have ok_case: "app_ok D S c (?a\<lparr>app_tip := tip\<rparr>) (headers_of bs) \<and>
      indexes D (db_contents c (is_store st')) (foldl (index_block_txs D) T (drop ?k bs))" if r: "r = Ok tip" for tip
  proof -
    have all: "take j (drop ?k bs) = drop ?k bs" "take (?k + j) bs = bs" using u(6) r by auto
    have idx: "indexes D (db_contents c (is_store st')) (foldl (index_block_txs D) T (drop ?k bs))"
      unfolding u(4) all
    proof (rule indexes_index_blocks [OF assms(7)])
      show "bt_sorted ?m" using ok(4) by (simp add: store_headers_def)
      show "inj_on (tx_txid D) (fst ` T \<union> (\<Union>b \<in> set (drop ?k bs). set (txdata b)))"
        by (rule inj_on_subset [OF assms(8)]) (auto dest: in_set_dropD)
    qed
    have "store_headers D (db_contents c (is_store st')) (headers_of bs)"
    proof (cases "drop ?k bs = []")
      case False
      with u(5) all show ?thesis by (auto intro: store_chain_store_headers)
    next
      case True
      have eq: "headers_of bs = take ?k hs"
        using True fork_height_le(2) [of hs "headers_of bs"] take_fork_height [of hs "headers_of bs"]
        by (simp add: headers_of_def)
      have "set (headers_of bs) \<subseteq> set hs" by (subst eq) (rule set_take_subset)
      moreover have "db_contents c (is_store st') = ?m" using u(4) True by (simp add: put_rows_def put_batch_def)
      ultimately show ?thesis using ok(4) by (auto simp: store_headers_def)
    qed
    moreover have "blk_hash D (last bs) = chain_tip D null_hash (headers_of bs)"
      using nd(2) by (simp add: chain_tip_def headers_of_def last_map)
    moreover have "\<exists>hs0. store_chain D (db_contents c (is_store st')) hs0" using u(5) by blast
    ultimately show ?thesis using idx u(6) ok(2,3) r by (simp add: app_ok_def)
  qed
  show ?thesis using run u ok_case by (intro exI [of _ r] exI [of _ ?a]) (cases r; auto)
qed

text \<open>An update of the application either finds the tip it knows or updates the index.\<close>

lemma App_update_client:
  assumes "bitcoind D N S" and "daemon_up S (app_daemon a)" and "rocksdb_ok R c" and "app_ok D S c a hs"
    and "nd_blocks (node_of S (app_daemon a)) = bs" and "inj_on (bitcoin_hash D) (set hs \<union> set (headers_of bs))"
    and "indexes D (db_contents c (app_store a)) T"
    and "inj_on (tx_txid D) (fst ` T \<union> (\<Union>b \<in> set bs. set (txdata b)))"
  shows "\<exists>r a'. App_update D N R a = Some (r, a') \<and>
           daemon_up S (app_daemon a') \<and> node_of S (app_daemon a') = node_of S (app_daemon a) \<and>
           (\<exists>hs1. store_chain D (db_contents c (app_store a')) hs1) \<and>
           (case r of
              Ok new \<Rightarrow> new = (app_tip a \<noteq> blk_hash D (last bs)) \<and>
                app_tip a' = blk_hash D (last bs) \<and> app_ok D S c a' (headers_of bs) \<and>
                indexes D (db_contents c (app_store a')) (foldl (index_block_txs D) T (drop (fork_height hs (headers_of bs)) bs))
            | Err e \<Rightarrow> app_index a' = app_index a \<and> app_tip a' = app_tip a \<and> \<not> no_signal N S
            | Panic p \<Rightarrow> False)"
proof -
  let ?best = "blk_hash D (last bs)"
  obtain d where g: "getbestblockhash D N (app_daemon a) = Some (Ok ?best, d)" "dstays S (app_daemon a) d" "daemon_up S d"
    using getbestblockhash_serves [OF assms(1,2)] assms(5) by blast
  let ?a = "a\<lparr>app_daemon := d\<rparr>"
  have step: "App_update D N R a =
      (if app_tip a \<noteq> ?best
       then pbind (App_index_update D N R) (\<lambda>tip a. Some (Ok True, a\<lparr>app_tip := tip\<rparr>)) ?a
       else Some (Ok False, ?a))"
    using g(1) by (simp add: App_update_def pbind_Ok [OF on_app_daemon_Some])
  have a: "daemon_up S (app_daemon ?a)" "app_ok D S c ?a hs" "nd_blocks (node_of S (app_daemon ?a)) = bs"
    "indexes D (db_contents c (app_store ?a)) T" "node_of S (app_daemon ?a) = node_of S (app_daemon a)"
    using g assms(4,5,7) by (simp_all add: app_ok_def dstays_node)
  have nd: "valid_chain D (headers_of bs)" "bs \<noteq> []"
    using bitcoindD(4) [OF assms(1,2)] assms(5) by (auto simp: node_ok_def)
  have last: "last (headers_of bs) = blk_header (last bs)" "headers_of bs \<noteq> []"
    using nd(2) by (simp_all add: headers_of_def last_map)
  show ?thesis
  proof (cases "app_tip a = ?best")
    case True
    have "?best \<noteq> null_hash" using valid_chain_nonnull [OF nd(1), of "blk_header (last bs)"] nd(2)
      by (simp add: headers_of_def)
    then have tip: "chain_tip D null_hash hs = ?best" "hs \<noteq> []"
      using True assms(4) by (auto simp: app_ok_def chain_tip_def)
    have "valid_chain D hs" using assms(4) by (simp add: app_ok_def hl_rep_def)
    from chain_eq_of_tip [OF this nd(1) assms(6) tip(2) last(2)] tip last(1)
    have hs: "hs = headers_of bs" by (simp add: chain_tip_def)
    then have "fork_height hs (headers_of bs) = length bs" by (simp add: headers_of_def)
    with True hs a step show ?thesis by (auto simp: app_ok_def)
  next
    case False
    from App_index_update_client [OF assms(1) a(1) assms(3) a(2,3) assms(6) a(4) assms(8)] obtain r a' where u:
      "App_index_update D N R ?a = Some (r, a')" "daemon_up S (app_daemon a')"
      "node_of S (app_daemon a') = node_of S (app_daemon ?a)" "app_tip a' = app_tip ?a"
      "\<exists>hs1. store_chain D (db_contents c (app_store a')) hs1"
      "case r of
         Ok tip \<Rightarrow> tip = ?best \<and> app_ok D S c (a'\<lparr>app_tip := tip\<rparr>) (headers_of bs) \<and>
           indexes D (db_contents c (app_store a')) (foldl (index_block_txs D) T (drop (fork_height hs (headers_of bs)) bs))
       | Err e \<Rightarrow> app_index a' = app_index ?a \<and> \<not> no_signal N S
       | Panic p \<Rightarrow> False"
      by blast
    show ?thesis using False u step a(5) by (cases r) (auto simp: pbind_def)
  qed
qed

lemma update_mempool_client:
  assumes "bitcoind D N S" and "daemon_up S (app_daemon (sst_app s))" and "hash_iter_ok iter"
    and "tracker_inv D (sst_tracker s)"
  shows "\<exists>s'. update_mempool D N iter s = Some (Ok (), s') \<and> tracker_inv D (sst_tracker s') \<and>
           fst ` set (tr_items (sst_tracker s')) = tx_txid D ` set (nd_mempool (node_of S (app_daemon (sst_app s')))) \<and>
           snd ` set (tr_items (sst_tracker s')) \<subseteq>
             set (nd_mempool (node_of S (app_daemon (sst_app s)))) \<union> snd ` set (tr_items (sst_tracker s)) \<and>
           daemon_up S (app_daemon (sst_app s')) \<and> dstays S (app_daemon (sst_app s)) (app_daemon (sst_app s')) \<and>
           app_store (sst_app s') = app_store (sst_app s) \<and> app_index (sst_app s') = app_index (sst_app s) \<and>
           app_tip (sst_app s') = app_tip (sst_app s)"
proof -
  let ?d = "app_daemon (sst_app s)"
  let ?pool = "nd_mempool (node_of S ?d)"
  let ?new = "map (tx_txid D) ?pool"
  let ?ids = "iter (filter (\<lambda>x. x \<notin> fst ` set (tr_items (sst_tracker s))) ?new)"
  obtain d1 where g: "getmempooltxids D N ?d = Some (Ok ?new, d1)" "dstays S ?d d1" "daemon_up S d1"
    using getmempooltxids_serves [OF assms(1,2)] by blast
  have ids: "set ?ids \<subseteq> tx_txid D ` set ?pool" using hash_iter_set [OF assms(3)] by auto
  then have "\<forall>x \<in> set ?ids. \<exists>t \<in> set ?pool. x = tx_txid D t" by blast
  then obtain f where f: "\<forall>x \<in> set ?ids. f x \<in> set ?pool \<and> x = tx_txid D (f x)" by metis
  let ?txs = "map f ?ids"
  have txs: "map (tx_txid D) ?txs = ?ids" using f by (simp add: map_idI)
  have len: "length ?txs \<le> sv_limit S"
  proof -
    have "length ?ids = length (filter (\<lambda>x. x \<notin> fst ` set (tr_items (sst_tracker s))) ?new)"
      using assms(3) by (metis hash_iter_ok_def size_mset)
    also have "\<dots> \<le> length ?pool" by (metis length_filter_le length_map)
    finally show ?thesis using bitcoindD(7) [OF assms(1,2)] by simp
  qed
  have "set ?txs \<subseteq> set (nd_mempool (node_of S d1))" using f dstays_node [OF g(2)] by auto
  from gettransactions_serves [OF assms(1) g(3) this len] obtain d2 where t:
    "gettransactions D N ?ids d1 = Some (Ok ?txs, d2)" "dstays S d1 d2" "daemon_up S d2"
    unfolding txs by blast
  have "distinct ?new" using bitcoindD(4) [OF assms(1,2)] by (simp add: node_ok_def)
  from Tracker_update_sync [OF bitcoindD(2) [OF assms(1)] assms(4,3), where api = "daemon_methods D N" and d = ?d,
      OF _ this _ txs, of d1 d2] g t obtain t' where
    "Tracker_update D (daemon_methods D N) iter (sst_tracker s, ?d) = Some (Ok (), (t', d2))" "tracker_inv D t'"
    "fst ` set (tr_items t') = set ?new" "snd ` set (tr_items t') \<subseteq> set ?txs \<union> snd ` set (tr_items (sst_tracker s))"
    by (auto simp: daemon_methods_def)
  moreover have "set ?txs \<subseteq> set ?pool" using f by auto
  ultimately have "snd ` set (tr_items t') \<subseteq> set ?pool \<union> snd ` set (tr_items (sst_tracker s))" by blast
  with \<open>Tracker_update D (daemon_methods D N) iter (sst_tracker s, ?d) = Some (Ok (), (t', d2))\<close> \<open>tracker_inv D t'\<close>
    \<open>fst ` set (tr_items t') = set ?new\<close> g t show ?thesis
    by (auto simp: update_mempool_def dstays_node intro: stays_trans)
qed

section \<open>Starting\<close>

text \<open>
  The successful runs of \<open>bulk::index_blk_files\<close>, under every schedule of its threads. That raising the limit of open
  files may panic first, and how the threads can fail, is in \<open>Bulk_Threads\<close> (\<open>start_import\<close>, \<open>thread_step\<close>), which
  shows that what the threads leave when they succeed is such a run.
\<close>

definition index_blk_files :: "deps \<Rightarrow> 'e net \<Rightarrow> 'r rocksdb \<Rightarrow> (string \<Rightarrow> bytes option) \<Rightarrow> (network \<Rightarrow> u32) \<Rightarrow>
    (string \<Rightarrow> string option list option) \<Rightarrow> nat \<Rightarrow> 'r dbstore \<times> 'e daemon \<Rightarrow> 'r dbstore \<times> 'e daemon \<Rightarrow> bool" where
  "index_blk_files D N R read_file magic glob index_threads = (\<lambda>(store, d) (store', d').
     \<exists>blk_files indexed parser st.
       list_blk_files glob d = Ok blk_files \<and>
       read_indexed_blockhashes D (db_read_store R) store = Ok indexed \<and>
       Parser_new D (daemon_methods D N) (Daemon_magic magic d) indexed d = Some (Ok parser, d') \<and>
       (bulk_step D read_file (p_magic parser) (p_headers parser) (db_write_store R))\<^sup>*\<^sup>*
         (bulk_init blk_files (p_indexed parser) index_threads store) st \<and>
       bulk_done st \<and> bulk_finish D (p_headers parser) (db_write_store R) st = Ok store')"

lemma load_headers_client:
  assumes "bitcoind D N S" and "daemon_up S d" and "nd_blocks (node_of S d) = bs"
    and "inj_on (bitcoin_hash D) (set (headers_of bs))"
  shows "\<exists>hl d'. load_headers D (daemon_methods D N) d = Some (Ok hl, d') \<and> hl_rep D hl (headers_of bs) \<and>
                 dstays S d d' \<and> daemon_up S d'"
proof -
  let ?best = "blk_hash D (last bs)"
  have nd: "valid_chain D (headers_of bs)" "bs \<noteq> []"
    using bitcoindD(4) [OF assms(1,2)] assms(3) by (auto simp: node_ok_def)
  obtain d1 where g: "getbestblockhash D N d = Some (Ok ?best, d1)" "dstays S d d1" "daemon_up S d1"
    using getbestblockhash_serves [OF assms(1,2)] assms(3) by blast
  have bs1: "nd_blocks (node_of S d1) = bs" using dstays_node [OF g(2)] assms(3) by simp
  have k: "fork_height [] (headers_of bs) = 0" by (simp add: fork_height_def)
  obtain d2 where n: "get_new_headers D N hl_empty ?best d1 = Some (Ok (headers_of bs), d2)" "dstays S d1 d2" "daemon_up S d2"
    using get_new_headers_serves [OF assms(1) hl_rep_empty g(3)] assms(4) unfolding bs1 k by auto
  have "?best = chain_tip D null_hash (headers_of bs)"
    using nd(2) by (simp add: chain_tip_def headers_of_def last_map)
  with rebuild_chain [OF nd(1)] obtain hl where
    "bind_res (order D hl_empty (headers_of bs)) (\<lambda>es. apply_headers hl_empty es ?best) = Ok hl" "hl_rep D hl (headers_of bs)"
    by auto
  with g n show ?thesis
    by (auto simp: load_headers_def daemon_methods_def pbind_def intro: stays_trans)
qed

text \<open>The compaction marker is no row of the chain.\<close>

lemma store_headers_same_rows:
  assumes "store_headers D m hs" and "bt_sorted m'" and "\<And>k. k \<noteq> [70] \<Longrightarrow> bt_get m' k = bt_get m k"
  shows "store_headers D m' hs"
proof -
  have "header_rows_ok D m'"
    unfolding header_rows_ok_def
  proof (intro allI impI)
    fix k v assume "bt_get m' k = Some v" and k: "prefix [66] k"
    moreover from k have "k \<noteq> [70]" by auto
    ultimately have "bt_get m k = Some v" using assms(3) by simp
    with k assms(1) show "\<exists>h. k = row_key (block_row D h) \<and> v = row_value (block_row D h)"
      unfolding store_headers_def header_rows_ok_def by blast
  qed
  with assms show ?thesis by (simp add: store_headers_def)
qed

lemma store_chain_same_rows:
  assumes "store_chain D m hs" and "bt_sorted m'" and "\<And>k. k \<noteq> [70] \<Longrightarrow> bt_get m' k = bt_get m k"
  shows "store_chain D m' hs"
  using store_headers_same_rows [OF store_chain_store_headers [OF assms(1)] assms(2,3)] assms(1) assms(3) [of "[76]"]
  by (simp add: store_chain_def store_headers_def)

lemma full_compaction_chain:
  assumes "rocksdb_ok R c" and "store_chain D (db_contents c s) hs"
  shows "\<exists>s'. full_compaction R s = Ok s' \<and> store_chain D (db_contents c s') hs \<and>
              is_fully_compacted (db_read_store R) s' = Ok True"
proof -
  obtain s' where s': "full_compaction R s = Ok s'" "is_fully_compacted (db_read_store R) s' = Ok True"
    "\<And>k. bt_get (c (db_handle s')) k = (if k = [70] then Some [] else bt_get (c (db_handle s)) k)"
    using full_compaction_spec [OF assms(1)] by blast
  moreover have "store_chain D (db_contents c s') hs"
    using assms(1) s'(3) unfolding db_contents_def
    by (intro store_chain_same_rows [OF assms(2) [unfolded db_contents_def]]) (auto simp: rocksdb_ok_def)
  ultimately show ?thesis by blast
qed

lemma enable_compaction_contents:
  assumes "rocksdb_ok R c"
  shows "\<exists>s'. db_enable_compaction R s = Ok s' \<and> db_contents c s' = db_contents c s"
proof (cases "bulk_import (db_opts s)")
  case True
  obtain d where "rdb_set_options R (db_handle s) [(''disable_auto_compactions'', ''false'')] = Some d"
    "c d = c (db_handle s)"
    using assms unfolding rocksdb_ok_def by blast
  with True show ?thesis by (simp add: db_enable_compaction_def db_contents_def)
next
  case False
  then show ?thesis by (simp add: db_enable_compaction_def)
qed

lemma App_new_client:
  assumes "bitcoind D N S" and "daemon_up S d" and "hl_rep D (ix_headers index) hs"
    and "0 < ix_batch_size index" and "ix_batch_size index \<le> sv_limit S"
    and "store_headers D (db_contents c store) hs" and "store_chain D (db_contents c store) hs0"
  shows "\<exists>a d'. App_new N store index d = Some (Ok a, d') \<and> app_ok D S c a hs \<and> app_store a = store \<and>
                daemon_up S (app_daemon a) \<and> dstays S d (app_daemon a)"
proof -
  obtain d' where "Daemon_reconnect N d = Some (Ok (), d')" "dstays S d d'" "daemon_up S d'"
    using Daemon_reconnect_serves [OF bitcoindD(1) [OF assms(1)] assms(2)] by blast
  with assms(3-7) show ?thesis
    by (auto simp: App_new_def pbind_def app_ok_def)
qed

lemma indexes_same_rows:
  assumes "indexes D m T" and "\<And>k. k \<noteq> [70] \<Longrightarrow> bt_get m' k = bt_get m k"
  shows "indexes D m' T"
  unfolding indexes_def
proof (intro allI impI)
  fix k v assume k: "k \<noteq> [] \<and> hd k \<in> {73, 79, 84 :: byte}"
  then have "k \<noteq> [70]" by auto
  with assms(2) have "bt_get m' k = bt_get m k" by simp
  with k assms(1) show "bt_get m' k = Some v \<longleftrightarrow> (\<exists>(t, b) \<in> T. \<lparr>row_key = k, row_value = v\<rparr> \<in> set (tx_rows D t b))"
    by (simp add: indexes_def)
qed

lemma Index_load_client:
  assumes "bitcoind D N S" and "daemon_up S d" and "rocksdb_ok R c" and "store_chain D (db_contents c s) hs"
  shows "\<exists>index d'. Index_load D (daemon_methods D N) (db_read_store R) s n d = Some (Ok index, d') \<and>
           hl_rep D (ix_headers index) hs \<and> ix_batch_size index = n \<and> dstays S d d' \<and> daemon_up S d'"
proof -
  obtain hl where "read_indexed_headers D (db_read_store R) s = Ok hl" "hl_rep D hl hs"
    using db.read_indexed_headers_chain [OF bitcoindD(2) [OF assms(1)] assms(3)] assms(4)
    unfolding db_contents_def by blast
  moreover obtain d' where "Daemon_reconnect N d = Some (Ok (), d')" "dstays S d d'" "daemon_up S d'"
    using Daemon_reconnect_serves [OF bitcoindD(1) [OF assms(1)] assms(2)] by blast
  ultimately show ?thesis by (auto simp: Index_load_def daemon_methods_def pbind_def)
qed

text \<open>The import by JSON-RPC: one update of the index, then the compaction.\<close>

lemma jsonrpc_import_client:
  assumes "bitcoind D N S" and "daemon_up S d" and "rocksdb_ok R c" and "hl_rep D (ix_headers index) hs"
    and "0 < ix_batch_size index" and "ix_batch_size index \<le> sv_limit S" and "store_chain D (db_contents c store) hs"
    and "nd_blocks (node_of S d) = bs" and "inj_on (bitcoin_hash D) (set hs \<union> set (headers_of bs))"
    and "indexes D (db_contents c store) T" and "inj_on (tx_txid D) (fst ` T \<union> (\<Union>b \<in> set bs. set (txdata b)))"
    and "is_fully_compacted (db_read_store R) store = Ok False"
  shows "\<exists>r d'. initial_import D N R bulk True index store d = Some (r, d') \<and> daemon_up S d' \<and> nd_blocks (node_of S d') = bs \<and>
           (case r of
              Ok (index', store') \<Rightarrow> hl_rep D (ix_headers index') (headers_of bs) \<and> ix_batch_size index' \<in> {1..sv_limit S} \<and>
                store_headers D (db_contents c store') (headers_of bs) \<and> (\<exists>hs0. store_chain D (db_contents c store') hs0) \<and>
                indexes D (db_contents c store') (foldl (index_block_txs D) T (drop (fork_height hs (headers_of bs)) bs))
            | Err e \<Rightarrow> \<not> no_signal N S
            | Panic p \<Rightarrow> False)"
proof -
  let ?a = "\<lparr>app_store = store, app_index = index, app_daemon = d, app_tip = null_hash\<rparr>"
  have a: "daemon_up S (app_daemon ?a)" "app_ok D S c ?a hs" "nd_blocks (node_of S (app_daemon ?a)) = bs"
    "indexes D (db_contents c (app_store ?a)) T"
    using assms(2,4-8,10) store_chain_store_headers [OF assms(7)] by (auto simp: app_ok_def)
  from App_index_update_client [OF assms(1) a(1) assms(3) a(2,3) assms(9) a(4) assms(11)] obtain r a' where u:
    "App_index_update D N R ?a = Some (r, a')" "daemon_up S (app_daemon a')" "node_of S (app_daemon a') = node_of S (app_daemon ?a)"
    "case r of
       Ok tip \<Rightarrow> tip = blk_hash D (last bs) \<and> app_ok D S c (a'\<lparr>app_tip := tip\<rparr>) (headers_of bs) \<and>
         indexes D (db_contents c (app_store a')) (foldl (index_block_txs D) T (drop (fork_height hs (headers_of bs)) bs))
     | Err e \<Rightarrow> app_index a' = app_index ?a \<and> \<not> no_signal N S
     | Panic p \<Rightarrow> False"
    by blast
  obtain st where st: "Index_update D (daemon_methods D N) (daemon_poll N) (db_write_store R)
      \<lparr>is_index = index, is_store = store, is_daemon = d\<rparr> = Some (r, st)"
    and a': "app_store a' = is_store st" "app_index a' = is_index st" "app_daemon a' = is_daemon st"
    using u(1) by (auto simp: App_index_update_def)
  show ?thesis
  proof (cases r)
    case (Ok tip)
    have "tip = blk_hash D (last bs) \<and> app_ok D S c (a'\<lparr>app_tip := tip\<rparr>) (headers_of bs) \<and>
         indexes D (db_contents c (app_store a')) (foldl (index_block_txs D) T (drop (fork_height hs (headers_of bs)) bs))"
      using u(4) unfolding Ok res.case .
    then have ok: "app_ok D S c (a'\<lparr>app_tip := tip\<rparr>) (headers_of bs)"
      "indexes D (db_contents c (is_store st)) (foldl (index_block_txs D) T (drop (fork_height hs (headers_of bs)) bs))"
      unfolding a' by blast+
    then have rep: "hl_rep D (ix_headers (is_index st)) (headers_of bs)" "0 < ix_batch_size (is_index st)"
      "ix_batch_size (is_index st) \<le> sv_limit S" "store_headers D (db_contents c (is_store st)) (headers_of bs)"
      "\<exists>hs0. store_chain D (db_contents c (is_store st)) hs0"
      using a' by (simp_all add: app_ok_def)
    obtain s' where s': "full_compaction R (is_store st) = Ok s'"
      "\<And>k. bt_get (db_contents c s') k = (if k = [70] then Some [] else bt_get (db_contents c (is_store st)) k)"
      using full_compaction_spec [OF assms(3)] unfolding db_contents_def by blast
    have sorted: "bt_sorted (db_contents c s')" using assms(3) by (simp add: db_contents_def rocksdb_ok_def)
    have same: "bt_get (db_contents c s') k = bt_get (db_contents c (is_store st)) k" if "k \<noteq> [70]" for k
      using s'(2) that by simp
    have "initial_import D N R bulk True index store d = Some (Ok (is_index st, s'), is_daemon st)"
      using st Ok s'(1) assms(12) by (simp add: initial_import_def)
    moreover have "store_headers D (db_contents c s') (headers_of bs)"
      by (rule store_headers_same_rows [OF rep(4) sorted same])
    moreover have "\<exists>hs0. store_chain D (db_contents c s') hs0"
      using rep(5) store_chain_same_rows [OF _ sorted same] by blast
    moreover note indexes_same_rows [OF ok(2) same]
    ultimately show ?thesis using u(2,3) a(3) a' rep by auto
  next
    case (Err e)
    with st assms(12) u(2-4) a(3) a' show ?thesis by (auto simp: initial_import_def)
  next
    case (Panic p)
    with u(4) show ?thesis by simp
  qed
qed

section \<open>Properties\<close>

text \<open>The closed example: an empty database and the node of \<open>Node_Example\<close> behind two refused requests.\<close>

definition ex_app :: "(memdb, ex_env) app" where
  "ex_app = \<lparr>app_store = mem_store, app_index = \<lparr>ix_headers = hl_empty, ix_batch_size = 1\<rparr>,
     app_daemon = ex_daemon, app_tip = null_hash\<rparr>"

lemma ex_app_facts:
  "daemon_up ex_server (app_daemon ex_app)" "app_ok ex_deps ex_server mem_contents ex_app []"
  "nd_blocks (node_of ex_server (app_daemon ex_app)) = ex_blocks"
  "inj_on (bitcoin_hash ex_deps) (set [] \<union> set (headers_of ex_blocks))"
  "indexes ex_deps (db_contents mem_contents (app_store ex_app)) {}"
  "inj_on (tx_txid ex_deps) (fst ` {} \<union> (\<Union>b \<in> set ex_blocks. set (txdata b)))"
  "store_chain ex_deps (db_contents mem_contents mem_store) []"
proof -
  have m: "db_contents mem_contents mem_store = []" by (simp add: db_contents_def mem_store_def)
  then show chain: "store_chain ex_deps (db_contents mem_contents mem_store) []"
    by (simp add: store_chain_def header_rows_ok_def bt_get_def)
  then show "app_ok ex_deps ex_server mem_contents ex_app []"
    using store_chain_store_headers [OF chain]
    by (auto simp: app_ok_def ex_app_def hl_rep_empty ex_server_simps)
  show "indexes ex_deps (db_contents mem_contents (app_store ex_app)) {}"
    by (simp add: indexes_def ex_app_def m bt_get_def)
  show "inj_on (bitcoin_hash ex_deps) (set [] \<union> set (headers_of ex_blocks))"
    by (simp add: headers_of_def ex_blocks_eq inj_on_def)
  show "inj_on (tx_txid ex_deps) (fst ` {} \<union> (\<Union>b \<in> set ex_blocks. set (txdata b)))"
    by (simp add: ex_blocks_eq)
qed (simp_all add: daemon_up_def ex_app_def ex_daemon_def ex_server_simps ex_node_def)

text \<open>
  C1: An update follows the node. On a node that answers as documented, even if the connection fails
  finitely often, \<open>App::update\<close> returns, never panics, and reports whether the tip is new. When it
  succeeds, the in-memory index represents exactly the node's best chain, whatever part of the old
  chain was reorganised away, the tip is the node's, the database has every header of the chain and
  indexes the transactions of the blocks from the fork on, besides those it indexed before. It fails
  only when a signal comes, and then the index and the tip are as before.
\<close>

theorem app_update_follows:
  assumes "bitcoind D N S" and "daemon_up S (app_daemon a)" and "rocksdb_ok R c" and "app_ok D S c a hs"
    and "nd_blocks (node_of S (app_daemon a)) = bs" and "inj_on (bitcoin_hash D) (set hs \<union> set (headers_of bs))"
    and "indexes D (db_contents c (app_store a)) T"
    and "inj_on (tx_txid D) (fst ` T \<union> (\<Union>b \<in> set bs. set (txdata b)))"
  shows "\<exists>r a'. App_update D N R a = Some (r, a') \<and>
           (case r of
              Ok new \<Rightarrow> new = (app_tip a \<noteq> blk_hash D (last bs)) \<and>
                app_tip a' = blk_hash D (last bs) \<and> app_ok D S c a' (headers_of bs) \<and>
                indexes D (db_contents c (app_store a')) (foldl (index_block_txs D) T (drop (fork_height hs (headers_of bs)) bs))
            | Err e \<Rightarrow> app_index a' = app_index a \<and> app_tip a' = app_tip a \<and> \<not> no_signal N S
            | Panic p \<Rightarrow> False)"
  using App_update_client [OF assms] by blast

theorem app_update_follows_witness:
  "\<exists>a'. App_update ex_deps ex_net mem_rocksdb ex_app = Some (Ok True, a') \<and>
     app_tip a' = mk_hash [2] \<and> app_ok ex_deps ex_server mem_contents a' ex_chain"
proof -
  have facts: "headers_of ex_blocks = ex_chain" "blk_hash ex_deps (last ex_blocks) = mk_hash [2]"
    "app_tip ex_app \<noteq> mk_hash [2]"
    by (simp_all add: headers_of_def ex_blocks_def comp_def ex_app_def ex_chain_def)
  obtain r a' where u: "App_update ex_deps ex_net mem_rocksdb ex_app = Some (r, a')"
    "case r of
       Ok new \<Rightarrow> new = (app_tip ex_app \<noteq> mk_hash [2]) \<and> app_tip a' = mk_hash [2] \<and>
         app_ok ex_deps ex_server mem_contents a' ex_chain \<and>
         indexes ex_deps (db_contents mem_contents (app_store a'))
           (foldl (index_block_txs ex_deps) {} (drop (fork_height [] ex_chain) ex_blocks))
     | Err e \<Rightarrow> app_index a' = app_index ex_app \<and> app_tip a' = app_tip ex_app \<and> \<not> no_signal ex_net ex_server
     | Panic p \<Rightarrow> False"
    using app_update_follows [OF bitcoind_ex ex_app_facts(1) mem_rocksdb_ok ex_app_facts(2-6)] unfolding facts(1,2) by blast
  then show ?thesis using facts(3) no_signal_ex by (cases r) auto
qed

text \<open>
  C14: The database is never left unreadable. However an update ends (completed, or interrupted by a
  signal between two batches), a restart reads a chain back from the database: the header list it
  builds represents a valid chain.
\<close>

theorem update_restart_safe:
  assumes "bitcoind D N S" and "daemon_up S (app_daemon a)" and "rocksdb_ok R c" and "app_ok D S c a hs"
    and "nd_blocks (node_of S (app_daemon a)) = bs" and "inj_on (bitcoin_hash D) (set hs \<union> set (headers_of bs))"
    and "indexes D (db_contents c (app_store a)) T"
    and "inj_on (tx_txid D) (fst ` T \<union> (\<Union>b \<in> set bs. set (txdata b)))"
  shows "\<exists>r a' hs' hl. App_update D N R a = Some (r, a') \<and>
           read_indexed_headers D (db_read_store R) (app_store a') = Ok hl \<and> hl_rep D hl hs'"
proof -
  obtain r a' hs' where "App_update D N R a = Some (r, a')" "store_chain D (c (db_handle (app_store a'))) hs'"
    using App_update_client [OF assms] unfolding db_contents_def by blast
  with db.read_indexed_headers_chain [OF bitcoindD(2) [OF assms(1)] assms(3)] show ?thesis by blast
qed

theorem update_restart_safe_witness:
  "\<exists>r a' hs' hl. App_update ex_deps ex_net mem_rocksdb ex_app = Some (r, a') \<and>
     read_indexed_headers ex_deps (db_read_store mem_rocksdb) (app_store a') = Ok hl \<and> hl_rep ex_deps hl hs'"
  using update_restart_safe [OF bitcoind_ex ex_app_facts(1) mem_rocksdb_ok ex_app_facts(2-6)] .

lemma server_round_client:
  assumes "bitcoind D N S" and "daemon_up S (app_daemon (sst_app s))" and "rocksdb_ok R c" and "app_ok D S c (sst_app s) hs"
    and "nd_blocks (node_of S (app_daemon (sst_app s))) = bs"
    and "inj_on (bitcoin_hash D) (set hs \<union> set (headers_of bs))"
    and "indexes D (db_contents c (app_store (sst_app s))) T"
    and "inj_on (tx_txid D) (fst ` T \<union> (\<Union>b \<in> set bs. set (txdata b)))"
    and "hash_iter_ok iter" and "tracker_inv D (sst_tracker s)"
  shows "\<exists>r s'. server_round D N R iter s = Some (r, s') \<and> \<not> panics r \<and> (no_signal N S \<longrightarrow> is_ok r) \<and>
           (is_ok r \<longrightarrow> app_ok D S c (sst_app s') (headers_of bs) \<and> app_tip (sst_app s') = blk_hash D (last bs) \<and>
              indexes D (db_contents c (app_store (sst_app s')))
                (foldl (index_block_txs D) T (drop (fork_height hs (headers_of bs)) bs)) \<and>
              tracker_inv D (sst_tracker s') \<and>
              fst ` set (tr_items (sst_tracker s')) = tx_txid D ` set (nd_mempool (node_of S (app_daemon (sst_app s)))) \<and>
              snd ` set (tr_items (sst_tracker s')) \<subseteq>
                set (nd_mempool (node_of S (app_daemon (sst_app s)))) \<union> snd ` set (tr_items (sst_tracker s)) \<and> sst_rpc s' \<and>
              daemon_up S (app_daemon (sst_app s')))"
proof -
  from App_update_client [OF assms(1-8)] obtain r a' where u:
    "App_update D N R (sst_app s) = Some (r, a')" "daemon_up S (app_daemon a')"
    "node_of S (app_daemon a') = node_of S (app_daemon (sst_app s))"
    "case r of
       Ok new \<Rightarrow> new = (app_tip (sst_app s) \<noteq> blk_hash D (last bs)) \<and>
         app_tip a' = blk_hash D (last bs) \<and> app_ok D S c a' (headers_of bs) \<and>
         indexes D (db_contents c (app_store a')) (foldl (index_block_txs D) T (drop (fork_height hs (headers_of bs)) bs))
     | Err e \<Rightarrow> app_index a' = app_index (sst_app s) \<and> app_tip a' = app_tip (sst_app s) \<and> \<not> no_signal N S
     | Panic p \<Rightarrow> False"
    by blast
  let ?s = "s\<lparr>sst_app := a'\<rparr>"
  have step: "on_sst_app (App_update D N R) s = Some (r, ?s)" using u(1) by (simp add: on_sst_app_def)
  show ?thesis
  proof (cases r)
    case (Ok new)
    obtain s' where m: "update_mempool D N iter ?s = Some (Ok (), s')" "tracker_inv D (sst_tracker s')"
      "fst ` set (tr_items (sst_tracker s')) = tx_txid D ` set (nd_mempool (node_of S (app_daemon (sst_app s))))"
      "snd ` set (tr_items (sst_tracker s')) \<subseteq>
         set (nd_mempool (node_of S (app_daemon (sst_app s)))) \<union> snd ` set (tr_items (sst_tracker s))"
      and up: "daemon_up S (app_daemon (sst_app s'))" and a: "app_store (sst_app s') = app_store a'" "app_index (sst_app s') = app_index a'" "app_tip (sst_app s') = app_tip a'"
      using update_mempool_client [OF assms(1) _ assms(9), of ?s] u(2,3) assms(10) by (auto simp: dstays_node)
    have "app_ok D S c (sst_app s') (headers_of bs) \<longleftrightarrow> app_ok D S c a' (headers_of bs)"
      by (simp add: app_ok_def a)
    with step m a up u(4) Ok show ?thesis by (auto simp: server_round_def pbind_def app_ok_def)
  next
    case (Err e)
    with step u(4) show ?thesis by (simp add: server_round_def pbind_def)
  next
    case (Panic p)
    with u(4) show ?thesis by simp
  qed
qed

text \<open>
  A round of the server synchronises everything a query reads. A round succeeds unless a
  signal comes, and then the index represents the node's best chain, the database indexes its blocks, the mempool tracker follows the
  node's mempool, its store holds exactly the rows of the tracked transactions, and the RPC server is
  running.
\<close>

lemma server_round_synchronises:
  assumes "bitcoind D N S" and "daemon_up S (app_daemon (sst_app s))" and "rocksdb_ok R c" and "app_ok D S c (sst_app s) hs"
    and "nd_blocks (node_of S (app_daemon (sst_app s))) = bs"
    and "inj_on (bitcoin_hash D) (set hs \<union> set (headers_of bs))"
    and "indexes D (db_contents c (app_store (sst_app s))) T"
    and "inj_on (tx_txid D) (fst ` T \<union> (\<Union>b \<in> set bs. set (txdata b)))"
    and "hash_iter_ok iter" and "tracker_inv D (sst_tracker s)"
  shows "\<exists>r s'. server_round D N R iter s = Some (r, s') \<and> \<not> panics r \<and> (no_signal N S \<longrightarrow> is_ok r) \<and>
           (is_ok r \<longrightarrow> app_ok D S c (sst_app s') (headers_of bs) \<and> app_tip (sst_app s') = blk_hash D (last bs) \<and>
              indexes D (db_contents c (app_store (sst_app s')))
                (foldl (index_block_txs D) T (drop (fork_height hs (headers_of bs)) bs)) \<and>
              tracker_inv D (sst_tracker s') \<and>
              fst ` set (tr_items (sst_tracker s')) =
                tx_txid D ` set (nd_mempool (node_of S (app_daemon (sst_app s)))) \<and> sst_rpc s')"
  using server_round_client [OF assms] by blast

lemma is_fully_compacted_marker:
  assumes "rocksdb_ok R c"
  shows "is_fully_compacted (db_read_store R) s = Ok (bt_get (db_contents c s) [70] \<noteq> None)"
  using full_compaction_spec [OF assms, of s] by (auto simp: db_contents_def)

lemma start_app_steps:
  assumes "rdb_open R (db_open_options \<lparr>opt_path = path, bulk_import = True, low_memory = jsonrpc\<rparr>) path = Some h"
    and "s = \<lparr>db_handle = h, db_opts = \<lparr>opt_path = path, bulk_import = True, low_memory = jsonrpc\<rparr>\<rparr>"
    and "Index_load D (daemon_methods D N) (db_read_store R) s n d = Some (Ok index, d1)"
  shows "start_app D N R bulk path jsonrpc n d =
     pbind (initial_import D N R bulk jsonrpc index s) (\<lambda>(index, store).
     pbind (pret (db_enable_compaction R store)) (\<lambda>store. App_new N store index)) d1"
  using assms by (simp add: start_app_def db_open_def db_open_opts_def pbind_Ok)

text \<open>What is left of the start after the import.\<close>

lemma start_after_import:
  assumes "bitcoind D N S" and "rocksdb_ok R c"
    and "initial_import D N R bulk jsonrpc index s d1 = Some (Ok (index', store'), d2)" and "daemon_up S d2"
    and "hl_rep D (ix_headers index') hs" and "0 < ix_batch_size index'" and "ix_batch_size index' \<le> sv_limit S"
    and "store_headers D (db_contents c store') hs" and "store_chain D (db_contents c store') hs0"
  shows "\<exists>a d3. pbind (initial_import D N R bulk jsonrpc index s) (\<lambda>(index, store).
       pbind (pret (db_enable_compaction R store)) (\<lambda>store. App_new N store index)) d1 = Some (Ok a, d3) \<and>
     app_ok D S c a hs \<and> db_contents c (app_store a) = db_contents c store' \<and> daemon_up S (app_daemon a)"
proof -
  obtain s' where s': "db_enable_compaction R store' = Ok s'" "db_contents c s' = db_contents c store'"
    using enable_compaction_contents [OF assms(2)] by blast
  obtain a d3 where "App_new N s' index' d2 = Some (Ok a, d3)" "app_ok D S c a hs" "app_store a = s'" "daemon_up S (app_daemon a)"
    using App_new_client [OF assms(1,4-7), of c s' hs0] assms(8,9) s'(2) by auto
  with assms(3) s' show ?thesis by (auto simp: pbind_Ok)
qed

lemma start_app_client:
  assumes "bitcoind D N S" and "daemon_up S d" and "rocksdb_ok R c"
    and "rdb_open R (db_open_options \<lparr>opt_path = path, bulk_import = True, low_memory = jsonrpc\<rparr>) path = Some h"
    and "store_chain D (c h) hs" and "0 < n" and "n \<le> sv_limit S" and "nd_blocks (node_of S d) = bs"
    and "inj_on (bitcoin_hash D) (set hs \<union> set (headers_of bs))" and "indexes D (c h) T"
    and "inj_on (tx_txid D) (fst ` T \<union> (\<Union>b \<in> set bs. set (txdata b)))"
    and "bt_get (c h) [70] \<noteq> None \<or> jsonrpc"
  shows "\<exists>r d'. start_app D N R bulk path jsonrpc n d = Some (r, d') \<and>
           (case r of
              Ok a \<Rightarrow> daemon_up S (app_daemon a) \<and>
                (if bt_get (c h) [70] \<noteq> None
                 then app_ok D S c a hs \<and> indexes D (db_contents c (app_store a)) T
                 else app_ok D S c a (headers_of bs) \<and>
                   indexes D (db_contents c (app_store a)) (foldl (index_block_txs D) T (drop (fork_height hs (headers_of bs)) bs)))
            | Err e \<Rightarrow> bt_get (c h) [70] = None \<and> \<not> no_signal N S
            | Panic p \<Rightarrow> False)"
proof -
  let ?s = "\<lparr>db_handle = h, db_opts = \<lparr>opt_path = path, bulk_import = True, low_memory = jsonrpc\<rparr>\<rparr>"
  have m: "db_contents c ?s = c h" by (simp add: db_contents_def)
  obtain index d1 where load: "Index_load D (daemon_methods D N) (db_read_store R) ?s n d = Some (Ok index, d1)"
    "hl_rep D (ix_headers index) hs" "ix_batch_size index = n" "dstays S d d1" "daemon_up S d1"
    using Index_load_client [OF assms(1-3), of ?s hs n] assms(5) m by auto
  note start = start_app_steps [OF assms(4) refl load(1), of bulk]
  note marker = is_fully_compacted_marker [OF assms(3), of ?s, unfolded m]
  have bs1: "nd_blocks (node_of S d1) = bs" using dstays_node [OF load(4)] assms(8) by simp
  have pre: "0 < ix_batch_size index" "ix_batch_size index \<le> sv_limit S" "store_chain D (db_contents c ?s) hs"
    "indexes D (db_contents c ?s) T" "store_headers D (db_contents c ?s) hs"
    using load(3) assms(5-7,10) m store_chain_store_headers [OF assms(5)] by simp_all
  show ?thesis
  proof (cases "bt_get (c h) [70] = None")
    case False
    then have "initial_import D N R bulk jsonrpc index ?s d1 = Some (Ok (index, ?s), d1)"
      using marker by (simp add: initial_import_def)
    from start_after_import [OF assms(1,3) this load(5,2) pre(1,2,5,3)] show ?thesis
      using start False pre(4) by auto
  next
    case True
    then have js: "jsonrpc" and nc: "is_fully_compacted (db_read_store R) ?s = Ok False" using assms(12) marker by auto
    from jsonrpc_import_client [OF assms(1) load(5) assms(3) load(2) pre(1-3) bs1 assms(9) pre(4) assms(11) nc, of bulk]
    obtain r d2 where i: "initial_import D N R bulk jsonrpc index ?s d1 = Some (r, d2)" "daemon_up S d2"
      "case r of
         Ok (index', store') \<Rightarrow> hl_rep D (ix_headers index') (headers_of bs) \<and> ix_batch_size index' \<in> {1..sv_limit S} \<and>
           store_headers D (db_contents c store') (headers_of bs) \<and> (\<exists>hs0. store_chain D (db_contents c store') hs0) \<and>
           indexes D (db_contents c store') (foldl (index_block_txs D) T (drop (fork_height hs (headers_of bs)) bs))
       | Err e \<Rightarrow> \<not> no_signal N S
       | Panic p \<Rightarrow> False"
      using js by auto
    show ?thesis
    proof (cases r)
      case (Ok p)
      then obtain index' store' hs0 where p: "r = Ok (index', store')" and ok: "hl_rep D (ix_headers index') (headers_of bs)"
        "0 < ix_batch_size index'" "ix_batch_size index' \<le> sv_limit S"
        "store_headers D (db_contents c store') (headers_of bs)" "store_chain D (db_contents c store') hs0"
        "indexes D (db_contents c store') (foldl (index_block_txs D) T (drop (fork_height hs (headers_of bs)) bs))"
        using i(3) by (cases p) auto
      from start_after_import [OF assms(1,3) i(1) [unfolded p] i(2) ok(1-5)] start True ok(6) show ?thesis by auto
    qed (use start i(1,3) True in \<open>auto simp: pbind_Err\<close>)
  qed
qed

text \<open>
  C15: The start. Opening a database that records the chain \<open>hs\<close> of a previous run (or nothing) and
  indexes the transactions \<open>T\<close>: when it is compacted, the application starts with exactly that chain;
  otherwise, importing by JSON-RPC, it starts with the node's best chain and the transactions of its
  blocks indexed. It never panics; it fails only when a signal interrupts the import.
\<close>

theorem start_app_ok:
  assumes "bitcoind D N S" and "daemon_up S d" and "rocksdb_ok R c"
    and "rdb_open R (db_open_options \<lparr>opt_path = path, bulk_import = True, low_memory = jsonrpc\<rparr>) path = Some h"
    and "store_chain D (c h) hs" and "0 < n" and "n \<le> sv_limit S" and "nd_blocks (node_of S d) = bs"
    and "inj_on (bitcoin_hash D) (set hs \<union> set (headers_of bs))" and "indexes D (c h) T"
    and "inj_on (tx_txid D) (fst ` T \<union> (\<Union>b \<in> set bs. set (txdata b)))"
    and "bt_get (c h) [70] \<noteq> None \<or> jsonrpc"
  shows "\<exists>r d'. start_app D N R bulk path jsonrpc n d = Some (r, d') \<and>
           (case r of
              Ok a \<Rightarrow>
                (if bt_get (c h) [70] \<noteq> None
                 then app_ok D S c a hs \<and> indexes D (db_contents c (app_store a)) T
                 else app_ok D S c a (headers_of bs) \<and>
                   indexes D (db_contents c (app_store a)) (foldl (index_block_txs D) T (drop (fork_height hs (headers_of bs)) bs)))
            | Err e \<Rightarrow> bt_get (c h) [70] = None \<and> \<not> no_signal N S
            | Panic p \<Rightarrow> False)"
  using start_app_client [OF assms, of bulk] by (fastforce split: res.splits)

theorem start_app_ok_witness:
  "\<exists>a d'. start_app ex_deps ex_net mem_rocksdb (\<lambda>_ _. None) '''' True 1 ex_daemon = Some (Ok a, d') \<and>
     app_ok ex_deps ex_server mem_contents a ex_chain"
proof -
  have "headers_of ex_blocks = ex_chain" by (simp add: headers_of_def ex_blocks_def comp_def)
  moreover have "rdb_open mem_rocksdb opts p = Some mem_empty" for opts p by (simp add: mem_rocksdb_def)
  moreover have "daemon_up ex_server ex_daemon" "nd_blocks (node_of ex_server ex_daemon) = ex_blocks"
    using ex_app_facts(1,3) by (simp_all add: ex_app_def)
  moreover have "mem_contents mem_empty = db_contents mem_contents mem_store" "app_store ex_app = mem_store"
    by (simp_all add: db_contents_def mem_store_def ex_app_def)
  moreover have "bt_get (mem_contents mem_empty) [70] = None" by (simp add: bt_get_def)
  ultimately show ?thesis
    using start_app_ok [OF bitcoind_ex _ mem_rocksdb_ok, of ex_daemon "''''" True mem_empty "[]" 1 ex_blocks "{}" "\<lambda>_ _. None"]
      ex_app_facts(4-7) no_signal_ex by (fastforce simp: ex_server_simps split: res.splits)
qed

lemma bulk_finish_genesis:
  assumes "bulk_finish D headers WS st = Ok s'" and "hl_rep D headers hs"
  shows "hs \<noteq> [] \<and> bitcoin_hash D (hd hs) \<in> bs_indexed st"
proof -
  have "takeWhile (\<lambda>h. he_hash h \<in> bs_indexed st) (hl_headers headers) \<noteq> []"
    using assms(1) by (auto simp: bulk_finish_def last_indexed_row_def Let_def res_simps split: if_splits)
  moreover have "hl_headers headers = chain_entries D 0 hs" using assms(2) by (simp add: hl_rep_def)
  ultimately show ?thesis by (cases hs) (auto simp: chain_entries_Cons split: if_splits)
qed

text \<open>
  The start by bulk import. When the import of the block files succeeds, under any schedule of its
  threads, the index afterwards represents a non-empty initial part of the node's best chain, the
  database records exactly that part and is marked as compacted. The rounds of the server then
  continue from there.
\<close>

lemma bulk_start_ok:
  assumes "bitcoind D N S" and "daemon_up S d" and "rocksdb_ok R c" and "nd_blocks (node_of S d) = bs"
    and "index_blk_files D N R read_file magic glob threads (store, d) (store', d')"
    and "inj_on (bitcoin_hash D) U" and "set (headers_of bs) \<subseteq> U"
    and "\<And>files. list_blk_files glob d = Ok files \<Longrightarrow> files_in D read_file (magic (d_network d)) U files"
    and "header_keys_in D U (db_contents c store)"
    and "bulk store d = Some (Ok store', d')" and "bt_get (db_contents c store) [70] = None"
  shows "\<exists>index' store'' hs. initial_import D N R bulk False index store d = Some (Ok (index', store''), d') \<and>
           daemon_up S d' \<and> prefix hs (headers_of bs) \<and> hs \<noteq> [] \<and> hl_rep D (ix_headers index') hs \<and>
           store_chain D (db_contents c store'') hs \<and> is_fully_compacted (db_read_store R) store'' = Ok True"
proof -
  obtain files indexed parser st where b: "list_blk_files glob d = Ok files"
    "read_indexed_blockhashes D (db_read_store R) store = Ok indexed"
    "Parser_new D (daemon_methods D N) (Daemon_magic magic d) indexed d = Some (Ok parser, d')"
    "(bulk_step D read_file (p_magic parser) (p_headers parser) (db_write_store R))\<^sup>*\<^sup>*
       (bulk_init files (p_indexed parser) threads store) st"
    "bulk_done st" "bulk_finish D (p_headers parser) (db_write_store R) st = Ok store'"
    using assms(5) by (auto simp: index_blk_files_def)
  have "inj_on (bitcoin_hash D) (set (headers_of bs))" using assms(6,7) by (rule inj_on_subset)
  from load_headers_client [OF assms(1,2,4) this] obtain hl where h:
    "load_headers D (daemon_methods D N) d = Some (Ok hl, d')" "hl_rep D hl (headers_of bs)" "daemon_up S d'"
    using b(3) by (auto simp: Parser_new_def pbind_def)
  then have parser: "p_magic parser = magic (d_network d)" "p_headers parser = hl" "p_indexed parser = indexed"
    using b(3) by (auto simp: Parser_new_def pbind_def Daemon_magic_def)
  note fin = b(6) [unfolded parser] and gen = bulk_finish_genesis [OF b(6) [unfolded parser] h(2)]
  let ?hs = "takeWhile (\<lambda>h. bitcoin_hash D h \<in> bs_indexed st) (headers_of bs)"
  have chain: "store_chain D (db_contents c store') ?hs"
    using bulk_import_chain [OF bitcoindD(2) [OF assms(1)] assms(3,6) h(2) assms(7) assms(8) [OF b(1)]
        assms(9) [unfolded db_contents_def] b(2) b(4) [unfolded parser] b(5)] gen fin
    by (auto simp: db_contents_def)
  obtain s2 where s2: "full_compaction R store' = Ok s2" "store_chain D (db_contents c s2) ?hs"
    "is_fully_compacted (db_read_store R) s2 = Ok True"
    using full_compaction_chain [OF assms(3) chain] by blast
  obtain hl' where r: "read_indexed_headers D (db_read_store R) s2 = Ok hl'" "hl_rep D hl' ?hs"
    using db.read_indexed_headers_chain [OF bitcoindD(2) [OF assms(1)] assms(3)] s2(2) unfolding db_contents_def by blast
  have "initial_import D N R bulk False index store d = Some (Ok (index\<lparr>ix_headers := hl'\<rparr>, s2), d')"
    using is_fully_compacted_marker [OF assms(3), of store] assms(10,11) s2(1) r(1)
    by (simp add: initial_import_def pbind_Ok Index_reload_def)
  moreover have "?hs \<noteq> []" using gen by (cases "headers_of bs") auto
  moreover have "prefix ?hs (headers_of bs)" by (metis prefixI takeWhile_dropWhile_id)
  ultimately show ?thesis using h(3) s2 r(2) by (intro exI [of _ "index\<lparr>ix_headers := hl'\<rparr>"] exI [of _ s2] exI [of _ ?hs]) simp
qed

text \<open>A database without rows has no block indexed.\<close>

lemma read_indexed_blockhashes_empty:
  assumes "codec_ok D" and "rocksdb_ok R c" and "db_contents c s = []"
  shows "read_indexed_blockhashes D (db_read_store R) s = Ok {}"
proof -
  have m: "c (db_handle s) = []" using assms(3) by (simp add: db_contents_def)
  have "header_rows_ok D (c (db_handle s))" by (simp add: m header_rows_ok_def bt_get_def)
  from db.read_indexed_blockhashes_eq [OF assms(1,2) this] show ?thesis by (simp add: m bt_get_def)
qed

text \<open>The closed example: the two blocks in one file.\<close>

definition ex_blk_file :: bytes where
  "ex_blk_file = blk_file 7 (map (\<lambda>h. Frame (enc_header h)) ex_chain)"

definition ex_files :: "string \<Rightarrow> bytes option" where
  "ex_files path = (if path = ''blk00000.dat'' then Some ex_blk_file else None)"

lemma ex_blk_file_parse: "parse_blocks ex_deps ex_blk_file 7 = Ok ex_blocks"
proof -
  have le: "u32_le ex_deps" by (simp add: u32_le_def ex_deps_def ref_deps_def)
  have v: "take 4 (enc_header (ex_header p n)) = le_bytes 4 1" for p n by (simp add: enc_header_def ex_header_def)
  have w: "de_u32 ex_deps (le_bytes 4 1) \<noteq> 7" using u32_le_encode(1) [OF le, of 1] by simp
  have len: "length (enc_header h) = 80" for h by (simp add: enc_header_def)
  have "items_ok ex_deps 7 (map (\<lambda>h. Frame (enc_header h)) ex_chain)"
    using w by (simp add: ex_chain_def v len dec_enc_header)
  from parse_blocks_items [OF le ex_magic this] show ?thesis
    by (simp add: ex_blk_file_def ex_blocks_def ex_chain_def dec_enc_header)
qed

lemma ex_index_blk_files:
  assumes "daemon_up ex_server d" and "db_contents mem_contents store = []"
  shows "\<exists>store' d'. index_blk_files ex_deps ex_net mem_rocksdb ex_files (\<lambda>_. 7) (\<lambda>_. Some [Some ''blk00000.dat'']) 2
     (store, d) (store', d')"
proof -
  let ?files = "[''blk00000.dat'']"
  have node: "nd_blocks (node_of ex_server d) = ex_blocks" by (simp add: ex_server_simps ex_node_def)
  have hs: "headers_of ex_blocks = ex_chain" by (simp add: headers_of_def ex_blocks_def comp_def)
  have inj: "inj_on (bitcoin_hash ex_deps) (set ex_chain)" using ex_app_facts(4) hs by simp
  obtain hl d' where h: "load_headers ex_deps (daemon_methods ex_deps ex_net) d = Some (Ok hl, d')"
    "hl_rep ex_deps hl ex_chain"
    using load_headers_client [OF bitcoind_ex assms(1) node] inj hs by auto
  note rd = read_indexed_blockhashes_empty [OF codec_ok_ex_deps mem_rocksdb_ok assms(2)]
  obtain st where st: "(bulk_step ex_deps ex_files 7 hl (db_write_store mem_rocksdb))\<^sup>*\<^sup>*
       (bulk_init ?files {} 2 store) st" "bulk_done st"
    using db.bulk_reaches_done [OF codec_ok_ex_deps mem_rocksdb_ok, of "bulk_init ?files {} 2 store" ex_files 7 hl]
      ex_blk_file_parse by (auto simp: bulk_init_def files_parse_def ex_files_def)
  have "bitcoin_hash ex_deps h \<in> bs_indexed st" if h: "h \<in> set ex_chain" for h
  proof (rule bulk_covers [OF st(1) _ _ st(2)])
    show "header_by_blockhash hl (bitcoin_hash ex_deps h) \<noteq> None"
      using hl_rep_lookup_None [OF \<open>hl_rep ex_deps hl ex_chain\<close>] h by auto
    show "covered ex_deps ex_files 7 (bulk_init ?files {} 2 store) (bitcoin_hash ex_deps h)"
      using h ex_blk_file_parse by (auto simp: covered_def bulk_init_def ex_files_def ex_blocks_def image_image)
  qed
  from this [of "hd ex_chain"] have gen: "bitcoin_hash ex_deps (hd ex_chain) \<in> bs_indexed st" "ex_chain \<noteq> []"
    by (simp_all add: ex_chain_def)
  have files: "files_in ex_deps ex_files 7 (set ex_chain) ?files"
    using ex_blk_file_parse by (auto simp: files_in_def ex_files_def ex_blocks_def)
  have keys: "header_keys_in ex_deps (set ex_chain) (mem_contents (db_handle store))"
    using assms(2) by (simp add: header_keys_in_def db_contents_def bt_get_def)
  obtain s' where "bulk_finish ex_deps hl (db_write_store mem_rocksdb) st = Ok s'"
    using bulk_import_chain [OF codec_ok_ex_deps mem_rocksdb_ok inj h(2) subset_refl files keys rd st gen(2,1)] by blast
  with h(1) rd st show ?thesis
    by (auto simp: index_blk_files_def list_blk_files_def chain_opt_def Parser_new_def pbind_def Daemon_magic_def)
qed

end
