(* ===== verification/Shutdown.thy ===== *)
theory Shutdown
  imports App
begin

text \<open>
  How the server of \<open>bin/addrindexrs.rs\<close> ends. A round that fails after the RPC server was started never
  lets the process end: leaving \<open>run_server\<close> joins the thread of the RPC server, which never ends. A signal
  that comes while the server waits ends it, one that comes during an update does not.
\<close>

section \<open>Leaving the loop\<close>

lemma leave_run_server_simps [simp]:
  "leave_run_server s x = (if sst_rpc s then None else Some x)"
  by (simp add: leave_run_server_def)

lemma server_round_keeps_rpc:
  assumes "server_round D N R iter s = Some (r, s')" and "\<not> is_ok r"
  shows "sst_rpc s' = sst_rpc s"
  using assms by (auto simp: server_round_def pbind_eq_Some on_sst_app_def update_mempool_def)

lemma failed_round_hangs:
  assumes "server_round D N R iter s = Some (r, s')" and "\<not> is_ok r" and "sst_rpc s"
  shows "server_loop D N R iter s = None"
  using assms server_round_keeps_rpc [OF assms(1,2)]
  by (subst server_loop.simps) (cases r; simp)

section \<open>The exit status\<close>

text \<open>The status of the process: an error is printed, a panic of the main thread ends it with 101.\<close>

definition main :: "deps \<Rightarrow> 'e net \<Rightarrow> 'r rocksdb \<Rightarrow> ('r dbstore \<Rightarrow> ('e daemon, 'r dbstore) prog) \<Rightarrow>
    (hash list \<Rightarrow> hash list) \<Rightarrow> string \<Rightarrow> network \<Rightarrow> string \<Rightarrow> bool \<Rightarrow> nat \<Rightarrow> 'e \<Rightarrow> nat option" where
  "main D N R bulk iter daemon_dir network db_path jsonrpc_import index_batch_size e =
     map_option (\<lambda>r. case r of Ok _ \<Rightarrow> 0 | Err _ \<Rightarrow> 1 | Panic _ \<Rightarrow> 101)
       (run_server D N R bulk iter daemon_dir network db_path jsonrpc_import index_batch_size e)"

text \<open>The loop has no exit without an error, so the status is never 0.\<close>

lemma server_loop_not_ok:
  assumes "server_loop D N R iter s = Some y"
  shows "\<not> is_ok (fst y)"
proof (rule server_loop.raw_induct [where P = "\<lambda>D N R iter s y. \<not> is_ok (fst y)", OF _ assms], goal_cases)
  case (1 loop D N R iter s y)
  obtain r1 s1 where r1: "server_round D N R iter s = Some (r1, s1)" using 1(2) by (auto simp: Option.bind_eq_Some_conv)
  show ?case
  proof (cases r1)
    case (Ok u)
    obtain r2 s2 where "on_sst_app (on_app_daemon (on_env (wait_secs N 5))) s1 = Some (r2, s2)"
      using 1(2) r1 Ok by (auto simp: Option.bind_eq_Some_conv)
    then show ?thesis using 1 r1 Ok by (cases r2) auto
  qed (use 1(2) r1 in \<open>auto split: if_splits\<close>)
qed

lemma main_never_succeeds: "main D N R bulk iter daemon_dir network db_path jsonrpc_import n e \<noteq> Some 0"
proof -
  have "\<not> is_ok r" if "run_server D N R bulk iter daemon_dir network db_path jsonrpc_import n e = Some r" for r
    using that server_loop_not_ok [of D N R iter] by (auto simp: run_server_def split: option.splits prod.splits res.splits)
  then have "(case r of Ok _ \<Rightarrow> 0 | Err _ \<Rightarrow> 1 | Panic _ \<Rightarrow> 101) \<noteq> (0 :: nat)"
    if "run_server D N R bulk iter daemon_dir network db_path jsonrpc_import n e = Some r" for r
    using that by (cases r) auto
  then show ?thesis by (auto simp: main_def)
qed

section \<open>Signals\<close>

text \<open>An update that indexes polls for a signal first: while one is pending it cannot succeed.\<close>

lemma Index_update_polls:
  assumes "Index_update D api poll WS st = Some (Ok tip, st')"
  shows "\<exists>d d'. poll d = Some (Ok (), d')"
proof -
  have "\<exists>d d'. poll d = Some (Ok (), d')" if "index_batches D api poll WS cs st = Some (Ok (), st')" for cs st st'
    using that by (cases cs) (auto simp: pbind_eq_Some on_daemon_def)
  then show ?thesis
    using assms by (fastforce simp: Index_update_def Let_def pbind_eq_Some split: if_splits)
qed

lemma App_update_polls:
  assumes "App_update D N R a = Some (Ok True, a')"
  shows "\<exists>e. fst (net_recv_timeout N e 0) = Timeout"
proof -
  obtain a1 tip a2 where "App_index_update D N R a1 = Some (Ok tip, a2)"
    using assms by (auto simp: App_update_def Let_def pbind_eq_Some split: if_splits)
  then obtain d d' where "daemon_poll N d = Some (Ok (), d')"
    using Index_update_polls by (fastforce simp: App_index_update_def)
  with Waiter_wait_returns [of "net_recv_timeout N" 0 "d_env d"] show ?thesis
    by (auto simp: Waiter_poll_def on_env_eq_Some)
qed

text \<open>
  C20: Signals during an update hang the process. Let the RPC server run and the node have a new tip. If a
  signal is pending when the update polls for one, the process never ends: the update fails, and leaving
  \<open>run_server\<close> waits forever for the thread of the RPC server. If instead the signal comes in the
  wait of five seconds after the round, the server ends with an error.
\<close>

theorem signal_in_update_hangs:
  assumes "bitcoind D N S" and "daemon_up S (app_daemon (sst_app s))" and "rocksdb_ok R c" and "app_ok D S c (sst_app s) hs"
    and "nd_blocks (node_of S (app_daemon (sst_app s))) = bs"
    and "inj_on (bitcoin_hash D) (set hs \<union> set (headers_of bs))"
    and "indexes D (db_contents c (app_store (sst_app s))) T"
    and "inj_on (tx_txid D) (fst ` T \<union> (\<Union>b \<in> set bs. set (txdata b)))"
    and "hash_iter_ok iter" and "tracker_inv D (sst_tracker s)"
    and "sst_rpc s" and "app_tip (sst_app s) \<noteq> blk_hash D (last bs)"
  shows "((\<forall>e. fst (net_recv_timeout N e 0) \<noteq> Timeout) \<longrightarrow> server_loop D N R iter s = None) \<and>
         (no_signal N S \<and> (\<forall>e. fst (net_recv_timeout N e 5) \<noteq> Timeout) \<longrightarrow>
            (\<exists>x s'. server_loop D N R iter s = Some (Err x, s')))"
proof (intro conjI impI)
  obtain r s' where r: "server_round D N R iter s = Some (r, s')" "no_signal N S \<longrightarrow> is_ok r"
    using server_round_client [OF assms(1-10)] by blast
  show "server_loop D N R iter s = None" if sig: "\<forall>e. fst (net_recv_timeout N e 0) \<noteq> Timeout"
  proof (rule failed_round_hangs [OF r(1) _ assms(11)])
    have "App_update D N R (sst_app s) \<noteq> Some (Ok True, a')" for a' using App_update_polls sig by metis
    moreover have "new" if "App_update D N R (sst_app s) = Some (Ok new, a')" for new a'
      using App_update_client [OF assms(1-8)] assms(12) that by auto
    moreover obtain ra a' where "App_update D N R (sst_app s) = Some (ra, a')"
      using App_update_client [OF assms(1-8)] by blast
    ultimately have "\<not> is_ok ra" "App_update D N R (sst_app s) = Some (ra, a')" by (cases ra; auto)+
    with r(1) show "\<not> is_ok r" by (auto simp: server_round_def pbind_eq_Some on_sst_app_def)
  qed
  assume "no_signal N S \<and> (\<forall>e. fst (net_recv_timeout N e 5) \<noteq> Timeout)"
  with r Waiter_wait_returns [of "net_recv_timeout N" 5 "d_env (app_daemon (sst_app s'))"]
  show "\<exists>x s'. server_loop D N R iter s = Some (Err x, s')"
    by (cases r) (auto simp: server_loop.simps [of D N R iter s] on_sst_app_def on_app_daemon_def on_env_def elim: panics.elims)
qed

text \<open>The closed examples: the node of \<open>Node_Example\<close> with a signal at every wait of the given length.\<close>

definition ex_signal_net :: "nat \<Rightarrow> ex_env net" where
  "ex_signal_net secs = ex_net\<lparr>net_recv_timeout := (\<lambda>e n. (if n = secs then recv_result.Received 2 else Timeout, e))\<rparr>"

lemma bitcoind_ex_signal:
  assumes "secs \<noteq> 3"
  shows "bitcoind ex_deps (ex_signal_net secs) ex_server"
proof -
  have "http_reply (ex_signal_net secs) = http_reply ex_net" "http_post (ex_signal_net secs) = http_post ex_net"
    by (simp_all add: fun_eq_iff http_reply_def http_post_def headers_ok_def ex_signal_net_def)
  then have "write_ok (ex_signal_net secs) ex_server e = write_ok ex_net ex_server e" for e
    by (simp add: write_ok_def ex_signal_net_def)
  moreover have "serves ex_net ex_server" using bitcoindD(1) [OF bitcoind_ex] .
  ultimately have "serves (ex_signal_net secs) ex_server"
    using assms by (auto simp: serves_def ex_signal_net_def ex_server_simps)
  with bitcoind_ex show ?thesis by (simp add: bitcoind_def)
qed

theorem signal_in_update_hangs_witness:
  "server_loop ex_deps (ex_signal_net 0) mem_rocksdb (\<lambda>x. x) \<lparr>sst_app = ex_app, sst_tracker = Tracker_new, sst_rpc = True\<rparr> = None \<and>
   (\<exists>x s'. server_loop ex_deps (ex_signal_net 5) mem_rocksdb (\<lambda>x. x)
             \<lparr>sst_app = ex_app, sst_tracker = Tracker_new, sst_rpc = True\<rparr> = Some (Err x, s'))"
proof -
  let ?s = "\<lparr>sst_app = ex_app, sst_tracker = Tracker_new, sst_rpc = True\<rparr>"
  have facts: "blk_hash ex_deps (last ex_blocks) = mk_hash [2]" "sst_app ?s = ex_app" "sst_tracker ?s = Tracker_new"
    "app_tip ex_app \<noteq> mk_hash [2]" "sst_rpc ?s"
    by (simp_all add: ex_blocks_def ex_chain_def ex_app_def)
  note sig = signal_in_update_hangs [OF bitcoind_ex_signal, of _ ?s mem_rocksdb mem_contents "[]" ex_blocks "{}" "\<lambda>x. x",
      unfolded facts(1-3), OF _ ex_app_facts(1) mem_rocksdb_ok ex_app_facts(2-6) hash_iter_ok_id tracker_inv_new facts(5,4)]
  from sig [of 0] sig [of 5] show ?thesis by (simp add: ex_signal_net_def no_signal_def)
qed

end
