(* ===== verification/Bulk_Index.thy ===== *)
theory Bulk_Index
  imports Bulk Query
begin

text \<open>
  What the parallel import indexes. The threads of \<open>bulk.rs\<close> write the rows of different files in any
  order; still, when they are done, the database has the contents that the sequential import of
  \<open>Index::update\<close> gives for the same blocks (\<open>bulk_equals_sequential\<close>). The invariant \<open>rows_inv\<close> says
  which rows are written and which are held by a thread; the rows of a chain agree on the keys they
  share, so that their order does not matter.
\<close>

section \<open>The rows written and the rows on their way\<close>

text \<open>
  \<open>N\<close> are the blocks taken so far, by any thread: their hashes are new and distinct, each is in the header
  list and in a file, and their rows are written or held by a thread. \<open>W\<close> are the rows written so far.
\<close>

definition rows_inv :: "deps \<Rightarrow> header_list \<Rightarrow> block set \<Rightarrow> hash set \<Rightarrow> ('s \<Rightarrow> (bytes, bytes) btree) \<Rightarrow> (bytes, bytes) btree \<Rightarrow>
    's bulk_state \<Rightarrow> block set \<Rightarrow> row list \<Rightarrow> bool" where
  "rows_inv D headers F old view m st N W \<longleftrightarrow>
     view (bs_store st) = put_rows m W \<and>
     set W \<union> {r. pending st r} = (\<Union>b \<in> N. set (block_rows D b)) \<and>
     bs_indexed st = old \<union> (\<lambda>b. bitcoin_hash D (blk_header b)) ` N \<and>
     inj_on (\<lambda>b. bitcoin_hash D (blk_header b)) N \<and> (\<lambda>b. bitcoin_hash D (blk_header b)) ` N \<inter> old = {} \<and>
     N \<subseteq> {b \<in> F. header_by_blockhash headers (bitcoin_hash D (blk_header b)) \<noteq> None} \<and>
     (\<forall>i < length (bs_indexers st). \<forall>bs rows. bs_indexers st ! i = Some (bs, rows) \<longrightarrow> set bs \<subseteq> F)"

definition file_blocks :: "deps \<Rightarrow> (string \<Rightarrow> bytes option) \<Rightarrow> u32 \<Rightarrow> string list \<Rightarrow> block set" where
  "file_blocks D read_file magic files =
     {b. \<exists>path \<in> set files. \<exists>blob bs. read_file path = Some blob \<and> parse_blocks D blob magic = Ok bs \<and> b \<in> set bs}"

text \<open>The rows a thread holds.\<close>

fun held :: "(block list \<times> row list) option \<Rightarrow> row set" where
  "held None = {}"
| "held (Some (bs, rows)) = set rows"

lemma pending_held: "{r. pending st r} = (\<Union>x \<in> set (bs_indexers st). held x)"
proof (rule set_eqI)
  fix r
  have "pending st r \<longleftrightarrow> (\<exists>x \<in> set (bs_indexers st). \<exists>bs rows. x = Some (bs, rows) \<and> r \<in> set rows)"
    unfolding pending_def in_set_conv_nth Bex_def by metis
  moreover have "(\<exists>bs rows. x = Some (bs, rows) \<and> r \<in> set rows) \<longleftrightarrow> r \<in> held x" for x by (cases x) auto
  ultimately show "r \<in> {r. pending st r} \<longleftrightarrow> r \<in> (\<Union>x \<in> set (bs_indexers st). held x)" by simp
qed

lemma set_update:
  assumes "i < length xs"
  shows "insert (xs ! i) (set (xs[i := w])) = insert w (set xs)"
proof -
  have "set (xs[i := w]) = insert w (set (take i xs) \<union> set (drop (Suc i) xs))"
    using assms by (simp add: upd_conv_take_nth_drop)
  moreover have "set xs = insert (xs ! i) (set (take i xs) \<union> set (drop (Suc i) xs))"
    using arg_cong [OF id_take_nth_drop [OF assms], of set] by simp
  ultimately show ?thesis by blast
qed

text \<open>The rows that the threads hold, after one of them changed.\<close>

lemma pending_change:
  assumes "bs_indexers st' = (bs_indexers st)[i := w]" and "i < length (bs_indexers st)"
  shows "{r. pending st' r} \<union> held (bs_indexers st ! i) = {r. pending st r} \<union> held w"
  using arg_cong [OF set_update [OF assms(2), of w], of "\<lambda>A. \<Union>x \<in> A. held x"]
  unfolding pending_held assms(1) by (simp add: Un_commute)

lemma index_file_block_new:
  assumes "codec_ok D" and "index_file_block D headers (indexed, rows) b = Ok (indexed', rows')"
  shows "(indexed' = indexed \<and> rows' = rows) \<or>
    (header_by_blockhash headers (bitcoin_hash D (blk_header b)) \<noteq> None \<and> bitcoin_hash D (blk_header b) \<notin> indexed \<and>
     indexed' = insert (bitcoin_hash D (blk_header b)) indexed \<and> rows' = rows @ block_rows D b)"
  using assms by (auto simp: index_file_block_def Let_def index_block_eq split: option.splits if_splits)

context writable
begin

lemma rows_inv_step:
  assumes "codec_ok D" and "inv (bs_store st)" and I: "rows_inv D headers F old view m st N W"
    and files: "file_blocks D read_file magic (bs_files st) \<subseteq> F"
    and step: "bulk_step D read_file magic headers WS st st'"
  shows "inv (bs_store st') \<and> file_blocks D read_file magic (bs_files st') \<subseteq> F \<and>
    (\<exists>N' W'. rows_inv D headers F old view m st' N' W')"
  using step
proof (cases rule: bulk_step_elim)
  case (bulk_read path rest i blob blocks)
  have blocks: "set blocks \<subseteq> F"
    using files bulk_read(2,5,6) by (auto simp: file_blocks_def read_blkfile_def res_simps)
  have "{r. pending st' r} = {r. pending st r}"
    using pending_change [of st' st i "Some (blocks, [])"] bulk_read(1,3,4) by simp
  then have "rows_inv D headers F old view m st' N W"
    using I bulk_read(1,3) blocks by (auto simp: rows_inv_def nth_list_update split: if_splits)
  moreover have "file_blocks D read_file magic (bs_files st') \<subseteq> F" using files bulk_read(1,2) by (auto simp: file_blocks_def)
  ultimately show ?thesis using assms(2) bulk_read(1) by auto
next
  case (bulk_index i block blocks rows indexed rows')
  have held: "set rows \<subseteq> {r. pending st r}" "set rows' \<subseteq> {r. pending st' r}"
    using bulk_index by (auto simp: pending_def)
  moreover have sub: "set rows \<subseteq> set rows'" using index_file_block_new [OF assms(1) bulk_index(4)] by auto
  ultimately have pend: "{r. pending st' r} = {r. pending st r} \<union> set rows'"
    using pending_change [of st' st i "Some (blocks, rows')"] bulk_index(1-3) sub by auto
  have F: "set (block # blocks) \<subseteq> F" using I bulk_index(2,3) unfolding rows_inv_def by blast
  have "\<exists>N'. rows_inv D headers F old view m st' N' W"
    using index_file_block_new [OF assms(1) bulk_index(4)]
  proof (elim disjE conjE)
    assume "indexed = bs_indexed st" "rows' = rows"
    with I pend held(1) F bulk_index(1,2) have "rows_inv D headers F old view m st' N W"
      by (auto simp: rows_inv_def nth_list_update split: if_splits)
    then show ?thesis by blast
  next
    assume new: "header_by_blockhash headers (bitcoin_hash D (blk_header block)) \<noteq> None"
      "bitcoin_hash D (blk_header block) \<notin> bs_indexed st"
      "indexed = insert (bitcoin_hash D (blk_header block)) (bs_indexed st)" "rows' = rows @ block_rows D block"
    have "{r. pending st' r} = {r. pending st r} \<union> set (block_rows D block)" using pend held(1) new(4) by auto
    then have "set W \<union> {r. pending st' r} = (\<Union>b \<in> insert block N. set (block_rows D b))"
      using I unfolding rows_inv_def by auto
    moreover have "bs_indexed st' = old \<union> (\<lambda>b. bitcoin_hash D (blk_header b)) ` insert block N"
      "(\<lambda>b. bitcoin_hash D (blk_header b)) ` insert block N \<inter> old = {}"
      "inj_on (\<lambda>b. bitcoin_hash D (blk_header b)) (insert block N)"
      using I new(2,3) bulk_index(1) unfolding rows_inv_def by (auto simp: inj_on_insert)
    ultimately have "rows_inv D headers F old view m st' (insert block N) W"
      using I F new(1) bulk_index(1,2) unfolding rows_inv_def by (auto simp: nth_list_update split: if_splits)
    then show ?thesis by blast
  qed
  then show ?thesis using assms(2) files bulk_index(1) by auto
next
  case (bulk_write i rows rows' store)
  obtain s' where s': "ws_write WS (bs_store st) rows' = Ok s'" "inv s'" "view s' = put_rows (view (bs_store st)) rows'"
    using write_view [OF assms(2)] by blast
  then have store: "bs_store st' = s'" using bulk_write by simp
  have "set rows \<subseteq> {r. pending st r}" using bulk_write by (auto simp: pending_def)
  then have "{r. pending st' r} \<union> set rows' = {r. pending st r}"
    using pending_change [of st' st i None] bulk_write(1-3) mset_eq_setD [OF bulk_write(4)] by auto
  then have "set (W @ rows') \<union> {r. pending st' r} = (\<Union>b \<in> N. set (block_rows D b))"
    using I unfolding rows_inv_def by auto
  moreover have "view (bs_store st') = put_rows m (W @ rows')"
    using I store s'(3) unfolding rows_inv_def by (simp add: store_simps)
  ultimately have "rows_inv D headers F old view m st' N (W @ rows')"
    using I bulk_write(1,2) unfolding rows_inv_def by (auto simp: nth_list_update split: if_splits)
  then show ?thesis using s'(2) store files bulk_write(1) by auto
qed

lemma rows_inv_steps:
  assumes "codec_ok D" and "(bulk_step D read_file magic headers WS)\<^sup>*\<^sup>* st st'" and "inv (bs_store st)"
    and "rows_inv D headers F old view m st N W" and "file_blocks D read_file magic (bs_files st) \<subseteq> F"
  shows "inv (bs_store st') \<and> (\<exists>N' W'. rows_inv D headers F old view m st' N' W')"
proof -
  have "inv (bs_store st') \<and> file_blocks D read_file magic (bs_files st') \<subseteq> F \<and>
    (\<exists>N' W'. rows_inv D headers F old view m st' N' W')"
    using assms(2) by (induction rule: rtranclp_induct) (use assms(3-5) rows_inv_step [OF assms(1)] in blast)+
  then show ?thesis by blast
qed

end

section \<open>The same database as the sequential import\<close>

text \<open>Rows of which no two differ under one key may be written in any order, and more than once.\<close>

definition rows_agree :: "row set \<Rightarrow> bool" where
  "rows_agree A \<longleftrightarrow> (\<forall>r \<in> A. \<forall>r' \<in> A. row_key r = row_key r' \<longrightarrow> row_value r = row_value r')"

lemma rows_agreeD: "rows_agree A \<Longrightarrow> r \<in> A \<Longrightarrow> r' \<in> A \<Longrightarrow> row_key r = row_key r' \<Longrightarrow> row_value r = row_value r'"
  unfolding rows_agree_def by blast

lemma put_rows_any_order:
  assumes "bt_sorted m" and "rows_agree (set A)" and "set A = set B"
  shows "put_rows m A = put_rows m B"
proof (rule bt_eqI)
  show "bt_get (put_rows m A) = bt_get (put_rows m B)"
  proof
    fix k
    show "bt_get (put_rows m A) k = bt_get (put_rows m B) k"
    proof (cases "k \<in> row_key ` set A")
      case True
      then obtain r where r: "r \<in> set A" "row_key r = k" by blast
      then have "row_value r' = row_value r" if "r' \<in> set A" "row_key r' = k" for r'
        using rows_agreeD [OF assms(2) that(1) r(1)] that(2) by simp
      then have "bt_get (put_rows m C) k = Some (row_value r)" if "set C = set A" for C
        using True that by (intro bt_get_put_rows_mem [OF assms(1)]) auto
      with assms(3) show ?thesis by simp
    qed (use assms bt_get_put_rows_notin in \<open>simp add: bt_get_put_rows_notin\<close>)
  qed
qed (use assms(1) in simp_all)

text \<open>A row that is overwritten later may be left out.\<close>

lemma put_rows_overwritten:
  assumes "bt_sorted m"
  shows "put_rows m (A @ [r]) = put_rows m (filter (\<lambda>x. row_key x \<noteq> row_key r) A @ [r])"
proof (rule bt_eqI)
  have find: "find (\<lambda>x. row_key x = k) (filter (\<lambda>x. row_key x \<noteq> row_key r) xs) = find (\<lambda>x. row_key x = k) xs"
    if "k \<noteq> row_key r" for k xs using that by (induction xs) auto
  have "bt_get (put_rows m A) k = bt_get (put_rows m (filter (\<lambda>x. row_key x \<noteq> row_key r) A)) k" if "k \<noteq> row_key r" for k
    unfolding bt_get_put_rows [OF assms] rev_filter find [OF that] ..
  then show "bt_get (put_rows m (A @ [r])) = bt_get (put_rows m (filter (\<lambda>x. row_key x \<noteq> row_key r) A @ [r]))"
    using assms by (auto simp: fun_eq_iff store_simps bt_get_put)
qed (use assms in simp_all)

lemma block_rows_code: "r \<in> set (block_rows D b) \<Longrightarrow> \<exists>c k. row_key r = c # k \<and> c \<in> {66, 73, 79, 84}"
  by (auto simp: block_rows_def dest!: tx_rows_code)

text \<open>No transaction is in two of the blocks.\<close>

definition one_block_each :: "block set \<Rightarrow> bool" where
  "one_block_each N \<longleftrightarrow> (\<forall>b \<in> N. \<forall>b' \<in> N. set (txdata b) \<inter> set (txdata b') \<noteq> {} \<longrightarrow> b = b')"

lemma block_rows_agree:
  assumes "inj_on (\<lambda>b. bitcoin_hash D (blk_header b)) N" and "inj_on (tx_txid D) (\<Union>b \<in> N. set (txdata b))"
    and "one_block_each N"
  shows "rows_agree (\<Union>b \<in> N. set (block_rows D b))"
proof -
  let ?h = "\<lambda>b. bitcoin_hash D (blk_header b)"
  have tx: "row_value r = row_value r'"
    if "b \<in> N" "t \<in> set (txdata b)" "r \<in> set (tx_rows D t (?h b))"
      and "b' \<in> N" "t' \<in> set (txdata b')" "r' \<in> set (tx_rows D t' (?h b'))" "row_key r = row_key r'" for r r' b b' t t'
  proof (cases "hd (row_key r) = 84")
    case True
    have code: "row_key r \<noteq> []" using tx_rows_code [OF that(3)] by auto
    then have "row_key r = 84 # hash_bytes (tx_txid D t)" "row_key r' = 84 # hash_bytes (tx_txid D t')"
      using tx_rows_by_code(3) [of r D t] tx_rows_by_code(3) [of r' D t'] that(3,6,7) True row_key_cases(3) by metis+
    then have "tx_txid D t = tx_txid D t'" using that(7) by simp
    then have "t = t'" by (rule inj_onD [OF assms(2)]) (use that in auto)
    then have "b = b'" using assms(3) that unfolding one_block_each_def by blast
    then show ?thesis using tx_rows_row_value [OF that(3)] tx_rows_row_value [OF that(6)] that(7) by simp
  qed (use tx_rows_row_value [OF that(3)] tx_rows_row_value [OF that(6)] that(7) in simp)
  have code: "row_key r \<noteq> row_key (block_row D h)" if "r \<in> set (tx_rows D t b)" for r t b h
    using tx_rows_code [OF that] by auto
  have block: "blk_header b = blk_header b'"
    if "b \<in> N" "b' \<in> N" "row_key (block_row D (blk_header b)) = row_key (block_row D (blk_header b'))" for b b'
    using inj_onD [OF assms(1) _ that(1,2)] that(3) by simp
  show ?thesis
    unfolding rows_agree_def block_rows_def
    by (auto dest: tx code code [THEN not_sym] block simp del: row_key_block_row)
qed

text \<open>
  When the threads are done, the blocks they took are those of the chain, provided that the chain is in
  the files and no two blocks of the files have the same hash.
\<close>

lemma bulk_took_chain:
  assumes I: "rows_inv D headers F {} view m st N W" and rep: "hl_rep D headers (headers_of bs)"
    and inj: "inj_on (\<lambda>b. bitcoin_hash D (blk_header b)) F" and bs: "set bs \<subseteq> F"
    and all: "\<And>b. b \<in> set bs \<Longrightarrow> bitcoin_hash D (blk_header b) \<in> bs_indexed st"
  shows "N = set bs"
proof (rule set_eqI, rule iffI)
  fix b assume b: "b \<in> N"
  then have F: "b \<in> F" "header_by_blockhash headers (bitcoin_hash D (blk_header b)) \<noteq> None"
    using I unfolding rows_inv_def by blast+
  then obtain b' where b': "b' \<in> set bs" "bitcoin_hash D (blk_header b) = bitcoin_hash D (blk_header b')"
    using hl_rep_lookup_None [OF rep] by (auto simp: headers_of_def)
  then have "b = b'" using inj_onD [OF inj, of b b'] F(1) bs by blast
  with b'(1) show "b \<in> set bs" by simp
next
  fix b assume b: "b \<in> set bs"
  have "bitcoin_hash D (blk_header b) \<in> (\<lambda>b. bitcoin_hash D (blk_header b)) ` N"
    using all [OF b] I unfolding rows_inv_def by simp
  then obtain b' where b': "b' \<in> N" "bitcoin_hash D (blk_header b) = bitcoin_hash D (blk_header b')" by blast
  have "N \<subseteq> F" using I unfolding rows_inv_def by blast
  then have "b = b'" using inj_onD [OF inj, of b b'] b' b bs by blast
  with b'(1) show "b \<in> N" by simp
qed

text \<open>The \<open>L\<close> rows of the sequential import, but for the last one, leave no trace.\<close>

lemma filter_indexed_rows:
  "filter (\<lambda>r. row_key r \<noteq> [76]) (concat (map (indexed_rows D) bs)) = concat (map (block_rows D) bs)"
proof -
  have keep: "filter (\<lambda>r. row_key r \<noteq> [76]) (block_rows D b) = block_rows D b" for b
    using block_rows_code [of _ D b] by (force simp: filter_id_conv)
  then show ?thesis by (induction bs) (simp_all add: indexed_rows_def last_indexed_block_def)
qed

lemma put_indexed_rows:
  assumes "bt_sorted m" and "bs \<noteq> []"
  shows "put_rows m (concat (map (indexed_rows D) bs)) =
     put_rows m (concat (map (block_rows D) bs) @ [last_indexed_block D (bitcoin_hash D (blk_header (last bs)))])"
proof -
  let ?L = "last_indexed_block D (bitcoin_hash D (blk_header (last bs)))"
  have key: "row_key ?L = [76]" by (simp add: last_indexed_block_def)
  have "\<exists>A. concat (map (indexed_rows D) bs) = A @ [?L]"
    using assms(2) by (cases bs rule: rev_cases) (auto simp: indexed_rows_def)
  then obtain A where A: "concat (map (indexed_rows D) bs) = A @ [?L]" by blast
  have "filter (\<lambda>r. row_key r \<noteq> [76]) A = concat (map (block_rows D) bs)"
    using filter_indexed_rows [of D bs] unfolding A by (simp add: key)
  then show ?thesis unfolding A using put_rows_overwritten [OF assms(1), of A ?L] by (simp add: key)
qed

context writable
begin

lemma bulk_same_contents:
  assumes "codec_ok D" and "inv s" and rep: "hl_rep D headers (headers_of bs)" and "bs \<noteq> []"
    and "set bs \<subseteq> file_blocks D read_file magic files"
    and inj: "inj_on (\<lambda>b. bitcoin_hash D (blk_header b)) (file_blocks D read_file magic files)"
    and "inj_on (tx_txid D) (\<Union>b \<in> set bs. set (txdata b))"
    and "one_block_each (set bs)"
    and steps: "(bulk_step D read_file magic headers WS)\<^sup>*\<^sup>* (bulk_init files {} n s) st" and fin: "bulk_done st"
  shows "\<exists>s'. bulk_finish D headers WS st = Ok s' \<and> inv s' \<and>
     view s' = put_rows (view s) (concat (map (indexed_rows D) bs))"
proof -
  let ?F = "file_blocks D read_file magic files" and ?L = "last_indexed_block D (bitcoin_hash D (blk_header (last bs)))"
  have "rows_inv D headers ?F {} view (view s) (bulk_init files {} n s) {} []"
    by (auto simp: rows_inv_def bulk_init_def pending_def)
  from rows_inv_steps [OF assms(1) steps _ this] assms(2) obtain N W where
    inv: "inv (bs_store st)" and I: "rows_inv D headers ?F {} view (view s) st N W" by (auto simp: bulk_init_def)
  have all: "bitcoin_hash D (blk_header b) \<in> bs_indexed st" if "b \<in> set bs" for b
  proof (rule bulk_covers [OF steps _ _ fin])
    show "header_by_blockhash headers (bitcoin_hash D (blk_header b)) \<noteq> None"
      using hl_rep_lookup_None [OF rep] that by (auto simp: headers_of_def)
    show "covered D read_file magic (bulk_init files {} n s) (bitcoin_hash D (blk_header b))"
      using assms(5) that by (fastforce simp: covered_def bulk_init_def file_blocks_def)
  qed
  from bulk_took_chain [OF I rep inj assms(5) all] have N: "N = set bs" .
  have W: "set W = (\<Union>b \<in> set bs. set (block_rows D b))"
    using I bulk_done_pending [OF fin] unfolding rows_inv_def N by auto
  then have "put_rows (view s) W = put_rows (view s) (concat (map (block_rows D) bs))"
    using block_rows_agree [OF inj_on_subset [OF inj assms(5)] assms(7,8)]
    by (intro put_rows_any_order [OF view_sorted [OF assms(2)]]) simp_all
  then have same: "put_rows (view s) (W @ [?L]) = put_rows (view s) (concat (map (indexed_rows D) bs))"
    unfolding put_indexed_rows [OF view_sorted [OF assms(2)] assms(4)] by (simp add: store_simps)
  have run: "takeWhile (\<lambda>h. bitcoin_hash D h \<in> bs_indexed st) (headers_of bs) = headers_of bs"
    using all by (auto simp: takeWhile_eq_all_conv headers_of_def)
  have "headers_of bs \<noteq> []" "last (headers_of bs) = blk_header (last bs)"
    using assms(4) by (simp_all add: headers_of_def last_map)
  then have "last_indexed_row D headers (bs_indexed st) = Ok ?L"
    using last_indexed_row_run [OF rep, of "bs_indexed st", unfolded run] by simp
  moreover obtain s' where "ws_write WS (bs_store st) [?L] = Ok s'" "inv s'" "view s' = put_rows (view (bs_store st)) [?L]"
    using write_view [OF inv] by blast
  moreover have "view (bs_store st) = put_rows (view s) W" using I unfolding rows_inv_def by simp
  ultimately show ?thesis using same by (auto simp: bulk_finish_def store_simps)
qed

end

text \<open>
  C4: The parallel import and the sequential one give the same database. Whatever the schedule of the
  threads, an import of the files with a chain of blocks, none of them indexed before, ends with the
  contents that writing the rows of these blocks, in the order of the chain and as \<open>Index::update\<close>
  makes them, gives. No two different blocks of the files may have the same hash, and each transaction
  of the chain is in one block of it: for a transaction that is in two blocks (there are such ones from before
  BIP30) the order of the writes decides which block is found.
\<close>

theorem bulk_equals_sequential:
  assumes "codec_ok D" and "rocksdb_ok R c" and "hl_rep D headers (headers_of bs)" and "bs \<noteq> []"
    and "set bs \<subseteq> file_blocks D read_file magic files"
    and "inj_on (\<lambda>b. bitcoin_hash D (blk_header b)) (file_blocks D read_file magic files)"
    and "inj_on (tx_txid D) (\<Union>b \<in> set bs. set (txdata b))"
    and "one_block_each (set bs)"
    and "(bulk_step D read_file magic headers (db_write_store R))\<^sup>*\<^sup>* (bulk_init files {} n s) st" and "bulk_done st"
  shows "\<exists>s' rows s''. bulk_finish D headers (db_write_store R) st = Ok s' \<and>
     batch_rows D bs = Ok rows \<and> db_write R s rows = Ok s'' \<and> c (db_handle s') = c (db_handle s'')"
proof -
  obtain s' where "bulk_finish D headers (db_write_store R) st = Ok s'"
    "c (db_handle s') = put_rows (c (db_handle s)) (concat (map (indexed_rows D) bs))"
    using db.bulk_same_contents [OF assms(1,2,3,4,5,6,7,8,9,10)] by blast
  then show ?thesis using batch_rows_eq [OF assms(1)] db_write_contents [OF assms(2)] by metis
qed

theorem bulk_equals_sequential_witness:
  "\<exists>st s' rows s''. (bulk_step ex_block_deps ex_read_file 7 ex_headers (db_write_store mem_rocksdb))\<^sup>*\<^sup>*
       (bulk_init [''blk00000.dat''] {} 2 mem_store) st \<and>
     bulk_finish ex_block_deps ex_headers (db_write_store mem_rocksdb) st = Ok s' \<and>
     batch_rows ex_block_deps ex_blocks = Ok rows \<and> db_write mem_rocksdb mem_store rows = Ok s'' \<and>
     mem_contents (db_handle s') = mem_contents (db_handle s'')"
proof -
  have parse: "files_parse ex_block_deps ex_read_file 7 [''blk00000.dat'']"
    using ex_parse by (auto simp: files_parse_def ex_read_file_def)
  obtain st where st: "(bulk_step ex_block_deps ex_read_file 7 ex_headers (db_write_store mem_rocksdb))\<^sup>*\<^sup>*
       (bulk_init [''blk00000.dat''] {} 2 mem_store) st" "bulk_done st"
    using db.bulk_reaches_done [OF ex_block_deps_ok(2) mem_rocksdb_ok, of "bulk_init [''blk00000.dat''] {} 2 mem_store"
        ex_read_file 7 ex_headers] parse
    by (auto simp: bulk_init_def)
  have F: "file_blocks ex_block_deps ex_read_file 7 [''blk00000.dat''] = set ex_blocks"
    using ex_parse by (auto simp: file_blocks_def ex_read_file_def)
  have "inj_on (\<lambda>b. bitcoin_hash ex_block_deps (blk_header b)) (set ex_blocks)"
    "(\<Union>b \<in> set ex_blocks. set (txdata b)) = {}" "ex_blocks \<noteq> []" "headers_of ex_blocks = ex_chain"
    by (auto simp: ex_blocks_def ex_chain_def inj_on_def headers_of_def)
  with bulk_equals_sequential [OF ex_block_deps_ok(2) mem_rocksdb_ok, of ex_headers ex_blocks ex_read_file 7
      "[''blk00000.dat'']" 2 mem_store st] ex_rep st F show ?thesis by (auto simp: one_block_each_def)
qed

end
