(* ===== verification/Server_Run.thy ===== *)
theory Server_Run
  imports App Bulk_Index
begin

text \<open>
  The server of \<open>bin/addrindexrs.rs\<close> over many rounds. Between two rounds the node may change: blocks
  arrive and are reorganised away, transactions enter and leave the mempool. \<open>server_step\<close> is one pass through the
  loop; its invariant holds after every start and every round, so that every round brings the
  server in step with the node as it is then.
\<close>

section \<open>Passes through the loop\<close>

text \<open>A round that succeeds and the wait of five seconds, without a signal.\<close>

inductive server_step :: "deps \<Rightarrow> 'e net \<Rightarrow> 'r rocksdb \<Rightarrow> (hash list \<Rightarrow> hash list) \<Rightarrow>
    ('r, 'e) server_state \<Rightarrow> ('r, 'e) server_state \<Rightarrow> bool"
  for D N R iter where
  server_pass: "server_step D N R iter s s''"
    if "server_round D N R iter s = Some (Ok (), s')"
      and "on_sst_app (on_app_daemon (on_env (wait_secs N 5))) s' = Some (Ok (), s'')"

inductive_cases server_stepE: "server_step D N R iter s s''"

text \<open>The loop goes on from the state that a pass leaves.\<close>

lemma server_loop_step:
  assumes "server_step D N R iter s s'"
  shows "server_loop D N R iter s = server_loop D N R iter s'"
  using assms by cases (simp add: server_loop.simps [of D N R iter s])

lemma server_loop_steps:
  assumes "(server_step D N R iter)\<^sup>*\<^sup>* s s'"
  shows "server_loop D N R iter s = server_loop D N R iter s'"
  using assms by (induction rule: rtranclp_induct) (auto simp: server_loop_step)

section \<open>Where a transaction is found\<close>

text \<open>Every transaction of the blocks is indexed in its block.\<close>

definition located :: "deps \<Rightarrow> block list \<Rightarrow> (transaction \<times> hash) set \<Rightarrow> bool" where
  "located D bs T \<longleftrightarrow> (\<forall>b \<in> set bs. \<forall>t \<in> set (txdata b). (t, blk_hash D b) \<in> T)"

lemma index_blocks_keep:
  assumes "(t, h) \<in> T" and "\<forall>b \<in> set bs. tx_txid D t \<notin> tx_txid D ` set (txdata b)"
  shows "(t, h) \<in> foldl (index_block_txs D) T bs"
  using assms by (induction bs arbitrary: T) (simp_all add: index_block_txs_def)

lemma index_blocks_located:
  assumes "one_block_each (set bs)" and "inj_on (tx_txid D) (\<Union>b \<in> set bs. set (txdata b))"
  shows "located D bs (foldl (index_block_txs D) T bs)"
  using assms
proof (induction bs arbitrary: T)
  case (Cons c cs)
  have tail: "one_block_each (set cs)" "inj_on (tx_txid D) (\<Union>b \<in> set cs. set (txdata b))"
    using Cons.prems by (auto simp: one_block_each_def intro: inj_on_subset)
  have "(t, blk_hash D c) \<in> foldl (index_block_txs D) (index_block_txs D T c) cs" if t: "t \<in> set (txdata c)" "c \<notin> set cs" for t
  proof (rule index_blocks_keep)
    show "(t, blk_hash D c) \<in> index_block_txs D T c" using t(1) by (simp add: index_block_txs_def)
    show "\<forall>b \<in> set cs. tx_txid D t \<notin> tx_txid D ` set (txdata b)"
    proof (intro ballI notI)
      fix b assume b: "b \<in> set cs" "tx_txid D t \<in> tx_txid D ` set (txdata b)"
      then obtain t' where t': "t' \<in> set (txdata b)" "tx_txid D t = tx_txid D t'" by blast
      have "t = t'" by (rule inj_onD [OF Cons.prems(2) t'(2)]) (use t b t' in auto)
      then have "c = b" using Cons.prems(1) t(1) b(1) t'(1) unfolding one_block_each_def by (meson disjoint_iff list.set_intros)
      with b(1) t(2) show False by simp
    qed
  qed
  with Cons.IH [OF tail, of "index_block_txs D T c"] show ?case unfolding located_def by (cases "c \<in> set cs") auto
qed (simp add: located_def)

text \<open>Indexing the blocks from the fork on keeps the transactions before it where they are.\<close>

lemma located_reorg:
  assumes "located D bs T" and "take k bs' = take k bs" and "one_block_each (set bs')"
    and "inj_on (tx_txid D) (\<Union>b \<in> set bs'. set (txdata b))"
  shows "located D bs' (foldl (index_block_txs D) T (drop k bs'))"
  unfolding located_def
proof (intro ballI)
  fix b t assume b: "b \<in> set bs'" and t: "t \<in> set (txdata b)"
  have sub: "set (drop k bs') \<subseteq> set bs'" by (rule set_drop_subset)
  show "(t, blk_hash D b) \<in> foldl (index_block_txs D) T (drop k bs')"
  proof (cases "b \<in> set (drop k bs')")
    case True
    have "one_block_each (set (drop k bs'))" using assms(3) sub unfolding one_block_each_def by blast
    moreover have "inj_on (tx_txid D) (\<Union>b \<in> set (drop k bs'). set (txdata b))"
      by (rule inj_on_subset [OF assms(4)]) (use sub in blast)
    ultimately show ?thesis using index_blocks_located True t unfolding located_def by blast
  next
    case False
    then have "b \<in> set (take k bs')" using b by (metis Un_iff append_take_drop_id set_append)
    then have "(t, blk_hash D b) \<in> T" using assms(1,2) t by (auto simp: located_def dest: in_set_takeD)
    moreover have "tx_txid D t \<notin> tx_txid D ` set (txdata b')" if b': "b' \<in> set (drop k bs')" for b'
    proof
      assume "tx_txid D t \<in> tx_txid D ` set (txdata b')"
      then obtain t' where t': "t' \<in> set (txdata b')" "tx_txid D t = tx_txid D t'" by blast
      have "t = t'" by (rule inj_onD [OF assms(4) t'(2)]) (use t b b' sub t' in blast)+
      then have "b = b'" using assms(3) b b' sub t t'(1) unfolding one_block_each_def by blast
      with b' False show False by simp
    qed
    ultimately show ?thesis by (intro index_blocks_keep) simp_all
  qed
qed

section \<open>The invariant\<close>

text \<open>
  The blocks and transactions that the node has at any time are among \<open>B\<close> and \<open>X\<close>, on which hashes do not
  collide, and no chain of the node has a transaction twice (BIP30). While the server waits, the connection
  stays as it is, the node may change.
\<close>

definition node_within :: "deps \<Rightarrow> 'e net \<Rightarrow> 'e server \<Rightarrow> block set \<Rightarrow> transaction set \<Rightarrow> bool" where
  "node_within D N S B X \<longleftrightarrow> inj_on (blk_hash D) B \<and> inj_on (tx_txid D) X \<and>
     (\<forall>e. sv_up S e \<longrightarrow> set (nd_blocks (sv_node S e)) \<subseteq> B \<and> one_block_each (set (nd_blocks (sv_node S e))) \<and>
        (\<Union>b \<in> set (nd_blocks (sv_node S e)). set (txdata b)) \<subseteq> X) \<and>
     (\<forall>e r e'. sv_up S e \<longrightarrow> net_recv_timeout N e 5 = (r, e') \<longrightarrow> sv_up S e' \<and> sv_lines S e' = sv_lines S e)"

text \<open>What holds of the server between two rounds.\<close>

definition run_inv :: "deps \<Rightarrow> 'e server \<Rightarrow> ('r \<Rightarrow> (bytes, bytes) btree) \<Rightarrow> block set \<Rightarrow> transaction set \<Rightarrow>
    ('r, 'e) server_state \<Rightarrow> bool" where
  "run_inv D S c B X s \<longleftrightarrow> daemon_up S (app_daemon (sst_app s)) \<and> tracker_inv D (sst_tracker s) \<and>
     (\<exists>bs T. app_ok D S c (sst_app s) (headers_of bs) \<and> set bs \<subseteq> B \<and>
        indexes D (db_contents c (app_store (sst_app s))) T \<and> fst ` T \<subseteq> X \<and> located D bs T)"

text \<open>The server is in step with the node \<open>nd\<close>.\<close>

definition in_step :: "deps \<Rightarrow> 'e server \<Rightarrow> ('r \<Rightarrow> (bytes, bytes) btree) \<Rightarrow> transaction set \<Rightarrow> node \<Rightarrow> ('r, 'e) server_state \<Rightarrow> bool" where
  "in_step D S c X nd s \<longleftrightarrow> app_ok D S c (sst_app s) (headers_of (nd_blocks nd)) \<and>
     app_tip (sst_app s) = blk_hash D (last (nd_blocks nd)) \<and>
     (\<exists>T. indexes D (db_contents c (app_store (sst_app s))) T \<and> fst ` T \<subseteq> X \<and> located D (nd_blocks nd) T) \<and>
     tracker_inv D (sst_tracker s) \<and> fst ` set (tr_items (sst_tracker s)) = tx_txid D ` set (nd_mempool nd) \<and>
     sst_rpc s \<and> daemon_up S (app_daemon (sst_app s))"

lemma same_blocks:
  assumes "inj_on (blk_hash D) B" and "set bs \<subseteq> B" and "set bs' \<subseteq> B" and "headers_of bs = headers_of bs'"
  shows "bs = bs'"
proof (rule map_inj_on)
  show "map (blk_hash D) bs = map (blk_hash D) bs'"
    using arg_cong [OF assms(4), of "map (bitcoin_hash D)"] by (simp add: headers_of_def comp_def)
  show "inj_on (blk_hash D) (set bs \<union> set bs')" using assms(1-3) by (auto intro: inj_on_subset)
qed

lemma inj_headers: "inj_on (blk_hash D) B \<Longrightarrow> inj_on (bitcoin_hash D) (blk_header ` B)"
  by (auto simp: inj_on_def)

text \<open>The hypotheses of an update, and what it indexes, for blocks and transactions within \<open>B\<close> and \<open>X\<close>.\<close>

lemma inj_both:
  assumes "inj_on (blk_hash D) B" and "inj_on (tx_txid D) X" and "set bs \<subseteq> B" and "fst ` T \<subseteq> X"
    and "set bs' \<subseteq> B" and "(\<Union>b \<in> set bs'. set (txdata b)) \<subseteq> X"
  shows "inj_on (bitcoin_hash D) (set (headers_of bs) \<union> set (headers_of bs'))"
    and "inj_on (tx_txid D) (fst ` T \<union> (\<Union>b \<in> set bs'. set (txdata b)))"
proof -
  have "set (headers_of bs) \<union> set (headers_of bs') \<subseteq> blk_header ` B" using assms(3,5) by (auto simp: headers_of_def)
  from inj_on_subset [OF inj_headers [OF assms(1)] this]
  show "inj_on (bitcoin_hash D) (set (headers_of bs) \<union> set (headers_of bs'))" .
  show "inj_on (tx_txid D) (fst ` T \<union> (\<Union>b \<in> set bs'. set (txdata b)))"
    by (rule inj_on_subset [OF assms(2) Un_least [OF assms(4,6)]])
qed

lemma located_within:
  assumes "inj_on (blk_hash D) B" and "inj_on (tx_txid D) X" and "set bs \<subseteq> B" and "fst ` T \<subseteq> X" and "located D bs T"
    and "set bs' \<subseteq> B" and "one_block_each (set bs')" and "(\<Union>b \<in> set bs'. set (txdata b)) \<subseteq> X"
  shows "located D bs' (foldl (index_block_txs D) T (drop (fork_height (headers_of bs) (headers_of bs')) bs'))"
    and "fst ` foldl (index_block_txs D) T (drop k bs') \<subseteq> X"
proof -
  let ?k = "fork_height (headers_of bs) (headers_of bs')"
  have "headers_of (take ?k bs') = headers_of (take ?k bs)"
    using take_fork_height [of "headers_of bs" "headers_of bs'"] by (simp add: headers_of_def take_map)
  then have "take ?k bs' = take ?k bs"
    using same_blocks [OF assms(1)] assms(3,6) set_take_subset [of ?k] by (meson subset_trans)
  from located_reorg [OF assms(5) this assms(7) inj_on_subset [OF assms(2,8)]]
  show "located D bs' (foldl (index_block_txs D) T (drop ?k bs'))" .
  have sub: "fst ` T \<union> (\<Union>b \<in> set (drop k bs'). set (txdata b)) \<subseteq> X"
    using set_drop_subset [of k bs'] assms(4,8) by blast
  from indexed_transactions [OF inj_on_subset [OF assms(2) this]] sub
  show "fst ` foldl (index_block_txs D) T (drop k bs') \<subseteq> X" by simp
qed

lemma round_in_step:
  assumes "bitcoind D N S" and "rocksdb_ok R c" and "hash_iter_ok iter" and "node_within D N S B X" and I: "run_inv D S c B X s"
  shows "\<exists>r s'. server_round D N R iter s = Some (r, s') \<and> \<not> panics r \<and> (no_signal N S \<longrightarrow> is_ok r) \<and>
     (is_ok r \<longrightarrow> in_step D S c X (node_of S (app_daemon (sst_app s))) s')"
proof -
  let ?bs = "nd_blocks (node_of S (app_daemon (sst_app s)))"
  obtain bs T where bs: "app_ok D S c (sst_app s) (headers_of bs)" "set bs \<subseteq> B"
      "indexes D (db_contents c (app_store (sst_app s))) T" "fst ` T \<subseteq> X" "located D bs T"
    and up: "daemon_up S (app_daemon (sst_app s))" "tracker_inv D (sst_tracker s)"
    using I unfolding run_inv_def by blast
  have B: "inj_on (blk_hash D) B" "inj_on (tx_txid D) X" using assms(4) by (simp_all add: node_within_def)
  have node: "set ?bs \<subseteq> B" "one_block_each (set ?bs)" "(\<Union>b \<in> set ?bs. set (txdata b)) \<subseteq> X"
    using assms(4) up(1) unfolding node_within_def daemon_up_def by blast+
  note inj = inj_both [OF B bs(2,4) node(1,3)] and idx = located_within [OF B bs(2,4,5) node]
  let ?T = "foldl (index_block_txs D) T (drop (fork_height (headers_of bs) (headers_of ?bs)) ?bs)"
  obtain r s' where r: "server_round D N R iter s = Some (r, s')" "\<not> panics r" "no_signal N S \<longrightarrow> is_ok r"
    "is_ok r \<longrightarrow> app_ok D S c (sst_app s') (headers_of ?bs) \<and> app_tip (sst_app s') = blk_hash D (last ?bs) \<and>
       indexes D (db_contents c (app_store (sst_app s'))) ?T \<and> tracker_inv D (sst_tracker s') \<and>
       fst ` set (tr_items (sst_tracker s')) = tx_txid D ` set (nd_mempool (node_of S (app_daemon (sst_app s)))) \<and>
       sst_rpc s' \<and> daemon_up S (app_daemon (sst_app s'))"
    using server_round_client [OF assms(1) up(1) assms(2) bs(1) refl inj(1) bs(3) inj(2) assms(3) up(2)] by blast
  then have "is_ok r \<longrightarrow> in_step D S c X (node_of S (app_daemon (sst_app s))) s'"
    unfolding in_step_def using idx by (intro impI conjI exI [of _ ?T]) simp_all
  with r(1-3) show ?thesis by blast
qed

lemma run_inv_step:
  assumes "bitcoind D N S" and "rocksdb_ok R c" and "hash_iter_ok iter" and "node_within D N S B X" and "run_inv D S c B X s"
    and "server_step D N R iter s s''"
  shows "run_inv D S c B X s''"
  using assms(6)
proof cases
  case (server_pass s')
  let ?e = "d_env (app_daemon (sst_app s))" and ?e' = "d_env (app_daemon (sst_app s'))"
  have up: "sv_up S ?e" using assms(5) by (simp add: run_inv_def daemon_up_def)
  have step: "in_step D S c X (sv_node S ?e) s'"
    using round_in_step [OF assms(1-5)] server_pass(1) by auto
  then have up': "sv_up S ?e'" "sv_lines S ?e' = []" by (simp_all add: in_step_def daemon_up_def)
  obtain r e where w: "net_recv_timeout N ?e' 5 = (r, e)" by (cases "net_recv_timeout N ?e' 5")
  have "sv_up S e" "sv_lines S e = []" using assms(4) up' w unfolding node_within_def by auto
  moreover have s'': "s'' = s'\<lparr>sst_app := (sst_app s')\<lparr>app_daemon := (app_daemon (sst_app s'))\<lparr>d_env := e\<rparr>\<rparr>\<rparr>"
    using server_pass(2) w Waiter_wait_returns [of "net_recv_timeout N" 5 ?e']
    by (auto simp: on_sst_app_def on_app_daemon_def on_env_def)
  moreover have "set (nd_blocks (sv_node S ?e)) \<subseteq> B" using assms(4) up unfolding node_within_def by blast
  ultimately show ?thesis
    using step by (auto simp: run_inv_def in_step_def app_ok_def daemon_up_def)
qed

lemma run_inv_steps:
  assumes "bitcoind D N S" and "rocksdb_ok R c" and "hash_iter_ok iter" and "node_within D N S B X" and "run_inv D S c B X s"
    and "(server_step D N R iter)\<^sup>*\<^sup>* s s'"
  shows "run_inv D S c B X s'"
  using assms(6) by (induction rule: rtranclp_induct) (use assms(5) run_inv_step [OF assms(1-4)] in blast)+


section \<open>Properties\<close>

text \<open>The state in which the loop starts.\<close>

definition started :: "('r, 'e) app \<Rightarrow> ('r, 'e) server_state" where
  "started a = \<lparr>sst_app = a, sst_tracker = Tracker_new, sst_rpc = False\<rparr>"

lemma run_inv_started:
  assumes "bitcoind D N S" and "daemon_up S d" and "rocksdb_ok R c"
    and "rdb_open R (db_open_options \<lparr>opt_path = path, bulk_import = True, low_memory = jsonrpc\<rparr>) path = Some h"
    and "store_chain D (c h) (headers_of bs)" and "0 < n" and "n \<le> sv_limit S" and "indexes D (c h) T"
    and "bt_get (c h) [70] \<noteq> None \<or> jsonrpc"
    and "node_within D N S B X" and "set bs \<subseteq> B" and "fst ` T \<subseteq> X" and "located D bs T"
    and "start_app D N R bulk path jsonrpc n d = Some (Ok a, d')"
  shows "run_inv D S c B X (started a)"
proof -
  let ?bs = "nd_blocks (node_of S d)" and ?T = "\<lambda>bs'. foldl (index_block_txs D) T (drop (fork_height (headers_of bs) (headers_of bs')) bs')"
  have B: "inj_on (blk_hash D) B" "inj_on (tx_txid D) X" using assms(10) by (simp_all add: node_within_def)
  have node: "set ?bs \<subseteq> B" "one_block_each (set ?bs)" "(\<Union>b \<in> set ?bs. set (txdata b)) \<subseteq> X"
    using assms(2,10) unfolding node_within_def daemon_up_def by blast+
  note inj = inj_both [OF B assms(11,12) node(1,3)]
  from start_app_client [OF assms(1-7) refl inj(1) assms(8) inj(2) assms(9), of bulk] assms(14)
  have up: "daemon_up S (app_daemon a)" and
    cases: "(app_ok D S c a (headers_of bs) \<and> indexes D (db_contents c (app_store a)) T) \<or>
      (app_ok D S c a (headers_of ?bs) \<and> indexes D (db_contents c (app_store a)) (?T ?bs))"
    by (auto split: if_splits)
  from cases show ?thesis
  proof
    assume "app_ok D S c a (headers_of bs) \<and> indexes D (db_contents c (app_store a)) T"
    with assms(11-13) up show ?thesis by (auto simp: run_inv_def started_def tracker_inv_new)
  next
    assume "app_ok D S c a (headers_of ?bs) \<and> indexes D (db_contents c (app_store a)) (?T ?bs)"
    with located_within [OF B assms(11-13) node] node(1) up show ?thesis
      unfolding run_inv_def started_def by (intro conjI exI [of _ ?bs] exI [of _ "?T ?bs"]) (simp_all add: tracker_inv_new)
  qed
qed

lemma step_exists:
  assumes "bitcoind D N S" and "rocksdb_ok R c" and "hash_iter_ok iter" and "node_within D N S B X" and "run_inv D S c B X s"
    and "no_signal N S" and "\<And>e. sv_up S e \<Longrightarrow> fst (net_recv_timeout N e 5) = Timeout"
  shows "\<exists>s'. server_step D N R iter s s'"
proof -
  obtain s1 where r: "server_round D N R iter s = Some (Ok (), s1)" "in_step D S c X (node_of S (app_daemon (sst_app s))) s1"
    using round_in_step [OF assms(1-5)] assms(6) by (auto elim: is_ok.elims)
  then have "sv_up S (d_env (app_daemon (sst_app s1)))" by (simp add: in_step_def daemon_up_def)
  with assms(7) Waiter_wait_returns [of "net_recv_timeout N" 5 "d_env (app_daemon (sst_app s1))"]
  have "\<exists>s2. on_sst_app (on_app_daemon (on_env (wait_secs N 5))) s1 = Some (Ok (), s2)"
    by (auto simp: on_sst_app_def on_app_daemon_def on_env_def elim: is_ok.elims)
  with r(1) show ?thesis by (blast intro: server_pass)
qed

text \<open>A loop that returns has no invariant under which a further pass is always possible.\<close>

definition perpetual :: "(('r, 'e) server_state \<Rightarrow> ('r, 'e) server_state \<Rightarrow> bool) \<Rightarrow> (('r, 'e) server_state \<Rightarrow> bool) \<Rightarrow> bool" where
  "perpetual step I \<longleftrightarrow> (\<forall>s. I s \<longrightarrow> (\<exists>s'. step s s' \<and> I s'))"

lemma server_loop_returns:
  assumes "server_loop D N R iter s = Some y" and "perpetual (server_step D N R iter) I"
  shows "\<not> I s"
proof -
  have "perpetual (server_step D N R iter) I \<longrightarrow> \<not> I s"
  proof (rule server_loop.raw_induct [where P = "\<lambda>D N R iter s y. perpetual (server_step D N R iter) I \<longrightarrow> \<not> I s", OF _ assms(1)],
      intro impI notI)
    fix loop D N R iter s y
    assume IH: "\<And>D N R iter s y. loop D N R iter s = Some y \<Longrightarrow> perpetual (server_step D N R iter) I \<longrightarrow> \<not> I s"
      and body: "Option.bind (server_round D N R iter s) (\<lambda>(r, s).
        case r of Ok x \<Rightarrow> Option.bind (on_sst_app (on_app_daemon (on_env (wait_secs N 5))) s) (\<lambda>(r, s).
            case r of Ok x \<Rightarrow> loop D N R iter s | Err x \<Rightarrow> Some (Err x, s) | Panic p \<Rightarrow> Some (Panic p, s))
        | Err x \<Rightarrow> leave_run_server s (Err x, s) | Panic p \<Rightarrow> leave_run_server s (Panic p, s)) = Some y"
      and p: "perpetual (server_step D N R iter) I" and "I s"
    then obtain s' where s': "server_step D N R iter s s'" "I s'" unfolding perpetual_def by blast
    then have "loop D N R iter s' = Some y" using body by cases simp
    with IH p s'(2) show False by blast
  qed
  with assms(2) show ?thesis by blast
qed

text \<open>The closed example: a start with an empty database on the node of \<open>Node_Example\<close>.\<close>

lemma ex_node_within: "node_within ex_deps ex_net ex_server (set ex_blocks) {}"
proof -
  have "sv_node ex_server e = ex_node" "nd_blocks ex_node = ex_blocks" for e by (simp_all add: ex_server_simps ex_node_def)
  moreover have "inj_on (blk_hash ex_deps) (set ex_blocks)" by (simp add: ex_blocks_eq inj_on_def)
  moreover have "\<forall>b \<in> set ex_blocks. txdata b = []" by (simp add: ex_blocks_eq)
  ultimately show ?thesis by (simp add: node_within_def one_block_each_def ex_server_simps ex_net_def)
qed

lemma ex_run_start:
  "daemon_up ex_server ex_daemon" "\<And>opts path. rdb_open mem_rocksdb opts path = Some mem_empty"
  "store_chain ex_deps (mem_contents mem_empty) (headers_of [])" "(1 :: nat) \<le> sv_limit ex_server"
  "indexes ex_deps (mem_contents mem_empty) {}" "fst ` {} \<subseteq> ({} :: transaction set)" "located ex_deps [] {}"
  "\<exists>a d'. start_app ex_deps ex_net mem_rocksdb (\<lambda>_ _. None) '''' True 1 ex_daemon = Some (Ok a, d')"
proof -
  have m: "mem_contents mem_empty = db_contents mem_contents mem_store" "app_store ex_app = mem_store"
    by (simp_all add: db_contents_def mem_store_def ex_app_def)
  show up: "daemon_up ex_server ex_daemon" using ex_app_facts(1) by (simp add: ex_app_def)
  show opens: "rdb_open mem_rocksdb opts path = Some mem_empty" for opts path by (simp add: mem_rocksdb_def)
  show chain: "store_chain ex_deps (mem_contents mem_empty) (headers_of [])"
    unfolding m(1) headers_of_def using ex_app_facts(7) by simp
  show limit: "(1 :: nat) \<le> sv_limit ex_server" by (simp add: ex_server_simps)
  show idx: "indexes ex_deps (mem_contents mem_empty) {}" unfolding m(1) using ex_app_facts(5) m(2) by simp
  have node: "nd_blocks (node_of ex_server ex_daemon) = ex_blocks" using ex_app_facts(3) by (simp add: ex_app_def)
  have no_marker: "bt_get (mem_contents mem_empty) [70] = None" by (simp add: bt_get_def)
  have nil: "headers_of [] = []" by (simp add: headers_of_def)
  from start_app_client [OF bitcoind_ex up mem_rocksdb_ok opens chain [unfolded nil] zero_less_one limit node ex_app_facts(4) idx
      ex_app_facts(6) disjI2 [OF TrueI], where bulk = "\<lambda>_ _. None" and path = "''''"] no_marker no_signal_ex
  show "\<exists>a d'. start_app ex_deps ex_net mem_rocksdb (\<lambda>_ _. None) '''' True 1 ex_daemon = Some (Ok a, d')"
    by (fastforce split: res.splits)
qed (simp_all add: located_def)

text \<open>
  C3: Every round keeps up. From a start on, however often the loop is passed and however the node changes
  in between, by new blocks, reorganisations or its mempool, the next round returns, never panics, and fails only
  if a signal comes; when it succeeds, the server is in step with the node: the index represents the
  node's best chain, every transaction of this chain is indexed in its block, the tracker follows the
  node's mempool, and the RPC server runs.
\<close>

theorem server_stays_in_step:
  assumes "bitcoind D N S" and "daemon_up S d" and "rocksdb_ok R c"
    and "rdb_open R (db_open_options \<lparr>opt_path = path, bulk_import = True, low_memory = jsonrpc\<rparr>) path = Some h"
    and "store_chain D (c h) (headers_of bs)" and "0 < n" and "n \<le> sv_limit S" and "indexes D (c h) T"
    and "bt_get (c h) [70] \<noteq> None \<or> jsonrpc"
    and "node_within D N S B X" and "set bs \<subseteq> B" and "fst ` T \<subseteq> X" and "located D bs T" and "hash_iter_ok iter"
    and "start_app D N R bulk path jsonrpc n d = Some (Ok a, d')"
    and "(server_step D N R iter)\<^sup>*\<^sup>* (started a) s"
  shows "\<exists>r s'. server_round D N R iter s = Some (r, s') \<and> \<not> panics r \<and> (no_signal N S \<longrightarrow> is_ok r) \<and>
     (is_ok r \<longrightarrow> in_step D S c X (node_of S (app_daemon (sst_app s))) s')"
proof -
  have "run_inv D S c B X (started a)" using run_inv_started [OF assms(1-13,15)] .
  from round_in_step [OF assms(1,3,14,10) run_inv_steps [OF assms(1,3,14,10) this assms(16)]] show ?thesis .
qed

theorem server_stays_in_step_witness:
  "\<exists>a s s'. (server_step ex_deps ex_net mem_rocksdb (\<lambda>x. x))\<^sup>*\<^sup>* (started a) s \<and> sst_rpc s \<and>
     server_round ex_deps ex_net mem_rocksdb (\<lambda>x. x) s = Some (Ok (), s') \<and>
     in_step ex_deps ex_server mem_contents {} ex_node s'"
proof -
  obtain a d' where a: "start_app ex_deps ex_net mem_rocksdb (\<lambda>_ _. None) '''' True 1 ex_daemon = Some (Ok a, d')"
    using ex_run_start(8) by blast
  note run = server_stays_in_step [OF bitcoind_ex ex_run_start(1) mem_rocksdb_ok ex_run_start(2,3) zero_less_one ex_run_start(4,5)
      disjI2 [OF TrueI] ex_node_within _ ex_run_start(6,7) hash_iter_ok_id a]
  have node: "sv_node ex_server e = ex_node" for e by (simp add: ex_server_simps)
  have round: "\<exists>s'. server_round ex_deps ex_net mem_rocksdb (\<lambda>x. x) s = Some (Ok (), s') \<and> in_step ex_deps ex_server mem_contents {} ex_node s'"
    if "(server_step ex_deps ex_net mem_rocksdb (\<lambda>x. x))\<^sup>*\<^sup>* (started a) s" for s
    using run [OF _ that] no_signal_ex unfolding node by (auto elim: is_ok.elims)
  obtain s1 where s1: "server_round ex_deps ex_net mem_rocksdb (\<lambda>x. x) (started a) = Some (Ok (), s1)" "sst_rpc s1"
    using round [OF rtranclp.rtrancl_refl] by (auto simp: in_step_def)
  then obtain s2 where s2: "server_step ex_deps ex_net mem_rocksdb (\<lambda>x. x) (started a) s2" "sst_rpc s2"
    using server_pass [OF s1(1)] by (simp add: on_sst_app_def on_app_daemon_def on_env_def Waiter_wait_def ex_net_def)
  from round [OF r_into_rtranclp [of "server_step ex_deps ex_net mem_rocksdb (\<lambda>x. x)", OF s2(1)]] s2 show ?thesis by blast
qed

text \<open>
  C19: Without signals the server never ends. From a start on, if no signal comes, every state that the loop
  reaches has a next pass, and the loop does not return.
\<close>

theorem server_runs_forever:
  assumes "bitcoind D N S" and "daemon_up S d" and "rocksdb_ok R c"
    and "rdb_open R (db_open_options \<lparr>opt_path = path, bulk_import = True, low_memory = jsonrpc\<rparr>) path = Some h"
    and "store_chain D (c h) (headers_of bs)" and "0 < n" and "n \<le> sv_limit S" and "indexes D (c h) T"
    and "bt_get (c h) [70] \<noteq> None \<or> jsonrpc"
    and "node_within D N S B X" and "set bs \<subseteq> B" and "fst ` T \<subseteq> X" and "located D bs T" and "hash_iter_ok iter"
    and "start_app D N R bulk path jsonrpc n d = Some (Ok a, d')"
    and "no_signal N S" and "\<And>e. sv_up S e \<Longrightarrow> fst (net_recv_timeout N e 5) = Timeout"
  shows "(\<forall>s. (server_step D N R iter)\<^sup>*\<^sup>* (started a) s \<longrightarrow> (\<exists>s'. server_step D N R iter s s')) \<and>
     server_loop D N R iter (started a) = None"
proof -
  have I: "run_inv D S c B X (started a)" using run_inv_started [OF assms(1-13,15)] .
  note step = run_inv_step [OF assms(1,3,14,10)] and ex = step_exists [OF assms(1,3,14,10) _ assms(16,17)]
  have "perpetual (server_step D N R iter) (run_inv D S c B X)" unfolding perpetual_def using step ex by blast
  then have "server_loop D N R iter (started a) \<noteq> Some y" for y
    using server_loop_returns [of D N R iter "started a" y "run_inv D S c B X"] I by blast
  then have "server_loop D N R iter (started a) = None" by (cases "server_loop D N R iter (started a)") blast+
  moreover have "\<exists>s'. server_step D N R iter s s'" if "(server_step D N R iter)\<^sup>*\<^sup>* (started a) s" for s
    using ex [OF run_inv_steps [OF assms(1,3,14,10) I that]] .
  ultimately show ?thesis by blast
qed

theorem server_runs_forever_witness:
  "\<exists>a. server_loop ex_deps ex_net mem_rocksdb (\<lambda>x. x) (started a) = None"
proof -
  obtain a d' where a: "start_app ex_deps ex_net mem_rocksdb (\<lambda>_ _. None) '''' True 1 ex_daemon = Some (Ok a, d')"
    using ex_run_start(8) by blast
  from server_runs_forever [OF bitcoind_ex ex_run_start(1) mem_rocksdb_ok ex_run_start(2,3) zero_less_one ex_run_start(4,5)
      disjI2 [OF TrueI] ex_node_within _ ex_run_start(6,7) hash_iter_ok_id a no_signal_ex]
  show ?thesis by (auto simp: ex_net_def)
qed

end
