(* ===== verification/Bulk_Start.thy ===== *)
theory Bulk_Start
  imports Server_Run
begin

text \<open>
  The first start of the server of \<open>bin/addrindexrs.rs\<close> with a bulk import: what \<open>index_blk_files\<close> of
  \<open>bulk.rs\<close> and the reload of the index leave when the block files hold the best chain. With the
  invariant of \<open>Server_Run\<close>, the rounds of the server continue from there as from an import by JSON-RPC.
\<close>

text \<open>A successful run of the import on an empty database.\<close>

lemma index_blk_files_contents:
  assumes "bitcoind D N S" and "daemon_up S d" and "rocksdb_ok R c" and "nd_blocks (node_of S d) = bs"
    and "index_blk_files D N R read_file magic glob threads (store, d) (store', d')" and "db_contents c store = []"
    and "list_blk_files glob d = Ok files" and "set bs \<subseteq> file_blocks D read_file (magic (d_network d)) files"
    and "inj_on (blk_hash D) (file_blocks D read_file (magic (d_network d)) files)"
    and "inj_on (tx_txid D) (\<Union>b \<in> set bs. set (txdata b))" and "one_block_each (set bs)"
  shows "db_contents c store' = put_rows [] (concat (map (indexed_rows D) bs)) \<and> daemon_up S d'"
proof -
  note codec = bitcoindD(2) [OF assms(1)]
  obtain parser st where b:
    "Parser_new D (daemon_methods D N) (Daemon_magic magic d) {} d = Some (Ok parser, d')"
    "(bulk_step D read_file (p_magic parser) (p_headers parser) (db_write_store R))\<^sup>*\<^sup>*
       (bulk_init files (p_indexed parser) threads store) st"
    "bulk_done st" "bulk_finish D (p_headers parser) (db_write_store R) st = Ok store'"
    using assms(5,7) read_indexed_blockhashes_empty [OF codec assms(3,6)] by (auto simp: index_blk_files_def)
  have ne: "bs \<noteq> []" using bitcoindD(4) [OF assms(1,2)] assms(4) by (simp add: node_ok_def)
  have "inj_on (bitcoin_hash D) (set (headers_of bs))"
    using inj_headers [OF inj_on_subset [OF assms(9,8)]] by (simp add: headers_of_def)
  from load_headers_client [OF assms(1,2,4) this] obtain hl where h:
    "load_headers D (daemon_methods D N) d = Some (Ok hl, d')" "hl_rep D hl (headers_of bs)" "daemon_up S d'"
    using b(1) by (auto simp: Parser_new_def pbind_def)
  then have parser: "p_magic parser = magic (d_network d)" "p_headers parser = hl" "p_indexed parser = {}"
    using b(1) by (auto simp: Parser_new_def pbind_def Daemon_magic_def)
  from db.bulk_same_contents [OF codec assms(3) h(2) ne assms(8-11) b(2) [unfolded parser] b(3)] b(4) h(3) assms(6)
  show ?thesis by (auto simp: parser db_contents_def)
qed

lemma bulk_start_client:
  assumes "bitcoind D N S" and "daemon_up S d" and "rocksdb_ok R c" and "nd_blocks (node_of S d) = bs"
    and "index_blk_files D N R read_file magic glob threads (store, d) (store', d')" and "db_contents c store = []"
    and "list_blk_files glob d = Ok files" and "set bs \<subseteq> file_blocks D read_file (magic (d_network d)) files"
    and "inj_on (blk_hash D) (file_blocks D read_file (magic (d_network d)) files)"
    and "inj_on (tx_txid D) (\<Union>b \<in> set bs. set (txdata b))" and "one_block_each (set bs)"
    and "bulk store d = Some (Ok store', d')"
  shows "\<exists>index' store''. initial_import D N R bulk False index store d = Some (Ok (index', store''), d') \<and>
     daemon_up S d' \<and> hl_rep D (ix_headers index') (headers_of bs) \<and> ix_batch_size index' = ix_batch_size index \<and>
     store_chain D (db_contents c store'') (headers_of bs) \<and> indexes D (db_contents c store'') (foldl (index_block_txs D) {} bs)"
proof -
  note codec = bitcoindD(2) [OF assms(1)]
  have store': "db_contents c store' = put_rows [] (concat (map (indexed_rows D) bs))" "daemon_up S d'"
    using index_blk_files_contents [OF assms(1-11)] by simp_all
  have node: "valid_chain D (headers_of bs)" "bs \<noteq> []"
    using bitcoindD(4) [OF assms(1,2)] assms(4) by (simp_all add: node_ok_def)
  have sorted: "bt_sorted ([] :: (bytes, bytes) btree)" by (simp add: bt_sorted_def)
  have "store_headers D [] []" by (simp add: store_headers_def header_rows_ok_def bt_get_def sorted)
  from store_chain_index_blocks [OF this, of bs] node
  have chain: "store_chain D (db_contents c store') (headers_of bs)" unfolding store' by (simp add: headers_of_def)
  have idx: "indexes D (db_contents c store') (foldl (index_block_txs D) {} bs)"
    unfolding store' using indexes_index_blocks [OF indexes_empty sorted, of D bs] assms(10) by simp
  obtain s2 where s2: "full_compaction R store' = Ok s2" "store_chain D (db_contents c s2) (headers_of bs)"
    using full_compaction_chain [OF assms(3) chain] by blast
  have "bt_get (db_contents c s2) k = bt_get (db_contents c store') k" if "k \<noteq> [70]" for k
    using full_compaction_spec [OF assms(3), of store'] s2(1) that by (auto simp: db_contents_def)
  note idx2 = indexes_same_rows [OF idx this]
  obtain hl' where r: "read_indexed_headers D (db_read_store R) s2 = Ok hl'" "hl_rep D hl' (headers_of bs)"
    using db.read_indexed_headers_chain [OF codec assms(3)] s2(2) unfolding db_contents_def by blast
  have "is_fully_compacted (db_read_store R) store = Ok False"
    using is_fully_compacted_marker [OF assms(3), of store] assms(6) by (simp add: bt_get_def)
  then have "initial_import D N R bulk False index store d = Some (Ok (index\<lparr>ix_headers := hl'\<rparr>, s2), d')"
    using assms(12) s2(1) r(1) by (simp add: initial_import_def pbind_Ok Index_reload_def)
  then show ?thesis using store'(2) r(2) s2(2) idx2 by simp
qed

text \<open>The whole start: it fails only if the import does, and otherwise leaves the invariant of the server.\<close>

lemma start_bulk:
  assumes "bitcoind D N S" and "daemon_up S d" and "rocksdb_ok R c"
    and "rdb_open R (db_open_options \<lparr>opt_path = path, bulk_import = True, low_memory = False\<rparr>) path = Some h"
    and "c h = []" and "0 < n" and "n \<le> sv_limit S" and within: "node_within D N S B X"
    and bulk: "\<And>s d s' d'. bulk s d = Some (Ok s', d') \<Longrightarrow> index_blk_files D N R read_file magic glob threads (s, d) (s', d')"
    and files: "\<And>d. daemon_up S d \<Longrightarrow> \<exists>files. list_blk_files glob d = Ok files \<and>
      set (nd_blocks (node_of S d)) \<subseteq> file_blocks D read_file (magic (d_network d)) files \<and>
      inj_on (blk_hash D) (file_blocks D read_file (magic (d_network d)) files)"
  shows "\<exists>s d1. db_contents c s = [] \<and> daemon_up S d1 \<and>
     (if \<exists>s' d2. bulk s d1 = Some (Ok s', d2)
      then \<exists>a d'. start_app D N R bulk path False n d = Some (Ok a, d') \<and> run_inv D S c B X (started a)
      else \<nexists>a d'. start_app D N R bulk path False n d = Some (Ok a, d'))"
proof -
  let ?s = "\<lparr>db_handle = h, db_opts = \<lparr>opt_path = path, bulk_import = True, low_memory = False\<rparr>\<rparr>"
  have m: "db_contents c ?s = []" using assms(5) by (simp add: db_contents_def)
  then have "store_chain D (db_contents c ?s) []" by (simp add: store_chain_def header_rows_ok_def bt_get_def bt_sorted_def)
  from Index_load_client [OF assms(1-3) this, of n] obtain index d1 where
    load: "Index_load D (daemon_methods D N) (db_read_store R) ?s n d = Some (Ok index, d1)"
    "ix_batch_size index = n" "daemon_up S d1" by blast
  note steps = start_app_steps [OF assms(4) refl load(1), of bulk]
  have "is_fully_compacted (db_read_store R) ?s = Ok False"
    using is_fully_compacted_marker [OF assms(3), of ?s] m by (simp add: bt_get_def)
  then have "\<exists>store' d2. bulk ?s d1 = Some (Ok store', d2)" if "start_app D N R bulk path False n d = Some (Ok a, d')" for a d'
    using that unfolding steps by (auto simp: initial_import_def pbind_eq_Some)
  moreover have "\<exists>a d'. start_app D N R bulk path False n d = Some (Ok a, d') \<and> run_inv D S c B X (started a)"
    if b: "bulk ?s d1 = Some (Ok store', d2)" for store' d2
  proof -
    let ?bs = "nd_blocks (node_of S d1)"
    have node: "set ?bs \<subseteq> B" "one_block_each (set ?bs)" "(\<Union>b \<in> set ?bs. set (txdata b)) \<subseteq> X" "inj_on (tx_txid D) X"
      using load(3) within unfolding node_within_def daemon_up_def by blast+
    note inj = inj_on_subset [OF node(4,3)]
    obtain fs where fs: "list_blk_files glob d1 = Ok fs" "set ?bs \<subseteq> file_blocks D read_file (magic (d_network d1)) fs"
      "inj_on (blk_hash D) (file_blocks D read_file (magic (d_network d1)) fs)"
      using files [OF load(3)] by blast
    from bulk_start_client [where bulk = bulk, OF assms(1) load(3) assms(3) refl bulk [OF b] m fs inj node(2) b, of index]
    obtain index' store'' where i: "initial_import D N R bulk False index ?s d1 = Some (Ok (index', store''), d2)" "daemon_up S d2"
        "hl_rep D (ix_headers index') (headers_of ?bs)" "ix_batch_size index' = n"
        "store_chain D (db_contents c store'') (headers_of ?bs)"
        "indexes D (db_contents c store'') (foldl (index_block_txs D) {} ?bs)"
      using load(2) by auto
    have "0 < ix_batch_size index'" "ix_batch_size index' \<le> sv_limit S" using i(4) assms(6,7) by simp_all
    from start_after_import [OF assms(1,3) i(1-3) this store_chain_store_headers [OF i(5)] i(5)] obtain a d' where
      a: "start_app D N R bulk path False n d = Some (Ok a, d')" "app_ok D S c a (headers_of ?bs)"
        "db_contents c (app_store a) = db_contents c store''" "daemon_up S (app_daemon a)"
      unfolding steps by auto
    moreover have "fst ` foldl (index_block_txs D) {} ?bs \<subseteq> X" using indexed_transactions [of D "{}" ?bs] inj node(3) by simp
    moreover note index_blocks_located [OF node(2) inj, of "{}"]
    ultimately have "run_inv D S c B X (started a)"
      unfolding run_inv_def started_def using i(6) node(1)
      by (intro conjI exI [of _ ?bs] exI [of _ "foldl (index_block_txs D) {} ?bs"]) (simp_all add: tracker_inv_new)
    with a(1) show ?thesis by blast
  qed
  ultimately show ?thesis using m load(3) by (intro exI [of _ ?s] exI [of _ d1]) auto
qed

text \<open>
  C16: A server that was started with a bulk import keeps up as well. On an empty database, with block files
  that hold the node's best chain (and no two blocks with the same hash), and whatever the schedule
  of the import's threads: when the start succeeds, then from there on every round returns, never panics,
  and brings the server in step with the node, unless a signal comes.
\<close>

theorem bulk_server_in_step:
  assumes "bitcoind D N S" and "daemon_up S d" and "rocksdb_ok R c"
    and "rdb_open R (db_open_options \<lparr>opt_path = path, bulk_import = True, low_memory = False\<rparr>) path = Some h"
    and "c h = []" and "0 < n" and "n \<le> sv_limit S" and "node_within D N S B X"
    and "\<And>s d s' d'. bulk s d = Some (Ok s', d') \<Longrightarrow> index_blk_files D N R read_file magic glob threads (s, d) (s', d')"
    and "\<And>d. daemon_up S d \<Longrightarrow> \<exists>files. list_blk_files glob d = Ok files \<and>
      set (nd_blocks (node_of S d)) \<subseteq> file_blocks D read_file (magic (d_network d)) files \<and>
      inj_on (blk_hash D) (file_blocks D read_file (magic (d_network d)) files)"
    and "start_app D N R bulk path False n d = Some (Ok a, d')" and "hash_iter_ok iter"
    and "(server_step D N R iter)\<^sup>*\<^sup>* (started a) s"
  shows "\<exists>r s'. server_round D N R iter s = Some (r, s') \<and> \<not> panics r \<and> (no_signal N S \<longrightarrow> is_ok r) \<and>
     (is_ok r \<longrightarrow> in_step D S c X (node_of S (app_daemon (sst_app s))) s')"
proof -
  have "run_inv D S c B X (started a)"
    using start_bulk [where bulk = bulk, OF assms(1-10)] assms(11) by (auto split: if_splits)
  from round_in_step [OF assms(1,3,12,8) run_inv_steps [OF assms(1,3,12,8) this assms(13)]] show ?thesis .
qed

text \<open>The closed example: there is a function whose values are runs of the import.\<close>

abbreviation ex_import :: "memdb dbstore \<times> ex_env daemon \<Rightarrow> memdb dbstore \<times> ex_env daemon \<Rightarrow> bool" where
  "ex_import \<equiv> index_blk_files ex_deps ex_net mem_rocksdb ex_files (\<lambda>_. 7) (\<lambda>_. Some [Some ''blk00000.dat'']) 2"

lemma ex_bulk_exists:
  "\<exists>bulk :: memdb dbstore \<Rightarrow> (ex_env daemon, memdb dbstore) prog.
     (\<forall>s d s' d'. bulk s d = Some (Ok s', d') \<longrightarrow> ex_import (s, d) (s', d')) \<and>
     (\<forall>s d. daemon_up ex_server d \<longrightarrow> db_contents mem_contents s = [] \<longrightarrow> (\<exists>s' d'. bulk s d = Some (Ok s', d')))"
proof -
  let ?ok = "\<lambda>x y. case y of None \<Rightarrow> \<not> (\<exists>p. ex_import x p) | Some p \<Rightarrow> ex_import x p"
  have "\<exists>y. ?ok x y" for x
  proof (cases "\<exists>p. ex_import x p")
    case True
    then obtain p where "ex_import x p" by blast
    then show ?thesis by (intro exI [of _ "Some p"]) simp
  qed (auto intro: exI [of _ None])
  then obtain f where f: "\<And>x. ?ok x (f x)" using choice [of ?ok] by blast
  let ?bulk = "\<lambda>s d. map_option (\<lambda>(s', d'). (Ok s', d')) (f (s, d))"
  have "ex_import (s, d) (s', d')" if "?bulk s d = Some (Ok s', d')" for s d s' d'
    using f [of "(s, d)"] that by (auto split: option.splits)
  moreover have "\<exists>s' d'. ?bulk s d = Some (Ok s', d')" if "daemon_up ex_server d" "db_contents mem_contents s = []" for s d
    using f [of "(s, d)"] ex_index_blk_files [OF that] by (auto split: option.splits)
  ultimately show ?thesis by (intro exI [of _ ?bulk]) blast
qed

lemma ex_file_blocks:
  "\<exists>files. list_blk_files (\<lambda>_. Some [Some ''blk00000.dat'']) d = Ok files \<and>
     set (nd_blocks (node_of ex_server d)) \<subseteq> file_blocks ex_deps ex_files 7 files \<and> inj_on (blk_hash ex_deps) (file_blocks ex_deps ex_files 7 files)"
proof -
  have "file_blocks ex_deps ex_files 7 [''blk00000.dat''] = set ex_blocks"
    using ex_blk_file_parse by (auto simp: file_blocks_def ex_files_def)
  moreover have "inj_on (blk_hash ex_deps) (set ex_blocks)" by (simp add: ex_blocks_eq inj_on_def)
  ultimately show ?thesis by (simp add: list_blk_files_def chain_opt_def ex_server_simps ex_node_def)
qed

theorem bulk_server_in_step_witness:
  "\<exists>bulk a d' s'. start_app ex_deps ex_net mem_rocksdb bulk '''' False 1 ex_daemon = Some (Ok a, d') \<and>
     server_round ex_deps ex_net mem_rocksdb (\<lambda>x. x) (started a) = Some (Ok (), s') \<and>
     in_step ex_deps ex_server mem_contents {} ex_node s'"
proof -
  obtain bulk :: "memdb dbstore \<Rightarrow> (ex_env daemon, memdb dbstore) prog" where
    runs: "\<And>s d s' d'. bulk s d = Some (Ok s', d') \<Longrightarrow> ex_import (s, d) (s', d')" and
    returns: "\<And>s d. daemon_up ex_server d \<Longrightarrow> db_contents mem_contents s = [] \<Longrightarrow> \<exists>s' d'. bulk s d = Some (Ok s', d')"
    using ex_bulk_exists by blast
  have m: "mem_contents mem_empty = []" by simp
  note hyps = bitcoind_ex ex_run_start(1) mem_rocksdb_ok ex_run_start(2) m zero_less_one ex_run_start(4) ex_node_within runs ex_file_blocks
  obtain a d' where a: "start_app ex_deps ex_net mem_rocksdb bulk '''' False 1 ex_daemon = Some (Ok a, d')"
    using start_bulk [where bulk = bulk, OF hyps, where path = "''''"] returns by meson
  have node: "sv_node ex_server e = ex_node" for e by (simp add: ex_server_simps)
  from bulk_server_in_step [where bulk = bulk, OF hyps a hash_iter_ok_id rtranclp.rtrancl_refl] no_signal_ex
  have "\<exists>s'. server_round ex_deps ex_net mem_rocksdb (\<lambda>x. x) (started a) = Some (Ok (), s') \<and>
     in_step ex_deps ex_server mem_contents {} ex_node s'"
    unfolding node by (auto elim: is_ok.elims)
  with a show ?thesis by blast
qed

end
