(* ===== verification/Row_Typing.thy ===== *)
theory Row_Typing
  imports Server_Run
begin

text \<open>
  The database is untyped: keys and values are bytes, and every read decodes them and panics if it cannot.
  This theory gives the rows a type, by the first byte of the key, and shows that the program keeps the
  database typed, whatever bitcoind answers and under every schedule of the bulk import, and that no
  decoder fails on a typed database.
\<close>

section \<open>Typed rows\<close>

text \<open>
  The layouts that the code writes and reads (\<open>index.rs\<close>, \<open>store.rs\<close>): the length of the key, and what the value
  decodes to. \<open>T\<close> rows hold a transaction id and the hash of its block, \<open>L\<close> is the row of the last indexed block
  and \<open>F\<close> the marker of the full compaction.
\<close>

fun row_typed :: "deps \<Rightarrow> bytes \<Rightarrow> bytes \<Rightarrow> bool" where
  "row_typed D [] v \<longleftrightarrow> False"
| "row_typed D (c # k) v \<longleftrightarrow>
     (c = 73 \<or> c = 79) \<and> length k = 18 \<and> v = [] \<or>
     c = 84 \<and> length k = 32 \<and> length v = 32 \<or>
     c = 66 \<and> length k = 32 \<and> de_header D v \<noteq> None \<or>
     c = 76 \<and> k = [] \<and> de_hash D v \<noteq> None \<or>
     c = 70 \<and> k = [] \<and> v = []"

text \<open>
  The layouts that \<open>doc/schema.md\<close> gives: \<open>T\<close> rows have no value there, and the \<open>L\<close> and the \<open>F\<close> row do not occur.
\<close>

fun schema_row :: "deps \<Rightarrow> bytes \<Rightarrow> bytes \<Rightarrow> bool" where
  "schema_row D [] v \<longleftrightarrow> False"
| "schema_row D (c # k) v \<longleftrightarrow>
     (c = 73 \<or> c = 79) \<and> length k = 18 \<and> v = [] \<or>
     c = 84 \<and> length k = 32 \<and> v = [] \<or>
     c = 66 \<and> length k = 32 \<and> de_header D v \<noteq> None"

lemma schema_misses_rows:
  "row_typed D (c # k) v \<Longrightarrow> schema_row D (c # k) v \<longleftrightarrow> c \<notin> {84, 76, 70}"
  by auto

definition db_typed :: "deps \<Rightarrow> (bytes, bytes) btree \<Rightarrow> bool" where
  "db_typed D m \<longleftrightarrow> list_all (\<lambda>(k, v). row_typed D k v) m"

abbreviation rows_typed :: "deps \<Rightarrow> row list \<Rightarrow> bool" where
  "rows_typed D rows \<equiv> \<forall>r \<in> set rows. row_typed D (row_key r) (row_value r)"

lemma db_typed_empty [simp]: "db_typed D []"
  by (simp add: db_typed_def)

lemma db_typed_put: "db_typed D m \<Longrightarrow> row_typed D k v \<Longrightarrow> db_typed D (bt_put k v m)"
  unfolding db_typed_def by (induction m) auto

lemma db_typed_put_rows: "db_typed D m \<Longrightarrow> rows_typed D rows \<Longrightarrow> db_typed D (put_rows m rows)"
  by (induction rows arbitrary: m) (simp_all add: store_simps db_typed_put)

lemma tx_rows_typed: "codec_ok D \<Longrightarrow> rows_typed D (tx_rows D t b)"
  by (auto simp: tx_rows_def TxInRow_to_row_def ser_txin_row_def ser_txin_key_def txin_row_of_def
      TxOutRow_to_row_def ser_txout_row_def ser_txout_key_def txout_row_of_def
      TxRow_to_row_def ser_tx_key_def tx_row_of_def HASH_PREFIX_LEN_def codec_okD)

lemma last_indexed_typed: "codec_ok D \<Longrightarrow> row_typed D (row_key (last_indexed_block D h)) (row_value (last_indexed_block D h))"
  by (simp add: last_indexed_block_def codec_okD)

lemma block_rows_typed: "codec_ok D \<Longrightarrow> rows_typed D (block_rows D b)"
  using tx_rows_typed by (auto simp: block_rows_def codec_okD)

lemma indexed_rows_typed: "codec_ok D \<Longrightarrow> rows_typed D (indexed_rows D b)"
  using block_rows_typed last_indexed_typed by (auto simp: indexed_rows_def)

section \<open>Programs that keep a predicate\<close>

definition keeps :: "('s \<Rightarrow> bool) \<Rightarrow> ('s, 'a) prog \<Rightarrow> bool" where
  "keeps P m \<longleftrightarrow> (\<forall>s r s'. P s \<longrightarrow> m s = Some (r, s') \<longrightarrow> P s')"

lemma keepsD: "keeps P m \<Longrightarrow> m s = Some (r, s') \<Longrightarrow> P s \<Longrightarrow> P s'"
  by (auto simp: keeps_def)

lemma keeps_pret [intro!]: "keeps P (pret r)"
  by (simp add: keeps_def)

lemma keeps_never [intro!]: "keeps P (\<lambda>_. None)"
  by (simp add: keeps_def)

lemma keeps_pbind [intro!]:
  assumes "keeps P m" and "\<And>x. keeps P (f x)"
  shows "keeps P (pbind m f)"
  unfolding keeps_def
proof (intro allI impI)
  fix s r s' assume s: "P s" "pbind m f s = Some (r, s')"
  then obtain r1 s1 where m: "m s = Some (r1, s1)" by (auto simp: pbind_def split: option.splits)
  with assms(1) s(1) have "P s1" by (auto dest: keepsD)
  with s(2) m show "P s'" by (cases r1) (auto simp: pbind_def dest: keepsD [OF assms(2)])
qed

lemma keeps_if: "keeps P m \<Longrightarrow> keeps P m' \<Longrightarrow> keeps P (if b then m else m')"
  by simp

lemma keeps_read: "(\<And>x. keeps P (f x)) \<Longrightarrow> keeps P (\<lambda>s. f (g s) s)"
  by (auto simp: keeps_def)

lemma keeps_on_daemon [intro!]: "keeps (\<lambda>st. Q (is_store st)) (on_daemon m)"
  by (auto simp: keeps_def on_daemon_def)

lemma keeps_on_store:
  "(\<And>s s'. Q s \<Longrightarrow> f s = Ok s' \<Longrightarrow> Q s') \<Longrightarrow> keeps (\<lambda>st. Q (is_store st)) (on_store f)"
  by (auto simp: keeps_def on_store_def split: res.splits)

section \<open>Every write is typed\<close>

context writable
begin

abbreviation typed_store :: "deps \<Rightarrow> 's \<Rightarrow> bool" where
  "typed_store D s \<equiv> inv s \<and> db_typed D (view s)"

lemma write_typed: "typed_store D s \<Longrightarrow> rows_typed D rows \<Longrightarrow> ws_write WS s rows = Ok s' \<Longrightarrow> typed_store D s'"
  using write_view [of s rows] db_typed_put_rows [of D "view s" rows] by auto

lemma flush_typed: "typed_store D s \<Longrightarrow> ws_flush WS s = Ok s' \<Longrightarrow> typed_store D s'"
  using flush_view [of s] by auto

lemma index_batches_typed:
  assumes "codec_ok D"
  shows "keeps (\<lambda>st. typed_store D (is_store st)) (index_batches D api poll WS cs)"
proof (induction cs)
  case Nil
  show ?case unfolding index_batches.simps by (rule keeps_on_daemon)
next
  case (Cons c cs)
  have "keeps (\<lambda>st. typed_store D (is_store st)) (on_store (\<lambda>s. ws_write WS s (concat (map (indexed_rows D) batch))))" for batch
  proof (rule keeps_on_store)
    have rows: "rows_typed D (concat (map (indexed_rows D) batch))" using indexed_rows_typed [OF assms] by auto
    fix s s' assume "typed_store D s" and "ws_write WS s (concat (map (indexed_rows D) batch)) = Ok s'"
    then show "typed_store D s'" by (rule write_typed [OF _ rows])
  qed
  then show ?case unfolding index_batches.simps batch_rows_eq [OF assms] pbind_pret_Ok
    by (intro keeps_pbind keeps_on_daemon keeps_if keeps_pret keeps_never Cons)
qed

lemma Index_update_typed:
  assumes "codec_ok D"
  shows "keeps (\<lambda>st. typed_store D (is_store st)) (Index_update D api poll WS)"
proof -
  have flush: "keeps (\<lambda>st. typed_store D (is_store st)) (on_store (ws_flush WS))"
    by (rule keeps_on_store, rule flush_typed)
  have fin: "keeps (\<lambda>st. typed_store D (is_store st)) (\<lambda>st. Some (Ok tip, st\<lparr>is_index := ix\<rparr>))" for tip :: hash and ix
    by (auto simp: keeps_def)
  show ?thesis unfolding Index_update_def Let_def
    by (rule keeps_read)
       (intro keeps_pbind keeps_on_daemon keeps_if keeps_pret keeps_never flush fin index_batches_typed [OF assms])
qed

text \<open>The bulk import: the rows that the indexers hold are typed too.\<close>

definition bulk_typed :: "deps \<Rightarrow> 's bulk_state \<Rightarrow> bool" where
  "bulk_typed D st \<longleftrightarrow> typed_store D (bs_store st) \<and>
     (\<forall>blocks rows. Some (blocks, rows) \<in> set (bs_indexers st) \<longrightarrow> rows_typed D rows)"

lemma bulk_step_typed:
  assumes "codec_ok D" and "bulk_step D read_file magic headers WS st st'" and "bulk_typed D st"
  shows "bulk_typed D st'"
  using assms(2)
proof (cases rule: bulk_step_elim)
  case (bulk_read path rest i blob blocks)
  then show ?thesis using assms(3) set_update_subset_insert [of "bs_indexers st" i] by (fastforce simp: bulk_typed_def)
next
  case (bulk_index i block blocks rows indexed rows')
  have "rows_typed D rows" using bulk_index assms(3) by (metis bulk_typed_def nth_mem)
  then have "rows_typed D rows'" using bulk_index(4) block_rows_typed [OF assms(1)]
    by (auto simp: index_file_block_def Let_def index_block_eq [OF assms(1)] split: option.splits if_splits)
  then show ?thesis using bulk_index assms(3) set_update_subset_insert [of "bs_indexers st" i] by (fastforce simp: bulk_typed_def)
next
  case (bulk_write i rows rows' store)
  have "rows_typed D rows" using bulk_write assms(3) by (metis bulk_typed_def nth_mem)
  then have rows': "rows_typed D rows'" using bulk_write(4) by (metis set_mset_mset)
  have "typed_store D (bs_store st)" using assms(3) by (simp add: bulk_typed_def)
  from write_typed [OF this rows' bulk_write(6)]
  show ?thesis using bulk_write assms(3) set_update_subset_insert [of "bs_indexers st" i] by (fastforce simp: bulk_typed_def)
qed

lemma bulk_import_typed:
  assumes "codec_ok D" and "(bulk_step D read_file magic headers WS)\<^sup>*\<^sup>* (bulk_init files indexed threads s) st"
    and "typed_store D s" and "bulk_finish D headers WS st = Ok s'"
  shows "typed_store D s'"
proof -
  have "bulk_typed D st" using assms(2)
    by (induction rule: rtranclp_induct) (use assms(1,3) bulk_step_typed in \<open>auto simp: bulk_typed_def bulk_init_def\<close>)
  moreover obtain h where "ws_write WS (bs_store st) [last_indexed_block D h] = Ok s'"
    using assms(4) by (auto simp: bulk_finish_def last_indexed_row_def Let_def res_simps split: if_splits)
  ultimately show ?thesis using write_typed [of "bs_store st" D "[last_indexed_block D h]" s'] last_indexed_typed [OF assms(1), of h]
    by (simp add: bulk_typed_def)
qed

end

section \<open>The server keeps the database typed\<close>

lemma full_compaction_typed:
  assumes "rocksdb_ok R c" and "db_typed D (db_contents c s)" and "full_compaction R s = Ok s'"
  shows "db_typed D (db_contents c s')"
proof -
  obtain s1 s2 where w: "db_write R s [full_compaction_marker] = Ok s1" "db_flush R s1 = Ok s2"
    "db_enable_compaction R (db_compact R s2) = Ok s'"
    using assms(3) by (auto simp: full_compaction_def res_simps)
  have "db_contents c s2 = put_rows (db_contents c s) [full_compaction_marker]"
    using db_write_contents [OF assms(1), of s "[full_compaction_marker]"] db_flush_contents [OF assms(1), of s1] w(1,2)
    by (auto simp: db_contents_def)
  then have "db_typed D (db_contents c s2)"
    using db_typed_put_rows [OF assms(2)] by (simp add: full_compaction_marker_def)
  moreover have "db_contents c s' = db_contents c s2"
    using enable_compaction_contents [OF assms(1), of "db_compact R s2"] w(3) assms(1)
    by (auto simp: db_contents_def db_compact_def rocksdb_ok_def)
  ultimately show ?thesis by simp
qed

lemma index_blk_files_typed:
  assumes "codec_ok D" and "rocksdb_ok R c" and "db_typed D (db_contents c store)"
    and "index_blk_files D N R read_file magic glob threads (store, d) (store', d')"
  shows "db_typed D (db_contents c store')"
  using assms(3,4) db.bulk_import_typed [where R = R and c = c and s = store and s' = store', OF assms(1)] assms(2)
  by (auto simp: index_blk_files_def db_contents_def)

lemma Index_update_db_typed:
  assumes "codec_ok D" and "rocksdb_ok R c" and "db_typed D (db_contents c (is_store st))"
    and "Index_update D api poll (db_write_store R) st = Some (r, st')"
  shows "db_typed D (db_contents c (is_store st'))"
  using keepsD [OF db.Index_update_typed [OF assms(1)] assms(4)] assms(2,3) unfolding db_contents_def by blast

abbreviation app_typed :: "deps \<Rightarrow> ('r \<Rightarrow> (bytes, bytes) btree) \<Rightarrow> ('r, 'e) app \<Rightarrow> bool" where
  "app_typed D c a \<equiv> db_typed D (db_contents c (app_store a))"

lemma App_update_typed:
  assumes "codec_ok D" and "rocksdb_ok R c"
  shows "keeps (app_typed D c) (App_update D N R)"
proof -
  have best: "keeps (app_typed D c) (on_app_daemon m)" for m
    by (auto simp: keeps_def on_app_daemon_def)
  have index: "keeps (app_typed D c) (App_index_update D N R)" unfolding keeps_def
  proof (intro allI impI)
    fix a r a' assume a: "app_typed D c a" "App_index_update D N R a = Some (r, a')"
    then obtain st' where "Index_update D (daemon_methods D N) (daemon_poll N) (db_write_store R)
        \<lparr>is_index = app_index a, is_store = app_store a, is_daemon = app_daemon a\<rparr> = Some (r, st')" "app_store a' = is_store st'"
      by (auto simp: App_index_update_def)
    with Index_update_db_typed [OF assms _ this(1)] a(1) show "app_typed D c a'" by simp
  qed
  have tip: "keeps (app_typed D c) (\<lambda>a. Some (Ok new, a\<lparr>app_tip := tip\<rparr>))" for new :: bool and tip
    by (auto simp: keeps_def)
  show ?thesis unfolding App_update_def Let_def
    by (intro keeps_pbind best) (auto simp: keeps_def split: if_splits dest: keepsD [OF keeps_pbind [OF index tip]])
qed

lemma server_step_typed:
  assumes "codec_ok D" and "rocksdb_ok R c" and "hash_iter_ok iter" and "server_step D N R iter s s'"
    and "app_typed D c (sst_app s)" and "tracker_inv D (sst_tracker s)"
  shows "app_typed D c (sst_app s') \<and> tracker_inv D (sst_tracker s')"
  using assms(4)
proof cases
  case (server_pass s2)
  then obtain b a1 where a1: "App_update D N R (sst_app s) = Some (Ok b, a1)"
    "pbind (update_mempool D N iter) (\<lambda>_ s. Some (Ok (), s\<lparr>sst_rpc := True\<rparr>)) (s\<lparr>sst_app := a1\<rparr>) = Some (Ok (), s2)"
    by (auto simp: server_round_def pbind_def on_sst_app_def split: option.splits res.splits)
  obtain t d where t: "Tracker_update D (daemon_methods D N) iter (sst_tracker s, app_daemon a1) = Some (Ok (), (t, d))"
    "s2 = s\<lparr>sst_app := a1\<lparr>app_daemon := d\<rparr>, sst_tracker := t, sst_rpc := True\<rparr>"
    using a1(2) by (auto simp: update_mempool_def pbind_def split: option.splits res.splits)
  have "distinct ids" if "da_getmempooltxids (daemon_methods D N) (app_daemon a1) = Some (Ok ids, d')" for ids d'
    using that by (auto simp: daemon_methods_def getmempooltxids_def pbind_def res_simps split: option.splits res.splits)
  from Tracker_update_inv [OF assms(1,6,3) this t(1)] have "tracker_inv D t" by simp
  moreover have "app_typed D c a1" using keepsD [OF App_update_typed [OF assms(1,2)] a1(1) assms(5)] .
  ultimately show ?thesis using server_pass(2) t(2) by (auto simp: on_sst_app_def on_app_daemon_def)
qed

section \<open>Queries on typed stores\<close>

text \<open>The panics that a computation may still have.\<close>

definition panics_only :: "string set \<Rightarrow> 'a res \<Rightarrow> bool" where
  "panics_only ps r \<longleftrightarrow> (\<forall>p. r = Panic p \<longrightarrow> p \<in> ps)"

lemma panics_only_simps [simp]:
  "panics_only ps (Ok x)" "panics_only ps (Err e)" "panics_only ps (Panic p) \<longleftrightarrow> p \<in> ps"
  "panics_only ps (map_res f r) \<longleftrightarrow> panics_only ps r" "panics_only ps (chain_err k r) \<longleftrightarrow> panics_only ps r"
  by (auto simp: panics_only_def map_res_def chain_err_def; cases r; simp)+

lemma is_ok_panics_only: "is_ok r \<Longrightarrow> panics_only ps r"
  by (cases r) simp_all

lemma panics_only_bind:
  "panics_only ps r \<Longrightarrow> (\<And>x. r = Ok x \<Longrightarrow> panics_only ps (f x)) \<Longrightarrow> panics_only ps (bind_res r f)"
  by (cases r) auto

lemma panics_only_mapM:
  "(\<And>x. x \<in> set xs \<Longrightarrow> panics_only ps (f x)) \<Longrightarrow> panics_only ps (mapM_res f xs)"
  by (induction xs) (auto intro!: panics_only_bind)

abbreviation double_spend :: "string set" where
  "double_spend \<equiv> {''assertion failed: spendings.len() <= 1''}"

lemma mapM_res_ex:
  assumes "\<And>x. x \<in> set xs \<Longrightarrow> \<exists>y. f x = Ok y \<and> P y"
  shows "\<exists>ys. mapM_res f xs = Ok ys \<and> list_all P ys"
  using assms
proof (induction xs)
  case (Cons x xs)
  then obtain y ys where "f x = Ok y" "P y" "mapM_res f xs = Ok ys" "list_all P ys"
    by (metis list.set_intros)
  then show ?case by simp
qed simp

lemma TxRow_from_typed:
  "row_key r = 84 # k \<Longrightarrow> row_typed D (84 # k) (row_value r) \<Longrightarrow> \<exists>x. TxRow_from_row r = Ok x \<and> wf_tx_row x"
  by (simp add: TxRow_from_row_def de_tx_key_def de_full_hash_def wf_tx_row_def)

context readable
begin

lemma scan_typed:
  assumes "inv s" and "db_typed D (view s)" and "r \<in> set (rs_scan RS s (c # p))"
  shows "\<exists>k. row_key r = c # k \<and> row_typed D (c # k) (row_value r)"
proof -
  have "prefix (c # p) (row_key r)" "(row_key r, row_value r) \<in> set (view s)"
    using assms(3) unfolding scan_view [OF assms(1)] by (auto simp: rows_of_def)
  then show ?thesis using assms(2) by (cases "row_key r") (auto simp: db_typed_def list_all_iff)
qed

lemma get_txrows_typed:
  assumes "inv s" and "db_typed D (view s)"
  shows "\<exists>rows. get_txrows_by_prefixes RS s ps = Ok rows \<and> list_all wf_tx_row rows"
proof -
  have "\<exists>rows. get_txrows_by_prefix RS s p = Ok rows \<and> list_all wf_tx_row rows" for p
    unfolding get_txrows_by_prefix_def TxRow_filter_prefix_def
    by (rule mapM_res_ex) (use scan_typed [OF assms, of _ 84 p] TxRow_from_typed [where D = D] in fastforce)
  from mapM_res_ex [of ps "get_txrows_by_prefix RS s" "list_all wf_tx_row", OF this] obtain rows where
    "mapM_res (get_txrows_by_prefix RS s) ps = Ok rows" "list_all (list_all wf_tx_row) rows" by blast
  then show ?thesis by (auto simp: get_txrows_by_prefixes_def list_all_iff)
qed

lemma get_prefixes_typed:
  assumes "inv s" and "db_typed D (view s)"
  shows "is_ok (get_prefixes_by_funding_txo D RS s txid vout)"
proof -
  let ?k = "hprefix txid @ ser_u16 D (of_nat vout)"
  have f: "TxInRow_filter D txid vout = Ok (73 # ?k)"
    by (simp add: TxInRow_filter_def ser_txin_key_def)
  have "\<exists>rows. mapM_res (TxInRow_from_row D) (rs_scan RS s (73 # ?k)) = Ok rows \<and> list_all (\<lambda>_. True) rows"
    by (rule mapM_res_ex)
       (use scan_typed [OF assms, of _ 73 ?k] in \<open>fastforce simp: TxInRow_from_row_def de_txin_row_def\<close>)
  then show ?thesis unfolding get_prefixes_by_funding_txo_def f by auto
qed

lemma find_spending_typed:
  assumes "codec_ok D" and "inv s" and "db_typed D (view s)"
  shows "panics_only double_spend (find_spending_input D RS s ix txo cur)"
proof -
  obtain ps where ps: "get_prefixes_by_funding_txo D RS s (txo_txid txo) (txo_vout txo) = Ok ps"
    using get_prefixes_typed [OF assms(2,3)] is_ok.elims(2) by blast
  obtain rows where rows: "get_txrows_by_prefixes RS s ps = Ok rows" "list_all wf_tx_row rows"
    using get_txrows_typed [OF assms(2,3)] by blast
  show ?thesis unfolding find_spending_input_def ps
    by (simp add: rows(1) rows_up_to_eq [OF assms(1) rows(2)] Let_def assert_res_def panics_only_def)
qed

lemma find_funding_typed:
  assumes "codec_ok D" and "inv s" and "db_typed D (view s)" and "HASH_PREFIX_LEN \<le> length script_hash"
  shows "is_ok (find_funding_outputs D RS s ix script_hash cur)"
proof -
  let ?k = "take HASH_PREFIX_LEN script_hash"
  have f: "TxOutRow_filter script_hash = Ok (79 # ?k)"
    using assms(4) by (simp add: TxOutRow_filter_def hash_prefix_def ser_txout_key_def)
  have "\<exists>rows. mapM_res (TxOutRow_from_row D) (rs_scan RS s (79 # ?k)) = Ok rows \<and> list_all (\<lambda>_. True) rows"
    by (rule mapM_res_ex)
       (use scan_typed [OF assms(2,3), of _ 79 ?k] in \<open>fastforce simp: TxOutRow_from_row_def de_txout_row_def\<close>)
  then obtain rows where rows: "mapM_res (TxOutRow_from_row D) (rs_scan RS s (79 # ?k)) = Ok rows" by blast
  let ?found = "\<lambda>row. bind_res (get_txrows_by_prefixes RS s [tor_txid_prefix row]) (\<lambda>txrows.
       bind_res (rows_up_to D ix cur txrows) (\<lambda>found.
       Ok (map (\<lambda>(t, h). \<lparr>txo_txid = t, txo_vout = unat (tor_vout row), txo_blockindex = h\<rparr>) found)))"
  have "\<exists>outs. mapM_res ?found rows = Ok outs \<and> list_all (\<lambda>_. True) outs"
  proof (rule mapM_res_ex)
    fix row
    obtain txrows where "get_txrows_by_prefixes RS s [tor_txid_prefix row] = Ok txrows" "list_all wf_tx_row txrows"
      using get_txrows_typed [OF assms(2,3)] by blast
    then show "\<exists>y. ?found row = Ok y \<and> True" by (simp add: rows_up_to_eq [OF assms(1)])
  qed
  then show ?thesis unfolding find_funding_outputs_def get_txoutrows_by_script_hash_def f by (auto simp: rows)
qed

lemma find_spendings_typed:
  assumes "codec_ok D" and "inv s" and "db_typed D (view s)"
  shows "panics_only double_spend (find_spendings D RS s ix txos cur)"
  unfolding find_spendings_def using find_spending_typed [OF assms] by (simp add: panics_only_mapM)

lemma confirmed_typed:
  assumes "codec_ok D" and "inv (q_store q)" and "db_typed D (view (q_store q))" and "HASH_PREFIX_LEN \<le> length script_hash"
  shows "panics_only double_spend (confirmed_status D RS q script_hash cur limit)"
  using find_funding_typed [OF assms] find_spendings_typed [OF assms(1-3)] unfolding confirmed_status_def
  by (auto intro!: panics_only_bind intro: is_ok_panics_only simp: check_limit_def bail_def)

end

lemma mempool_typed:
  assumes "codec_ok D" and "tracker_inv D t"
  shows "db_typed D (mp_view (tr_index t))"
proof -
  have "row_typed D k v" if "(k, v) \<in> set (mp_view (tr_index t))" for k v
    using that tx_rows_typed [OF assms(1)] tracker_view [OF assms(2), of "\<lparr>row_key = k, row_value = v\<rparr>"]
      bt_sorted_distinct [OF mp.view_sorted [OF tracker_inv_mp [OF assms(2)]]] by (fastforce simp: bt_get_def)
  then show ?thesis by (auto simp: db_typed_def list_all_iff)
qed

lemma mempool_status_typed:
  assumes "codec_ok D" and "tracker_inv D (q_tracker q)" and "HASH_PREFIX_LEN \<le> length script_hash"
  shows "panics_only double_spend (mempool_status D q script_hash conf limit)"
  using mp.find_funding_typed [OF assms(1) tracker_inv_mp [OF assms(2)] mempool_typed [OF assms(1,2)] assms(3)]
    mp.find_spendings_typed [OF assms(1) tracker_inv_mp [OF assms(2)] mempool_typed [OF assms(1,2)]]
  unfolding mempool_status_def Let_def
  by (auto intro!: panics_only_bind intro: is_ok_panics_only simp: check_limit_def bail_def)

lemma query_status_typed:
  assumes "codec_ok D" and "rocksdb_ok R c" and "db_typed D (db_contents c (q_store q))" and "tracker_inv D (q_tracker q)"
    and "HASH_PREFIX_LEN \<le> length script_hash"
  shows "panics_only double_spend (query_status D (db_read_store R) q script_hash cur limit)"
  using db.confirmed_typed [OF assms(1,2) _ assms(5)] assms(3) mempool_status_typed [OF assms(1,4,5)]
  unfolding query_status_def by (auto intro!: panics_only_bind simp: db_contents_def)

section \<open>From the start on\<close>

lemma pbind_OkE: "pbind m f s = Some (Ok y, s') \<Longrightarrow> (\<And>x s1. m s = Some (Ok x, s1) \<Longrightarrow> f x s1 = Some (Ok y, s') \<Longrightarrow> thesis) \<Longrightarrow> thesis"
  by (auto simp: pbind_def split: option.splits res.splits)

text \<open>What the successful runs of the bulk import are, of the argument that stands for it in the start.\<close>

abbreviation bulk_runs :: "deps \<Rightarrow> 'e net \<Rightarrow> 'r rocksdb \<Rightarrow> (string \<Rightarrow> bytes option) \<Rightarrow> (network \<Rightarrow> u32) \<Rightarrow>
    (string \<Rightarrow> string option list option) \<Rightarrow> nat \<Rightarrow> ('r dbstore \<Rightarrow> ('e daemon, 'r dbstore) prog) \<Rightarrow> bool" where
  "bulk_runs D N R read_file magic glob threads bulk \<equiv> \<forall>store d store' d'. bulk store d = Some (Ok store', d') \<longrightarrow>
     index_blk_files D N R read_file magic glob threads (store, d) (store', d')"

lemma initial_import_typed:
  assumes "codec_ok D" and "rocksdb_ok R c" and "bulk_runs D N R read_file magic glob threads bulk"
    and "db_typed D (db_contents c store)" and "initial_import D N R bulk jsonrpc ix store d = Some (Ok (ix', store'), d')"
  shows "db_typed D (db_contents c store')"
proof -
  from assms(5) consider "store' = store"
    | st r where "Index_update D (daemon_methods D N) (daemon_poll N) (db_write_store R)
        \<lparr>is_index = ix, is_store = store, is_daemon = d\<rparr> = Some (r, st)" "full_compaction R (is_store st) = Ok store'"
    | store1 d1 where "bulk store d = Some (Ok store1, d1)" "full_compaction R store1 = Ok store'"
    unfolding initial_import_def
    by (auto elim!: pbind_OkE simp: res_simps split: if_splits option.splits res.splits prod.splits)
  then show ?thesis
  proof cases
    case 2
    from Index_update_db_typed [OF assms(1,2) _ 2(1)] assms(4) full_compaction_typed [OF assms(2) _ 2(2)] show ?thesis by simp
  next
    case 3
    from index_blk_files_typed [OF assms(1,2,4)] assms(3) 3(1) full_compaction_typed [OF assms(2) _ 3(2)] show ?thesis by blast
  qed (use assms(4) in simp)
qed

lemma start_app_typed:
  assumes "codec_ok D" and "rocksdb_ok R c" and "bulk_runs D N R read_file magic glob threads bulk"
    and "\<forall>opts path db. rdb_open R opts path = Some db \<longrightarrow> db_typed D (c db)"
    and "start_app D N R bulk db_path jsonrpc n d = Some (Ok a, d')"
  shows "app_typed D c a"
proof -
  obtain store ix d1 ix' store1 d2 store2 where s: "db_open R db_path jsonrpc = Ok store"
    "initial_import D N R bulk jsonrpc ix store d1 = Some (Ok (ix', store1), d2)"
    "db_enable_compaction R store1 = Ok store2" "app_store a = store2"
    using assms(5) unfolding start_app_def App_new_def by (auto elim!: pbind_OkE)
  have "db_typed D (db_contents c store)"
    using s(1) assms(4) by (auto simp: db_open_def db_open_opts_def db_contents_def res_simps)
  from initial_import_typed [OF assms(1-3) this s(2)] show ?thesis
    using enable_compaction_contents [OF assms(2), of store1] s(3,4) by auto
qed

context readable
begin

lemma read_blockhashes_typed:
  assumes "codec_ok D" and "inv s" and "db_typed D (view s)"
  shows "is_ok (read_indexed_blockhashes D RS s)"
proof -
  have ok: "is_ok (read_blockhash D r)" if r: "r \<in> set (rs_scan RS s [66])" for r
  proof -
    obtain k where "row_key r = 66 # k" "length k = 32" using scan_typed [OF assms(2,3) r] by auto
    with wf_tx_row_decode [OF assms(1), of k] show ?thesis by (simp add: read_blockhash_def de_block_key_def)
  qed
  have "\<forall>r \<in> set rows. is_ok (read_blockhash D r) \<Longrightarrow>
      is_ok (foldM_res (\<lambda>result row. bind_res (read_blockhash D row) (\<lambda>h. Ok (insert h result))) X rows)" for rows X
    by (induction rows arbitrary: X) (auto elim: is_ok.elims)
  with ok show ?thesis unfolding read_indexed_blockhashes_def by blast
qed

end

text \<open>
  C8: The rows of the database are typed. Let the database that the program opens hold only rows of the
  layouts of the code, \<open>row_typed\<close> (an empty one does; \<open>doc/schema.md\<close> documents only some of them). Then so it is after the start, whichever way the initial
  import is made and under every schedule of it, and after every number of passes through the server
  loop, whatever bitcoind answers; and on such a database the hashes of the indexed blocks can always be
  read, and a query for a script hash never panics in decoding: the one panic left is the
  assertion that an output has at most one spender.
\<close>

theorem server_rows_typed:
  assumes "codec_ok D" and "rocksdb_ok R c" and "hash_iter_ok iter" and "bulk_runs D N R read_file magic glob threads bulk"
    and "\<forall>opts path db. rdb_open R opts path = Some db \<longrightarrow> db_typed D (c db)"
    and "start_app D N R bulk db_path jsonrpc n d = Some (Ok a, d')" and "(server_step D N R iter)\<^sup>*\<^sup>* (started a) s"
    and "q_store q = app_store (sst_app s)" and "q_tracker q = sst_tracker s" and "HASH_PREFIX_LEN \<le> length script_hash"
  shows "db_typed D (db_contents c (app_store (sst_app s))) \<and>
    is_ok (read_indexed_blockhashes D (db_read_store R) (app_store (sst_app s))) \<and>
    panics_only double_spend (query_status D (db_read_store R) q script_hash height use_limit)"
proof -
  have "app_typed D c (sst_app s) \<and> tracker_inv D (sst_tracker s)" using assms(7)
  proof (induction rule: rtranclp_induct)
    case base
    show ?case using start_app_typed [OF assms(1,2,4,5,6)] tracker_inv_new by (simp add: started_def)
  next
    case (step s1 s2)
    with server_step_typed [OF assms(1-3)] show ?case by blast
  qed
  then show ?thesis
    using query_status_typed [OF assms(1,2) _ _ assms(10), of q] assms(8,9)
      db.read_blockhashes_typed [OF assms(1,2), of "app_store (sst_app s)"] by (simp add: db_contents_def)
qed

theorem server_rows_typed_witness:
  "\<exists>a d'. start_app ex_deps ex_net mem_rocksdb (\<lambda>_ _. None) '''' True 1 ex_daemon = Some (Ok a, d') \<and>
     db_typed ex_deps (db_contents mem_contents (app_store a)) \<and>
     panics_only double_spend (query_status ex_deps (db_read_store mem_rocksdb)
       (Query_new (app_store a) (app_index a) 100) (replicate 32 0) 1 True)"
proof -
  obtain a d' where a: "start_app ex_deps ex_net mem_rocksdb (\<lambda>_ _. None) '''' True 1 ex_daemon = Some (Ok a, d')"
    using ex_run_start(8) by blast
  have opens: "\<forall>opts path db. rdb_open mem_rocksdb opts path = Some db \<longrightarrow> db_typed ex_deps (mem_contents db)"
    by (auto simp: mem_rocksdb_def)
  have q: "q_store (Query_new (app_store a) (app_index a) 100) = app_store (sst_app (started a))"
    "q_tracker (Query_new (app_store a) (app_index a) 100) = sst_tracker (started a)"
    "HASH_PREFIX_LEN \<le> length (replicate 32 (0 :: byte))"
    by (simp_all add: Query_new_def HASH_PREFIX_LEN_def started_def)
  from server_rows_typed [OF codec_ok_ex_deps mem_rocksdb_ok hash_iter_ok_id _ opens a rtranclp.rtrancl_refl q] a
  show ?thesis by (fastforce simp: started_def)
qed

end
