(* ===== verification/Bulk_Threads.thy ===== *)
theory Bulk_Threads
  imports Bulk_Start Row_Typing
begin

text \<open>
  The threads of \<open>bulk.rs\<close> with their failures. \<open>Bulk\<close> has the successful steps of the import; here the reader,
  the indexers and the writer are separate threads that hand over file contents and rows through rendezvous
  channels, may fail or panic, and are joined by the writer, as \<open>index_blk_files\<close> does it. The theory shows
  that a run that ends successfully is a run of \<open>Bulk\<close>, so that all its theorems hold for the
  threads, that the threads end when every file can be parsed, and that unreadable block files can make the import hang: \<open>index_blk_files\<close> keeps a handle of the
  receiver of file contents, so the reader's send does not fail when every indexer is gone.
\<close>

section \<open>The threads\<close>

datatype reader =
    R_reading "string list"
  | R_sending string bytes "string list"
  | R_ended "unit res"

datatype indexer =
    I_waiting
  | I_parsing bytes
  | I_indexing "block list" "row list"
  | I_ended "unit res"

datatype writer =
    W_receiving
  | W_writing "row list"
  | W_polling
  | W_join_reader
  | W_join_indexers
  | W_finishing
  | W_ended "unit res"

record ('s, 'd) bulk_threads =
  bt_reader :: reader
  bt_indexers :: "indexer list"
  bt_writer :: writer
  bt_indexed :: "hash set"
  bt_store :: 's
  bt_env :: 'd

definition threads_init :: "string list \<Rightarrow> hash set \<Rightarrow> nat \<Rightarrow> 's \<Rightarrow> 'd \<Rightarrow> ('s, 'd) bulk_threads" where
  "threads_init blk_files indexed index_threads store env =
     \<lparr>bt_reader = R_reading blk_files, bt_indexers = replicate index_threads I_waiting, bt_writer = W_receiving,
      bt_indexed = indexed, bt_store = store, bt_env = env\<rparr>"

fun indexer_ended :: "indexer \<Rightarrow> bool" where
  "indexer_ended (I_ended r) = True"
| "indexer_ended _ = False"

fun writer_ended :: "writer \<Rightarrow> bool" where
  "writer_ended (W_ended r) = True"
| "writer_ended _ = False"

text \<open>The reader: \<open>read_blkfile\<close> with \<open>?\<close>, then \<open>send\<close>.\<close>

definition reader_read :: "(string \<Rightarrow> bytes option) \<Rightarrow> string \<Rightarrow> string list \<Rightarrow> reader" where
  "reader_read read_file path rest =
     (case read_blkfile read_file path of
        Ok blob \<Rightarrow> R_sending path blob rest
      | Err e \<Rightarrow> R_ended (Err e)
      | Panic p \<Rightarrow> R_ended (Panic p))"

text \<open>
  An indexer: \<open>parse_blocks\<close>, then a block at a time. The hash is entered in the set of indexed hashes under its lock
  before \<open>index_block\<close> runs, so it stays there when \<open>index_block\<close> panics.
\<close>

definition indexer_parse :: "deps \<Rightarrow> u32 \<Rightarrow> bytes \<Rightarrow> indexer" where
  "indexer_parse D magic blob =
     (case parse_blocks D blob magic of
        Ok blocks \<Rightarrow> I_indexing blocks []
      | Err e \<Rightarrow> I_ended (Err (Error (Msg ''failed to index'') (Some e)))
      | Panic p \<Rightarrow> I_ended (Panic p))"

definition indexer_block :: "deps \<Rightarrow> header_list \<Rightarrow> hash set \<Rightarrow> row list \<Rightarrow> block \<Rightarrow> block list \<Rightarrow> hash set \<times> indexer" where
  "indexer_block D headers indexed rows block blocks =
     (case index_file_block D headers (indexed, rows) block of
        Ok (indexed', rows') \<Rightarrow> (indexed', I_indexing blocks rows')
      | Err e \<Rightarrow> (insert (bitcoin_hash D (blk_header block)) indexed, I_ended (Err (Error (Msg ''failed to index'') (Some e))))
      | Panic p \<Rightarrow> (insert (bitcoin_hash D (blk_header block)) indexed, I_ended (Panic p)))"

text \<open>The writer after the last rows: join the reader, the indexers in their order, write the \<open>L\<close> row.\<close>

definition join_reader :: "unit res \<Rightarrow> writer" where
  "join_reader r =
     (case r of
        Ok _ \<Rightarrow> W_join_indexers
      | Err e \<Rightarrow> W_ended (Panic ''reader failed'')
      | Panic p \<Rightarrow> W_ended (Panic ''reader panicked''))"

fun join_indexers :: "indexer list \<Rightarrow> writer" where
  "join_indexers [] = W_finishing"
| "join_indexers (I_ended (Ok u) # is) = join_indexers is"
| "join_indexers (I_ended (Panic p) # is) = W_ended (Panic ''indexer panicked'')"
| "join_indexers (i # is) = W_ended (Panic ''indexing failed'')"

definition written :: "writer \<Rightarrow> 's res \<Rightarrow> ('s, 'd) bulk_threads \<Rightarrow> ('s, 'd) bulk_threads" where
  "written next r st =
     (case r of
        Ok s \<Rightarrow> st\<lparr>bt_writer := next, bt_store := s\<rparr>
      | Err e \<Rightarrow> st\<lparr>bt_writer := W_ended (Err e)\<rparr>
      | Panic p \<Rightarrow> st\<lparr>bt_writer := W_ended (Panic p)\<rparr>)"

definition writer_polled :: "unit res \<Rightarrow> writer" where
  "writer_polled r =
     (case r of
        Ok _ \<Rightarrow> W_receiving
      | Err e \<Rightarrow> W_ended (Err (Error (Msg ''stopping bulk indexing due to signal'') (Some e)))
      | Panic p \<Rightarrow> W_ended (Panic p))"

inductive thread_step :: "deps \<Rightarrow> (string \<Rightarrow> bytes option) \<Rightarrow> u32 \<Rightarrow> header_list \<Rightarrow> 's write_store \<Rightarrow> ('d, unit) prog \<Rightarrow>
    ('s, 'd) bulk_threads \<Rightarrow> ('s, 'd) bulk_threads \<Rightarrow> bool"
  for D read_file magic headers WS poll where
  reader_file: "bt_reader st = R_reading (path # rest) \<Longrightarrow>
    thread_step D read_file magic headers WS poll st (st\<lparr>bt_reader := reader_read read_file path rest\<rparr>)"
| reader_done: "bt_reader st = R_reading [] \<Longrightarrow>
    thread_step D read_file magic headers WS poll st (st\<lparr>bt_reader := R_ended (Ok ())\<rparr>)"
| blob_sent: "bt_reader st = R_sending path blob rest \<Longrightarrow> i < length (bt_indexers st) \<Longrightarrow> bt_indexers st ! i = I_waiting \<Longrightarrow>
    thread_step D read_file magic headers WS poll st
      (st\<lparr>bt_reader := R_reading rest, bt_indexers := (bt_indexers st)[i := I_parsing blob]\<rparr>)"
| blob_fails: "bt_reader st = R_sending path blob rest \<Longrightarrow> writer_ended (bt_writer st) \<Longrightarrow> list_all indexer_ended (bt_indexers st) \<Longrightarrow>
    thread_step D read_file magic headers WS poll st (st\<lparr>bt_reader := R_ended (Panic ''failed to send blk*.dat contents'')\<rparr>)"
| index_parse: "i < length (bt_indexers st) \<Longrightarrow> bt_indexers st ! i = I_parsing blob \<Longrightarrow>
    thread_step D read_file magic headers WS poll st (st\<lparr>bt_indexers := (bt_indexers st)[i := indexer_parse D magic blob]\<rparr>)"
| index_one: "i < length (bt_indexers st) \<Longrightarrow> bt_indexers st ! i = I_indexing (block # blocks) rows \<Longrightarrow>
    indexer_block D headers (bt_indexed st) rows block blocks = (indexed, next) \<Longrightarrow>
    thread_step D read_file magic headers WS poll st (st\<lparr>bt_indexed := indexed, bt_indexers := (bt_indexers st)[i := next]\<rparr>)"
| rows_sent: "i < length (bt_indexers st) \<Longrightarrow> bt_indexers st ! i = I_indexing [] rows \<Longrightarrow> bt_writer st = W_receiving \<Longrightarrow>
    mset rows' = mset rows \<Longrightarrow> sorted (map row_key rows') \<Longrightarrow>
    thread_step D read_file magic headers WS poll st
      (st\<lparr>bt_indexers := (bt_indexers st)[i := I_waiting], bt_writer := W_writing rows'\<rparr>)"
| rows_fail: "i < length (bt_indexers st) \<Longrightarrow> bt_indexers st ! i = I_indexing [] rows \<Longrightarrow> writer_ended (bt_writer st) \<Longrightarrow>
    thread_step D read_file magic headers WS poll st
      (st\<lparr>bt_indexers := (bt_indexers st)[i := I_ended (Panic ''failed to send indexed rows'')]\<rparr>)"
| no_more_blobs: "i < length (bt_indexers st) \<Longrightarrow> bt_indexers st ! i = I_waiting \<Longrightarrow> bt_reader st = R_ended r \<Longrightarrow>
    thread_step D read_file magic headers WS poll st (st\<lparr>bt_indexers := (bt_indexers st)[i := I_ended (Ok ())]\<rparr>)"
| write_rows: "bt_writer st = W_writing rows \<Longrightarrow>
    thread_step D read_file magic headers WS poll st (written W_polling (ws_write WS (bt_store st) rows) st)"
| write_poll: "bt_writer st = W_polling \<Longrightarrow> poll (bt_env st) = Some (r, e) \<Longrightarrow>
    thread_step D read_file magic headers WS poll st (st\<lparr>bt_writer := writer_polled r, bt_env := e\<rparr>)"
| no_more_rows: "bt_writer st = W_receiving \<Longrightarrow> list_all indexer_ended (bt_indexers st) \<Longrightarrow>
    thread_step D read_file magic headers WS poll st (st\<lparr>bt_writer := W_join_reader\<rparr>)"
| joined_reader: "bt_writer st = W_join_reader \<Longrightarrow> bt_reader st = R_ended r \<Longrightarrow>
    thread_step D read_file magic headers WS poll st (st\<lparr>bt_writer := join_reader r\<rparr>)"
| joined_indexers: "bt_writer st = W_join_indexers \<Longrightarrow> list_all indexer_ended (bt_indexers st) \<Longrightarrow>
    thread_step D read_file magic headers WS poll st (st\<lparr>bt_writer := join_indexers (bt_indexers st)\<rparr>)"
| write_last: "bt_writer st = W_finishing \<Longrightarrow>
    thread_step D read_file magic headers WS poll st (written (W_ended (Ok ()))
      (bind_res (last_indexed_row D headers (bt_indexed st)) (\<lambda>row. ws_write WS (bt_store st) [row])) st)"

inductive_cases thread_stepE: "thread_step D read_file magic headers WS poll st st'"

lemmas thread_effects = reader_read_def indexer_parse_def indexer_block_def join_reader_def written_def writer_polled_def

section \<open>A successful run is a run of \<open>Bulk\<close>\<close>

fun reader_files :: "reader \<Rightarrow> string list" where
  "reader_files (R_reading fs) = fs"
| "reader_files (R_sending path blob fs) = path # fs"
| "reader_files (R_ended r) = []"

fun indexer_abs :: "deps \<Rightarrow> u32 \<Rightarrow> indexer \<Rightarrow> (block list \<times> row list) option" where
  "indexer_abs D magic (I_parsing blob) = (case parse_blocks D blob magic of Ok blocks \<Rightarrow> Some (blocks, []) | _ \<Rightarrow> None)"
| "indexer_abs D magic (I_indexing blocks rows) = Some (blocks, rows)"
| "indexer_abs D magic _ = None"

text \<open>The rows that the writer holds count as written.\<close>

fun writer_store :: "'s write_store \<Rightarrow> writer \<Rightarrow> 's \<Rightarrow> 's" where
  "writer_store WS (W_writing rows) s = (case ws_write WS s rows of Ok s' \<Rightarrow> s' | _ \<Rightarrow> s)"
| "writer_store WS _ s = s"

definition threads_abs :: "deps \<Rightarrow> u32 \<Rightarrow> 's write_store \<Rightarrow> ('s, 'd) bulk_threads \<Rightarrow> 's bulk_state" where
  "threads_abs D magic WS st =
     \<lparr>bs_files = reader_files (bt_reader st), bs_indexed = bt_indexed st,
      bs_indexers = map (indexer_abs D magic) (bt_indexers st), bs_store = writer_store WS (bt_writer st) (bt_store st)\<rparr>"

text \<open>A thread has failed or is bound to.\<close>

fun reader_fails :: "reader \<Rightarrow> bool" where
  "reader_fails (R_ended r) \<longleftrightarrow> \<not> is_ok r"
| "reader_fails _ \<longleftrightarrow> False"

fun indexer_fails :: "deps \<Rightarrow> u32 \<Rightarrow> indexer \<Rightarrow> bool" where
  "indexer_fails D magic (I_ended r) \<longleftrightarrow> \<not> is_ok r"
| "indexer_fails D magic (I_parsing blob) \<longleftrightarrow> \<not> is_ok (parse_blocks D blob magic)"
| "indexer_fails D magic _ \<longleftrightarrow> False"

fun writer_fails :: "'s write_store \<Rightarrow> 's \<Rightarrow> writer \<Rightarrow> bool" where
  "writer_fails WS s (W_writing rows) \<longleftrightarrow> \<not> is_ok (ws_write WS s rows)"
| "writer_fails WS s (W_ended r) \<longleftrightarrow> \<not> is_ok r"
| "writer_fails WS s _ \<longleftrightarrow> False"

definition threads_fail :: "deps \<Rightarrow> u32 \<Rightarrow> 's write_store \<Rightarrow> ('s, 'd) bulk_threads \<Rightarrow> bool" where
  "threads_fail D magic WS st \<longleftrightarrow> reader_fails (bt_reader st) \<or> list_ex (indexer_fails D magic) (bt_indexers st) \<or>
     writer_fails WS (bt_store st) (bt_writer st)"

lemma list_ex_update: "list_ex P xs \<Longrightarrow> (P (xs ! i) \<Longrightarrow> P x) \<Longrightarrow> list_ex P (xs[i := x])"
  unfolding list_ex_length by (metis length_list_update nth_list_update_eq nth_list_update_neq)

lemma list_ex_updated: "i < length xs \<Longrightarrow> P x \<Longrightarrow> list_ex P (xs[i := x])"
  by (auto simp: list_ex_length)

lemma threads_fail_step:
  assumes "thread_step D read_file magic headers WS poll st st'" and "threads_fail D magic WS st"
  shows "threads_fail D magic WS st'"
  using assms
  by (cases rule: thread_step.cases)
     (auto simp: threads_fail_def thread_effects split: res.splits intro: list_ex_update list_ex_updated)

text \<open>Every step of the threads before the \<open>L\<close> row is a step of \<open>Bulk\<close>, or none that \<open>Bulk\<close> sees.\<close>

lemma threads_abs_same:
  assumes "bt_indexers st' = (bt_indexers st)[i := x]" and "indexer_abs D magic x = indexer_abs D magic (bt_indexers st ! i)"
    and "reader_files (bt_reader st') = reader_files (bt_reader st)" and "bt_indexed st' = bt_indexed st"
    and "writer_store WS (bt_writer st') (bt_store st') = writer_store WS (bt_writer st) (bt_store st)"
  shows "threads_abs D magic WS st' = threads_abs D magic WS st"
proof -
  have "map (indexer_abs D magic) ((bt_indexers st)[i := x]) = map (indexer_abs D magic) (bt_indexers st)"
    using assms(2) by (metis list_update_id map_update)
  with assms show ?thesis by (simp add: threads_abs_def)
qed

lemma threads_abs_step:
  assumes "thread_step D read_file magic headers WS poll st st'" and "\<not> threads_fail D magic WS st'"
    and "\<forall>path blob fs. bt_reader st = R_sending path blob fs \<longrightarrow> read_blkfile read_file path = Ok blob"
    and "bt_writer st \<noteq> W_finishing"
  shows "bulk_step D read_file magic headers WS (threads_abs D magic WS st) (threads_abs D magic WS st') \<or>
    threads_abs D magic WS st' = threads_abs D magic WS st"
  using assms(1)
proof (cases rule: thread_step.cases)
  case (blob_sent path blob rest i)
  then have "\<not> indexer_fails D magic (I_parsing blob)" using assms(2) list_ex_updated by (fastforce simp: threads_fail_def)
  then obtain blocks where b: "parse_blocks D blob magic = Ok blocks" by (auto elim: is_ok.elims)
  have "bulk_step D read_file magic headers WS (threads_abs D magic WS st) ((threads_abs D magic WS st)
      \<lparr>bs_files := rest, bs_indexers := (bs_indexers (threads_abs D magic WS st))[i := Some (blocks, [])]\<rparr>)"
    by (rule bulk_read [OF _ _ _ _ b]) (use blob_sent assms(3) in \<open>simp_all add: threads_abs_def\<close>)
  then show ?thesis using blob_sent b by (simp add: threads_abs_def map_update)
next
  case (index_parse i blob)
  then have "\<not> indexer_fails D magic (indexer_parse D magic blob)" using assms(2) list_ex_updated by (fastforce simp: threads_fail_def)
  then obtain blocks where "parse_blocks D blob magic = Ok blocks" by (auto simp: indexer_parse_def split: res.splits)
  with index_parse have "threads_abs D magic WS st' = threads_abs D magic WS st"
    by (intro threads_abs_same [where i = i and x = "indexer_parse D magic blob"]) (simp_all add: indexer_parse_def)
  then show ?thesis by blast
next
  case (index_one i block blocks rows indexed nxt)
  then have "\<not> indexer_fails D magic nxt" using assms(2) list_ex_updated by (fastforce simp: threads_fail_def)
  then obtain rows' where b: "index_file_block D headers (bt_indexed st, rows) block = Ok (indexed, rows')" "nxt = I_indexing blocks rows'"
    using index_one(4) by (auto simp: indexer_block_def split: res.splits)
  have "bulk_step D read_file magic headers WS (threads_abs D magic WS st) ((threads_abs D magic WS st)
      \<lparr>bs_indexed := indexed, bs_indexers := (bs_indexers (threads_abs D magic WS st))[i := Some (blocks, rows')]\<rparr>)"
    by (rule bulk_index [where block = block and rows = rows]) (use index_one b(1) in \<open>simp_all add: threads_abs_def\<close>)
  then show ?thesis using index_one(1) b(2) by (simp add: threads_abs_def map_update)
next
  case (rows_sent i rows rows')
  then obtain s where s: "ws_write WS (bt_store st) rows' = Ok s" using assms(2) by (auto simp: threads_fail_def elim: is_ok.elims)
  have "bulk_step D read_file magic headers WS (threads_abs D magic WS st) ((threads_abs D magic WS st)
      \<lparr>bs_indexers := (bs_indexers (threads_abs D magic WS st))[i := None], bs_store := s\<rparr>)"
    by (rule bulk_write [where rows = rows and rows' = rows']) (use rows_sent s in \<open>simp_all add: threads_abs_def\<close>)
  then show ?thesis using rows_sent s by (simp add: threads_abs_def map_update)
next
  case (no_more_blobs i r)
  then have "threads_abs D magic WS st' = threads_abs D magic WS st"
    by (intro threads_abs_same [where i = i and x = "I_ended (Ok ())"]) simp_all
  then show ?thesis by blast
next
  case (rows_fail i rows)
  then show ?thesis using assms(2) list_ex_updated [of i "bt_indexers st"] by (fastforce simp: threads_fail_def)
next
  case joined_indexers
  moreover have "writer_store WS (join_indexers xs) s = s" for xs s by (induction xs rule: join_indexers.induct) auto
  ultimately show ?thesis by (simp add: threads_abs_def)
qed (use assms in \<open>auto simp: threads_abs_def threads_fail_def thread_effects split: res.splits\<close>)

text \<open>What the writer knows when it joins, and what the reader holds.\<close>

definition threads_joined :: "(string \<Rightarrow> bytes option) \<Rightarrow> ('s, 'd) bulk_threads \<Rightarrow> bool" where
  "threads_joined read_file st \<longleftrightarrow>
     (\<forall>path blob fs. bt_reader st = R_sending path blob fs \<longrightarrow> read_blkfile read_file path = Ok blob) \<and>
     (bt_writer st \<in> {W_join_reader, W_join_indexers, W_finishing, W_ended (Ok ())} \<longrightarrow> list_all indexer_ended (bt_indexers st)) \<and>
     (bt_writer st \<in> {W_join_indexers, W_finishing, W_ended (Ok ())} \<longrightarrow> bt_reader st = R_ended (Ok ())) \<and>
     (bt_writer st \<in> {W_finishing, W_ended (Ok ())} \<longrightarrow> list_all (\<lambda>x. x = I_ended (Ok ())) (bt_indexers st))"

lemma join_indexers_finishing:
  "list_all indexer_ended xs \<Longrightarrow> join_indexers xs = W_finishing \<Longrightarrow> list_all (\<lambda>x. x = I_ended (Ok ())) xs"
  by (induction xs rule: join_indexers.induct) auto

lemma join_indexers_outcome: "join_indexers xs = W_finishing \<or> (\<exists>p. join_indexers xs = W_ended (Panic p))"
  by (induction xs rule: join_indexers.induct) auto

lemma threads_joined_step:
  assumes "thread_step D read_file magic headers WS poll st st'" and "threads_joined read_file st"
  shows "threads_joined read_file st'"
proof -
  have running: "bt_writer st \<notin> {W_join_reader, W_join_indexers, W_finishing, W_ended (Ok ())}"
    if "i < length (bt_indexers st)" "\<not> indexer_ended (bt_indexers st ! i)" for i
    using assms(2) that by (auto simp: threads_joined_def list_all_length)
  show ?thesis using assms(1)
  proof (cases rule: thread_step.cases)
    case (blob_sent path blob rest i)
    with running [of i] show ?thesis by (simp add: threads_joined_def)
  next
    case (index_parse i blob)
    with running [of i] assms(2) show ?thesis by (simp add: threads_joined_def)
  next
    case (index_one i)
    with running [of i] assms(2) show ?thesis by (simp add: threads_joined_def)
  next
    case (rows_sent i)
    with assms(2) show ?thesis by (simp add: threads_joined_def)
  next
    case (rows_fail i)
    with running [of i] assms(2) show ?thesis by (simp add: threads_joined_def)
  next
    case (no_more_blobs i)
    with running [of i] assms(2) show ?thesis by (simp add: threads_joined_def)
  next
    case joined_indexers
    with join_indexers_outcome [of "bt_indexers st"] join_indexers_finishing [OF joined_indexers(3)] assms(2)
    show ?thesis by (auto simp: threads_joined_def)
  qed (use assms(2) in \<open>auto simp: threads_joined_def thread_effects split: res.splits\<close>)
qed

lemma threads_over_no_step:
  assumes "bt_writer st = W_ended (Ok ())" and "threads_joined read_file st"
  shows "\<not> thread_step D read_file magic headers WS poll st st'"
  using assms by (auto simp: threads_joined_def list_all_length elim!: thread_stepE)

lemma threads_finish:
  assumes "thread_step D read_file magic headers WS poll st st'" and "bt_writer st = W_finishing" and "threads_joined read_file st"
    and "\<not> threads_fail D magic WS st'"
  shows "bt_writer st' = W_ended (Ok ()) \<and> bulk_done (threads_abs D magic WS st) \<and>
    bulk_finish D headers WS (threads_abs D magic WS st) = Ok (bt_store st')"
proof -
  have ended: "bt_reader st = R_ended (Ok ())" "list_all (\<lambda>x. x = I_ended (Ok ())) (bt_indexers st)"
    using assms(2,3) by (auto simp: threads_joined_def)
  have "st' = written (W_ended (Ok ()))
      (bind_res (last_indexed_row D headers (bt_indexed st)) (\<lambda>row. ws_write WS (bt_store st) [row])) st"
    using assms(1,2) ended by (auto simp: list_all_length elim!: thread_stepE)
  then obtain s where "bind_res (last_indexed_row D headers (bt_indexed st)) (\<lambda>row. ws_write WS (bt_store st) [row]) = Ok s"
    "st' = st\<lparr>bt_writer := W_ended (Ok ()), bt_store := s\<rparr>"
    using assms(4) by (auto simp: written_def threads_fail_def split: res.splits)
  with ended assms(2) show ?thesis by (auto simp: bulk_done_def bulk_finish_def threads_abs_def list_all_iff)
qed

definition threads_follow :: "deps \<Rightarrow> (string \<Rightarrow> bytes option) \<Rightarrow> u32 \<Rightarrow> header_list \<Rightarrow> 's write_store \<Rightarrow>
    's bulk_state \<Rightarrow> ('s, 'd) bulk_threads \<Rightarrow> bool" where
  "threads_follow D read_file magic headers WS init st \<longleftrightarrow>
     (if bt_writer st = W_ended (Ok ())
      then \<exists>b. (bulk_step D read_file magic headers WS)\<^sup>*\<^sup>* init b \<and> bulk_done b \<and> bulk_finish D headers WS b = Ok (bt_store st)
      else (bulk_step D read_file magic headers WS)\<^sup>*\<^sup>* init (threads_abs D magic WS st))"

lemma threads_follow_step:
  assumes "thread_step D read_file magic headers WS poll st st'" and "threads_joined read_file st"
    and "\<not> threads_fail D magic WS st'" and "threads_follow D read_file magic headers WS init st"
  shows "threads_follow D read_file magic headers WS init st'"
proof (cases "bt_writer st = W_finishing")
  case True
  with threads_finish [OF assms(1) True assms(2,3)] assms(4) show ?thesis by (auto simp: threads_follow_def)
next
  case False
  have sent: "\<forall>path blob fs. bt_reader st = R_sending path blob fs \<longrightarrow> read_blkfile read_file path = Ok blob"
    using assms(2) by (simp add: threads_joined_def)
  have going: "bt_writer st \<noteq> W_ended (Ok ())" using threads_over_no_step [OF _ assms(2)] assms(1) by blast
  moreover have "bt_writer st' \<noteq> W_ended (Ok ())"
    using assms(1) False going join_indexers_outcome [of "bt_indexers st"]
    by (cases rule: thread_step.cases) (auto simp: thread_effects split: res.splits)
  ultimately show ?thesis using threads_abs_step [OF assms(1,3) sent False] assms(4)
    by (auto simp: threads_follow_def intro: rtranclp.rtrancl_into_rtrancl)
qed

lemma threads_follow_reach:
  assumes "(thread_step D read_file magic headers WS poll)\<^sup>*\<^sup>* (threads_init files indexed n store env) st"
  shows "threads_joined read_file st \<and>
    (threads_fail D magic WS st \<or> threads_follow D read_file magic headers WS (bulk_init files indexed n store) st)"
  using assms
proof (induction rule: rtranclp_induct)
  case base
  show ?case by (simp add: threads_joined_def threads_init_def threads_follow_def threads_abs_def bulk_init_def)
next
  case (step st st')
  then show ?case
    using threads_joined_step [OF step.hyps(2)] threads_fail_step [OF step.hyps(2)] threads_follow_step [OF step.hyps(2)] by blast
qed

section \<open>A run of \<open>Bulk\<close> is a run of the threads\<close>

fun indexer_of :: "(block list \<times> row list) option \<Rightarrow> indexer" where
  "indexer_of None = I_waiting"
| "indexer_of (Some (blocks, rows)) = I_indexing blocks rows"

definition threads_of :: "'s bulk_state \<Rightarrow> 'd \<Rightarrow> ('s, 'd) bulk_threads" where
  "threads_of b env =
     \<lparr>bt_reader = R_reading (bs_files b), bt_indexers = map indexer_of (bs_indexers b), bt_writer = W_receiving,
      bt_indexed = bs_indexed b, bt_store = bs_store b, bt_env = env\<rparr>"

lemma threads_of_init: "threads_of (bulk_init files indexed n store) env = threads_init files indexed n store env"
  by (simp add: threads_of_def bulk_init_def threads_init_def)

lemma threads_of_step:
  assumes "bulk_step D read_file magic headers WS b b'" and "\<forall>e. \<exists>e'. poll e = Some (Ok (), e')"
  shows "\<exists>env'. (thread_step D read_file magic headers WS poll)\<^sup>*\<^sup>* (threads_of b env) (threads_of b' env')"
  using assms(1)
proof (cases rule: bulk_step_elim)
  case (bulk_read path rest i blob blocks)
  let ?step = "thread_step D read_file magic headers WS poll"
  let ?a = "(threads_of b env)\<lparr>bt_reader := R_sending path blob rest\<rparr>"
  let ?b = "?a\<lparr>bt_reader := R_reading rest, bt_indexers := (bt_indexers ?a)[i := I_parsing blob]\<rparr>"
  have "?step (threads_of b env) ?a"
    using reader_file [of "threads_of b env" path rest D read_file magic headers WS poll] bulk_read
    by (simp add: threads_of_def reader_read_def)
  moreover have "?step ?a ?b"
    using blob_sent [of ?a path blob rest i D read_file magic headers WS poll] bulk_read by (simp add: threads_of_def)
  moreover have "?step ?b (threads_of b' env)"
    using index_parse [of i ?b blob D read_file magic headers WS poll] bulk_read
    by (simp add: threads_of_def indexer_parse_def map_update)
  ultimately show ?thesis by (meson converse_rtranclp_into_rtranclp rtranclp.rtrancl_refl)
next
  case (bulk_index i block blocks rows indexed rows')
  then have "thread_step D read_file magic headers WS poll (threads_of b env) (threads_of b' env)"
    using index_one [of i "threads_of b env" block blocks rows D headers indexed "I_indexing blocks rows'" read_file magic WS poll]
    by (simp add: threads_of_def indexer_block_def map_update)
  then show ?thesis by blast
next
  case (bulk_write i rows rows' store)
  let ?step = "thread_step D read_file magic headers WS poll"
  let ?a = "(threads_of b env)\<lparr>bt_indexers := (bt_indexers (threads_of b env))[i := I_waiting], bt_writer := W_writing rows'\<rparr>"
  let ?b = "?a\<lparr>bt_writer := W_polling, bt_store := store\<rparr>"
  obtain env' where env': "poll env = Some (Ok (), env')" using assms(2) by blast
  have "?step (threads_of b env) ?a"
    using rows_sent [of i "threads_of b env" rows rows' D read_file magic headers WS poll] bulk_write by (simp add: threads_of_def)
  moreover have "?step ?a ?b"
    using write_rows [of ?a rows' D read_file magic headers WS poll] bulk_write by (simp add: threads_of_def written_def)
  moreover have "?step ?b (threads_of b' env')"
    using write_poll [of ?b poll "Ok ()" env' D read_file magic headers WS] env' bulk_write
    by (simp add: threads_of_def writer_polled_def map_update)
  ultimately show ?thesis by (meson converse_rtranclp_into_rtranclp rtranclp.rtrancl_refl)
qed

lemma threads_of_run:
  assumes "(bulk_step D read_file magic headers WS)\<^sup>*\<^sup>* init b" and "\<forall>e. \<exists>e'. poll e = Some (Ok (), e')"
  shows "\<exists>env'. (thread_step D read_file magic headers WS poll)\<^sup>*\<^sup>* (threads_of init env) (threads_of b env')"
  using assms(1)
proof (induction rule: rtranclp_induct)
  case (step b b')
  from threads_of_step [OF step.hyps(2) assms(2)] step.IH show ?case by (meson rtranclp_trans)
qed blast

text \<open>The indexers end one after the other once the reader has ended.\<close>

lemma indexers_drain:
  assumes "bt_reader st = R_ended (Ok ())" and "bt_indexers st = replicate k (I_ended (Ok ())) @ replicate m I_waiting"
  shows "(thread_step D read_file magic headers WS poll)\<^sup>*\<^sup>* st (st\<lparr>bt_indexers := replicate (k + m) (I_ended (Ok ()))\<rparr>)"
  using assms
proof (induction m arbitrary: st k)
  case 0
  then have "st\<lparr>bt_indexers := replicate (k + 0) (I_ended (Ok ()))\<rparr> = st" by simp
  then show ?case by simp
next
  case (Suc m)
  let ?st = "st\<lparr>bt_indexers := replicate (Suc k) (I_ended (Ok ())) @ replicate m I_waiting\<rparr>"
  have "(bt_indexers st)[k := I_ended (Ok ())] = replicate (Suc k) (I_ended (Ok ())) @ replicate m I_waiting"
    using Suc.prems(2) by (simp add: list_update_append replicate_append_same)
  then have "thread_step D read_file magic headers WS poll st ?st"
    using no_more_blobs [of k st "Ok ()" D read_file magic headers WS poll] Suc.prems by (simp add: nth_append)
  moreover have "(thread_step D read_file magic headers WS poll)\<^sup>*\<^sup>* ?st (st\<lparr>bt_indexers := replicate (Suc k + m) (I_ended (Ok ()))\<rparr>)"
    using Suc.IH [of ?st "Suc k"] Suc.prems(1) by simp
  ultimately show ?case by (simp add: converse_rtranclp_into_rtranclp)
qed

lemma join_indexers_all: "join_indexers (replicate n (I_ended (Ok ()))) = W_finishing"
  by (induction n) auto

lemma threads_of_finish:
  assumes "bulk_done b" and "bulk_finish D headers WS b = Ok s"
  shows "\<exists>st. (thread_step D read_file magic headers WS poll)\<^sup>*\<^sup>* (threads_of b env) st \<and>
    bt_writer st = W_ended (Ok ()) \<and> bt_store st = s"
proof -
  let ?step = "thread_step D read_file magic headers WS poll"
  let ?n = "length (bs_indexers b)"
  let ?a = "(threads_of b env)\<lparr>bt_reader := R_ended (Ok ())\<rparr>"
  let ?b = "?a\<lparr>bt_indexers := replicate ?n (I_ended (Ok ()))\<rparr>"
  let ?c = "?b\<lparr>bt_writer := W_join_reader\<rparr>"
  let ?d = "?c\<lparr>bt_writer := W_join_indexers\<rparr>"
  let ?e = "?d\<lparr>bt_writer := W_finishing\<rparr>"
  have idle: "bt_indexers (threads_of b env) = replicate ?n I_waiting"
    using assms(1) by (intro replicate_eqI) (auto simp: threads_of_def bulk_done_def)
  have "?step (threads_of b env) ?a"
    using reader_done [of "threads_of b env"] assms(1) by (simp add: threads_of_def bulk_done_def)
  moreover have "?step\<^sup>*\<^sup>* ?a ?b" using indexers_drain [of ?a 0 ?n] idle by simp
  moreover have "?step ?b ?c" using no_more_rows [of ?b] by (simp add: threads_of_def list_all_length)
  moreover have "?step ?c ?d" using joined_reader [of ?c "Ok ()"] by (simp add: join_reader_def)
  moreover have "?step ?d ?e" using joined_indexers [of ?d] join_indexers_all [of ?n] by (simp add: list_all_length)
  moreover have "?step ?e (?e\<lparr>bt_writer := W_ended (Ok ()), bt_store := s\<rparr>)"
    using write_last [of ?e D read_file magic headers WS poll] assms(2)
    by (simp add: written_def threads_of_def bulk_finish_def)
  ultimately have "?step\<^sup>*\<^sup>* (threads_of b env) (?e\<lparr>bt_writer := W_ended (Ok ()), bt_store := s\<rparr>)"
    by (meson converse_rtranclp_into_rtranclp rtranclp.rtrancl_refl rtranclp_trans)
  then show ?thesis by force
qed

text \<open>
  C5: The threads of the bulk import do what the import of theory \<open>Bulk\<close> does. If no signal comes, a store is what
  some schedule of the reader, the indexers and the writer, with their failures, channels and joins, leaves when
  the import succeeds, if and only if it is what a complete run of the steps of \<open>Bulk\<close> and the last row leave. So a
  run in which some thread failed never succeeds.
\<close>

theorem bulk_threads_equivalent:
  assumes "\<forall>e. \<exists>e'. poll e = Some (Ok (), e')"
  shows "(\<exists>st. (thread_step D read_file magic headers WS poll)\<^sup>*\<^sup>* (threads_init files indexed n store env) st \<and>
            bt_writer st = W_ended (Ok ()) \<and> bt_store st = s) \<longleftrightarrow>
         (\<exists>b. (bulk_step D read_file magic headers WS)\<^sup>*\<^sup>* (bulk_init files indexed n store) b \<and> bulk_done b \<and>
            bulk_finish D headers WS b = Ok s)" (is "?threads \<longleftrightarrow> ?bulk")
proof
  assume ?threads
  then obtain st where st: "(thread_step D read_file magic headers WS poll)\<^sup>*\<^sup>* (threads_init files indexed n store env) st"
    "bt_writer st = W_ended (Ok ())" "bt_store st = s" by blast
  from threads_follow_reach [OF st(1)] have joined: "threads_joined read_file st"
    and "threads_fail D magic WS st \<or> threads_follow D read_file magic headers WS (bulk_init files indexed n store) st" by blast+
  moreover have "\<not> threads_fail D magic WS st"
    using joined st(2) by (auto simp: threads_joined_def threads_fail_def list_all_length list_ex_length)
  ultimately show ?bulk using st(2,3) by (auto simp: threads_follow_def)
next
  assume ?bulk
  then obtain b where b: "(bulk_step D read_file magic headers WS)\<^sup>*\<^sup>* (bulk_init files indexed n store) b" "bulk_done b"
    "bulk_finish D headers WS b = Ok s" by blast
  obtain env' where "(thread_step D read_file magic headers WS poll)\<^sup>*\<^sup>* (threads_init files indexed n store env) (threads_of b env')"
    using threads_of_run [OF b(1) assms] by (metis threads_of_init)
  with threads_of_finish [OF b(2,3)] show ?threads by (meson rtranclp_trans)
qed

theorem bulk_threads_equivalent_witness:
  "\<exists>magic hl indexed st. (thread_step ex_deps ex_files magic hl (db_write_store mem_rocksdb) (pret (Ok ())))\<^sup>*\<^sup>*
     (threads_init [''blk00000.dat''] indexed 2 mem_store ()) st \<and> bt_writer st = W_ended (Ok ())"
proof -
  have "db_contents mem_contents mem_store = []" by (simp add: db_contents_def mem_store_def)
  from ex_index_blk_files [OF ex_daemon_up(1) this] obtain parser :: parser and b s where
    "(bulk_step ex_deps ex_files (p_magic parser) (p_headers parser) (db_write_store mem_rocksdb))\<^sup>*\<^sup>*
       (bulk_init [''blk00000.dat''] (p_indexed parser) 2 mem_store) b" "bulk_done b"
    "bulk_finish ex_deps (p_headers parser) (db_write_store mem_rocksdb) b = Ok s"
    by (auto simp: index_blk_files_def list_blk_files_def chain_opt_def)
  with bulk_threads_equivalent [of "pret (Ok ())" ex_deps ex_files "p_magic parser" "p_headers parser" "db_write_store mem_rocksdb"
      "[''blk00000.dat'']" "p_indexed parser" 2 mem_store "()" s]
  show ?thesis by auto
qed

section \<open>The whole of \<open>index_blk_files\<close>\<close>

text \<open>
  Raising the limit of open files. The calls into \<open>libc\<close> are arguments: what \<open>getrlimit\<close> yields (the soft and
  the hard limit) and whether \<open>setrlimit\<close> accepts the limits it is given.
\<close>

definition set_open_files_limit :: "(nat \<times> nat) option \<Rightarrow> (nat \<times> nat \<Rightarrow> bool) \<Rightarrow> nat \<Rightarrow> unit res" where
  "set_open_files_limit getrlimit setrlimit limit =
     (case getrlimit of
        None \<Rightarrow> Panic ''getrlimit() failed''
      | Some (rlim_cur, rlim_max) \<Rightarrow>
          if setrlimit (limit, rlim_max) then Ok () else Panic ''setrlimit() failed'')"

text \<open>What \<open>index_blk_files\<close> does before its threads run: the threads it starts, or the error it returns.\<close>

definition start_import :: "deps \<Rightarrow> 'e net \<Rightarrow> 'r rocksdb \<Rightarrow> (network \<Rightarrow> u32) \<Rightarrow> (string \<Rightarrow> string option list option) \<Rightarrow>
    (nat \<times> nat) option \<Rightarrow> (nat \<times> nat \<Rightarrow> bool) \<Rightarrow> nat \<Rightarrow> 'r dbstore \<Rightarrow>
    ('e daemon, parser \<times> ('r dbstore, 'e daemon) bulk_threads) prog" where
  "start_import D N R magic glob getrlimit setrlimit index_threads store =
     pbind (pret (set_open_files_limit getrlimit setrlimit 2048)) (\<lambda>_.
     pbind (\<lambda>d. pret (list_blk_files glob d) d) (\<lambda>blk_files.
     pbind (pret (read_indexed_blockhashes D (db_read_store R) store)) (\<lambda>indexed.
     pbind (\<lambda>d. Parser_new D (daemon_methods D N) (Daemon_magic magic d) indexed d) (\<lambda>parser d.
     Some (Ok (parser, threads_init blk_files (p_indexed parser) index_threads store d), d)))))"

lemma start_import_runs:
  assumes "start_import D N R magic glob getrlimit setrlimit threads store d = Some (Ok (parser, init), d')"
    and "(thread_step D read_file (p_magic parser) (p_headers parser) (db_write_store R) poll)\<^sup>*\<^sup>* init st"
    and "bt_writer st = W_ended (Ok ())"
  shows "index_blk_files D N R read_file magic glob threads (store, d) (bt_store st, d')"
proof -
  obtain files indexed d1 where s: "list_blk_files glob d = Ok files" "read_indexed_blockhashes D (db_read_store R) store = Ok indexed"
    "Parser_new D (daemon_methods D N) (Daemon_magic magic d) indexed d = Some (Ok parser, d')"
    "init = threads_init files (p_indexed parser) threads store d'"
    using assms(1) by (auto simp: start_import_def elim!: pbind_OkE)
  from threads_follow_reach [OF assms(2) [unfolded s(4)]] assms(3)
  have "threads_follow D read_file (p_magic parser) (p_headers parser) (db_write_store R) (bulk_init files (p_indexed parser) threads store) st"
    by (auto simp: threads_joined_def threads_fail_def list_all_length list_ex_length)
  with assms(3) s(1-3) show ?thesis by (auto simp: index_blk_files_def threads_follow_def)
qed

section \<open>Unreadable block files\<close>

definition busy :: "('s, 'd) bulk_threads \<Rightarrow> nat set" where
  "busy st = {i. i < length (bt_indexers st) \<and> bt_indexers st ! i \<noteq> I_waiting}"

lemma busy_finite [simp]: "finite (busy st)"
  by (simp add: busy_def)

lemma busy_le: "card (busy st) \<le> length (bt_indexers st)"
proof -
  have "busy st \<subseteq> {..<length (bt_indexers st)}" by (auto simp: busy_def)
  from card_mono [OF _ this] show ?thesis by simp
qed

lemma busy_less:
  assumes "i < length (bt_indexers st)" and "bt_indexers st ! i = I_waiting"
  shows "card (busy st) < length (bt_indexers st)"
proof -
  have "busy st \<subset> {..<length (bt_indexers st)}" using assms by (auto simp: busy_def)
  from psubset_card_mono [OF _ this] show ?thesis by simp
qed

lemma busy_update:
  assumes "i < length (bt_indexers st)" and "x \<noteq> I_waiting" and "bt_indexers st' = (bt_indexers st)[i := x]"
  shows "busy st' = insert i (busy st)"
  using assms by (auto simp: busy_def nth_list_update)

definition wrecked :: "deps \<Rightarrow> u32 \<Rightarrow> indexer \<Rightarrow> bool" where
  "wrecked D magic x \<longleftrightarrow> x = I_waiting \<or> indexer_ended x \<or> (\<exists>blob. x = I_parsing blob \<and> \<not> is_ok (parse_blocks D blob magic))"

text \<open>
  As long as no file can be parsed, an indexer takes one file and dies; the reader has got rid of as many
  files as indexers are not waiting any more.
\<close>

definition wreck :: "deps \<Rightarrow> (string \<Rightarrow> bytes option) \<Rightarrow> u32 \<Rightarrow> string list \<Rightarrow> nat \<Rightarrow> ('s, 'd) bulk_threads \<Rightarrow> bool" where
  "wreck D read_file magic files n st \<longleftrightarrow> length (bt_indexers st) = n \<and>
     (bt_writer st = W_receiving \<or> bt_writer st = W_join_reader \<and> list_all indexer_ended (bt_indexers st)) \<and>
     list_all (wrecked D magic) (bt_indexers st) \<and>
     (case bt_reader st of
        R_reading fs \<Rightarrow> fs = drop (card (busy st)) files
      | R_sending path blob fs \<Rightarrow> path # fs = drop (card (busy st)) files \<and> read_file path = Some blob
      | R_ended r \<Rightarrow> False)"

lemma wreck_indexer:
  assumes "list_all (wrecked D magic) xs" and "i < length xs" and "xs ! i = I_parsing blob"
  shows "\<exists>r. indexer_parse D magic blob = I_ended r"
  using assms by (cases "parse_blocks D blob magic") (auto simp: list_all_length wrecked_def indexer_parse_def)

lemma wrecked_update: "list_all (wrecked D magic) xs \<Longrightarrow> wrecked D magic x \<Longrightarrow> list_all (wrecked D magic) (xs[i := x])"
  by (auto simp: list_all_iff dest: subsetD [OF set_update_subset_insert])

lemma wreck_step:
  assumes "wreck D read_file magic files n st" and "thread_step D read_file magic headers WS poll st st'"
    and "n < length files" and "\<forall>k \<le> n. read_file (files ! k) \<noteq> None"
    and "\<forall>k < n. \<forall>blob. read_file (files ! k) = Some blob \<longrightarrow> \<not> is_ok (parse_blocks D blob magic)"
  shows "wreck D read_file magic files n st'"
  using assms(2)
proof (cases rule: thread_step.cases)
  case (reader_file path rest)
  have k: "card (busy st) \<le> n" using busy_le [of st] assms(1) by (simp add: wreck_def)
  have d: "path # rest = drop (card (busy st)) files" using assms(1) reader_file by (simp add: wreck_def)
  then have "path = files ! card (busy st)" using k assms(3) by (metis hd_drop_conv_nth le_less_trans list.sel(1))
  with assms(4) k obtain blob where "read_file path = Some blob" by blast
  with assms(1) reader_file d show ?thesis
    by (simp add: wreck_def reader_read_def read_blkfile_def busy_def)
next
  case reader_done
  then show ?thesis using busy_le [of st] assms(1,3) by (simp add: wreck_def)
next
  case (blob_sent path blob rest i)
  have k: "card (busy st) < n" using busy_less [OF blob_sent(3,4)] assms(1) by (simp add: wreck_def)
  have d: "path # rest = drop (card (busy st)) files" "read_file path = Some blob" using assms(1) blob_sent by (simp_all add: wreck_def)
  then have "path = files ! card (busy st)" using k assms(3) by (metis hd_drop_conv_nth less_trans list.sel(1))
  with assms(5) k d(2) have "wrecked D magic (I_parsing blob)" by (auto simp: wrecked_def)
  with assms(1) have all: "list_all (wrecked D magic) ((bt_indexers st)[i := I_parsing blob])"
    by (simp add: wreck_def wrecked_update)
  have st': "bt_reader st' = R_reading rest" "bt_indexers st' = (bt_indexers st)[i := I_parsing blob]"
    "bt_writer st' = W_receiving" "length (bt_indexers st) = n"
    using assms(1) blob_sent by (auto simp: wreck_def list_all_length)
  have "busy st' = insert i (busy st)" by (rule busy_update [OF blob_sent(3) _ st'(2)]) simp
  then have "card (busy st') = Suc (card (busy st))" using blob_sent(4) by (simp add: busy_def)
  moreover have "rest = drop (Suc (card (busy st))) files" using d(1) by (metis drop_Suc list.sel(3) tl_drop)
  ultimately show ?thesis using all st'(4) unfolding wreck_def st'(1-3) by simp
next
  case (index_parse i blob)
  have all: "list_all (wrecked D magic) (bt_indexers st)" using assms(1) by (simp add: wreck_def)
  from wreck_indexer [OF all index_parse(2,3)] obtain r where r: "indexer_parse D magic blob = I_ended r" by blast
  have st': "bt_reader st' = bt_reader st" "bt_indexers st' = (bt_indexers st)[i := I_ended r]"
    "bt_writer st' = W_receiving" "length (bt_indexers st) = n"
    using assms(1) index_parse r by (auto simp: wreck_def list_all_length)
  have "busy st' = insert i (busy st)" by (rule busy_update [OF index_parse(2) _ st'(2)]) simp
  then have b: "busy st' = busy st" using index_parse(2,3) by (simp add: busy_def insert_absorb)
  show ?thesis using assms(1) wrecked_update [OF all, of "I_ended r" i] st'(4)
    unfolding wreck_def st'(1-3) b by (simp add: wrecked_def)
qed (use assms(1) in \<open>auto simp: wreck_def wrecked_def list_all_length busy_def split: reader.splits\<close>)

lemma wreck_reach:
  assumes "(thread_step D read_file magic headers WS poll)\<^sup>*\<^sup>* (threads_init files indexed n store env) st"
    and "n < length files" and "\<forall>k \<le> n. read_file (files ! k) \<noteq> None"
    and "\<forall>k < n. \<forall>blob. read_file (files ! k) = Some blob \<longrightarrow> \<not> is_ok (parse_blocks D blob magic)"
  shows "wreck D read_file magic files n st"
  using assms(1)
proof (induction rule: rtranclp_induct)
  case base
  have "busy (threads_init files indexed n store env) = {}" by (auto simp: busy_def threads_init_def)
  then show ?case by (simp add: wreck_def threads_init_def wrecked_def list_all_length)
next
  case (step st st')
  from wreck_step [OF step.IH step.hyps(2) assms(2-4)] show ?case .
qed

lemma wreck_stuck:
  assumes "wreck D read_file magic files n st" and "n < length files" and "\<forall>k \<le> n. read_file (files ! k) \<noteq> None"
    and "\<not> (\<exists>st'. thread_step D read_file magic headers WS poll st st')"
  shows "bt_writer st = W_join_reader \<and> list_all indexer_ended (bt_indexers st) \<and> (\<exists>path blob fs. bt_reader st = R_sending path blob fs)"
proof -
  have "card (busy st) < length files" using busy_le [of st] assms(1,2) by (simp add: wreck_def)
  then obtain path rest where "drop (card (busy st)) files = path # rest" by (metis drop_eq_Nil2 linorder_not_less list.exhaust)
  then have "bt_reader st \<noteq> R_reading fs" for fs
    using assms(1,4) reader_file [of st path rest D read_file magic headers WS poll] by (auto simp: wreck_def)
  then have reader: "\<exists>path blob fs. bt_reader st = R_sending path blob fs"
    using assms(1) by (cases "bt_reader st") (auto simp: wreck_def)
  have "indexer_ended (bt_indexers st ! i)" if i: "i < length (bt_indexers st)" for i
  proof -
    have "bt_indexers st ! i \<noteq> I_waiting" using reader blob_sent [OF _ i] assms(4) by blast
    moreover have "bt_indexers st ! i \<noteq> I_parsing blob" for blob using index_parse [OF i] assms(4) by blast
    ultimately show ?thesis using assms(1) i by (auto simp: wreck_def wrecked_def list_all_length)
  qed
  then have all: "list_all indexer_ended (bt_indexers st)" by (simp add: list_all_length)
  with no_more_rows [of st D read_file magic headers WS poll] assms(1,4) have "bt_writer st = W_join_reader" by (auto simp: wreck_def)
  with reader all show ?thesis by blast
qed

text \<open>
  C29: Broken block files hang the import. With \<open>n\<close> indexers, if the first \<open>n\<close> block files cannot be parsed (a
  truncated file, a decoding error) and there is one more file, under every schedule \<open>index_blk_files\<close> neither
  returns nor reports the failure: the writer never ends, and when no thread can go on all indexers are dead, the
  writer waits for the reader, and the reader waits for an indexer to take the next file.
\<close>

theorem broken_files_hang_import:
  assumes "(thread_step D read_file magic headers WS poll)\<^sup>*\<^sup>* (threads_init files indexed n store env) st"
    and "n < length files" and "\<forall>k \<le> n. read_file (files ! k) \<noteq> None"
    and "\<forall>k < n. \<forall>blob. read_file (files ! k) = Some blob \<longrightarrow> \<not> is_ok (parse_blocks D blob magic)"
  shows "\<not> writer_ended (bt_writer st) \<and>
    ((\<exists>st'. thread_step D read_file magic headers WS poll st st') \<or>
     bt_writer st = W_join_reader \<and> list_all indexer_ended (bt_indexers st) \<and> (\<exists>path blob fs. bt_reader st = R_sending path blob fs))"
proof -
  note inv = wreck_reach [OF assms]
  then have "\<not> writer_ended (bt_writer st)" by (auto simp: wreck_def)
  with wreck_stuck [OF inv assms(2,3)] show ?thesis by blast
qed

text \<open>A closed example: one indexer, a truncated file and another one.\<close>

definition ex_broken_file :: bytes where
  "ex_broken_file = le_bytes 4 (unat (7 :: u32)) @ le_bytes 4 100 @ [1, 0, 0, 0, 5]"

lemma ex_broken_file_panics: "panics (parse_blocks ref_deps ex_broken_file 7)"
proof -
  have le: "u32_le ref_deps" by (simp add: u32_le_def ref_deps_def)
  show ?thesis unfolding ex_broken_file_def
    using parse_blocks_frame [of "le_bytes 4 (unat (7 :: u32))" "le_bytes 4 100" ref_deps 7 "[1, 0, 0, 0, 5]"]
      u32_le_magic [OF le, of 7] u32_le_encode(2) [OF le, of 100] by (simp add: ref_deps_def)
qed

theorem broken_files_hang_import_witness:
  "\<exists>st. (thread_step ref_deps (\<lambda>_. Some ex_broken_file) 7 hl_empty (db_write_store mem_rocksdb) (pret (Ok ())))\<^sup>*\<^sup>*
          (threads_init [''blk00000.dat'', ''blk00001.dat''] {} 1 mem_store ()) st \<and>
        bt_writer st = W_join_reader \<and> bt_reader st = R_sending ''blk00001.dat'' ex_broken_file [] \<and>
        \<not> writer_ended (bt_writer st)"
proof -
  let ?step = "thread_step ref_deps (\<lambda>_. Some ex_broken_file) 7 hl_empty (db_write_store mem_rocksdb) (pret (Ok ()))"
  let ?init = "threads_init [''blk00000.dat'', ''blk00001.dat''] {} 1 mem_store ()"
  let ?a = "?init\<lparr>bt_reader := R_sending ''blk00000.dat'' ex_broken_file [''blk00001.dat'']\<rparr>"
  let ?b = "?init\<lparr>bt_reader := R_reading [''blk00001.dat''], bt_indexers := [I_parsing ex_broken_file]\<rparr>"
  let ?c = "?b\<lparr>bt_indexers := [indexer_parse ref_deps 7 ex_broken_file]\<rparr>"
  let ?d = "?c\<lparr>bt_reader := R_sending ''blk00001.dat'' ex_broken_file []\<rparr>"
  let ?e = "?d\<lparr>bt_writer := W_join_reader\<rparr>"
  have dead: "indexer_ended (indexer_parse ref_deps 7 ex_broken_file)"
    using ex_broken_file_panics by (cases "parse_blocks ref_deps ex_broken_file 7") (simp_all add: indexer_parse_def)
  note steps = thread_step.intros [where D = ref_deps and read_file = "\<lambda>_. Some ex_broken_file" and magic = 7 and headers = hl_empty
      and WS = "db_write_store mem_rocksdb" and poll = "pret (Ok ())"]
  have "?step ?init ?a" using steps(1) [of ?init "''blk00000.dat''" "[''blk00001.dat'']"]
    by (simp add: threads_init_def reader_read_def read_blkfile_def)
  moreover have "?step ?a ?b" using steps(3) [of ?a "''blk00000.dat''" ex_broken_file "[''blk00001.dat'']" 0]
    by (simp add: threads_init_def)
  moreover have "?step ?b ?c" using steps(5) [of 0 ?b ex_broken_file] by simp
  moreover have "?step ?c ?d" using steps(1) [of ?c "''blk00001.dat''" "[]"] by (simp add: reader_read_def read_blkfile_def)
  moreover have "?step ?d ?e" using steps(12) [of ?d] dead by (simp add: threads_init_def)
  ultimately have "?step\<^sup>*\<^sup>* ?init ?e" by (meson converse_rtranclp_into_rtranclp rtranclp.rtrancl_refl)
  moreover have "\<not> is_ok (parse_blocks ref_deps ex_broken_file 7)"
    using ex_broken_file_panics by (cases "parse_blocks ref_deps ex_broken_file 7") simp_all
  ultimately show ?thesis using broken_files_hang_import [where files = "[''blk00000.dat'', ''blk00001.dat'']" and n = 1 and st = ?e]
    by (intro exI [of _ ?e]) simp
qed

section \<open>The import ends\<close>

text \<open>
  No schedule runs forever: a step of the reader takes from the files that are left, every other step from
  the work that the indexers and the writer have.
\<close>

fun reader_work :: "reader \<Rightarrow> nat" where
  "reader_work (R_reading fs) = 2 * length fs + 1"
| "reader_work (R_sending path blob fs) = 2 * length fs + 2"
| "reader_work (R_ended r) = 0"

fun indexer_work :: "deps \<Rightarrow> u32 \<Rightarrow> indexer \<Rightarrow> nat" where
  "indexer_work D magic I_waiting = 1"
| "indexer_work D magic (I_parsing blob) = (case parse_blocks D blob magic of Ok blocks \<Rightarrow> length blocks + 7 | _ \<Rightarrow> 1)"
| "indexer_work D magic (I_indexing blocks rows) = length blocks + 6"
| "indexer_work D magic (I_ended r) = 0"

fun writer_work :: "writer \<Rightarrow> nat" where
  "writer_work (W_writing rows) = 6"
| "writer_work W_polling = 5"
| "writer_work W_receiving = 4"
| "writer_work W_join_reader = 3"
| "writer_work W_join_indexers = 2"
| "writer_work W_finishing = 1"
| "writer_work (W_ended r) = 0"

definition threads_work :: "deps \<Rightarrow> u32 \<Rightarrow> ('s, 'd) bulk_threads \<Rightarrow> nat \<times> nat" where
  "threads_work D magic st = (reader_work (bt_reader st),
     sum_list (map (indexer_work D magic) (bt_indexers st)) + writer_work (bt_writer st))"

lemma sum_list_update_add:
  "i < length xs \<Longrightarrow> sum_list (map f (xs[i := y])) + f (xs ! i) = sum_list (map f xs) + (f y :: nat)"
proof (induction xs arbitrary: i)
  case (Cons x xs)
  show ?case
  proof (cases i)
    case (Suc j)
    with Cons.IH [of j] Cons.prems show ?thesis by simp
  qed simp
qed simp

lemma thread_step_work:
  assumes "thread_step D read_file magic headers WS poll st st'"
  shows "(threads_work D magic st', threads_work D magic st) \<in> less_than <*lex*> less_than"
  using assms
proof (cases rule: thread_step.cases)
  case (index_parse i blob)
  have "indexer_work D magic (indexer_parse D magic blob) < indexer_work D magic (bt_indexers st ! i)"
    using index_parse(3) by (simp add: indexer_parse_def split: res.splits)
  from sum_list_update_less [OF index_parse(2) this] index_parse(1) show ?thesis by (simp add: threads_work_def)
next
  case (index_one i block blocks rows indexed nxt)
  have "indexer_work D magic nxt < indexer_work D magic (bt_indexers st ! i)"
    using index_one(3,4) by (auto simp: indexer_block_def split: res.splits)
  from sum_list_update_less [OF index_one(2) this] index_one(1) show ?thesis by (simp add: threads_work_def)
next
  case (rows_sent i rows rows')
  with sum_list_update_add [OF rows_sent(2), of "indexer_work D magic" I_waiting] show ?thesis by (simp add: threads_work_def)
next
  case (rows_fail i rows)
  with sum_list_update_add [OF rows_fail(2), of "indexer_work D magic" "I_ended (Panic ''failed to send indexed rows'')"]
  show ?thesis by (simp add: threads_work_def)
next
  case (no_more_blobs i r)
  with sum_list_update_add [OF no_more_blobs(2), of "indexer_work D magic" "I_ended (Ok ())"] show ?thesis by (simp add: threads_work_def)
next
  case joined_indexers
  with join_indexers_outcome [of "bt_indexers st"] show ?thesis by (auto simp: threads_work_def)
qed (auto simp: threads_work_def thread_effects split: res.splits)

lemma thread_step_wf: "wfP (\<lambda>st' st. thread_step D read_file magic headers WS poll st st')"
proof -
  have "wf (inv_image (less_than <*lex*> less_than) (threads_work D magic))" by (intro wf_inv_image wf_lex_prod wf_less_than)
  then have "wf {(st', st). thread_step D read_file magic headers WS poll st st'}"
    by (rule wf_subset) (auto dest: thread_step_work)
  then show ?thesis by (simp add: wfp_def)
qed

text \<open>
  When every file can be read and parsed, no thread fails as long as the writer runs, and an indexer ends only
  after the reader.
\<close>

fun reader_fine :: "deps \<Rightarrow> (string \<Rightarrow> bytes option) \<Rightarrow> u32 \<Rightarrow> reader \<Rightarrow> bool" where
  "reader_fine D read_file magic (R_reading fs) = files_parse D read_file magic fs"
| "reader_fine D read_file magic (R_sending path blob fs) \<longleftrightarrow> is_ok (parse_blocks D blob magic) \<and> files_parse D read_file magic fs"
| "reader_fine D read_file magic (R_ended r) \<longleftrightarrow> r = Ok ()"

fun indexer_fine :: "deps \<Rightarrow> u32 \<Rightarrow> reader \<Rightarrow> indexer \<Rightarrow> bool" where
  "indexer_fine D magic reader (I_parsing blob) \<longleftrightarrow> is_ok (parse_blocks D blob magic)"
| "indexer_fine D magic reader (I_ended r) \<longleftrightarrow> r = Ok () \<and> reader = R_ended (Ok ())"
| "indexer_fine D magic reader _ \<longleftrightarrow> True"

definition threads_fine :: "deps \<Rightarrow> (string \<Rightarrow> bytes option) \<Rightarrow> u32 \<Rightarrow> ('s, 'd) bulk_threads \<Rightarrow> bool" where
  "threads_fine D read_file magic st \<longleftrightarrow> writer_ended (bt_writer st) \<or>
     reader_fine D read_file magic (bt_reader st) \<and> list_all (indexer_fine D magic (bt_reader st)) (bt_indexers st)"

lemma list_all_updated: "list_all P xs \<Longrightarrow> P x \<Longrightarrow> list_all P (xs[i := x])"
  by (auto simp: list_all_iff dest: subsetD [OF set_update_subset_insert])

lemma indexer_fine_running: "\<nexists>r. reader = R_ended r \<Longrightarrow> indexer_fine D magic reader x \<Longrightarrow> indexer_fine D magic reader' x"
  by (cases x) auto

lemma threads_fine_step:
  assumes "thread_step D read_file magic headers WS poll st st'" and "threads_fine D read_file magic st" and "codec_ok D"
  shows "threads_fine D read_file magic st'"
proof (cases "writer_ended (bt_writer st)")
  case True
  with assms(1) have "writer_ended (bt_writer st')" by (cases rule: thread_step.cases) auto
  then show ?thesis by (simp add: threads_fine_def)
next
  case False
  then have fine: "reader_fine D read_file magic (bt_reader st)" "list_all (indexer_fine D magic (bt_reader st)) (bt_indexers st)"
    using assms(2) by (simp_all add: threads_fine_def)
  have moved: "list_all (indexer_fine D magic reader') (bt_indexers st)" if "\<nexists>r. bt_reader st = R_ended r" for reader'
    using fine(2) indexer_fine_running [OF that] by (auto simp: list_all_iff)
  from assms(1) show ?thesis
  proof (cases rule: thread_step.cases)
    case (reader_file path rest)
    then obtain blob bs where "read_file path = Some blob" "parse_blocks D blob magic = Ok bs" "files_parse D read_file magic rest"
      using fine(1) by (auto simp: files_parse_def)
    then show ?thesis using reader_file moved
      by (simp add: threads_fine_def reader_read_def read_blkfile_def)
  next
    case reader_done
    then show ?thesis using moved by (simp add: threads_fine_def)
  next
    case (blob_sent path blob rest i)
    then show ?thesis using fine(1) moved by (simp add: threads_fine_def list_all_updated)
  next
    case (index_parse i blob)
    then have "is_ok (parse_blocks D blob magic)" using fine(2) by (auto simp: list_all_length)
    then have "indexer_fine D magic (bt_reader st) (indexer_parse D magic blob)"
      by (cases "parse_blocks D blob magic") (simp_all add: indexer_parse_def)
    then show ?thesis using index_parse fine by (simp add: threads_fine_def list_all_updated)
  next
    case (index_one i block blocks rows indexed nxt)
    obtain p where "index_file_block D headers (bt_indexed st, rows) block = Ok p" using index_file_block_total [OF assms(3)] by blast
    then have "indexer_fine D magic (bt_reader st) nxt" using index_one(4) by (cases p) (auto simp: indexer_block_def)
    then show ?thesis using index_one fine by (simp add: threads_fine_def list_all_updated)
  next
    case (rows_sent i rows rows')
    then show ?thesis using fine by (simp add: threads_fine_def list_all_updated)
  next
    case (no_more_blobs i r)
    then show ?thesis using fine by (simp add: threads_fine_def list_all_updated)
  qed (use False fine in \<open>auto simp: threads_fine_def written_def split: res.splits\<close>)
qed

text \<open>While the writer receives, an indexer that has not ended can go on, or the reader can.\<close>

lemma indexer_progress:
  assumes "bt_writer st = W_receiving" and i: "i < length (bt_indexers st)" "\<not> indexer_ended (bt_indexers st ! i)"
  shows "\<exists>st'. thread_step D read_file magic headers WS poll st st'"
proof (cases "bt_indexers st ! i")
  case I_waiting
  show ?thesis
  proof (cases "bt_reader st")
    case (R_reading fs)
    then show ?thesis by (cases fs) (use reader_done [of st] reader_file [of st] in blast)+
  next
    case (R_sending path blob fs)
    with blob_sent [OF R_sending i(1) I_waiting] show ?thesis by blast
  next
    case (R_ended r)
    with no_more_blobs [OF i(1) I_waiting R_ended] show ?thesis by blast
  qed
next
  case (I_parsing blob)
  with index_parse [OF i(1)] show ?thesis by blast
next
  case (I_indexing blocks rows)
  show ?thesis
  proof (cases blocks)
    case Nil
    with I_indexing rows_sent [OF i(1) _ assms(1)] sorted_rows_exist [of rows] show ?thesis by metis
  next
    case (Cons b bs)
    obtain indexed nxt where "indexer_block D headers (bt_indexed st) rows b bs = (indexed, nxt)" by fastforce
    with index_one [OF i(1) I_indexing [unfolded Cons]] show ?thesis by blast
  qed
qed (use i(2) in simp)

lemma fine_reader_ended:
  assumes "list_all (indexer_fine D magic reader) xs" and "list_all indexer_ended xs" and "xs \<noteq> []"
  shows "reader = R_ended (Ok ())"
proof -
  have "indexer_ended (hd xs)" "indexer_fine D magic reader (hd xs)" using assms by (auto simp: list_all_iff)
  then show ?thesis by (cases "hd xs") auto
qed

lemma threads_progress:
  assumes "threads_fine D read_file magic st" and "threads_joined read_file st" and "bt_indexers st \<noteq> []"
    and "\<not> writer_ended (bt_writer st)" and "\<forall>e. poll e \<noteq> None"
  shows "\<exists>st'. thread_step D read_file magic headers WS poll st st'"
proof (cases "bt_writer st")
  case W_receiving
  show ?thesis
  proof (cases "list_all indexer_ended (bt_indexers st)")
    case True
    with no_more_rows [OF W_receiving True, of D read_file magic headers WS poll] show ?thesis by blast
  next
    case False
    with indexer_progress [OF W_receiving] show ?thesis by (auto simp: list_all_length)
  qed
next
  case W_polling
  then show ?thesis using write_poll [OF W_polling] assms(5) by (metis not_None_eq surj_pair)
next
  case W_join_reader
  have "list_all (indexer_fine D magic (bt_reader st)) (bt_indexers st)" using assms(1,4) by (simp add: threads_fine_def)
  with W_join_reader have "bt_reader st = R_ended (Ok ())"
    using fine_reader_ended assms(2,3) by (auto simp: threads_joined_def)
  with joined_reader [OF W_join_reader] show ?thesis by blast
next
  case W_join_indexers
  then have "list_all indexer_ended (bt_indexers st)" using assms(2) by (simp add: threads_joined_def)
  with joined_indexers [OF W_join_indexers] show ?thesis by blast
next
  case (W_ended r)
  then show ?thesis using assms(4) by simp
qed (use write_rows [of st] write_last [of st] in blast)+

text \<open>How the writer ends when no signal comes and no write fails.\<close>

definition import_result :: "header_list \<Rightarrow> hash set \<Rightarrow> unit res" where
  "import_result headers indexed =
     (if takeWhile (\<lambda>h. he_hash h \<in> indexed) (hl_headers headers) = [] then Panic ''no indexed header found'' else Ok ())"

definition quiet_end :: "header_list \<Rightarrow> ('s, 'd) bulk_threads \<Rightarrow> bool" where
  "quiet_end headers st \<longleftrightarrow>
     (\<forall>r. bt_writer st = W_ended r \<longrightarrow> list_all indexer_ended (bt_indexers st) \<and> r = import_result headers (bt_indexed st))"

lemma quiet_end_step:
  assumes "thread_step D read_file magic headers (db_write_store R) poll st st'" and "threads_fine D read_file magic st"
    and "rocksdb_ok R c" and "\<forall>e. \<exists>e'. poll e = Some (Ok (), e')" and "threads_joined read_file st" and "quiet_end headers st"
  shows "quiet_end headers st'"
proof -
  have w: "\<exists>s'. ws_write (db_write_store R) s rows = Ok s'" for s rows using db.write_view [OF assms(3)] by blast
  have none: "indexer_ended (bt_indexers st ! i)" if "writer_ended (bt_writer st)" "i < length (bt_indexers st)" for i
    using assms(6) that by (cases "bt_writer st") (auto simp: quiet_end_def list_all_length)
  show ?thesis using assms(1)
  proof (cases rule: thread_step.cases)
    case (write_rows rows)
    with w [of "bt_store st" rows] show ?thesis by (auto simp: quiet_end_def written_def)
  next
    case (write_poll r e)
    with assms(4) have "r = Ok ()" by (metis option.inject prod.inject)
    with write_poll show ?thesis by (simp add: quiet_end_def writer_polled_def)
  next
    case (joined_reader r)
    with assms(2) have "r = Ok ()" by (simp add: threads_fine_def)
    with joined_reader show ?thesis by (simp add: quiet_end_def join_reader_def)
  next
    case joined_indexers
    have "x = I_ended (Ok ())" if "x \<in> set (bt_indexers st)" for x
      using assms(2) joined_indexers(2,3) that by (cases x) (auto simp: threads_fine_def list_all_iff)
    then have "bt_indexers st = replicate (length (bt_indexers st)) (I_ended (Ok ()))" by (intro replicate_eqI) simp_all
    with joined_indexers join_indexers_all [of "length (bt_indexers st)"] show ?thesis by (simp add: quiet_end_def)
  next
    case write_last
    then have "list_all indexer_ended (bt_indexers st)" using assms(5) by (simp add: threads_joined_def)
    moreover obtain s' where "ws_write (db_write_store R) (bt_store st)
        [last_indexed_block D (he_hash (last (takeWhile (\<lambda>h. he_hash h \<in> bt_indexed st) (hl_headers headers))))] = Ok s'"
      using w by blast
    ultimately show ?thesis using write_last
      by (auto simp: quiet_end_def written_def last_indexed_row_def Let_def import_result_def split: if_splits)
  qed (use assms(6) none in \<open>force simp: quiet_end_def\<close>)+
qed

text \<open>
  C27: The bulk import ends. No schedule of its threads runs forever, whatever the files hold. If moreover
  there is an indexer, every block file can be read and parsed, writing to the database succeeds and a poll for signals
  returns, then no schedule gets stuck before the writer has ended; and if no signal comes, the import has then
  succeeded, or has panicked because the first header of the best chain is not among the indexed blocks.
  (Files that cannot be parsed can make it hang: \<open>broken_files_hang_import\<close>.)
\<close>

theorem bulk_threads_end:
  assumes "codec_ok D" and "rocksdb_ok R c" and "0 < n" and "files_parse D read_file magic files" and "\<forall>e. poll e \<noteq> None"
  shows "wfP (\<lambda>st' st. thread_step D read_file magic headers (db_write_store R) poll st st') \<and>
    (\<forall>st. (thread_step D read_file magic headers (db_write_store R) poll)\<^sup>*\<^sup>* (threads_init files indexed n store env) st \<and>
       (\<nexists>st'. thread_step D read_file magic headers (db_write_store R) poll st st') \<longrightarrow>
       (\<exists>r. bt_writer st = W_ended r \<and>
         ((\<forall>e. \<exists>e'. poll e = Some (Ok (), e')) \<longrightarrow>
            r = (if takeWhile (\<lambda>h. he_hash h \<in> bt_indexed st) (hl_headers headers) = []
                 then Panic ''no indexed header found'' else Ok ()))))"
proof -
  let ?step = "thread_step D read_file magic headers (db_write_store R) poll" and ?init = "threads_init files indexed n store env"
  have inv: "threads_fine D read_file magic st \<and> length (bt_indexers st) = n \<and>
      ((\<forall>e. \<exists>e'. poll e = Some (Ok (), e')) \<longrightarrow> quiet_end headers st)" if "?step\<^sup>*\<^sup>* ?init st" for st
    using that
  proof (induction rule: rtranclp_induct)
    case base
    show ?case using assms(4) by (simp add: threads_fine_def threads_init_def quiet_end_def list_all_length)
  next
    case (step st st')
    moreover have "length (bt_indexers st') = length (bt_indexers st)"
      using step.hyps(2) by (cases rule: thread_step.cases) (auto simp: written_def split: res.splits)
    ultimately show ?case using threads_fine_step [OF step.hyps(2) _ assms(1)] quiet_end_step [OF step.hyps(2) _ assms(2)]
        threads_follow_reach [OF step.hyps(1)] by auto
  qed
  have "writer_ended (bt_writer st)" if "?step\<^sup>*\<^sup>* ?init st" "\<nexists>st'. ?step st st'" for st
    using threads_progress [of D read_file magic st poll headers "db_write_store R"] inv [OF that(1)] threads_follow_reach [OF that(1)]
      that(2) assms(3,5) by fastforce
  then have "\<exists>r. bt_writer st = W_ended r \<and>
      ((\<forall>e. \<exists>e'. poll e = Some (Ok (), e')) \<longrightarrow> r = import_result headers (bt_indexed st))"
    if "?step\<^sup>*\<^sup>* ?init st" "\<nexists>st'. ?step st st'" for st
    using that inv [OF that(1)] by (cases "bt_writer st") (force simp: quiet_end_def)+
  with thread_step_wf show ?thesis unfolding import_result_def by blast
qed

text \<open>The closed example of \<open>Bulk\<close>, with two indexers.\<close>

lemma threads_reach_end:
  "\<exists>st'. (thread_step D read_file magic headers WS poll)\<^sup>*\<^sup>* st st' \<and> (\<nexists>st''. thread_step D read_file magic headers WS poll st' st'')"
proof (induction st rule: wfp_induct_rule [OF thread_step_wf [of D read_file magic headers WS poll]])
  case (1 st)
  then show ?case by (meson converse_rtranclp_into_rtranclp rtranclp.rtrancl_refl)
qed

lemma indexed_grows:
  assumes "(thread_step D read_file magic headers WS poll)\<^sup>*\<^sup>* st st'"
  shows "bt_indexed st \<subseteq> bt_indexed st'"
  using assms
proof (induction rule: rtranclp_induct)
  case (step y z)
  have "bt_indexed y \<subseteq> bt_indexed z"
    using step.hyps(2)
    by (cases rule: thread_step.cases)
       (auto simp: written_def indexer_block_def index_file_block_def Let_def bind_res_eq_Ok split: res.splits option.splits if_splits)
  with step.IH show ?case by blast
qed simp

theorem bulk_threads_end_witness:
  "\<exists>st. (thread_step ex_block_deps ex_read_file 7 ex_headers (db_write_store mem_rocksdb) (pret (Ok ())))\<^sup>*\<^sup>*
      (threads_init [''blk00000.dat''] {mk_hash [1]} 2 mem_store ()) st \<and> bt_writer st = W_ended (Ok ())"
proof -
  let ?step = "thread_step ex_block_deps ex_read_file 7 ex_headers (db_write_store mem_rocksdb) (pret (Ok ()))"
  let ?init = "threads_init [''blk00000.dat''] {mk_hash [1]} 2 mem_store ()"
  have files: "files_parse ex_block_deps ex_read_file 7 [''blk00000.dat'']"
    using ex_parse by (auto simp: files_parse_def ex_read_file_def)
  obtain st where st: "?step\<^sup>*\<^sup>* ?init st" "\<nexists>st'. ?step st st'" using threads_reach_end by blast
  have "mk_hash [1] \<in> bt_indexed st" using indexed_grows [OF st(1)] by (simp add: threads_init_def)
  then have "takeWhile (\<lambda>h. he_hash h \<in> bt_indexed st) (hl_headers ex_headers) \<noteq> []"
    by (simp add: ex_headers_def ex_chain_def chain_entries_Cons chain_entry_def)
  with bulk_threads_end [OF ex_block_deps_ok(2) mem_rocksdb_ok _ files, of 2 "pret (Ok ())" ex_headers "{mk_hash [1]}" mem_store "()"] st
  show ?thesis by auto
qed

end
