(* ===== verification/Fetcher.thy ===== *)
theory Fetcher
  imports Node_Example Channels
begin

text \<open>
  The two threads of \<open>Index::update\<close>: the fetcher asks the daemon for one batch of blocks after the other and
  sends them through a channel of one place, the updating thread receives them, writes their rows and
  joins the fetcher after the end of the stream. They are the step relations \<open>fetcher_step\<close> and
  \<open>consumer_step\<close>, interleaved by \<open>pipeline_step\<close>, one step for each call that another thread can see. The
  theory shows that every schedule ends, that it leaves the contents that \<open>index_batches\<close> of \<open>Index\<close>
  leaves, where the two threads take turns, and what happens if the fetcher dies.
\<close>

section \<open>The two threads\<close>

text \<open>
  The fetcher: spawned with the batch size and the hashes, about to fetch the first of the remaining
  chunks (or to send the end of the stream), holding a result to be sent, or ended.
\<close>

datatype fetcher =
    Spawned nat "hash list"
  | Fetching "hash list list"
  | Sending "block list res" "hash list list"
  | Finished
  | Died

text \<open>The updating thread, by the statement it is at.\<close>

datatype consumer =
    Polling
  | Receiving
  | Indexing "block list"
  | Flushing
  | Joining
  | Returned "unit res"

record ('s, 'd) pipeline =
  pl_fetcher :: fetcher
  pl_chan :: "block list res sync_channel"
  pl_consumer :: consumer
  pl_store :: 's
  pl_daemon :: 'd

definition pipeline_init :: "nat \<Rightarrow> hash list \<Rightarrow> 's \<Rightarrow> 'd \<Rightarrow> ('s, 'd) pipeline" where
  "pipeline_init batch_size blockhashes store daemon =
     \<lparr>pl_fetcher = Spawned batch_size blockhashes, pl_chan = channel_sender (SyncChannel_new 1),
      pl_consumer = Polling, pl_store = store, pl_daemon = daemon\<rparr>"

text \<open>
  When the fetcher ends, in whatever way, its sender is dropped. When \<open>update\<close> leaves the loop by an error or
  a panic, or returns, its channel is dropped, with the receiver.
\<close>

definition fetcher_ends :: "fetcher \<Rightarrow> ('s, 'd) pipeline \<Rightarrow> ('s, 'd) pipeline" where
  "fetcher_ends f st = st\<lparr>pl_fetcher := f, pl_chan := drop_sender (pl_chan st)\<rparr>"

definition consumer_returns :: "unit res \<Rightarrow> ('s, 'd) pipeline \<Rightarrow> ('s, 'd) pipeline" where
  "consumer_returns r st = st\<lparr>pl_consumer := Returned r, pl_chan := drop_channel (pl_chan st)\<rparr>"

inductive fetcher_step :: "(hash list \<Rightarrow> ('d, block list) prog) \<Rightarrow> ('s, 'd) pipeline \<Rightarrow> ('s, 'd) pipeline \<Rightarrow> bool"
  for fetch where
  fetch_chunks: "pl_fetcher st = Spawned n hs \<Longrightarrow> n \<noteq> 0 \<Longrightarrow>
    fetcher_step fetch st (st\<lparr>pl_fetcher := Fetching (chunks n hs)\<rparr>)"
| fetch_chunks_panic: "pl_fetcher st = Spawned 0 hs \<Longrightarrow> fetcher_step fetch st (fetcher_ends Died st)"
| fetch_blocks: "pl_fetcher st = Fetching (c # cs) \<Longrightarrow> fetch c (pl_daemon st) = Some (r, d) \<Longrightarrow> \<not> panics r \<Longrightarrow>
    fetcher_step fetch st (st\<lparr>pl_fetcher := Sending r cs, pl_daemon := d\<rparr>)"
| fetch_panic: "pl_fetcher st = Fetching (c # cs) \<Longrightarrow> fetch c (pl_daemon st) = Some (r, d) \<Longrightarrow> panics r \<Longrightarrow>
    fetcher_step fetch st (fetcher_ends Died (st\<lparr>pl_daemon := d\<rparr>))"
| fetch_send: "pl_fetcher st = Sending r cs \<Longrightarrow> chan_send (pl_chan st) r = Done ch \<Longrightarrow>
    fetcher_step fetch st (st\<lparr>pl_fetcher := Fetching cs, pl_chan := ch\<rparr>)"
| fetch_send_fails: "pl_fetcher st = Sending r cs \<Longrightarrow> chan_send (pl_chan st) r = Disconnected \<Longrightarrow>
    fetcher_step fetch st (fetcher_ends Died st)"
| fetch_end: "pl_fetcher st = Fetching [] \<Longrightarrow> chan_send (pl_chan st) (Ok []) = Done ch \<Longrightarrow>
    fetcher_step fetch st (fetcher_ends Finished (st\<lparr>pl_chan := ch\<rparr>))"
| fetch_end_fails: "pl_fetcher st = Fetching [] \<Longrightarrow> chan_send (pl_chan st) (Ok []) = Disconnected \<Longrightarrow>
    fetcher_step fetch st (fetcher_ends Died st)"

definition polled :: "unit res \<Rightarrow> ('s, 'd) pipeline \<Rightarrow> ('s, 'd) pipeline" where
  "polled r st = (if is_ok r then st\<lparr>pl_consumer := Receiving\<rparr> else consumer_returns r st)"

definition delivered :: "block list res \<Rightarrow> ('s, 'd) pipeline \<Rightarrow> ('s, 'd) pipeline" where
  "delivered r st =
     (case r of
        Ok batch \<Rightarrow> st\<lparr>pl_consumer := (if batch = [] then Flushing else Indexing batch)\<rparr>
      | Err e \<Rightarrow> consumer_returns (Err e) st
      | Panic p \<Rightarrow> consumer_returns (Panic p) st)"

definition stored :: "consumer \<Rightarrow> 's res \<Rightarrow> ('s, 'd) pipeline \<Rightarrow> ('s, 'd) pipeline" where
  "stored next r st =
     (case r of
        Ok s \<Rightarrow> st\<lparr>pl_consumer := next, pl_store := s\<rparr>
      | Err e \<Rightarrow> consumer_returns (Err e) st
      | Panic p \<Rightarrow> consumer_returns (Panic p) st)"

inductive consumer_step :: "deps \<Rightarrow> ('d, unit) prog \<Rightarrow> 's write_store \<Rightarrow> ('s, 'd) pipeline \<Rightarrow> ('s, 'd) pipeline \<Rightarrow> bool"
  for D poll WS where
  consume_poll: "pl_consumer st = Polling \<Longrightarrow> poll (pl_daemon st) = Some (r, d) \<Longrightarrow>
    consumer_step D poll WS st (polled r (st\<lparr>pl_daemon := d\<rparr>))"
| consume_recv: "pl_consumer st = Receiving \<Longrightarrow> chan_recv (pl_chan st) = Done (r, ch) \<Longrightarrow>
    consumer_step D poll WS st (delivered r (st\<lparr>pl_chan := ch\<rparr>))"
| consume_recv_fails: "pl_consumer st = Receiving \<Longrightarrow> chan_recv (pl_chan st) = Disconnected \<Longrightarrow>
    consumer_step D poll WS st (consumer_returns (Panic ''block fetch exited prematurely'') st)"
| consume_index: "pl_consumer st = Indexing batch \<Longrightarrow>
    consumer_step D poll WS st (stored Polling (bind_res (batch_rows D batch) (ws_write WS (pl_store st))) st)"
| consume_flush: "pl_consumer st = Flushing \<Longrightarrow>
    consumer_step D poll WS st (stored Joining (ws_flush WS (pl_store st)) st)"
| consume_join: "pl_consumer st = Joining \<Longrightarrow> pl_fetcher st = Finished \<Longrightarrow>
    consumer_step D poll WS st (consumer_returns (Ok ()) st)"
| consume_join_fails: "pl_consumer st = Joining \<Longrightarrow> pl_fetcher st = Died \<Longrightarrow>
    consumer_step D poll WS st (consumer_returns (Panic ''block fetcher failed'') st)"

definition pipeline_step :: "deps \<Rightarrow> 'd daemon_api \<Rightarrow> ('d, unit) prog \<Rightarrow> 's write_store \<Rightarrow>
    ('s, 'd) pipeline \<Rightarrow> ('s, 'd) pipeline \<Rightarrow> bool" where
  "pipeline_step D api poll WS st st' \<longleftrightarrow>
     fetcher_step (da_getblocks api) st st' \<or> consumer_step D poll WS st st'"

text \<open>Both threads have ended.\<close>

definition pipeline_over :: "('s, 'd) pipeline \<Rightarrow> bool" where
  "pipeline_over st \<longleftrightarrow> (\<exists>r. pl_consumer st = Returned r) \<and> (pl_fetcher st = Finished \<or> pl_fetcher st = Died)"

inductive_cases fetcher_stepE: "fetcher_step fetch st st'"
inductive_cases consumer_stepE: "consumer_step D poll WS st st'"

lemmas pipeline_effects = fetcher_ends_def consumer_returns_def polled_def delivered_def stored_def

section \<open>Every schedule is finite\<close>

fun fetcher_work :: "fetcher \<Rightarrow> nat" where
  "fetcher_work (Spawned n hs) = 6 * length (chunks n hs) + 6"
| "fetcher_work (Fetching cs) = 6 * length cs + 5"
| "fetcher_work (Sending r cs) = 6 * length cs + 10"
| "fetcher_work Finished = 0"
| "fetcher_work Died = 0"

fun consumer_work :: "consumer \<Rightarrow> nat" where
  "consumer_work Polling = 2"
| "consumer_work Receiving = 1"
| "consumer_work (Indexing batch) = 3"
| "consumer_work Flushing = 2"
| "consumer_work Joining = 1"
| "consumer_work (Returned r) = 0"

definition pipeline_work :: "('s, 'd) pipeline \<Rightarrow> nat" where
  "pipeline_work st =
     fetcher_work (pl_fetcher st) + 4 * length (sc_queue (pl_chan st)) + consumer_work (pl_consumer st)"

lemma fetcher_step_work: "fetcher_step fetch st st' \<Longrightarrow> pipeline_work st' < pipeline_work st"
  by (induction rule: fetcher_step.induct) (auto simp: pipeline_work_def pipeline_effects chan_simps)

lemma consumer_step_work: "consumer_step D poll WS st st' \<Longrightarrow> pipeline_work st' < pipeline_work st"
  by (induction rule: consumer_step.induct)
     (auto simp: pipeline_work_def pipeline_effects chan_simps split: res.splits)

lemma pipeline_step_work: "pipeline_step D api poll WS st st' \<Longrightarrow> pipeline_work st' < pipeline_work st"
  by (auto simp: pipeline_step_def dest: fetcher_step_work consumer_step_work)

lemma pipeline_steps_work: "(pipeline_step D api poll WS ^^ k) st st' \<Longrightarrow> k + pipeline_work st' \<le> pipeline_work st"
proof (induction k arbitrary: st')
  case (Suc k)
  then show ?case using pipeline_step_work by fastforce
qed simp

section \<open>What the threads agree on\<close>

text \<open>The fetcher \<open>f\<close> still has to deliver the batches \<open>css\<close>, and then the end of the stream unless it ended.\<close>

fun feeds :: "deps \<Rightarrow> fetcher \<Rightarrow> block list list \<Rightarrow> bool" where
  "feeds D (Spawned n hs) css \<longleftrightarrow> 0 < n \<and> chunks n hs = map (map (blk_hash D)) css"
| "feeds D (Fetching cs) css \<longleftrightarrow> cs = map (map (blk_hash D)) css"
| "feeds D (Sending r cs) css \<longleftrightarrow> (\<exists>c css'. css = c # css' \<and> r = Ok c \<and> cs = map (map (blk_hash D)) css')"
| "feeds D Finished css \<longleftrightarrow> css = []"
| "feeds D Died css \<longleftrightarrow> False"

abbreviation stream_end :: "fetcher \<Rightarrow> block list res list" where
  "stream_end f \<equiv> (if f = Finished then [Ok []] else [])"

text \<open>The batches \<open>written\<close> are in the store; what comes next, by the state of the updating thread.\<close>

definition coming :: "deps \<Rightarrow> block list list \<Rightarrow> ('s, 'd) pipeline \<Rightarrow> block list list \<Rightarrow> bool" where
  "coming D css st written \<longleftrightarrow> sc_receiver (pl_chan st) \<and>
     sc_senders (pl_chan st) = (if pl_fetcher st = Finished \<or> pl_fetcher st = Died then 1 else 2) \<and>
     (\<exists>q todo. css = written @ q @ todo \<and> feeds D (pl_fetcher st) todo \<and>
        sc_queue (pl_chan st) = map Ok q @ stream_end (pl_fetcher st))"

lemma comingI:
  assumes "css = written @ q @ todo" and "feeds D (pl_fetcher st) todo"
    and "sc_queue (pl_chan st) = map Ok q @ stream_end (pl_fetcher st)" and "sc_receiver (pl_chan st)"
    and "sc_senders (pl_chan st) = (if pl_fetcher st = Finished \<or> pl_fetcher st = Died then 1 else 2)"
  shows "coming D css st written"
  unfolding coming_def using assms by blast

definition agreed :: "deps \<Rightarrow> bool \<Rightarrow> block list list \<Rightarrow> ('s, 'd) pipeline \<Rightarrow> block list list \<Rightarrow> bool" where
  "agreed D quiet css st written \<longleftrightarrow>
     (case pl_consumer st of
        Polling \<Rightarrow> coming D css st written
      | Receiving \<Rightarrow> coming D css st written
      | Indexing batch \<Rightarrow> coming D css st (written @ [batch])
      | Flushing \<Rightarrow> pl_fetcher st = Finished \<and> written = css
      | Joining \<Rightarrow> pl_fetcher st = Finished \<and> written = css
      | Returned r \<Rightarrow> \<not> sc_receiver (pl_chan st) \<and> \<not> panics r \<and> (quiet \<longrightarrow> is_ok r) \<and> prefix written css \<and>
          (is_ok r \<longrightarrow> pl_fetcher st = Finished \<and> written = css) \<and>
          (pl_fetcher st = Died \<or> (\<exists>todo. feeds D (pl_fetcher st) todo \<and> set todo \<subseteq> set css)))"

context indexer
begin

abbreviation fetch_fits :: "block list list \<Rightarrow> block list \<Rightarrow> bool" where
  "fetch_fits css bs \<equiv> \<forall>c \<in> set css. c \<noteq> [] \<and> set c \<subseteq> set bs \<and> length c \<le> limit"

definition pipeline_inv :: "block list \<Rightarrow> (bytes, bytes) btree \<Rightarrow> block list list \<Rightarrow> ('s, 'd) pipeline \<Rightarrow> bool" where
  "pipeline_inv bs m css st \<longleftrightarrow> fetch_fits css bs \<and> ready (pl_daemon st) \<and> node (pl_daemon st) = bs \<and> inv (pl_store st) \<and>
     chan_fits (pl_chan st) \<and> sc_bound (pl_chan st) = Some 1 \<and>
     (\<exists>written. agreed D quiet css st written \<and> view (pl_store st) = put_rows m (concat (map (indexed_rows D) (concat written))))"

lemma pipeline_inv_init:
  assumes "ready d" and "node d = bs" and "inv s" and "0 < n" and "n \<le> limit" and "set new \<subseteq> set bs"
  shows "pipeline_inv bs (view s) (chunks n new) (pipeline_init n (map (blk_hash D) new) s d)"
proof -
  have "fetch_fits (chunks n new) bs"
    using chunks_nonempty [of _ n new] chunks_length [of _ n new] concat_chunks [OF assms(4), of new] assms(5,6)
    by (metis UN_upper le_trans set_concat subset_trans)
  moreover have "coming D (chunks n new) (pipeline_init n (map (blk_hash D) new) s d) []"
    using assms(4) by (auto simp: coming_def pipeline_init_def chan_simps chunks_map)
  ultimately show ?thesis using assms
    by (auto simp: pipeline_inv_def pipeline_init_def agreed_def chan_simps chan_fits_def intro!: exI [of _ "[]"])
qed

lemma fetched:
  assumes "ready d" and "node d = bs" and "feeds D (Fetching (c # cs)) css" and "fetch_fits css bs"
    and "da_getblocks api c d = Some (r, d')"
  shows "ready d' \<and> node d' = bs \<and> feeds D (Sending r cs) css \<and> \<not> panics r"
proof -
  obtain b css' where css: "css = b # css'" "c = map (blk_hash D) b" "cs = map (map (blk_hash D)) css'"
    using assms(3) by auto
  with blocks [OF assms(1), of b] assms show ?thesis by auto
qed

lemma coming_fetched:
  assumes "coming D css st written" and "pl_fetcher st = Fetching (c # cs)" and "fetch_fits css bs"
    and "ready (pl_daemon st)" and "node (pl_daemon st) = bs" and "da_getblocks api c (pl_daemon st) = Some (r, d')"
  shows "ready d' \<and> node d' = bs \<and> \<not> panics r \<and> coming D css (st\<lparr>pl_fetcher := Sending r cs, pl_daemon := d'\<rparr>) written"
proof -
  obtain q todo where q: "css = written @ q @ todo" "feeds D (Fetching (c # cs)) todo" "sc_queue (pl_chan st) = map Ok q"
    "sc_receiver (pl_chan st)" "sc_senders (pl_chan st) = 2"
    using assms(1,2) by (auto simp: coming_def)
  have f: "ready d' \<and> node d' = bs \<and> feeds D (Sending r cs) todo \<and> \<not> panics r"
    using assms(3) q(1) by (intro fetched [OF assms(4,5) q(2) _ assms(6)]) simp
  with q have "coming D css (st\<lparr>pl_fetcher := Sending r cs, pl_daemon := d'\<rparr>) written"
    by (intro comingI [of _ _ q todo]) simp_all
  with f show ?thesis by blast
qed

lemma coming_step:
  assumes "fetcher_step (da_getblocks api) st st'" and "coming D css st written" and "fetch_fits css bs"
    and "ready (pl_daemon st)" and "node (pl_daemon st) = bs" and "sc_bound (pl_chan st) = Some 1"
  shows "coming D css st' written \<and> ready (pl_daemon st') \<and> node (pl_daemon st') = bs"
  using assms(1)
proof (cases rule: fetcher_step.cases)
  case (fetch_blocks c cs r d)
  with coming_fetched [OF assms(2) _ assms(3-5), of c cs r d] show ?thesis by simp
next
  case (fetch_panic c cs r d)
  with coming_fetched [OF assms(2) _ assms(3-5), of c cs r d] show ?thesis by simp
next
  case (fetch_send r cs ch)
  then obtain q c css' where q: "css = written @ q @ c # css'" "r = Ok c" "cs = map (map (blk_hash D)) css'"
    "sc_queue (pl_chan st) = map Ok q" "sc_senders (pl_chan st) = 2"
    using assms(2) by (auto simp: coming_def)
  with fetch_send assms(4,5) show ?thesis
    by (auto simp: chan_simps intro!: comingI [of _ _ "q @ [c]" css'])
qed (use assms in \<open>auto simp: coming_def chan_simps pipeline_effects\<close>)

lemma fetcher_step_keeps:
  assumes "fetcher_step fetch st st'"
  shows "pl_store st' = pl_store st \<and> pl_consumer st' = pl_consumer st \<and> sc_bound (pl_chan st') = sc_bound (pl_chan st) \<and>
    sc_receiver (pl_chan st') = sc_receiver (pl_chan st) \<and> (chan_fits (pl_chan st) \<longrightarrow> chan_fits (pl_chan st'))"
  using assms
  by (cases rule: fetcher_step.cases)
     (auto simp: pipeline_effects chan_simps chan_fits_def chan_full_def split: option.splits)

text \<open>After the updating thread has returned the fetcher only runs until its next send fails.\<close>

lemma abandoned_step:
  assumes "fetcher_step (da_getblocks api) st st'" and "feeds D (pl_fetcher st) todo" and "fetch_fits todo bs"
    and "ready (pl_daemon st)" and "node (pl_daemon st) = bs" and "\<not> sc_receiver (pl_chan st)"
  shows "ready (pl_daemon st') \<and> node (pl_daemon st') = bs \<and> (pl_fetcher st' = Died \<or> feeds D (pl_fetcher st') todo) \<and>
    pl_fetcher st \<noteq> Finished"
  using assms(1)
proof (cases rule: fetcher_step.cases)
  case (fetch_blocks c cs r d)
  with fetched [OF assms(4,5) _ assms(3), of c cs r d] assms(2) show ?thesis by simp
next
  case (fetch_panic c cs r d)
  with fetched [OF assms(4,5) _ assms(3), of c cs r d] assms(2) show ?thesis by simp
qed (use assms in \<open>auto simp: chan_simps pipeline_effects\<close>)

lemma ended_no_step: "pl_fetcher st = Finished \<or> pl_fetcher st = Died \<Longrightarrow> \<not> fetcher_step fetch st st'"
  by (auto elim: fetcher_stepE)

lemma agreed_fetcher_step:
  assumes "fetcher_step (da_getblocks api) st st'" and "agreed D quiet css st written" and "fetch_fits css bs"
    and "ready (pl_daemon st)" and "node (pl_daemon st) = bs" and "sc_bound (pl_chan st) = Some 1"
  shows "agreed D quiet css st' written \<and> ready (pl_daemon st') \<and> node (pl_daemon st') = bs"
proof (cases "pl_consumer st")
  case (Returned r)
  then have a: "\<not> sc_receiver (pl_chan st)" "pl_fetcher st \<noteq> Died"
    and "\<exists>todo. feeds D (pl_fetcher st) todo \<and> set todo \<subseteq> set css"
    using assms(2) ended_no_step assms(1) by (auto simp: agreed_def)
  then obtain todo where todo: "feeds D (pl_fetcher st) todo" "set todo \<subseteq> set css" by blast
  with assms(3) have fit: "fetch_fits todo bs" by blast
  show ?thesis
    using abandoned_step [OF assms(1) todo(1) fit assms(4,5) a(1)] fetcher_step_keeps [OF assms(1)] todo assms(2) Returned
    by (auto simp: agreed_def)
qed (use assms coming_step [OF assms(1) _ assms(3-6)] fetcher_step_keeps [OF assms(1)] ended_no_step [of st] in
    \<open>auto simp: agreed_def\<close>)

lemma coming_received:
  assumes "coming D css st written" and "chan_recv (pl_chan st) = Done (r, ch)"
  shows "(\<exists>c. r = Ok c \<and> c \<in> set css \<and> coming D css (st\<lparr>pl_chan := ch\<rparr>) (written @ [c])) \<or>
         r = Ok [] \<and> pl_fetcher st = Finished \<and> written = css"
proof -
  from assms(1) obtain q todo where q: "css = written @ q @ todo" "feeds D (pl_fetcher st) todo"
    "sc_queue (pl_chan st) = map Ok q @ stream_end (pl_fetcher st)" "sc_receiver (pl_chan st)"
    "sc_senders (pl_chan st) = (if pl_fetcher st = Finished \<or> pl_fetcher st = Died then 1 else 2)"
    by (auto simp: coming_def)
  show ?thesis
  proof (cases q)
    case Nil
    with q assms(2) show ?thesis by (auto simp: chan_simps split: if_splits)
  next
    case (Cons c q')
    with q assms(2) have "coming D css (st\<lparr>pl_chan := ch\<rparr>) (written @ [c])"
      by (intro comingI [of _ _ q' todo]) (auto simp: chan_simps)
    with Cons q assms(2) show ?thesis by (auto simp: chan_simps)
  qed
qed

lemma coming_not_disconnected: "coming D css st written \<Longrightarrow> chan_recv (pl_chan st) \<noteq> Disconnected"
  by (auto simp: coming_def chan_simps split: if_splits)

lemma coming_left: "coming D css st written \<Longrightarrow>
    prefix written css \<and> (\<exists>todo. feeds D (pl_fetcher st) todo \<and> set todo \<subseteq> set css)"
  unfolding coming_def by fastforce

lemma consumer_step_keeps:
  assumes "consumer_step D poll WS st st'"
  shows "sc_bound (pl_chan st') = sc_bound (pl_chan st) \<and> (chan_fits (pl_chan st) \<longrightarrow> chan_fits (pl_chan st'))"
  using assms
  by (cases rule: consumer_step.cases)
     (auto simp: pipeline_effects chan_simps chan_fits_def split: option.splits res.splits)

lemma coming_update [simp]:
  "coming D css (st\<lparr>pl_consumer := x\<rparr>) written = coming D css st written"
  "coming D css (st\<lparr>pl_store := s\<rparr>) written = coming D css st written"
  "coming D css (st\<lparr>pl_daemon := d\<rparr>) written = coming D css st written"
  by (simp_all add: coming_def)

lemma agreed_update [simp]:
  "agreed D quiet css (st\<lparr>pl_store := s\<rparr>) written = agreed D quiet css st written"
  "agreed D quiet css (st\<lparr>pl_daemon := d\<rparr>) written = agreed D quiet css st written"
  by (cases "pl_consumer st"; simp add: agreed_def)+

lemma coming_polled:
  assumes "coming D css st written" and "\<not> panics r" and "quiet \<longrightarrow> is_ok r"
  shows "agreed D quiet css (polled r st) written"
  using coming_left [OF assms(1)] assms by (auto simp: agreed_def polled_def consumer_returns_def chan_simps)

lemma coming_delivered:
  assumes "coming D css st written" and "chan_recv (pl_chan st) = Done (r, ch)" and "fetch_fits css bs"
  shows "agreed D quiet css (delivered r (st\<lparr>pl_chan := ch\<rparr>)) written"
proof -
  from coming_received [OF assms(1,2)] show ?thesis
  proof (elim disjE exE conjE)
    fix c assume c: "r = Ok c" "c \<in> set css" "coming D css (st\<lparr>pl_chan := ch\<rparr>) (written @ [c])"
    then have "c \<noteq> []" using assms(3) by blast
    with c show ?thesis by (simp add: agreed_def delivered_def)
  qed (simp add: agreed_def delivered_def)
qed

lemma consumer_step_agreed:
  assumes "consumer_step D poll WS st st'" and "agreed D quiet css st written" and "fetch_fits css bs"
    and "ready (pl_daemon st)" and "node (pl_daemon st) = bs" and "inv (pl_store st)"
    and "view (pl_store st) = put_rows m (concat (map (indexed_rows D) (concat written)))"
  shows "ready (pl_daemon st') \<and> node (pl_daemon st') = bs \<and> inv (pl_store st') \<and>
    (\<exists>written'. agreed D quiet css st' written' \<and>
       view (pl_store st') = put_rows m (concat (map (indexed_rows D) (concat written'))))"
  using assms(1)
proof (cases rule: consumer_step.cases)
  case (consume_poll r d)
  then have c: "coming D css (st\<lparr>pl_daemon := d\<rparr>) written" using assms(2) by (simp add: agreed_def)
  from poll [OF assms(4)] consume_poll(3) have p: "\<not> panics r" "quiet \<longrightarrow> is_ok r" "ready d" "node d = bs"
    using assms(5) by auto
  with coming_polled [OF c p(1,2)] show ?thesis unfolding consume_poll(1) using assms(6,7)
    by (intro conjI exI [of _ written]) (auto simp: polled_def consumer_returns_def)
next
  case (consume_recv r ch)
  then have c: "coming D css st written" using assms(2) by (simp add: agreed_def)
  from coming_delivered [OF c consume_recv(3) assms(3)] show ?thesis unfolding consume_recv(1) using assms(4-7)
    by (intro conjI exI [of _ written]) (auto simp: delivered_def consumer_returns_def split: res.splits)
next
  case consume_recv_fails
  then show ?thesis using assms(2) coming_not_disconnected [of css st written] by (simp add: agreed_def)
next
  case (consume_index batch)
  then have c: "coming D css st (written @ [batch])" using assms(2) by (simp add: agreed_def)
  from write_view [OF assms(6), of "concat (map (indexed_rows D) batch)"] obtain s where
    s: "bind_res (batch_rows D batch) (ws_write WS (pl_store st)) = Ok s" "inv s"
      "view s = put_rows (view (pl_store st)) (concat (map (indexed_rows D) batch))"
    by (auto simp: batch_rows_eq [OF codec [OF assms(4)]])
  then show ?thesis unfolding consume_index(1) using c assms(4,5,7)
    by (intro conjI exI [of _ "written @ [batch]"]) (auto simp: stored_def agreed_def store_simps)
next
  case consume_flush
  from flush_view [OF assms(6)] obtain s where
    "ws_flush WS (pl_store st) = Ok s" "inv s" "view s = view (pl_store st)" by blast
  with consume_flush show ?thesis using assms(2,4,5,7)
    by (intro conjI exI [of _ written]) (auto simp: stored_def agreed_def)
next
  case consume_join
  then show ?thesis using assms(2,4-7)
    by (intro conjI exI [of _ written]) (auto simp: consumer_returns_def agreed_def chan_simps)
next
  case consume_join_fails
  then show ?thesis using assms(2) by (simp add: agreed_def)
qed

lemma pipeline_inv_step:
  assumes "pipeline_inv bs m css st" and "pipeline_step D api poll WS st st'"
  shows "pipeline_inv bs m css st'"
proof -
  from assms(1) obtain written where w: "agreed D quiet css st written" "fetch_fits css bs" "ready (pl_daemon st)"
    "node (pl_daemon st) = bs" "inv (pl_store st)" "chan_fits (pl_chan st)" "sc_bound (pl_chan st) = Some 1"
    "view (pl_store st) = put_rows m (concat (map (indexed_rows D) (concat written)))"
    unfolding pipeline_inv_def by blast
  from assms(2) consider "fetcher_step (da_getblocks api) st st'" | "consumer_step D poll WS st st'"
    by (auto simp: pipeline_step_def)
  then show ?thesis
  proof cases
    case 1
    from agreed_fetcher_step [OF 1 w(1-4,7)] fetcher_step_keeps [OF 1] w(2,5-8) show ?thesis
      unfolding pipeline_inv_def by metis
  next
    case 2
    from consumer_step_agreed [OF 2 w(1-5,8)] consumer_step_keeps [OF 2] w(2,6,7) show ?thesis
      unfolding pipeline_inv_def by auto
  qed
qed

lemma pipeline_inv_reach:
  assumes "(pipeline_step D api poll WS)\<^sup>*\<^sup>* st st'" and "pipeline_inv bs m css st"
  shows "pipeline_inv bs m css st'"
  using assms by (induction rule: rtranclp_induct) (auto intro: pipeline_inv_step)

text \<open>The fetcher is never stuck when its channel is empty or its receiver gone.\<close>

lemma fetcher_progress:
  assumes "feeds D (pl_fetcher st) todo" and "fetch_fits todo bs" and "ready (pl_daemon st)" and "node (pl_daemon st) = bs"
    and "\<not> sc_receiver (pl_chan st) \<or> \<not> chan_full (pl_chan st)" and "pl_fetcher st \<noteq> Finished"
  shows "\<exists>st'. fetcher_step (da_getblocks api) st st'"
proof (cases "pl_fetcher st")
  case (Spawned n hs)
  then show ?thesis using assms(1) fetch_chunks [of st n hs] by auto
next
  case (Fetching cs)
  show ?thesis
  proof (cases cs)
    case Nil
    with Fetching assms(5) fetch_end [of st _ "da_getblocks api"] fetch_end_fails [of st "da_getblocks api"] show ?thesis
      by (cases "sc_receiver (pl_chan st)") (auto simp: chan_simps)
  next
    case (Cons c cs')
    with Fetching assms(1) obtain b todo' where "c = map (blk_hash D) b" "todo = b # todo'" by auto
    with blocks [OF assms(3), of b] assms(2,4) obtain d where
      "da_getblocks api c (pl_daemon st) = Some (Ok b, d)" by auto
    with fetch_blocks [of st c cs' "da_getblocks api"] Fetching Cons show ?thesis by auto
  qed
next
  case (Sending r cs)
  with assms(5) fetch_send [of st r cs _ "da_getblocks api"] fetch_send_fails [of st r cs "da_getblocks api"] show ?thesis
    by (cases "sc_receiver (pl_chan st)") (auto simp: chan_simps)
qed (use assms in auto)

lemma coming_progress:
  assumes "coming D css st written" and "pl_consumer st = Receiving" and "fetch_fits css bs" and "ready (pl_daemon st)"
    and "node (pl_daemon st) = bs" and "sc_bound (pl_chan st) = Some 1"
  shows "\<exists>st'. pipeline_step D api poll WS st st'"
proof (cases "sc_queue (pl_chan st)")
  case Nil
  with assms(1) obtain todo where todo: "feeds D (pl_fetcher st) todo" "set todo \<subseteq> set css" "pl_fetcher st \<noteq> Finished"
    by (auto simp: coming_def split: if_splits)
  with assms(3) have "fetch_fits todo bs" by blast
  with fetcher_progress [OF todo(1) this assms(4,5)] todo(3) Nil assms(6) show ?thesis
    by (auto simp: pipeline_step_def chan_full_def)
next
  case (Cons r rs)
  then have "chan_recv (pl_chan st) = Done (r, pl_chan st\<lparr>sc_queue := rs\<rparr>)" by (simp add: chan_simps)
  with consume_recv [OF assms(2)] show ?thesis unfolding pipeline_step_def by blast
qed

lemma pipeline_progress:
  assumes "pipeline_inv bs m css st"
  shows "pipeline_over st \<or> (\<exists>st'. pipeline_step D api poll WS st st')"
proof -
  from assms obtain written where w: "agreed D quiet css st written" "fetch_fits css bs" "ready (pl_daemon st)"
    "node (pl_daemon st) = bs" "sc_bound (pl_chan st) = Some 1"
    unfolding pipeline_inv_def by blast
  show ?thesis
  proof (cases "pl_consumer st")
    case Polling
    with poll [OF w(3)] consume_poll [of st poll] show ?thesis unfolding pipeline_step_def by metis
  next
    case Receiving
    with w coming_progress [OF _ Receiving w(2-5)] show ?thesis by (auto simp: agreed_def)
  next
    case (Returned r)
    with w(1) consider "pl_fetcher st = Died" | todo where "feeds D (pl_fetcher st) todo" "set todo \<subseteq> set css"
        "\<not> sc_receiver (pl_chan st)"
      by (auto simp: agreed_def)
    then show ?thesis
    proof cases
      case 2
      with w(2) have "fetch_fits todo bs" by blast
      with fetcher_progress [OF 2(1) this w(3,4)] 2(3) Returned show ?thesis
        by (auto simp: pipeline_over_def pipeline_step_def)
    qed (simp add: pipeline_over_def Returned)
  qed (use w(1) in \<open>auto simp: agreed_def pipeline_step_def intro: consumer_step.intros\<close>)
qed

lemma pipeline_outcome:
  assumes "pipeline_inv bs m (chunks n new) st" and "pl_consumer st = Returned r" and "0 < n"
  shows "\<exists>j. view (pl_store st) = put_rows m (concat (map (indexed_rows D) (take j new))) \<and> \<not> panics r \<and>
             (is_ok r \<longrightarrow> length new \<le> j) \<and> (quiet \<longrightarrow> is_ok r)"
proof -
  from assms(1,2) obtain written where w: "prefix written (chunks n new)" "\<not> panics r" "quiet \<longrightarrow> is_ok r"
    "is_ok r \<longrightarrow> written = chunks n new"
    "view (pl_store st) = put_rows m (concat (map (indexed_rows D) (concat written)))"
    by (auto simp: pipeline_inv_def agreed_def)
  from w(1) obtain rest where "chunks n new = written @ rest" by (auto simp: prefix_def)
  with concat_chunks [OF assms(3), of new] have new: "new = concat written @ concat rest" by simp
  then have "take (length (concat written)) new = concat written" by simp
  moreover have "is_ok r \<longrightarrow> length new \<le> length (concat written)"
    using w(4) concat_chunks [OF assms(3), of new] by simp
  ultimately show ?thesis using w by metis
qed

end

section \<open>The outcome of every schedule\<close>

abbreviation update_pipeline :: "deps \<Rightarrow> 'e net \<Rightarrow> 'r rocksdb \<Rightarrow> ('r dbstore, 'e daemon) pipeline \<Rightarrow> ('r dbstore, 'e daemon) pipeline \<Rightarrow> bool" where
  "update_pipeline D N R \<equiv> pipeline_step D (daemon_methods D N) (daemon_poll N) (db_write_store R)"

lemma update_pipeline_inv:
  assumes "bitcoind D N S" and "daemon_up S d" and "rocksdb_ok R c" and "0 < n" and "n \<le> sv_limit S"
    and "set new \<subseteq> set (nd_blocks (node_of S d))"
    and "(update_pipeline D N R)\<^sup>*\<^sup>* (pipeline_init n (map (blk_hash D) new) s d) st"
  shows "index_db.pipeline_inv c R D S N (node_of S d) (nd_blocks (node_of S d)) (c (db_handle s)) (chunks n new) st"
  using index_db.pipeline_inv_reach [OF assms(7) index_db.pipeline_inv_init [OF _ _ assms(3-5)]] assms(1,2,6) by blast

text \<open>
  C7: Fetching in a thread of its own changes nothing. Against a node that answers as documented, under
  every schedule of the fetcher and the updating thread, the loop of \<open>update\<close> never panics and fails only
  by a signal; the database then holds what it held before and the rows of a leading part of the new
  blocks, of all of them if the loop succeeds. Without signals these are the contents that fetching
  and indexing the batches in turns leaves.
\<close>

theorem fetch_pipeline_exact:
  assumes "bitcoind D N S" and "daemon_up S d" and "rocksdb_ok R c" and "0 < n" and "n \<le> sv_limit S"
    and "set new \<subseteq> set (nd_blocks (node_of S d))"
    and "(update_pipeline D N R)\<^sup>*\<^sup>* (pipeline_init n (map (blk_hash D) new) s d) st" and "pl_consumer st = Returned r"
  shows "\<not> panics r \<and> (no_signal N S \<longrightarrow> is_ok r) \<and>
    (\<exists>j. c (db_handle (pl_store st)) = put_rows (c (db_handle s)) (concat (map (indexed_rows D) (take j new))) \<and>
         (is_ok r \<longrightarrow> length new \<le> j)) \<and>
    (no_signal N S \<longrightarrow>
       (\<exists>seq. index_batches D (daemon_methods D N) (daemon_poll N) (db_write_store R) (chunks n (map (blk_hash D) new))
                \<lparr>is_index = ix, is_store = s, is_daemon = d\<rparr> = Some (r, seq) \<and>
              c (db_handle (is_store seq)) = c (db_handle (pl_store st))))"
proof -
  obtain j where j: "c (db_handle (pl_store st)) = put_rows (c (db_handle s)) (concat (map (indexed_rows D) (take j new)))"
    "\<not> panics r" "is_ok r \<longrightarrow> length new \<le> j" "no_signal N S \<longrightarrow> is_ok r"
    using index_db.pipeline_outcome [OF update_pipeline_inv [OF assms(1-7)] assms(8,4)] by blast
  have "index_db.live R c S D N (node_of S d) \<lparr>is_index = ix, is_store = s, is_daemon = d\<rparr> (nd_blocks (node_of S d))"
    unfolding index_db.live_def using assms(1-3) by simp
  from index_db.index_new_blocks [OF this assms(4,6,5)] obtain r' seq j' where seq:
    "index_batches D (daemon_methods D N) (daemon_poll N) (db_write_store R) (chunks n (map (blk_hash D) new))
       \<lparr>is_index = ix, is_store = s, is_daemon = d\<rparr> = Some (r', seq)"
    "is_ok r' \<longrightarrow> length new \<le> j'" "no_signal N S \<longrightarrow> is_ok r'"
    "c (db_handle (is_store seq)) = put_rows (c (db_handle s)) (concat (map (indexed_rows D) (take j' new)))" by auto
  have "no_signal N S \<Longrightarrow> r' = r \<and> c (db_handle (is_store seq)) = c (db_handle (pl_store st))"
    using j seq(2-4) by (cases r; cases r') auto
  with j seq(1) show ?thesis by blast
qed

lemma pipeline_completes:
  assumes "\<And>st'. step\<^sup>*\<^sup>* st st' \<Longrightarrow> pipeline_over st' \<or> (\<exists>st''. step st' st'')"
    and "\<And>st' st''. step st' st'' \<Longrightarrow> pipeline_work st'' < pipeline_work st'"
  shows "\<exists>st'. step\<^sup>*\<^sup>* st st' \<and> pipeline_over st'"
  using assms
proof (induction "pipeline_work st" arbitrary: st rule: less_induct)
  case less
  show ?case
  proof (cases "pipeline_over st")
    case False
    with less.prems(1) obtain st1 where st1: "step st st1" by blast
    have "\<exists>st'. step\<^sup>*\<^sup>* st1 st' \<and> pipeline_over st'"
      by (rule less.hyps [OF less.prems(2) [OF st1]])
         (use less.prems converse_rtranclp_into_rtranclp [of step st st1, OF st1] in blast)+
    with converse_rtranclp_into_rtranclp [of step st st1, OF st1] show ?thesis by blast
  qed blast
qed

lemma update_pipeline_completes:
  assumes "bitcoind D N S" and "daemon_up S d" and "rocksdb_ok R c" and "0 < n" and "n \<le> sv_limit S"
    and "set new \<subseteq> set (nd_blocks (node_of S d))"
    and "(update_pipeline D N R)\<^sup>*\<^sup>* (pipeline_init n (map (blk_hash D) new) s d) st"
  shows "\<exists>st'. (update_pipeline D N R)\<^sup>*\<^sup>* st st' \<and> pipeline_over st'"
proof (rule pipeline_completes)
  fix st' assume "(update_pipeline D N R)\<^sup>*\<^sup>* st st'"
  with assms(7) have "(update_pipeline D N R)\<^sup>*\<^sup>* (pipeline_init n (map (blk_hash D) new) s d) st'" by auto
  from index_db.pipeline_progress [OF update_pipeline_inv [OF assms(1-6) this]]
  show "pipeline_over st' \<or> (\<exists>st''. update_pipeline D N R st' st'')" .
qed (rule pipeline_step_work)

lemma ex_pipeline:
  "0 < (1 :: nat)" "1 \<le> sv_limit ex_server" "set ex_blocks \<subseteq> set (nd_blocks (node_of ex_server ex_daemon))"
  using ex_daemon_up by (simp_all add: ex_server_simps ex_node_def)

theorem fetch_pipeline_exact_witness:
  "\<exists>st. (update_pipeline ex_deps ex_net mem_rocksdb)\<^sup>*\<^sup>*
          (pipeline_init 1 (map (blk_hash ex_deps) ex_blocks) mem_store ex_daemon) st \<and> pl_consumer st = Returned (Ok ()) \<and>
        mem_contents (db_handle (pl_store st)) =
          put_rows (mem_contents (db_handle mem_store)) (concat (map (indexed_rows ex_deps) ex_blocks))"
proof -
  obtain st r where st: "(update_pipeline ex_deps ex_net mem_rocksdb)\<^sup>*\<^sup>*
      (pipeline_init 1 (map (blk_hash ex_deps) ex_blocks) mem_store ex_daemon) st" "pl_consumer st = Returned r"
    using update_pipeline_completes [OF bitcoind_ex ex_daemon_up(1) mem_rocksdb_ok ex_pipeline rtranclp.rtrancl_refl]
    unfolding pipeline_over_def by blast
  from fetch_pipeline_exact [OF bitcoind_ex ex_daemon_up(1) mem_rocksdb_ok ex_pipeline st,
      where ix = "\<lparr>ix_headers = hl_empty, ix_batch_size = 1\<rparr>"] no_signal_ex
  have "is_ok r" and "mem_contents (db_handle (pl_store st)) =
      put_rows (mem_contents (db_handle mem_store)) (concat (map (indexed_rows ex_deps) ex_blocks))" by auto
  with st show ?thesis by (cases r) auto
qed

text \<open>
  C11: The two threads of \<open>update\<close> always come to an end. Whatever the daemon and the store do, no schedule
  has more than six steps for each batch and eight more; and against a node that answers as documented
  no reachable state is stuck before both threads have ended, and the channel holds at most one result.
\<close>

theorem fetch_pipeline_ends:
  assumes "bitcoind D N S" and "daemon_up S d" and "rocksdb_ok R c" and "0 < n" and "n \<le> sv_limit S"
    and "set new \<subseteq> set (nd_blocks (node_of S d))"
    and "(update_pipeline D N R ^^ k) (pipeline_init n (map (blk_hash D) new) s d) st"
  shows "k \<le> 6 * length (chunks n new) + 8 \<and> length (sc_queue (pl_chan st)) \<le> 1 \<and>
    (pipeline_over st \<or> (\<exists>st'. update_pipeline D N R st st')) \<and>
    (\<exists>st'. (update_pipeline D N R)\<^sup>*\<^sup>* st st' \<and> pipeline_over st')"
proof -
  have reach: "(update_pipeline D N R)\<^sup>*\<^sup>* (pipeline_init n (map (blk_hash D) new) s d) st"
    using relpowp_imp_rtranclp [OF assms(7)] .
  note inv = update_pipeline_inv [OF assms(1-6) reach]
  have "k \<le> 6 * length (chunks n new) + 8"
    using pipeline_steps_work [OF assms(7)] by (simp add: pipeline_work_def pipeline_init_def chan_simps chunks_map)
  moreover have "length (sc_queue (pl_chan st)) \<le> 1"
    using inv by (auto simp: index_db.pipeline_inv_def chan_fits_def)
  ultimately show ?thesis
    using index_db.pipeline_progress [OF inv] update_pipeline_completes [OF assms(1-6) reach] by blast
qed

theorem fetch_pipeline_ends_witness:
  "\<exists>st'. (update_pipeline ex_deps ex_net mem_rocksdb)\<^sup>*\<^sup>*
          (pipeline_init 1 (map (blk_hash ex_deps) ex_blocks) mem_store ex_daemon) st' \<and> pipeline_over st'"
  using fetch_pipeline_ends [OF bitcoind_ex ex_daemon_up(1) mem_rocksdb_ok ex_pipeline, of 0 mem_store] by simp

section \<open>A dead fetcher\<close>

text \<open>Once the fetcher is dead and its channel empty, the updating thread polls and then waits forever.\<close>

definition abandoned :: "('s, 'd) pipeline \<Rightarrow> bool" where
  "abandoned st \<longleftrightarrow> pl_fetcher st = Died \<and> sc_queue (pl_chan st) = [] \<and> 0 < sc_senders (pl_chan st) \<and>
     (pl_consumer st = Polling \<or> pl_consumer st = Receiving)"

lemma abandoned_receiving: "abandoned st \<Longrightarrow> pl_consumer st = Receiving \<Longrightarrow> \<not> pipeline_step D api poll WS st st'"
  by (auto simp: abandoned_def pipeline_step_def chan_simps elim!: fetcher_stepE consumer_stepE)

lemma abandoned_polling:
  assumes "abandoned st" and "pl_consumer st = Polling" and "\<forall>d. \<exists>d'. poll d = Some (Ok (), d')"
  shows "\<exists>d'. \<forall>st'. pipeline_step D api poll WS st st' \<longleftrightarrow> st' = st\<lparr>pl_daemon := d', pl_consumer := Receiving\<rparr>"
proof -
  obtain d' where d': "poll (pl_daemon st) = Some (Ok (), d')" using assms(3) by blast
  have "pipeline_step D api poll WS st (st\<lparr>pl_daemon := d', pl_consumer := Receiving\<rparr>)"
    using consume_poll [of st poll, OF assms(2) d'] by (auto simp: pipeline_step_def polled_def)
  with assms(1,2) d' show ?thesis
    by (intro exI [of _ d'])
       (auto simp: abandoned_def pipeline_step_def polled_def elim!: fetcher_stepE consumer_stepE)
qed

lemma abandoned_step_stays:
  assumes "abandoned st" and "pipeline_step D api poll WS st st'" and "\<forall>d. \<exists>d'. poll d = Some (Ok (), d')"
  shows "abandoned st'"
proof (cases "pl_consumer st = Polling")
  case True
  from abandoned_polling [OF assms(1) True assms(3), of D api WS] assms(1,2) show ?thesis
    by (auto simp: abandoned_def)
next
  case False
  with assms(1,2) abandoned_receiving show ?thesis by (metis abandoned_def)
qed

lemma abandoned_gets_stuck:
  assumes "abandoned st" and "\<forall>d. \<exists>d'. poll d = Some (Ok (), d')"
  shows "\<exists>st'. (pipeline_step D api poll WS)\<^sup>*\<^sup>* st st' \<and> pl_consumer st' = Receiving \<and>
    (\<forall>st''. \<not> pipeline_step D api poll WS st' st'')"
proof (cases "pl_consumer st = Polling")
  case True
  from abandoned_polling [OF assms(1) True assms(2)] obtain d' where
    "\<forall>st'. pipeline_step D api poll WS st st' \<longleftrightarrow> st' = st\<lparr>pl_daemon := d', pl_consumer := Receiving\<rparr>" by blast
  then have step: "pipeline_step D api poll WS st (st\<lparr>pl_daemon := d', pl_consumer := Receiving\<rparr>)" by blast
  have "abandoned (st\<lparr>pl_daemon := d', pl_consumer := Receiving\<rparr>)" by (rule abandoned_step_stays [OF assms(1) step assms(2)])
  from abandoned_receiving [OF this] step show ?thesis
    by (intro exI [of _ "st\<lparr>pl_daemon := d', pl_consumer := Receiving\<rparr>"]) auto
next
  case False
  with assms(1) abandoned_receiving show ?thesis by (metis abandoned_def rtranclp.rtrancl_refl)
qed

text \<open>The channel of \<open>update\<close> has a sender as long as \<open>update\<close> runs: its own.\<close>

definition own_sender :: "('s, 'd) pipeline \<Rightarrow> bool" where
  "own_sender st \<longleftrightarrow> (\<forall>r. pl_consumer st \<noteq> Returned r) \<longrightarrow>
     sc_senders (pl_chan st) = (if pl_fetcher st = Finished \<or> pl_fetcher st = Died then 1 else 2)"

lemma own_sender_step: "pipeline_step D api poll WS st st' \<Longrightarrow> own_sender st \<Longrightarrow> own_sender st'"
  unfolding pipeline_step_def
  by (elim disjE fetcher_stepE consumer_stepE) (auto simp: own_sender_def pipeline_effects chan_simps split: res.splits)

lemma own_sender_reach: "(pipeline_step D api poll WS)\<^sup>*\<^sup>* (pipeline_init n hs s d) st \<Longrightarrow> own_sender st"
proof (induction rule: rtranclp_induct)
  case base
  show ?case by (simp add: own_sender_def pipeline_init_def chan_simps)
qed (rule own_sender_step)

text \<open>
  C31: If the fetcher thread panics, \<open>update\<close> hangs. The updating thread keeps a sender of the channel, so its
  receive does not fail when the fetcher is gone: as soon as the results that were sent are consumed,
  whatever happens afterwards the thread neither returns nor reports that the fetcher exited, and ends up
  in a state from which there is no step.
\<close>

theorem dead_fetcher_hangs:
  assumes "(pipeline_step D api poll WS)\<^sup>*\<^sup>* (pipeline_init n hs s d) st" and "pl_fetcher st = Died"
    and "sc_queue (pl_chan st) = []" and "pl_consumer st = Polling \<or> pl_consumer st = Receiving"
    and "\<forall>d. \<exists>d'. poll d = Some (Ok (), d')" and "(pipeline_step D api poll WS)\<^sup>*\<^sup>* st st'"
  shows "(pl_consumer st' = Polling \<or> pl_consumer st' = Receiving) \<and>
    (\<exists>hung. (pipeline_step D api poll WS)\<^sup>*\<^sup>* st' hung \<and> pl_consumer hung = Receiving \<and>
       (\<forall>next. \<not> pipeline_step D api poll WS hung next))"
proof -
  have "abandoned st" using own_sender_reach [OF assms(1)] assms(2-4) by (auto simp: abandoned_def own_sender_def)
  with assms(6) have "abandoned st'"
    by (induction rule: rtranclp_induct) (auto intro: abandoned_step_stays [OF _ _ assms(5)])
  with abandoned_gets_stuck [OF this assms(5)] show ?thesis by (auto simp: abandoned_def)
qed

text \<open>A batch size of 0, which the settings allow, is such a case: \<open>chunks\<close> panics.\<close>

theorem dead_fetcher_hangs_witness:
  "\<exists>st hung. (pipeline_step ex_deps (daemon_methods ex_deps ex_net) (daemon_poll ex_net) (db_write_store mem_rocksdb))\<^sup>*\<^sup>*
       (pipeline_init 0 [] mem_store ex_daemon) st \<and> pl_fetcher st = Died \<and>
     (update_pipeline ex_deps ex_net mem_rocksdb)\<^sup>*\<^sup>* st hung \<and> pl_consumer hung = Receiving \<and>
     (\<forall>next. \<not> update_pipeline ex_deps ex_net mem_rocksdb hung next)"
proof -
  let ?init = "pipeline_init 0 [] mem_store ex_daemon"
  have "pl_fetcher ?init = Spawned 0 []" by (simp add: pipeline_init_def)
  from fetch_chunks_panic [OF this]
  have "update_pipeline ex_deps ex_net mem_rocksdb ?init (fetcher_ends Died ?init)" by (simp add: pipeline_step_def)
  then have reach: "(update_pipeline ex_deps ex_net mem_rocksdb)\<^sup>*\<^sup>* ?init (fetcher_ends Died ?init)" by (rule r_into_rtranclp)
  have st: "pl_fetcher (fetcher_ends Died ?init) = Died" "sc_queue (pl_chan (fetcher_ends Died ?init)) = []"
    "pl_consumer (fetcher_ends Died ?init) = Polling \<or> pl_consumer (fetcher_ends Died ?init) = Receiving"
    by (simp_all add: pipeline_init_def fetcher_ends_def chan_simps)
  have "\<forall>d. \<exists>d'. daemon_poll ex_net d = Some (Ok (), d')"
    by (simp add: on_env_def Waiter_poll_def Waiter_wait_def ex_net_def)
  from dead_fetcher_hangs [OF reach st this rtranclp.rtrancl_refl] reach st(1) show ?thesis by blast
qed

end
