(* ===== verification/Commands.thy ===== *)
theory Commands
  imports Query Daemon
begin

text \<open>
  The commands of \<open>rpc.rs\<close>: from the parameters of a request to its reply. Every command works on one
  state of the query; the order in which a \<open>HashMap\<close> is iterated is the argument \<open>iter\<close>. The theorems
  carry the exactness of the query over to the replies that a client sees.
\<close>

section \<open>Commands\<close>

definition ADDRINDEXRS_VERSION :: string where
  "ADDRINDEXRS_VERSION = ''0.4.6''"

definition PROTOCOL_VERSION :: string where
  "PROTOCOL_VERSION = ''1.4''"

definition hash_from_value :: "deps \<Rightarrow> json option \<Rightarrow> hash res" where
  "hash_from_value D val =
     bind_res (ok_or (Msg ''missing hash'') val) (\<lambda>script_hash.
     bind_res (ok_or (Msg ''non-string hash'') (as_str script_hash)) (\<lambda>script_hash.
     chain_opt (Msg ''non-hex hash'') (from_hex D script_hash)))"

definition server_version :: "json res" where
  "server_version = Ok (JArr [JStr (''addrindexrs '' @ ADDRINDEXRS_VERSION), JStr PROTOCOL_VERSION])"

definition blockchain_headers_subscribe :: "deps \<Rightarrow> 's query \<Rightarrow> json res" where
  "blockchain_headers_subscribe D q =
     bind_res (get_best_header q) (\<lambda>entry.
     (let hex_header = hex_encode D (ser_header D (he_header entry))
      in Ok (JObj [(''hex'', JStr hex_header), (''height'', JInt (int (he_height entry)))])))"

definition blockchain_scripthash_get_balance :: "json list \<Rightarrow> json res" where
  "blockchain_scripthash_get_balance params = Ok (JObj [(''confirmed'', JNull), (''unconfirmed'', JNull)])"

text \<open>\<open>params.get(i)\<close>\<close>

definition param :: "json list \<Rightarrow> nat \<Rightarrow> json option" where
  "param params i = (if i < length params then Some (params ! i) else None)"

definition script_hash_param :: "deps \<Rightarrow> json list \<Rightarrow> hash res" where
  "script_hash_param D params = chain_err (Msg ''bad script_hash'') (hash_from_value D (param params 0))"

definition blockchain_scripthash_get_history :: "deps \<Rightarrow> 's read_store \<Rightarrow> 's query \<Rightarrow> json list \<Rightarrow> json res" where
  "blockchain_scripthash_get_history D RS q params =
     bind_res (script_hash_param D params) (\<lambda>script_hash.
     bind_res (query_status D RS q (hash_bytes script_hash) 9999999999 False) (\<lambda>status.
     Ok (JArr (map (\<lambda>item. JObj [(''tx_hash'', JStr (to_hex D item))]) (history status)))))"

definition block_index_param :: "json list \<Rightarrow> nat res" where
  "block_index_param params =
     (case param params 1 of
        Some value \<Rightarrow> (case as_u64 value of Some int_value \<Rightarrow> Ok int_value | None \<Rightarrow> bail (Msg ''bad block_index''))
      | None \<Rightarrow> Ok 9999999999)"

definition blockchain_scripthash_get_oldest_tx :: "deps \<Rightarrow> 's read_store \<Rightarrow> 's query \<Rightarrow> json list \<Rightarrow> json res" where
  "blockchain_scripthash_get_oldest_tx D RS q params =
     bind_res (script_hash_param D params) (\<lambda>script_hash.
     bind_res (block_index_param params) (\<lambda>current_block_index.
     bind_res (oldest_tx D RS q (hash_bytes script_hash) current_block_index) (\<lambda>oldest.
     Ok (JObj [(''tx_hash'', JStr (to_hex D (tbi_txid oldest))),
               (''block_index'', JInt (int (tbi_blockindex oldest)))]))))"

text \<open>The keys of the dictionary: an outpoint as text.\<close>

definition outpoint_key :: "deps \<Rightarrow> out_point \<Rightarrow> string" where
  "outpoint_key D op = to_hex D (fst op) @ '':'' @ show_nat (snd op)"

text \<open>The two loops over the status: enter the funding outputs, remove those that are spent.\<close>

definition utxo_dict :: "deps \<Rightarrow> status \<Rightarrow> string list" where
  "utxo_dict D status =
     (let dict = foldl (\<lambda>dict item. List.insert (outpoint_key D (txo_txid item, txo_vout item)) dict) [] (status_funding status)
      in foldl (\<lambda>dict item. removeAll (outpoint_key D (sp_outpoint item)) dict) dict (status_spending status))"

definition blockchain_scripthash_get_utxos :: "deps \<Rightarrow> (string list \<Rightarrow> string list) \<Rightarrow> 's read_store \<Rightarrow> 's query \<Rightarrow>
    json list \<Rightarrow> json res" where
  "blockchain_scripthash_get_utxos D iter RS q params =
     bind_res (script_hash_param D params) (\<lambda>script_hash.
     bind_res (query_status D RS q (hash_bytes script_hash) 9999999999 False) (\<lambda>status.
     Ok (JArr (map JStr (iter (utxo_dict D status))))))"

text \<open>What \<open>format!("{}", e)\<close> shows of an error: the message of its kind.\<close>

definition show_int :: "int \<Rightarrow> string" where
  "show_int i = (if i < 0 then ''-'' @ show_nat (nat (- i)) else show_nat (nat i))"

fun display_error :: "error \<Rightarrow> string" where
  "display_error (Error (Msg s) _) = s"
| "display_error (Error (Connection msg) _) = ''Connection error: '' @ msg"
| "display_error (Error (Interrupt sig) _) = ''Interrupted by signal '' @ show_int sig"

definition command_result :: "deps \<Rightarrow> (string list \<Rightarrow> string list) \<Rightarrow> 's read_store \<Rightarrow> 's query \<Rightarrow> string \<Rightarrow>
    json list \<Rightarrow> json res option" where
  "command_result D iter RS q meth params =
     (if meth = ''blockchain.headers.subscribe'' then Some (blockchain_headers_subscribe D q)
      else if meth = ''blockchain.scripthash.get_balance'' then Some (blockchain_scripthash_get_balance params)
      else if meth = ''blockchain.scripthash.get_history'' then Some (blockchain_scripthash_get_history D RS q params)
      else if meth = ''blockchain.scripthash.get_oldest_tx'' then Some (blockchain_scripthash_get_oldest_tx D RS q params)
      else if meth = ''blockchain.scripthash.get_utxos'' then Some (blockchain_scripthash_get_utxos D iter RS q params)
      else if meth = ''server.ping'' then Some (Ok JNull)
      else if meth = ''server.version'' then Some server_version
      else None)"

definition handle_command :: "deps \<Rightarrow> (string list \<Rightarrow> string list) \<Rightarrow> 's read_store \<Rightarrow> 's query \<Rightarrow> string \<Rightarrow>
    json list \<Rightarrow> json \<Rightarrow> json res" where
  "handle_command D iter RS q meth params req_id =
     (case command_result D iter RS q meth params of
        None \<Rightarrow> bail (Msg ''unknown method'')
      | Some (Ok result) \<Rightarrow> Ok (JObj [(''jsonrpc'', JStr ''2.0''), (''id'', req_id), (''result'', result)])
      | Some (Err e) \<Rightarrow> Ok (JObj [(''jsonrpc'', JStr ''2.0''), (''id'', req_id), (''error'', JStr (display_error e))])
      | Some (Panic p) \<Rightarrow> Panic p)"

section \<open>Facts about the replies\<close>

lemma hex_okD:
  assumes "hex_ok D"
  shows "from_hex D (to_hex D h) = Some h" and "CHR '':'' \<notin> set (to_hex D h)"
  using assms by (simp_all add: hex_ok_def)

text \<open>Different outpoints have different keys.\<close>

lemma outpoint_key_inject:
  assumes "hex_ok D"
  shows "outpoint_key D a = outpoint_key D b \<longleftrightarrow> a = b"
proof
  assume eq: "outpoint_key D a = outpoint_key D b"
  have split: "takeWhile (\<lambda>c. c \<noteq> CHR '':'') (outpoint_key D x) = to_hex D (fst x)"
    "dropWhile (\<lambda>c. c \<noteq> CHR '':'') (outpoint_key D x) = CHR '':'' # show_nat (snd x)" for x
    using hex_okD(2) [OF assms, of "fst x"]
    by (force simp: outpoint_key_def takeWhile_append dropWhile_append)+
  from eq have "to_hex D (fst a) = to_hex D (fst b)" "show_nat (snd a) = show_nat (snd b)"
    using split [of a] split [of b] by (metis, metis list.inject)
  then show "a = b"
    using hex_okD(1) [OF assms] by (metis option.inject prod.expand show_nat_inject)
qed simp

lemma script_hash_param_hex: "hex_ok D \<Longrightarrow> script_hash_param D (JStr (to_hex D sh) # params) = Ok sh"
  by (simp add: script_hash_param_def hash_from_value_def param_def ok_or_def chain_opt_def hex_okD(1))

text \<open>A dictionary that is filled and then emptied by two loops.\<close>

lemma foldl_insert_keys:
  "distinct d \<Longrightarrow> distinct (foldl (\<lambda>d x. List.insert (f x) d) d xs) \<and>
     set (foldl (\<lambda>d x. List.insert (f x) d) d xs) = set d \<union> f ` set xs"
  by (induction xs arbitrary: d) auto

lemma foldl_remove_keys:
  "distinct d \<Longrightarrow> distinct (foldl (\<lambda>d x. removeAll (f x) d) d xs) \<and>
     set (foldl (\<lambda>d x. removeAll (f x) d) d xs) = set d - f ` set xs"
  by (induction xs arbitrary: d) (auto simp: distinct_removeAll)

lemma utxo_dict_set:
  "distinct (utxo_dict D st) \<and>
   set (utxo_dict D st) = (\<lambda>x. outpoint_key D (txo_txid x, txo_vout x)) ` set (status_funding st) -
     (\<lambda>x. outpoint_key D (sp_outpoint x)) ` set (status_spending st)"
  using foldl_insert_keys [of "[]" "\<lambda>x. outpoint_key D (txo_txid x, txo_vout x)" "status_funding st"]
  by (simp add: utxo_dict_def foldl_remove_keys)

section \<open>What a client sees\<close>

text \<open>
  The transactions the answer is about: \<open>T\<close> indexed in the database, the mempool in the tracker. The
  hypotheses of the query: no 8-byte prefix collides on them and no output of the script is spent twice.
\<close>

definition query_ok :: "deps \<Rightarrow> 'db rocksdb \<Rightarrow> ('db \<Rightarrow> (bytes, bytes) btree) \<Rightarrow> 'db dbstore query \<Rightarrow>
    (transaction \<times> hash) set \<Rightarrow> hash \<Rightarrow> bool" where
  "query_ok D R c q T sh \<longleftrightarrow>
     (let ix = q_index q; M = mempool_txs (q_tracker q);
          F = funding_of D ix T (hash_bytes sh) 9999999999; FM = funding_of D ix M (hash_bytes sh) 9999999999
      in codec_ok D \<and> hex_ok D \<and> rocksdb_ok R c \<and> indexes D (c (db_handle (q_store q))) T \<and>
         tracker_inv D (q_tracker q) \<and> collision_free D (hash_bytes sh) (fst ` T \<union> fst ` M) \<and>
         no_double_spend ix T F 9999999999 \<and> no_double_spend ix M (FM \<union> F) 9999999999 \<and>
         (\<forall>b. block_height ix b \<le> 9999999999))"

text \<open>An outpoint pays to the script, or is spent, by one of the transactions \<open>X\<close>.\<close>

definition pays :: "deps \<Rightarrow> transaction set \<Rightarrow> hash \<Rightarrow> out_point \<Rightarrow> bool" where
  "pays D X sh op \<longleftrightarrow>
     (\<exists>t \<in> X. fst op = tx_txid D t \<and> snd op < length (tx_output t) \<and>
              compute_script_hash D (script_pubkey (tx_output t ! snd op)) = hash_bytes sh)"

definition spender :: "transaction \<Rightarrow> out_point \<Rightarrow> bool" where
  "spender t op \<longleftrightarrow>
     (\<exists>i \<in> set (spends t). op_txid (previous_output i) = fst op \<and> unat (op_vout (previous_output i)) = snd op)"

text \<open>Confirmed outputs that nothing spends, and those of the mempool that the mempool does not spend.\<close>

definition unspent_outputs :: "deps \<Rightarrow> transaction set \<Rightarrow> transaction set \<Rightarrow> hash \<Rightarrow> out_point set" where
  "unspent_outputs D T M sh =
     {op. pays D T sh op \<and> \<not> (\<exists>t \<in> T \<union> M. spender t op)} \<union>
     {op. pays D M sh op \<and> \<not> pays D T sh op \<and> \<not> (\<exists>t \<in> M. spender t op)}"

text \<open>The transactions that pay to the script or spend an output that does.\<close>

definition involved :: "deps \<Rightarrow> transaction set \<Rightarrow> transaction set \<Rightarrow> hash \<Rightarrow> hash set" where
  "involved D T M sh =
     tx_txid D ` {t \<in> T \<union> M. \<exists>n. pays D {t} sh (tx_txid D t, n)} \<union>
     tx_txid D ` {t \<in> T. \<exists>op. pays D T sh op \<and> spender t op} \<union>
     tx_txid D ` {t \<in> M. \<exists>op. pays D (T \<union> M) sh op \<and> spender t op}"

lemma query_okD:
  assumes "query_ok D R c q T sh"
  shows "hex_ok D"
    and "\<exists>st. query_status D (db_read_store R) q (hash_bytes sh) 9999999999 False = Ok st \<and>
           set (status_funding st) = funding_of D (q_index q) T (hash_bytes sh) 9999999999 \<union>
             funding_of D (q_index q) (mempool_txs (q_tracker q)) (hash_bytes sh) 9999999999 \<and>
           set (status_spending st) =
             spending_of D (q_index q) T (funding_of D (q_index q) T (hash_bytes sh) 9999999999) 9999999999 \<union>
             spending_of D (q_index q) (mempool_txs (q_tracker q))
               (funding_of D (q_index q) (mempool_txs (q_tracker q)) (hash_bytes sh) 9999999999 \<union>
                funding_of D (q_index q) T (hash_bytes sh) 9999999999) 9999999999"
  using assms by (auto simp: query_ok_def Let_def intro!: query_status_spec)

lemma funding_outpoints:
  assumes "\<forall>b. block_height ix b \<le> cur"
  shows "(\<lambda>x. (txo_txid x, txo_vout x)) ` funding_of D ix T (hash_bytes sh) cur = {op. pays D (fst ` T) sh op}"
  using assms by (force simp: funding_of_def pays_def image_iff)

lemma spending_outpoints:
  assumes "\<forall>b. block_height ix b \<le> cur"
  shows "sp_outpoint ` spending_of D ix T txos cur =
    {op \<in> (\<lambda>x. (txo_txid x, txo_vout x)) ` txos. \<exists>t \<in> fst ` T. spender t op}"
  using assms by (force simp: spending_of_def spender_def spends_txo_def image_iff)

lemma spending_txids:
  assumes "\<forall>b. block_height ix b \<le> cur"
  shows "sp_txid ` spending_of D ix T txos cur =
    tx_txid D ` {t \<in> fst ` T. \<exists>op \<in> (\<lambda>x. (txo_txid x, txo_vout x)) ` txos. spender t op}"
  using assms by (force simp: spending_of_def spender_def spends_txo_def image_iff)

lemma funding_txids:
  assumes "\<forall>b. block_height ix b \<le> cur"
  shows "txo_txid ` funding_of D ix T (hash_bytes sh) cur =
    tx_txid D ` {t \<in> fst ` T. \<exists>n. pays D {t} sh (tx_txid D t, n)}"
  using assms by (force simp: funding_of_def pays_def image_iff)

lemma utxo_keys:
  assumes "query_ok D R c q T sh"
    and "query_status D (db_read_store R) q (hash_bytes sh) 9999999999 False = Ok st"
  shows "(\<lambda>x. outpoint_key D (txo_txid x, txo_vout x)) ` set (status_funding st) -
           (\<lambda>x. outpoint_key D (sp_outpoint x)) ` set (status_spending st) =
         outpoint_key D ` unspent_outputs D (fst ` T) (fst ` mempool_txs (q_tracker q)) sh"
proof -
  let ?M = "mempool_txs (q_tracker q)" and ?pair = "\<lambda>x. (txo_txid x, txo_vout x)"
  have h: "\<forall>b. block_height (q_index q) b \<le> 9999999999" and hex: "hex_ok D"
    using assms(1) by (simp_all add: query_ok_def Let_def)
  note eqs = funding_outpoints [OF h] spending_outpoints [OF h]
  have funding: "?pair ` set (status_funding st) = {op. pays D (fst ` T) sh op} \<union> {op. pays D (fst ` ?M) sh op}"
    using query_okD(2) [OF assms(1)] assms(2) by (auto simp: image_Un eqs)
  have spending: "sp_outpoint ` set (status_spending st) =
      {op. pays D (fst ` T) sh op \<and> (\<exists>t \<in> fst ` T. spender t op)} \<union>
      {op. (pays D (fst ` T) sh op \<or> pays D (fst ` ?M) sh op) \<and> (\<exists>t \<in> fst ` ?M. spender t op)}"
    using query_okD(2) [OF assms(1)] assms(2) by (auto simp: image_Un eqs)
  have "?pair ` set (status_funding st) - sp_outpoint ` set (status_spending st) =
      unspent_outputs D (fst ` T) (fst ` ?M) sh"
    unfolding funding spending unspent_outputs_def by blast
  moreover have "inj (outpoint_key D)" by (simp add: inj_def outpoint_key_inject [OF hex])
  ultimately have "outpoint_key D ` ?pair ` set (status_funding st) - outpoint_key D ` sp_outpoint ` set (status_spending st) =
      outpoint_key D ` unspent_outputs D (fst ` T) (fst ` ?M) sh"
    by (simp only: image_set_diff [symmetric])
  then show ?thesis by (simp only: image_image)
qed

lemma history_txids:
  assumes "query_ok D R c q T sh"
    and "query_status D (db_read_store R) q (hash_bytes sh) 9999999999 False = Ok st"
  shows "set (history st) = involved D (fst ` T) (fst ` mempool_txs (q_tracker q)) sh"
proof -
  let ?M = "mempool_txs (q_tracker q)"
  have h: "\<forall>b. block_height (q_index q) b \<le> 9999999999"
    using assms by (simp add: query_ok_def Let_def)
  note eqs = funding_txids [OF h] spending_txids [OF h] funding_outpoints [OF h]
  have funding: "txo_txid ` set (status_funding st) =
      tx_txid D ` {t \<in> fst ` T. \<exists>n. pays D {t} sh (tx_txid D t, n)} \<union>
      tx_txid D ` {t \<in> fst ` ?M. \<exists>n. pays D {t} sh (tx_txid D t, n)}"
    using query_okD(2) [OF assms(1)] assms(2) by (clarsimp simp: image_Un eqs)
  have spending: "sp_txid ` set (status_spending st) =
      tx_txid D ` {t \<in> fst ` T. \<exists>op \<in> {op. pays D (fst ` T) sh op}. spender t op} \<union>
      tx_txid D ` {t \<in> fst ` ?M. \<exists>op \<in> {op. pays D (fst ` ?M) sh op} \<union> {op. pays D (fst ` T) sh op}. spender t op}"
    using query_okD(2) [OF assms(1)] assms(2) by (clarsimp simp: image_Un eqs)
  have pays_Un: "pays D (X \<union> Y) sh op \<longleftrightarrow> pays D X sh op \<or> pays D Y sh op" for X Y op
    unfolding pays_def by blast
  have txids: "set (history st) = txo_txid ` set (status_funding st) \<union> sp_txid ` set (status_spending st)"
    by (simp add: history_sorted)
  show ?thesis
    unfolding txids funding spending involved_def pays_Un by blast
qed

lemma get_utxos_reply:
  assumes "query_ok D R c q T sh" and "\<And>xs. mset (iter xs) = mset xs"
  shows "\<exists>ks. handle_command D iter (db_read_store R) q ''blockchain.scripthash.get_utxos'' [JStr (to_hex D sh)] req_id =
           Ok (JObj [(''jsonrpc'', JStr ''2.0''), (''id'', req_id), (''result'', JArr (map JStr ks))]) \<and>
         distinct ks \<and>
         set ks = outpoint_key D ` unspent_outputs D (fst ` T) (fst ` mempool_txs (q_tracker q)) sh"
proof -
  obtain st where st: "query_status D (db_read_store R) q (hash_bytes sh) 9999999999 False = Ok st"
    using query_okD(2) [OF assms(1)] by blast
  let ?ks = "utxo_dict D st"
  have "distinct (iter ?ks) = distinct ?ks" "set (iter ?ks) = set ?ks"
    using assms(2) [of ?ks] by (auto dest: mset_eq_imp_distinct_iff mset_eq_setD)
  then show ?thesis
    using script_hash_param_hex [OF query_okD(1) [OF assms(1)], of sh "[]"] st utxo_dict_set [of D st] utxo_keys [OF assms(1) st]
    by (auto simp: handle_command_def command_result_def blockchain_scripthash_get_utxos_def)
qed

text \<open>
  C9: The unspent outputs a client gets are exact. On a database that indexes \<open>T\<close> and a tracker that
  holds the mempool, without prefix collisions and double spends, \<open>get_utxos\<close> replies, whatever the
  iteration order of the dictionary, with one entry \<open>txid:vout\<close> for each output that pays to the
  script and that neither a confirmed transaction (if it is confirmed) nor the mempool spends.
\<close>

theorem get_utxos_exact:
  assumes "query_ok D R c q T sh" and "\<And>xs. mset (iter xs) = mset xs"
  shows "\<exists>ks. handle_command D iter (db_read_store R) q ''blockchain.scripthash.get_utxos'' [JStr (to_hex D sh)] req_id =
           Ok (JObj [(''jsonrpc'', JStr ''2.0''), (''id'', req_id), (''result'', JArr (map JStr ks))]) \<and>
         distinct ks \<and>
         set ks = outpoint_key D ` unspent_outputs D (fst ` T) (fst ` mempool_txs (q_tracker q)) sh"
  using get_utxos_reply [OF assms] .

text \<open>
  C23: The history a client gets is exact: under the same hypotheses \<open>get_history\<close> replies with the ids of
  the transactions that pay to the script or spend an output that does, sorted, each once.
\<close>

theorem get_history_exact:
  assumes "query_ok D R c q T sh"
  shows "\<exists>txids. handle_command D iter (db_read_store R) q ''blockchain.scripthash.get_history'' [JStr (to_hex D sh)] req_id =
           Ok (JObj [(''jsonrpc'', JStr ''2.0''), (''id'', req_id),
                     (''result'', JArr (map (\<lambda>t. JObj [(''tx_hash'', JStr (to_hex D t))]) txids))]) \<and>
         sorted txids \<and> distinct txids \<and>
         set txids = involved D (fst ` T) (fst ` mempool_txs (q_tracker q)) sh"
proof -
  obtain st where st: "query_status D (db_read_store R) q (hash_bytes sh) 9999999999 False = Ok st"
    using query_okD(2) [OF assms] by blast
  then show ?thesis
    using script_hash_param_hex [OF query_okD(1) [OF assms], of sh "[]"] history_sorted [of st]
      history_txids [OF assms st]
    by (auto simp: handle_command_def command_result_def blockchain_scripthash_get_history_def)
qed

lemma ex_block_height_le: "block_height \<lparr>ix_headers = ex_headers, ix_batch_size = n\<rparr> b \<le> 9999999999"
  by (auto simp: block_height_def get_header_by_block_hash_def header_by_blockhash_def ex_headers_def ex_chain_def
      chain_entries_Cons chain_entry_def split: option.splits if_splits)

lemma ex_query_ok:
  assumes "x = 81 \<or> x = 82"
  shows "query_ok ref_deps mem_rocksdb mem_contents (ex_query ex_tx_blocks) ex_txs (mk_hash [x])"
proof -
  let ?q = "ex_query ex_tx_blocks" and ?sh = "hash_bytes (mk_hash [x])"
  have "collision_free ref_deps ?sh (fst ` ex_txs \<union> fst ` {})"
    using assms by (auto simp: collision_free_def ex_txs_def)
  moreover have "no_double_spend (q_index ?q) ex_txs X n" for X n
    by (auto simp: no_double_spend_def ex_txs_def spends_txo_def)
  ultimately show ?thesis
    using ex_indexes
    by (simp add: query_ok_def Let_def codec_ok_ref_deps hex_ok_ref_deps mem_rocksdb_ok ex_block_height_le
        ex_status_facts tracker_inv_new)
qed

theorem get_utxos_exact_witness:
  "\<exists>ks. handle_command ref_deps rev (db_read_store mem_rocksdb) (ex_query ex_tx_blocks)
          ''blockchain.scripthash.get_utxos'' [JStr (to_hex ref_deps (mk_hash [82]))] (JInt 1) =
        Ok (JObj [(''jsonrpc'', JStr ''2.0''), (''id'', JInt 1), (''result'', JArr (map JStr ks))]) \<and>
      distinct ks \<and> set ks = {outpoint_key ref_deps (mk_hash [8], 0)}"
proof -
  have "unspent_outputs ref_deps (fst ` ex_txs) {} (mk_hash [82]) = {(mk_hash [8], 0)}"
    by (auto simp: unspent_outputs_def pays_def spender_def ex_txs_def)
  then show ?thesis
    using get_utxos_exact [OF ex_query_ok [of 82], of rev "JInt 1"] by (simp add: ex_status_facts)
qed

theorem get_history_exact_witness:
  "\<exists>txids. handle_command ref_deps rev (db_read_store mem_rocksdb) (ex_query ex_tx_blocks)
          ''blockchain.scripthash.get_history'' [JStr (to_hex ref_deps (mk_hash [81]))] (JInt 1) =
        Ok (JObj [(''jsonrpc'', JStr ''2.0''), (''id'', JInt 1),
                  (''result'', JArr (map (\<lambda>t. JObj [(''tx_hash'', JStr (to_hex ref_deps t))]) txids))]) \<and>
      sorted txids \<and> set txids = {mk_hash [7], mk_hash [8]}"
proof -
  have "involved ref_deps (fst ` ex_txs) {} (mk_hash [81]) = {mk_hash [7], mk_hash [8]}"
  proof -
    have "{t. (t = a \<or> t = b) \<and> P t} = (if P a then {a} else {}) \<union> (if P b then {b} else {})"
      for a b and P :: "transaction \<Rightarrow> bool" by auto
    moreover have "pays ref_deps (fst ` ex_txs) (mk_hash [81]) op \<longleftrightarrow> op = (mk_hash [7], 0)" for op
      by (cases op) (auto simp: pays_def ex_txs_def)
    moreover have "spender (ex_tx 8 [(7, 0)] [[82]]) op \<longleftrightarrow> op = (mk_hash [7], 0)" "\<not> spender (ex_tx 7 [] outs) op" for op outs
      by (cases op; auto simp: spender_def)+
    moreover have "pays ref_deps {ex_tx 7 [] [[81]]} (mk_hash [81]) (mk_hash [7], n) \<longleftrightarrow> n = 0"
      "\<not> pays ref_deps {ex_tx 8 [(7, 0)] [[82]]} (mk_hash [81]) (mk_hash [8], n)" for n
      by (auto simp: pays_def)
    ultimately show ?thesis by (simp add: involved_def ex_txs_def insert_commute)
  qed
  then show ?thesis
    using get_history_exact [OF ex_query_ok [of 81], of rev "JInt 1"] by (auto simp: ex_status_facts)
qed

text \<open>
  A client always gets an answer that carries the id of its request, or none at all. For a method
  of the server, \<open>handle_command\<close> returns a reply with the result or the message of the error, or it
  panics exactly when the command does; for any other method it is an error, which ends the connection.
\<close>

lemma handle_command_replies:
  "(command_result D iter RS q meth params = None \<longrightarrow>
      handle_command D iter RS q meth params req_id = bail (Msg ''unknown method'')) \<and>
   (\<forall>r. command_result D iter RS q meth params = Some r \<longrightarrow>
      (if panics r then panics (handle_command D iter RS q meth params req_id)
       else \<exists>reply. handle_command D iter RS q meth params req_id = Ok reply \<and>
              json_get reply ''id'' = Some req_id \<and>
              (is_ok r \<longleftrightarrow> json_get reply ''result'' \<noteq> None) \<and> (is_ok r \<longleftrightarrow> json_get reply ''error'' = None))) \<and>
   (command_result D iter RS q meth params = None \<longleftrightarrow>
      meth \<notin> {''blockchain.headers.subscribe'', ''blockchain.scripthash.get_balance'',
               ''blockchain.scripthash.get_history'', ''blockchain.scripthash.get_oldest_tx'',
               ''blockchain.scripthash.get_utxos'', ''server.ping'', ''server.version''})"
proof (intro conjI allI impI)
  fix r
  assume "command_result D iter RS q meth params = Some r"
  then show "if panics r then panics (handle_command D iter RS q meth params req_id)
       else \<exists>reply. handle_command D iter RS q meth params req_id = Ok reply \<and>
              json_get reply ''id'' = Some req_id \<and>
              (is_ok r \<longleftrightarrow> json_get reply ''result'' \<noteq> None) \<and> (is_ok r \<longleftrightarrow> json_get reply ''error'' = None)"
    by (cases r) (simp_all add: handle_command_def)
qed (simp add: handle_command_def, auto simp: command_result_def split: if_splits)

section \<open>From transactions to the hypotheses of a query\<close>

text \<open>No output of the script that \<open>X\<close> pays is spent by two transactions of \<open>Y\<close>.\<close>

definition spent_once :: "deps \<Rightarrow> transaction set \<Rightarrow> transaction set \<Rightarrow> hash \<Rightarrow> bool" where
  "spent_once D X Y sh \<longleftrightarrow>
     (\<forall>op t t'. pays D X sh op \<and> t \<in> Y \<and> t' \<in> Y \<and> spender t op \<and> spender t' op \<longrightarrow> t = t')"

lemma spent_once_no_double_spend:
  assumes "spent_once D X (fst ` T) sh" and "\<And>x. x \<in> txos \<Longrightarrow> pays D X sh (txo_txid x, txo_vout x)"
  shows "no_double_spend ix T txos cur"
proof -
  have "t = t'" if "txo \<in> txos" "(t, b) \<in> T" "(t', b') \<in> T" "spends_txo t txo" "spends_txo t' txo" for txo t b t' b'
  proof -
    let ?op = "(txo_txid txo, txo_vout txo)"
    have "spender t ?op" "spender t' ?op" using that(4,5) by (simp_all add: spends_txo_def spender_def)
    moreover have "t \<in> fst ` T" "t' \<in> fst ` T" using that(2,3) by force+
    ultimately show ?thesis using assms(1) assms(2) [OF that(1)] unfolding spent_once_def by blast
  qed
  then show ?thesis unfolding no_double_spend_def by blast
qed

lemma funding_pays:
  assumes "x \<in> funding_of D ix T (hash_bytes sh) cur"
  shows "pays D (fst ` T) sh (txo_txid x, txo_vout x)"
  using assms by (force simp: funding_of_def pays_def)

lemma pays_mono: "pays D X sh op \<Longrightarrow> X \<subseteq> Y \<Longrightarrow> pays D Y sh op"
  unfolding pays_def by blast

lemma query_okI:
  fixes q :: "'db dbstore query"
  defines "M \<equiv> mempool_txs (q_tracker q)"
  assumes "codec_ok D" and "hex_ok D" and "rocksdb_ok R c" and "indexes D (c (db_handle (q_store q))) T"
    and "tracker_inv D (q_tracker q)" and "collision_free D (hash_bytes sh) (fst ` T \<union> fst ` M)"
    and "spent_once D (fst ` T) (fst ` T) sh" and "spent_once D (fst ` T \<union> fst ` M) (fst ` M) sh"
    and "\<And>b. block_height (q_index q) b \<le> 9999999999"
  shows "query_ok D R c q T sh"
proof -
  let ?F = "\<lambda>T. funding_of D (q_index q) T (hash_bytes sh) 9999999999"
  have "no_double_spend (q_index q) T (?F T) 9999999999"
    by (rule spent_once_no_double_spend [OF assms(8)]) (rule funding_pays)
  moreover have "no_double_spend (q_index q) M (?F M \<union> ?F T) 9999999999"
    by (rule spent_once_no_double_spend [OF assms(9)]) (auto dest: funding_pays intro: pays_mono)
  ultimately show ?thesis using assms(2-7,10) unfolding query_ok_def M_def by (simp add: Let_def)
qed

end
