(* ===== verification/Query_Race.thy ===== *)
theory Query_Race
  imports Commands
begin

text \<open>
  Queries while the server loop runs. A thread of a connection reads the database and the header list
  without a lock that spans its query, so each scan and each lookup of a header may see another state;
  only the tracker is locked for the whole of \<open>mempool_status\<close>. Here the query is a program of atomic
  reads, run against a schedule that gives the state at each of them. On a state that does not change it
  is the query of theory \<open>Query\<close>; on a changing one its answer lies between bounds, and an
  example shows that it can be wrong at every moment.
\<close>

section \<open>Programs that read a changing state\<close>

text \<open>\<open>w n\<close> is the state at the \<open>n\<close>-th read; the program returns the number of its next read.\<close>

type_synonym ('s, 'a) rd = "(nat \<Rightarrow> 's query) \<Rightarrow> nat \<Rightarrow> 'a res \<times> nat"

definition read_at :: "('s query \<Rightarrow> 'a res) \<Rightarrow> ('s, 'a) rd" where
  "read_at f = (\<lambda>w n. (f (w n), Suc n))"

definition rret :: "'a res \<Rightarrow> ('s, 'a) rd" where
  "rret r = (\<lambda>w n. (r, n))"

definition rbind :: "('s, 'a) rd \<Rightarrow> ('a \<Rightarrow> ('s, 'b) rd) \<Rightarrow> ('s, 'b) rd" where
  "rbind m f = (\<lambda>w n. (case m w n of
     (Ok x, n') \<Rightarrow> f x w n' | (Err e, n') \<Rightarrow> (Err e, n') | (Panic p, n') \<Rightarrow> (Panic p, n')))"

definition rmap :: "('a \<Rightarrow> 'b) \<Rightarrow> ('s, 'a) rd \<Rightarrow> ('s, 'b) rd" where
  "rmap g m = rbind m (\<lambda>x. rret (Ok (g x)))"

definition rchain :: "error_kind \<Rightarrow> ('s, 'a) rd \<Rightarrow> ('s, 'a) rd" where
  "rchain k m = (\<lambda>w n. (case m w n of (r, n') \<Rightarrow> (chain_err k r, n')))"

primrec mapM_rd :: "('a \<Rightarrow> ('s, 'b) rd) \<Rightarrow> 'a list \<Rightarrow> ('s, 'b list) rd" where
  "mapM_rd f [] = rret (Ok [])"
| "mapM_rd f (x # xs) = rbind (f x) (\<lambda>y. rbind (mapM_rd f xs) (\<lambda>ys. rret (Ok (y # ys))))"

section \<open>The query, read by read\<close>

text \<open>
  \<open>st\<close> selects the store that is scanned: the database of the state, or the store of a locked tracker.
\<close>

definition txrows_by_prefixes_rd :: "'t read_store \<Rightarrow> ('s query \<Rightarrow> 't) \<Rightarrow> bytes list \<Rightarrow> ('s, tx_row list) rd" where
  "txrows_by_prefixes_rd RS st ps = rmap concat (mapM_rd (\<lambda>p. read_at (\<lambda>q. get_txrows_by_prefix RS (st q) p)) ps)"

primrec rows_up_to_rd :: "deps \<Rightarrow> nat \<Rightarrow> tx_row list \<Rightarrow> ('s, (hash \<times> nat) list) rd" where
  "rows_up_to_rd D cur [] = rret (Ok [])"
| "rows_up_to_rd D cur (r # rs) =
     rbind (read_at (\<lambda>q. txrow_height D (q_index q) r)) (\<lambda>h.
       if h > cur then rows_up_to_rd D cur rs
       else rbind (rret (txrow_txid D r)) (\<lambda>t.
            rbind (rows_up_to_rd D cur rs) (\<lambda>rest. rret (Ok ((t, h) # rest)))))"

definition find_spending_input_rd :: "deps \<Rightarrow> 't read_store \<Rightarrow> ('s query \<Rightarrow> 't) \<Rightarrow> nat \<Rightarrow> txo \<Rightarrow>
    ('s, spending_input option) rd" where
  "find_spending_input_rd D RS st cur txo =
     rbind (read_at (\<lambda>q. get_prefixes_by_funding_txo D RS (st q) (txo_txid txo) (txo_vout txo))) (\<lambda>ps.
     rbind (txrows_by_prefixes_rd RS st ps) (\<lambda>txrows.
     rbind (rows_up_to_rd D cur txrows) (\<lambda>found.
     (let spendings = map (\<lambda>(t, h). \<lparr>sp_txid = t, sp_outpoint = (txo_txid txo, txo_vout txo),
                                     sp_blockindex = h\<rparr>) found
      in rbind (rret (assert_res ''assertion failed: spendings.len() <= 1'' (length spendings \<le> 1))) (\<lambda>_.
         rret (Ok (if length spendings = 1 then Some (hd spendings) else None)))))))"

definition find_funding_outputs_rd :: "deps \<Rightarrow> 't read_store \<Rightarrow> ('s query \<Rightarrow> 't) \<Rightarrow> bytes \<Rightarrow> nat \<Rightarrow> ('s, txo list) rd" where
  "find_funding_outputs_rd D RS st script_hash cur =
     rbind (read_at (\<lambda>q. get_txoutrows_by_script_hash D RS (st q) script_hash)) (\<lambda>txout_rows.
     rmap concat (mapM_rd (\<lambda>row.
       rbind (txrows_by_prefixes_rd RS st [tor_txid_prefix row]) (\<lambda>txrows.
       rbind (rows_up_to_rd D cur txrows) (\<lambda>found.
       rret (Ok (map (\<lambda>(t, h). \<lparr>txo_txid = t, txo_vout = unat (tor_vout row), txo_blockindex = h\<rparr>) found)))))
       txout_rows))"

definition find_spendings_rd :: "deps \<Rightarrow> 't read_store \<Rightarrow> ('s query \<Rightarrow> 't) \<Rightarrow> txo list \<Rightarrow> nat \<Rightarrow>
    ('s, spending_input list) rd" where
  "find_spendings_rd D RS st txos cur = rmap (List.map_filter id) (mapM_rd (find_spending_input_rd D RS st cur) txos)"

definition confirmed_status_rd :: "deps \<Rightarrow> 's read_store \<Rightarrow> bytes \<Rightarrow> nat \<Rightarrow> bool \<Rightarrow>
    ('s, txo list \<times> spending_input list) rd" where
  "confirmed_status_rd D RS script_hash cur use_txid_limit =
     rbind (find_funding_outputs_rd D RS q_store script_hash cur) (\<lambda>funding.
     rbind (read_at (\<lambda>q. check_limit q use_txid_limit funding)) (\<lambda>_.
     rbind (find_spendings_rd D RS q_store funding cur) (\<lambda>spending.
     rret (Ok (funding, spending)))))"

definition mempool_status_rd :: "deps \<Rightarrow> tracker \<Rightarrow> bytes \<Rightarrow> txo list \<Rightarrow> bool \<Rightarrow>
    ('s, txo list \<times> spending_input list) rd" where
  "mempool_status_rd D tracker script_hash confirmed_funding use_txid_limit =
     (let st = (\<lambda>q. tr_index tracker)
      in rbind (find_funding_outputs_rd D mempool_read_store st script_hash 9999999999) (\<lambda>funding.
         rbind (read_at (\<lambda>q. check_limit q use_txid_limit funding)) (\<lambda>_.
         rbind (find_spendings_rd D mempool_read_store st (funding @ confirmed_funding) 9999999999) (\<lambda>spending.
         rret (Ok (funding, spending))))))"

definition status_rd :: "deps \<Rightarrow> 's read_store \<Rightarrow> bytes \<Rightarrow> nat \<Rightarrow> bool \<Rightarrow> ('s, status) rd" where
  "status_rd D RS script_hash cur use_txid_limit =
     rbind (rchain (Msg ''failed to get confirmed status'') (confirmed_status_rd D RS script_hash cur use_txid_limit))
       (\<lambda>confirmed.
     rbind (read_at (\<lambda>q. Ok (q_tracker q))) (\<lambda>tracker.
     rbind (rchain (Msg ''failed to get mempool status'')
         (mempool_status_rd D tracker script_hash (fst confirmed) use_txid_limit)) (\<lambda>mempool.
     rret (Ok \<lparr>st_confirmed = confirmed, st_mempool = mempool\<rparr>))))"

section \<open>A state that does not change\<close>

named_theorems settles_intros \<open>what a program returns on a constant schedule\<close>

definition settles :: "('s, 'a) rd \<Rightarrow> 's query \<Rightarrow> 'a res \<Rightarrow> bool" where
  "settles m q r \<longleftrightarrow> (\<forall>n. fst (m (\<lambda>_. q) n) = r)"

lemma settles_read [settles_intros]: "settles (read_at f) q (f q)"
  by (simp add: settles_def read_at_def)

lemma settles_ret [settles_intros]: "settles (rret r) q r"
  by (simp add: settles_def rret_def)

lemma settles_bind [settles_intros]:
  assumes "settles m q r" and "\<And>x. settles (f x) q (g x)"
  shows "settles (rbind m f) q (bind_res r g)"
  unfolding settles_def
proof
  fix n
  have "fst (m (\<lambda>_. q) n) = r" using assms(1) by (simp add: settles_def)
  then show "fst (rbind m f (\<lambda>_. q) n) = bind_res r g"
    using assms(2) by (cases "m (\<lambda>_. q) n"; cases r) (auto simp: rbind_def settles_def)
qed

lemma settles_map [settles_intros]: "settles m q r \<Longrightarrow> settles (rmap g m) q (map_res g r)"
  using settles_bind [of m q r "\<lambda>x. rret (Ok (g x))" "\<lambda>x. Ok (g x)"] by (cases r) (simp_all add: rmap_def settles_ret)

lemma settles_chain [settles_intros]: "settles m q r \<Longrightarrow> settles (rchain k m) q (chain_err k r)"
  by (simp add: settles_def rchain_def case_prod_beta)

lemma settles_mapM [settles_intros]: "(\<And>x. settles (f x) q (g x)) \<Longrightarrow> settles (mapM_rd f xs) q (mapM_res g xs)"
  by (induction xs) (auto intro!: settles_intros)

lemma settles_if [settles_intros]:
  "settles m q r \<Longrightarrow> settles m' q r' \<Longrightarrow> settles (if b then m else m') q (if b then r else r')"
  by simp

lemma settles_rows_up_to [settles_intros]: "settles (rows_up_to_rd D cur rs) q (rows_up_to D (q_index q) cur rs)"
  by (induction rs) (auto intro!: settles_intros settles_read [where f = "\<lambda>q. txrow_height D (q_index q) r" for r])

lemma settles_searches [settles_intros]:
  "settles (txrows_by_prefixes_rd RS st ps) q (get_txrows_by_prefixes RS (st q) ps)"
  "settles (find_spending_input_rd D RS st cur txo) q (find_spending_input D RS (st q) (q_index q) txo cur)"
  "settles (find_funding_outputs_rd D RS st sh cur) q (find_funding_outputs D RS (st q) (q_index q) sh cur)"
  "settles (find_spendings_rd D RS st txos cur) q (find_spendings D RS (st q) (q_index q) txos cur)"
proof -
  show rows: "settles (txrows_by_prefixes_rd RS st ps) q (get_txrows_by_prefixes RS (st q) ps)" for ps
    unfolding txrows_by_prefixes_rd_def get_txrows_by_prefixes_def
    by (intro settles_intros settles_read [where f = "\<lambda>q. get_txrows_by_prefix RS (st q) p" for p])
  show spending: "settles (find_spending_input_rd D RS st cur txo) q (find_spending_input D RS (st q) (q_index q) txo cur)" for txo
    unfolding find_spending_input_rd_def find_spending_input_def Let_def
    by (intro settles_intros rows settles_read [where f = "\<lambda>q. get_prefixes_by_funding_txo D RS (st q) a b" for a b])
  show "settles (find_funding_outputs_rd D RS st sh cur) q (find_funding_outputs D RS (st q) (q_index q) sh cur)"
    unfolding find_funding_outputs_rd_def find_funding_outputs_def
    by (intro settles_intros rows settles_read [where f = "\<lambda>q. get_txoutrows_by_script_hash D RS (st q) sh"])
  show "settles (find_spendings_rd D RS st txos cur) q (find_spendings D RS (st q) (q_index q) txos cur)"
    unfolding find_spendings_rd_def find_spendings_def by (intro settles_intros spending)
qed

lemma settles_confirmed [settles_intros]:
  "settles (confirmed_status_rd D RS sh cur lim) q (confirmed_status D RS q sh cur lim)"
  unfolding confirmed_status_rd_def confirmed_status_def
  by (intro settles_intros settles_read [where f = "\<lambda>q. check_limit q lim x" for x])

lemma settles_mempool [settles_intros]:
  "settles (mempool_status_rd D (q_tracker q) sh conf lim) q (mempool_status D q sh conf lim)"
  unfolding mempool_status_rd_def mempool_status_def Let_def
  by (intro settles_intros settles_searches [where st = "\<lambda>_. tr_index (q_tracker q)"]
      settles_read [where f = "\<lambda>q. check_limit q lim x" for x])

text \<open>Taking the lock of the tracker.\<close>

lemma settles_tracker:
  "settles (f (q_tracker q)) q r \<Longrightarrow> settles (rbind (read_at (\<lambda>q. Ok (q_tracker q))) f) q r"
  by (simp add: settles_def rbind_def read_at_def)

lemma settles_status: "settles (status_rd D RS sh cur lim) q (query_status D RS q sh cur lim)"
  unfolding status_rd_def query_status_def
  by (rule settles_bind, intro settles_intros, rule settles_tracker, intro settles_intros)

text \<open>
  On a state that does not change, the query that reads step by step returns exactly what \<open>status\<close>
  of theory \<open>Query\<close> returns, errors and panics included.
\<close>

lemma status_rd_equiv:
  "fst (status_rd D RS sh cur lim (\<lambda>_. q) n) = query_status D RS q sh cur lim"
  using settles_status [of D RS sh cur lim q] by (simp add: settles_def)

section \<open>Programs whose reads all see related states\<close>

text \<open>
  \<open>gives m w P\<close>: wherever it starts in the schedule, the program succeeds, later or at once, with a result
  that satisfies \<open>P\<close>.
\<close>

definition gives :: "('s, 'a) rd \<Rightarrow> (nat \<Rightarrow> 's query) \<Rightarrow> ('a \<Rightarrow> bool) \<Rightarrow> bool" where
  "gives m w P \<longleftrightarrow> (\<forall>n. \<exists>x n'. m w n = (Ok x, n') \<and> n \<le> n' \<and> P x)"

lemma gives_read: "(\<And>n. \<exists>x. f (w n) = Ok x \<and> P x) \<Longrightarrow> gives (read_at f) w P"
  by (auto simp: gives_def read_at_def)

lemma gives_ret: "P x \<Longrightarrow> gives (rret (Ok x)) w P"
  by (simp add: gives_def rret_def)

lemma gives_bind:
  assumes "gives m w Q" and "\<And>x. Q x \<Longrightarrow> gives (f x) w P"
  shows "gives (rbind m f) w P"
  unfolding gives_def
proof
  fix n
  obtain x n1 where "m w n = (Ok x, n1)" "n \<le> n1" "Q x" using assms(1) unfolding gives_def by blast
  moreover from assms(2) [OF this(3)] obtain y n2 where "f x w n1 = (Ok y, n2)" "n1 \<le> n2" "P y" unfolding gives_def by blast
  ultimately show "\<exists>x n'. rbind m f w n = (Ok x, n') \<and> n \<le> n' \<and> P x" by (simp add: rbind_def)
qed

lemma gives_weaken: "gives m w Q \<Longrightarrow> (\<And>x. Q x \<Longrightarrow> P x) \<Longrightarrow> gives m w P"
  by (fastforce simp: gives_def)

lemma gives_map: "gives m w (\<lambda>x. P (g x)) \<Longrightarrow> gives (rmap g m) w P"
  unfolding rmap_def by (rule gives_bind [where Q = "\<lambda>x. P (g x)"]) (auto intro: gives_ret)

lemma gives_chain: "gives m w P \<Longrightarrow> gives (rchain k m) w P"
  unfolding gives_def rchain_def by (metis (no_types, lifting) case_prod_conv chain_err.simps(1))

lemma gives_mapM:
  assumes "\<And>x. x \<in> set xs \<Longrightarrow> gives (f x) w (Q x)"
  shows "gives (mapM_rd f xs) w (list_all2 Q xs)"
  using assms
proof (induction xs)
  case (Cons x xs)
  then show ?case by (auto intro!: gives_ret gives_bind [where Q = "Q x"] gives_bind [where Q = "list_all2 Q xs"])
qed (simp add: gives_ret)

section \<open>Searches in a store that grows\<close>

text \<open>
  The stores \<open>s n\<close> that the reads see index at least the transactions \<open>X0\<close> and at most \<open>X\<close>. No height in
  the header lists they see exceeds \<open>cur\<close>.
\<close>

definition growing :: "deps \<Rightarrow> ('t \<Rightarrow> (bytes, bytes) btree) \<Rightarrow> ('t \<Rightarrow> bool) \<Rightarrow> (nat \<Rightarrow> 't) \<Rightarrow> transaction set \<Rightarrow>
    transaction set \<Rightarrow> bool" where
  "growing D view ok s X0 X \<longleftrightarrow>
     (\<forall>n. ok (s n) \<and> (\<exists>T. indexes D (view (s n)) T \<and> X0 \<subseteq> fst ` T \<and> fst ` T \<subseteq> X))"

definition heights_below :: "(nat \<Rightarrow> 's query) \<Rightarrow> nat \<Rightarrow> bool" where
  "heights_below w cur \<longleftrightarrow> (\<forall>n b. block_height (q_index (w n)) b \<le> cur)"

lemma gives_rows_up_to:
  assumes "codec_ok D" and "heights_below w cur" and "list_all wf_tx_row rs"
  shows "gives (rows_up_to_rd D cur rs) w (\<lambda>found. map fst found = map (\<lambda>r. mk_hash (txk_txid (txr_key r))) rs)"
  using assms(3)
proof (induction rs)
  case (Cons r rs)
  have "wf_tx_row r" "list_all wf_tx_row rs" using Cons.prems by simp_all
  note r = txrow_height_eq [OF assms(1) this(1)]
  have "gives (read_at (\<lambda>q. txrow_height D (q_index q) r)) w (\<lambda>h. h \<le> cur)"
    using assms(2) by (intro gives_read) (auto simp: r heights_below_def row_loc_def)
  moreover have "txrow_txid D r = Ok (mk_hash (txk_txid (txr_key r)))" using r(2) by (simp add: row_loc_def)
  ultimately show ?case
    using Cons.IH \<open>list_all wf_tx_row rs\<close>
    by (auto intro!: gives_bind [where Q = "\<lambda>h. h \<le> cur"] gives_bind [OF gives_ret [where P = "\<lambda>t. t = mk_hash (txk_txid (txr_key r))"]]
        gives_bind [where Q = "\<lambda>found. map fst found = map (\<lambda>r. mk_hash (txk_txid (txr_key r))) rs"] gives_ret)
qed (simp add: gives_ret)

abbreviation row_txid :: "tx_row \<Rightarrow> hash" where
  "row_txid r \<equiv> mk_hash (txk_txid (txr_key r))"

text \<open>The rows of one prefix, and their ids: all of \<open>X0\<close>, some of \<open>X\<close>.\<close>

definition rows_between :: "deps \<Rightarrow> transaction set \<Rightarrow> transaction set \<Rightarrow> bytes set \<Rightarrow> hash set \<Rightarrow> bool" where
  "rows_between D X0 X ps ids \<longleftrightarrow>
     tx_txid D ` {t \<in> X0. hprefix (tx_txid D t) \<in> ps} \<subseteq> ids \<and> ids \<subseteq> tx_txid D ` {t \<in> X. hprefix (tx_txid D t) \<in> ps}"

lemma rows_between_Un:
  "rows_between D X0 X {p} a \<Longrightarrow> rows_between D X0 X ps b \<Longrightarrow> rows_between D X0 X (insert p ps) (a \<union> b)"
  unfolding rows_between_def by blast

context readable
begin

lemma gives_txrows:
  assumes "growing D view inv (\<lambda>n. st (w n)) X0 X" and "length p = HASH_PREFIX_LEN"
  shows "gives (read_at (\<lambda>q. get_txrows_by_prefix RS (st q) p)) w
    (\<lambda>rs. list_all wf_tx_row rs \<and> distinct (map row_txid rs) \<and> rows_between D X0 X {p} (row_txid ` set rs))"
proof (rule gives_read)
  fix n
  obtain T where T: "inv (st (w n))" "indexes D (view (st (w n))) T" "X0 \<subseteq> fst ` T" "fst ` T \<subseteq> X"
    using assms(1) unfolding growing_def by blast
  have pre: "prefix p (hash_bytes x) \<longleftrightarrow> hprefix x = p" for x
    using assms(2) by (simp add: prefix_iff_take)
  obtain rs where rs: "get_txrows_by_prefix RS (st (w n)) p = Ok rs" "list_all wf_tx_row rs"
    "distinct (map (\<lambda>r. txk_txid (txr_key r)) rs)"
    "set rs = {tx_row_of (tx_txid D t) b | t b. (t, b) \<in> T \<and> hprefix (tx_txid D t) = p}"
    using txrows_by_prefix [OF T(1,2), of p] unfolding pre by blast
  have "txk_txid (txr_key r) = hash_bytes (row_txid r)" if "r \<in> set rs" for r
    using that unfolding rs(4) by (auto simp: tx_row_of_def)
  then have "map (\<lambda>r. txk_txid (txr_key r)) rs = map hash_bytes (map row_txid rs)" by simp
  with rs(3) have "distinct (map row_txid rs)" by (metis distinct_map)
  moreover have "row_txid ` set rs = tx_txid D ` {t \<in> fst ` T. hprefix (tx_txid D t) = p}"
    unfolding rs(4) by (force simp: tx_row_of_def image_iff)
  ultimately show "\<exists>rs. get_txrows_by_prefix RS (st (w n)) p = Ok rs \<and>
      list_all wf_tx_row rs \<and> distinct (map row_txid rs) \<and> rows_between D X0 X {p} (row_txid ` set rs)"
    using rs(1,2) T(3,4) by (intro exI [of _ rs]) (auto simp: rows_between_def)
qed

lemma gives_found:
  assumes "codec_ok D" and "heights_below w cur" and "growing D view inv (\<lambda>n. st (w n)) X0 X"
    and "\<forall>p \<in> set ps. length p = HASH_PREFIX_LEN"
  shows "gives (txrows_by_prefixes_rd RS st ps) w (\<lambda>rs. list_all wf_tx_row rs \<and>
     rows_between D X0 X (set ps) (row_txid ` set rs) \<and> (length ps \<le> 1 \<longrightarrow> distinct (map row_txid rs)))"
proof -
  let ?Q = "\<lambda>p rs. list_all wf_tx_row rs \<and> distinct (map row_txid rs) \<and> rows_between D X0 X {p} (row_txid ` set rs)"
  have "gives (mapM_rd (\<lambda>p. read_at (\<lambda>q. get_txrows_by_prefix RS (st q) p)) ps) w (list_all2 ?Q ps)"
    using assms(4) by (intro gives_mapM gives_txrows [OF assms(3)]) blast
  moreover have "list_all wf_tx_row (concat rss) \<and> rows_between D X0 X (set ps) (row_txid ` set (concat rss)) \<and>
      (length ps \<le> 1 \<longrightarrow> distinct (map row_txid (concat rss)))" if "list_all2 ?Q ps rss" for rss
    using that
  proof (induction rule: list_all2_induct)
    case Nil
    show ?case by (simp add: rows_between_def)
  next
    case (Cons p ps rs rss)
    then have "rows_between D X0 X (insert p (set ps)) (row_txid ` set rs \<union> row_txid ` set (concat rss))"
      by (intro rows_between_Un) simp_all
    moreover have "concat rss = []" if "length (p # ps) \<le> 1" using that Cons(2) by simp
    ultimately show ?case using Cons by (auto simp: image_Un)
  qed
  ultimately show ?thesis
    unfolding txrows_by_prefixes_rd_def by (intro gives_map) (erule gives_weaken, blast)
qed

end

section \<open>Bounds on what a search finds\<close>

abbreviation txo_op :: "txo \<Rightarrow> out_point" where
  "txo_op x \<equiv> (txo_txid x, txo_vout x)"

lemma hprefix_inject:
  assumes "collision_free D sh Y" and "t \<in> Y" and "t' \<in> Y"
  shows "hprefix (tx_txid D t) = hprefix (tx_txid D t') \<longleftrightarrow> t = t'"
  using assms unfolding collision_free_def by blast

lemma distinct_le_1: "distinct xs \<Longrightarrow> set xs \<subseteq> {x} \<Longrightarrow> length xs \<le> 1"
  by (cases xs rule: remdups_adj.cases) auto

lemma list_all2_elem: "list_all2 P xs ys \<Longrightarrow> x \<in> set xs \<Longrightarrow> \<exists>y \<in> set ys. P x y"
  by (metis in_set_conv_nth list_all2_conv_all_nth)

lemma list_all2_elem': "list_all2 P xs ys \<Longrightarrow> y \<in> set ys \<Longrightarrow> \<exists>x \<in> set xs. P x y"
  by (metis in_set_conv_nth list_all2_conv_all_nth)

abbreviation out_row :: "deps \<Rightarrow> transaction \<Rightarrow> nat \<Rightarrow> txout_row" where
  "out_row D t n \<equiv> txout_row_of D (tx_txid D t) n (tx_output t ! n)"

abbreviation pays_at :: "deps \<Rightarrow> hash \<Rightarrow> transaction \<Rightarrow> nat \<Rightarrow> bool" where
  "pays_at D sh t n \<equiv> n < length (tx_output t) \<and> compute_script_hash D (script_pubkey (tx_output t ! n)) = hash_bytes sh"

lemma out_row_inject:
  assumes "collision_free D sh Y" and "t \<in> Y" "t' \<in> Y" "n < length (tx_output t)" "n' < length (tx_output t')"
    and "out_row D t n = out_row D t' n'"
  shows "t' = t \<and> n' = n"
proof -
  have "n < 65536" "n' < 65536" using assms(1-5) unfolding collision_free_def by (meson less_le_trans)+
  moreover have "hprefix (tx_txid D t) = hprefix (tx_txid D t')" "(of_nat n :: u16) = of_nat n'"
    using assms(6) by (simp_all add: txout_row_of_def)
  ultimately show ?thesis
    using hprefix_inject [OF assms(1-3)] by (auto simp: word_of_nat_eq_iff take_bit_eq_mod)
qed

lemma spends_txo_spender: "spends_txo t txo \<longleftrightarrow> spender t (txo_op txo)"
  by (simp add: spends_txo_def spender_def)

context readable
begin

lemma gives_outputs_of_row:
  assumes "codec_ok D" and "heights_below w cur" and "growing D view inv (\<lambda>n. st (w n)) X0 X"
    and "collision_free D sh Y" and "X \<subseteq> Y" and "X0 \<subseteq> X" and "t \<in> X" and "n < length (tx_output t)"
  shows "gives (rbind (txrows_by_prefixes_rd RS st [hprefix (tx_txid D t)]) (\<lambda>txrows.
       rbind (rows_up_to_rd D cur txrows) (\<lambda>found.
       rret (Ok (map (\<lambda>(t, h). \<lparr>txo_txid = t, txo_vout = unat (of_nat n :: u16), txo_blockindex = h\<rparr>) found))))) w
     (\<lambda>l. txo_op ` set l \<subseteq> {(tx_txid D t, n)} \<and> (t \<in> X0 \<longrightarrow> (tx_txid D t, n) \<in> txo_op ` set l))"
proof -
  let ?p = "hprefix (tx_txid D t)"
  have "n < 65536" using assms(4,5,7,8) unfolding collision_free_def by (meson less_le_trans subsetD)
  then have vout: "unat (of_nat n :: u16) = n" by (simp add: unat_of_nat)
  have same: "{t' \<in> Z. hprefix (tx_txid D t') \<in> set [?p]} = (if t \<in> Z then {t} else {})" if "Z \<subseteq> X" for Z
    using hprefix_inject [OF assms(4), of _ t] assms(5,7) that by auto
  have ids: "ids \<subseteq> {tx_txid D t} \<and> (t \<in> X0 \<longrightarrow> tx_txid D t \<in> ids)" if "rows_between D X0 X (set [?p]) ids" for ids
    using that same [of X0] same [of X] assms(6,7) unfolding rows_between_def by auto
  have "gives (txrows_by_prefixes_rd RS st [?p]) w (\<lambda>rs. list_all wf_tx_row rs \<and>
     rows_between D X0 X (set [?p]) (row_txid ` set rs) \<and> (length [?p] \<le> 1 \<longrightarrow> distinct (map row_txid rs)))"
    by (rule gives_found [OF assms(1-3)]) (simp add: HASH_PREFIX_LEN_def)
  then show ?thesis
  proof (rule gives_bind)
    fix rs assume rs: "list_all wf_tx_row rs \<and> rows_between D X0 X (set [?p]) (row_txid ` set rs) \<and>
      (length [?p] \<le> 1 \<longrightarrow> distinct (map row_txid rs))"
    let ?mk = "\<lambda>(t, h). \<lparr>txo_txid = t, txo_vout = unat (of_nat n :: u16), txo_blockindex = h\<rparr>"
    have img: "txo_op ` set (map ?mk found) = (\<lambda>x. (x, n)) ` set (map fst found)" for found
      by (simp add: image_image vout case_prod_beta)
    have "row_txid ` set rs \<subseteq> {tx_txid D t} \<and> (t \<in> X0 \<longrightarrow> tx_txid D t \<in> row_txid ` set rs)"
      using ids [of "row_txid ` set rs"] rs by blast
    then have b: "(\<lambda>x. (x, n)) ` row_txid ` set rs \<subseteq> {(tx_txid D t, n)} \<and>
        (t \<in> X0 \<longrightarrow> (tx_txid D t, n) \<in> (\<lambda>x. (x, n)) ` row_txid ` set rs)" by blast
    have "txo_op ` set (map ?mk found) \<subseteq> {(tx_txid D t, n)} \<and> (t \<in> X0 \<longrightarrow> (tx_txid D t, n) \<in> txo_op ` set (map ?mk found))"
      if "map fst found = map row_txid rs" for found
    proof -
      have "set (map fst found) = row_txid ` set rs" unfolding that by simp
      with b show ?thesis unfolding img by simp
    qed
    then show "gives (rbind (rows_up_to_rd D cur rs) (\<lambda>found. rret (Ok (map ?mk found)))) w
       (\<lambda>l. txo_op ` set l \<subseteq> {(tx_txid D t, n)} \<and> (t \<in> X0 \<longrightarrow> (tx_txid D t, n) \<in> txo_op ` set l))"
      using rs by (intro gives_bind [OF gives_rows_up_to [OF assms(1,2)]] gives_ret) blast+
  qed
qed

lemma gives_txoutrows:
  assumes "codec_ok D" and "growing D view inv (\<lambda>n. st (w n)) X0 X"
    and "collision_free D (hash_bytes sh) Y" and "X \<subseteq> Y"
  shows "gives (read_at (\<lambda>q. get_txoutrows_by_script_hash D RS (st q) (hash_bytes sh))) w
   (\<lambda>rs. {out_row D t n | t n. t \<in> X0 \<and> pays_at D sh t n} \<subseteq> set rs \<and> set rs \<subseteq> {out_row D t n | t n. t \<in> X \<and> pays_at D sh t n})"
proof (rule gives_read)
  have script: "take HASH_PREFIX_LEN (compute_script_hash D (script_pubkey (tx_output t ! n))) = take HASH_PREFIX_LEN (hash_bytes sh) \<longleftrightarrow>
      compute_script_hash D (script_pubkey (tx_output t ! n)) = hash_bytes sh" if "t \<in> X" "n < length (tx_output t)" for t n
    using assms(3,4) that unfolding collision_free_def by (metis nth_mem subsetD)
  fix n
  obtain T where T: "inv (st (w n))" "indexes D (view (st (w n))) T" "X0 \<subseteq> fst ` T" "fst ` T \<subseteq> X"
    using assms(2) unfolding growing_def by blast
  obtain rs where rs: "get_txoutrows_by_script_hash D RS (st (w n)) (hash_bytes sh) = Ok rs"
    "set rs = {out_row D t n | t b n. (t, b) \<in> T \<and> n < length (tx_output t) \<and>
       take HASH_PREFIX_LEN (compute_script_hash D (script_pubkey (tx_output t ! n))) = take HASH_PREFIX_LEN (hash_bytes sh)}"
    using txoutrows_by_script_hash [OF assms(1) T(1,2), of "hash_bytes sh"] by auto
  have "set rs = {out_row D t n | t n. t \<in> fst ` T \<and> pays_at D sh t n}"
    unfolding rs(2) using script T(4) by (fastforce simp: image_iff)
  with rs(1) T(3,4) show "\<exists>rs. get_txoutrows_by_script_hash D RS (st (w n)) (hash_bytes sh) = Ok rs \<and>
      {out_row D t n | t n. t \<in> X0 \<and> pays_at D sh t n} \<subseteq> set rs \<and> set rs \<subseteq> {out_row D t n | t n. t \<in> X \<and> pays_at D sh t n}"
    by (intro exI [of _ rs]) blast
qed

lemma gives_funding:
  assumes "codec_ok D" and "heights_below w cur" and "growing D view inv (\<lambda>n. st (w n)) X0 X"
    and "collision_free D (hash_bytes sh) Y" and "X \<subseteq> Y" and "X0 \<subseteq> X"
  shows "gives (find_funding_outputs_rd D RS st (hash_bytes sh) cur) w
     (\<lambda>l. {op. pays D X0 sh op} \<subseteq> txo_op ` set l \<and> txo_op ` set l \<subseteq> {op. pays D X sh op})"
proof -
  let ?search = "\<lambda>row. rbind (txrows_by_prefixes_rd RS st [tor_txid_prefix row]) (\<lambda>txrows.
       rbind (rows_up_to_rd D cur txrows) (\<lambda>found.
       rret (Ok (map (\<lambda>(t, h). \<lparr>txo_txid = t, txo_vout = unat (tor_vout row), txo_blockindex = h\<rparr>) found))))"
  let ?Q = "\<lambda>row l. \<exists>t n. row = out_row D t n \<and> t \<in> X \<and> pays_at D sh t n \<and>
      txo_op ` set l \<subseteq> {(tx_txid D t, n)} \<and> (t \<in> X0 \<longrightarrow> (tx_txid D t, n) \<in> txo_op ` set l)"
  have search: "gives (?search (out_row D t n)) w (?Q (out_row D t n))" if "t \<in> X" "pays_at D sh t n" for t n
    unfolding codes
    by (rule gives_weaken [OF gives_outputs_of_row [OF assms that(1), of n]]) (use that in blast)+
  show ?thesis
    unfolding find_funding_outputs_rd_def
  proof (rule gives_bind [OF gives_txoutrows [OF assms(1,3-5)]], rule gives_map, rule gives_weaken [OF gives_mapM])
    fix rs row
    assume "{out_row D t n | t n. t \<in> X0 \<and> pays_at D sh t n} \<subseteq> set rs \<and> set rs \<subseteq> {out_row D t n | t n. t \<in> X \<and> pays_at D sh t n}" "row \<in> set rs"
    then show "gives (?search row) w (?Q row)" using search by blast
  next
    fix rs ls
    assume rs: "{out_row D t n | t n. t \<in> X0 \<and> pays_at D sh t n} \<subseteq> set rs \<and> set rs \<subseteq> {out_row D t n | t n. t \<in> X \<and> pays_at D sh t n}"
      and ls: "list_all2 ?Q rs ls"
    show "{op. pays D X0 sh op} \<subseteq> txo_op ` set (concat ls) \<and> txo_op ` set (concat ls) \<subseteq> {op. pays D X sh op}"
    proof (intro conjI subsetI)
      fix op assume "op \<in> txo_op ` set (concat ls)"
      then obtain l where "l \<in> set ls" "op \<in> txo_op ` set l" by auto
      then obtain t n where "t \<in> X" "pays_at D sh t n" "txo_op ` set l \<subseteq> {(tx_txid D t, n)}" using list_all2_elem' [OF ls] by blast
      with \<open>op \<in> txo_op ` set l\<close> have "op = (tx_txid D t, n)" by blast
      with \<open>t \<in> X\<close> \<open>pays_at D sh t n\<close> show "op \<in> {op. pays D X sh op}" by (auto simp: pays_def)
    next
      fix op assume "op \<in> {op. pays D X0 sh op}"
      then obtain t n where op: "op = (tx_txid D t, n)" "t \<in> X0" "pays_at D sh t n" by (cases op) (auto simp: pays_def)
      then have "out_row D t n \<in> set rs" using rs by blast
      then obtain l where l: "l \<in> set ls" "?Q (out_row D t n) l" using list_all2_elem [OF ls] by blast
      from l(2) obtain t' n' where t': "out_row D t n = out_row D t' n'" "t' \<in> X" "pays_at D sh t' n'" "t' \<in> X0 \<longrightarrow> (tx_txid D t', n') \<in> txo_op ` set l" by blast
      have "t \<in> Y" "t' \<in> Y" using op(2) t'(2) assms(5,6) by blast+
      with out_row_inject [OF assms(4) this _ _ t'(1)] op(3) t'(3) have "t' = t" "n' = n" by simp_all
      with t'(4) op have "op \<in> txo_op ` set l" by simp
      moreover have "set l \<subseteq> set (concat ls)" using l(1) by auto
      ultimately show "op \<in> txo_op ` set (concat ls)" by blast
    qed
  qed
qed

end

text \<open>The spenders of one output.\<close>

definition spent_between :: "transaction set \<Rightarrow> transaction set \<Rightarrow> out_point \<Rightarrow> out_point set \<Rightarrow> bool" where
  "spent_between X0 X op ops \<longleftrightarrow>
     ((\<exists>t \<in> X0. spender t op) \<longrightarrow> op \<in> ops) \<and> ops \<subseteq> {op' \<in> {op}. \<exists>t \<in> X. spender t op'}"

definition single_spender :: "transaction set \<Rightarrow> out_point \<Rightarrow> bool" where
  "single_spender X op \<longleftrightarrow> (\<forall>t \<in> X. \<forall>t' \<in> X. spender t op \<and> spender t' op \<longrightarrow> t = t')"

lemma spender_prefixes:
  fixes D :: deps and X X0 :: "transaction set" and op :: out_point
  defines "hp \<equiv> \<lambda>t. hprefix (tx_txid D t)"
  assumes "collision_free D sh Y" and "X \<subseteq> Y"
    and "single_spender X op"
    and "distinct ps" and "hp ` {t \<in> X0. spender t op} \<subseteq> set ps" and "set ps \<subseteq> hp ` {t \<in> X. spender t op}"
  shows "length ps \<le> 1"
    and "rows_between D X0 X (set ps) I \<Longrightarrow>
      tx_txid D ` {t \<in> X0. spender t op} \<subseteq> I \<and> I \<subseteq> tx_txid D ` {t \<in> X. spender t op}"
proof -
  have "\<exists>t. {t \<in> X. spender t op} \<subseteq> {t}" using assms(4) unfolding single_spender_def by blast
  then obtain t where "set ps \<subseteq> {hp t}" using assms(7) by blast
  then show "length ps \<le> 1" using assms(5) by (rule distinct_le_1 [rotated])
  have "{t \<in> X. hp t \<in> set ps} \<subseteq> {t \<in> X. spender t op}"
    using assms(7) hprefix_inject [OF assms(2)] assms(3) unfolding hp_def by blast
  moreover have "{t \<in> X0. spender t op} \<subseteq> {t \<in> X0. hp t \<in> set ps}" using assms(6) by blast
  ultimately show "tx_txid D ` {t \<in> X0. spender t op} \<subseteq> I \<and> I \<subseteq> tx_txid D ` {t \<in> X. spender t op}"
    if "rows_between D X0 X (set ps) I"
    using that unfolding rows_between_def hp_def by blast
qed

lemma spent_found:
  assumes "single_spender X op" and "distinct ids"
    and "txid ` {t \<in> X0. spender t op} \<subseteq> set ids" and "set ids \<subseteq> txid ` {t \<in> X. spender t op}"
    and "length l = length ids" and "\<forall>s \<in> set l. sp_outpoint s = op"
  shows "length l \<le> 1" and "spent_between X0 X op (sp_outpoint ` set_option (if length l = 1 then Some (hd l) else None))"
proof -
  have "\<exists>t. {t \<in> X. spender t op} \<subseteq> {t}" using assms(1) unfolding single_spender_def by blast
  then obtain t where "set ids \<subseteq> {txid t}" using assms(4) by blast
  then show one: "length l \<le> 1" using distinct_le_1 [OF assms(2)] assms(5) by simp
  show "spent_between X0 X op (sp_outpoint ` set_option (if length l = 1 then Some (hd l) else None))"
  proof (cases "l = []")
    case True
    with assms(3,5) show ?thesis by (auto simp: spent_between_def)
  next
    case False
    with one have "length l = 1" by (cases l) auto
    with False assms(4-6) show ?thesis by (cases ids) (auto simp: spent_between_def)
  qed
qed

context readable
begin

lemma gives_prefixes:
  assumes "codec_ok D" and "growing D view inv (\<lambda>n. st (w n)) X0 X"
    and "collision_free D sh Y" and "X \<subseteq> Y" and "t0 \<in> Y" "txo_txid txo = tx_txid D t0" "txo_vout txo < 65536"
  shows "gives (read_at (\<lambda>q. get_prefixes_by_funding_txo D RS (st q) (txo_txid txo) (txo_vout txo))) w
     (\<lambda>ps. distinct ps \<and> (\<lambda>t. hprefix (tx_txid D t)) ` {t \<in> X0. spender t (txo_op txo)} \<subseteq> set ps \<and>
        set ps \<subseteq> (\<lambda>t. hprefix (tx_txid D t)) ` {t \<in> X. spender t (txo_op txo)})"
proof (rule gives_read)
  fix n
  obtain T where T: "inv (st (w n))" "indexes D (view (st (w n))) T" "X0 \<subseteq> fst ` T" "fst ` T \<subseteq> X"
    using assms(2) unfolding growing_def by blast
  obtain ps where ps: "get_prefixes_by_funding_txo D RS (st (w n)) (txo_txid txo) (txo_vout txo) = Ok ps" "distinct ps"
    "set ps = {hprefix (tx_txid D t) | t b. (t, b) \<in> T \<and> spends_output t (txo_txid txo) (txo_vout txo)}"
    using prefixes_by_funding_txo [OF assms(1) T(1,2)] by blast
  have "spends_output t (txo_txid txo) (txo_vout txo) \<longleftrightarrow> spender t (txo_op txo)" if "t \<in> fst ` T" for t
    using spends_output_txo [OF assms(3) _ assms(5-7), of t] that T(4) assms(4) by (auto simp: spends_txo_spender)
  then have "set ps = (\<lambda>t. hprefix (tx_txid D t)) ` {t \<in> fst ` T. spender t (txo_op txo)}"
    unfolding ps(3) by force
  with ps(1,2) T(3,4) show "\<exists>ps. get_prefixes_by_funding_txo D RS (st (w n)) (txo_txid txo) (txo_vout txo) = Ok ps \<and>
      distinct ps \<and> (\<lambda>t. hprefix (tx_txid D t)) ` {t \<in> X0. spender t (txo_op txo)} \<subseteq> set ps \<and>
      set ps \<subseteq> (\<lambda>t. hprefix (tx_txid D t)) ` {t \<in> X. spender t (txo_op txo)}"
    by (intro exI [of _ ps]) blast
qed

lemma gives_spending_input:
  assumes "codec_ok D" and "heights_below w cur" and "growing D view inv (\<lambda>n. st (w n)) X0 X"
    and "collision_free D sh Y" and "X \<subseteq> Y" and "X0 \<subseteq> X"
    and "t0 \<in> Y" "txo_txid txo = tx_txid D t0" "txo_vout txo < 65536"
    and single: "single_spender X (txo_op txo)"
  shows "gives (find_spending_input_rd D RS st cur txo) w
     (\<lambda>r. spent_between X0 X (txo_op txo) (sp_outpoint ` set_option r))"
  unfolding find_spending_input_rd_def Let_def
proof (rule gives_bind [OF gives_prefixes [OF assms(1,3-5,7-9)]], elim conjE)
  let ?op = "txo_op txo" and ?hp = "\<lambda>t. hprefix (tx_txid D t)"
  let ?mk = "map (\<lambda>(t, h). \<lparr>sp_txid = t, sp_outpoint = ?op, sp_blockindex = h\<rparr>)"
  fix ps
  assume ps: "distinct ps" "?hp ` {t \<in> X0. spender t ?op} \<subseteq> set ps" "set ps \<subseteq> ?hp ` {t \<in> X. spender t ?op}"
  note pre = spender_prefixes [OF assms(4,5) single ps]
  have len: "\<forall>p \<in> set ps. length p = HASH_PREFIX_LEN" using ps(3) by (auto simp: HASH_PREFIX_LEN_def)
  show "gives (rbind (txrows_by_prefixes_rd RS st ps) (\<lambda>txrows. rbind (rows_up_to_rd D cur txrows) (\<lambda>found.
      rbind (rret (assert_res ''assertion failed: spendings.len() <= 1'' (length (?mk found) \<le> 1))) (\<lambda>_.
      rret (Ok (if length (?mk found) = 1 then Some (hd (?mk found)) else None)))))) w
     (\<lambda>r. spent_between X0 X ?op (sp_outpoint ` set_option r))"
  proof (rule gives_bind [OF gives_found [OF assms(1-3) len]], elim conjE, rule gives_bind [OF gives_rows_up_to [OF assms(1,2)]])
    fix rs and found :: "(hash \<times> nat) list"
    assume rs: "rows_between D X0 X (set ps) (row_txid ` set rs)" "length ps \<le> 1 \<longrightarrow> distinct (map row_txid rs)"
      and found: "map fst found = map row_txid rs"
    have "distinct (map fst found)" using rs(2) pre(1) found by simp
    moreover have "set (map fst found) = row_txid ` set rs" unfolding found by simp
    moreover have "\<forall>s \<in> set (?mk found). sp_outpoint s = ?op" by auto
    ultimately have "length (?mk found) \<le> 1"
      "spent_between X0 X ?op (sp_outpoint ` set_option (if length (?mk found) = 1 then Some (hd (?mk found)) else None))"
      using spent_found [OF single, of "map fst found" "tx_txid D" X0 "?mk found"] pre(2) [OF rs(1)] by simp_all
    then show "gives (rbind (rret (assert_res ''assertion failed: spendings.len() <= 1'' (length (?mk found) \<le> 1))) (\<lambda>_.
      rret (Ok (if length (?mk found) = 1 then Some (hd (?mk found)) else None)))) w
     (\<lambda>r. spent_between X0 X ?op (sp_outpoint ` set_option r))"
      by (simp add: rbind_def rret_def gives_def assert_res_def)
  qed
qed

end

lemma pays_bounds:
  assumes "collision_free D sh' Y" and "X \<subseteq> Y" and "pays D X sh op"
  shows "(\<exists>t0 \<in> Y. fst op = tx_txid D t0) \<and> snd op < 65536"
  using assms unfolding pays_def collision_free_def by (meson less_le_trans subsetD)

lemma spent_once_single: "spent_once D X Y sh \<Longrightarrow> pays D X sh op \<Longrightarrow> single_spender Y op"
  unfolding spent_once_def single_spender_def by blast

text \<open>The spenders of several outputs.\<close>

definition spent_ops :: "transaction set \<Rightarrow> out_point set \<Rightarrow> out_point set" where
  "spent_ops X ops = {op \<in> ops. \<exists>t \<in> X. spender t op}"

context readable
begin

lemma gives_spendings:
  assumes "codec_ok D" and "heights_below w cur" and "growing D view inv (\<lambda>n. st (w n)) X0 X"
    and "collision_free D sh' Y" and "X \<subseteq> Y" and "X0 \<subseteq> X"
    and "\<forall>op \<in> txo_op ` set txos. ((\<exists>t0 \<in> Y. fst op = tx_txid D t0) \<and> snd op < 65536) \<and> single_spender X op"
  shows "gives (find_spendings_rd D RS st txos cur) w
     (\<lambda>l. spent_ops X0 (txo_op ` set txos) \<subseteq> sp_outpoint ` set l \<and> sp_outpoint ` set l \<subseteq> spent_ops X (txo_op ` set txos))"
proof -
  let ?Q = "\<lambda>txo r. spent_between X0 X (txo_op txo) (sp_outpoint ` set_option r)"
  have "gives (find_spending_input_rd D RS st cur txo) w (?Q txo)" if "txo \<in> set txos" for txo
  proof -
    have "txo_op txo \<in> txo_op ` set txos" using that by blast
    with assms(7) obtain t0 where "t0 \<in> Y" "txo_txid txo = tx_txid D t0" "txo_vout txo < 65536" "single_spender X (txo_op txo)"
      by (metis fst_conv snd_conv)
    then show ?thesis by (rule gives_spending_input [OF assms(1-6)])
  qed
  from gives_mapM [OF this] show ?thesis unfolding find_spendings_rd_def
  proof (rule gives_map [OF gives_weaken])
    fix rs assume rs: "list_all2 ?Q txos rs"
    have "set (List.map_filter id rs) = (\<Union>r \<in> set rs. set_option r)" by (force simp: List.map_filter_def)
    then have img: "sp_outpoint ` set (List.map_filter id rs) = (\<Union>r \<in> set rs. sp_outpoint ` set_option r)" by auto
    show "spent_ops X0 (txo_op ` set txos) \<subseteq> sp_outpoint ` set (List.map_filter id rs) \<and>
        sp_outpoint ` set (List.map_filter id rs) \<subseteq> spent_ops X (txo_op ` set txos)"
      unfolding img
    proof (intro conjI subsetI)
      fix op assume "op \<in> spent_ops X0 (txo_op ` set txos)"
      then obtain txo where "txo \<in> set txos" "op = txo_op txo" "\<exists>t \<in> X0. spender t op" unfolding spent_ops_def by blast
      then show "op \<in> (\<Union>r \<in> set rs. sp_outpoint ` set_option r)"
        using list_all2_elem [OF rs, of txo] unfolding spent_between_def by blast
    next
      fix op assume "op \<in> (\<Union>r \<in> set rs. sp_outpoint ` set_option r)"
      then obtain r where "r \<in> set rs" "op \<in> sp_outpoint ` set_option r" by blast
      then show "op \<in> spent_ops X (txo_op ` set txos)"
        using list_all2_elem' [OF rs, of r] unfolding spent_between_def spent_ops_def by blast
    qed
  qed
qed

end

section \<open>The answer of a query that races with updates\<close>

lemma growing_db:
  assumes "rocksdb_ok R c" and "\<And>n. \<exists>T. indexes D (c (db_handle (q_store (w n)))) T \<and> X0 \<subseteq> fst ` T \<and> fst ` T \<subseteq> X"
  shows "growing D (\<lambda>s. c (db_handle s)) (\<lambda>s. rocksdb_ok R c) (\<lambda>n. q_store (w n)) X0 X"
  using assms unfolding growing_def by blast

lemma growing_mempool:
  assumes "tracker_inv D t"
  shows "growing D mp_view mp_inv (\<lambda>n. tr_index t) (fst ` mempool_txs t) (fst ` mempool_txs t)"
  using indexes_mempool [OF assms] tracker_inv_mp [OF assms] unfolding growing_def by blast

lemma gives_check_limit: "gives (read_at (\<lambda>q. check_limit q False x)) w (\<lambda>_. True)"
  by (rule gives_read) (simp add: check_limit_def)

lemma gives_confirmed:
  assumes "codec_ok D" and "heights_below w 9999999999" and "rocksdb_ok R c"
    and "\<And>n. \<exists>T. indexes D (c (db_handle (q_store (w n)))) T \<and> X0 \<subseteq> fst ` T \<and> fst ` T \<subseteq> X"
    and "collision_free D (hash_bytes sh) Y" and "X \<subseteq> Y" and "spent_once D X X sh"
  shows "gives (confirmed_status_rd D (db_read_store R) (hash_bytes sh) 9999999999 False) w
     (\<lambda>(f, p). {op. pays D X0 sh op} \<subseteq> txo_op ` set f \<and> txo_op ` set f \<subseteq> {op. pays D X sh op} \<and>
        spent_ops X0 (txo_op ` set f) \<subseteq> sp_outpoint ` set p \<and> sp_outpoint ` set p \<subseteq> spent_ops X (txo_op ` set f))"
proof -
  have le: "X0 \<subseteq> X" using assms(4) by blast
  have g: "growing D (\<lambda>s. c (db_handle s)) (\<lambda>s. rocksdb_ok R c) (\<lambda>n. q_store (w n)) X0 X"
    by (rule growing_db [OF assms(3,4)])
  note funding = db.gives_funding [where st = q_store, OF assms(1,2) g assms(5,6) le]
    and spendings = db.gives_spendings [where st = q_store, OF assms(1,2) g assms(5,6) le]
  show ?thesis unfolding confirmed_status_rd_def
  proof (rule gives_bind [OF funding], rule gives_bind [OF gives_check_limit])
    fix f assume f: "{op. pays D X0 sh op} \<subseteq> txo_op ` set f \<and> txo_op ` set f \<subseteq> {op. pays D X sh op}"
    have "\<forall>op \<in> txo_op ` set f. ((\<exists>t0 \<in> Y. fst op = tx_txid D t0) \<and> snd op < 65536) \<and> single_spender X op"
      using f pays_bounds [OF assms(5,6)] spent_once_single [OF assms(7)] by blast
    from spendings [OF this] f
    show "gives (rbind (find_spendings_rd D (db_read_store R) q_store f 9999999999) (\<lambda>spending. rret (Ok (f, spending)))) w
     (\<lambda>(f, p). {op. pays D X0 sh op} \<subseteq> txo_op ` set f \<and> txo_op ` set f \<subseteq> {op. pays D X sh op} \<and>
        spent_ops X0 (txo_op ` set f) \<subseteq> sp_outpoint ` set p \<and> sp_outpoint ` set p \<subseteq> spent_ops X (txo_op ` set f))"
      by (elim gives_bind) (auto intro: gives_ret)
  qed
qed

lemma gives_mempool:
  assumes "codec_ok D" and "heights_below w 9999999999" and "tracker_inv D t"
    and "collision_free D (hash_bytes sh) Y" and "fst ` mempool_txs t \<subseteq> Y"
    and "spent_once D Y (fst ` mempool_txs t) sh" and "txo_op ` set conf \<subseteq> {op. pays D Y sh op}"
  shows "gives (mempool_status_rd D t (hash_bytes sh) conf False) w
     (\<lambda>(f, p). txo_op ` set f = {op. pays D (fst ` mempool_txs t) sh op} \<and>
        sp_outpoint ` set p = spent_ops (fst ` mempool_txs t) (txo_op ` set f \<union> txo_op ` set conf))"
proof -
  let ?M = "fst ` mempool_txs t" and ?st = "\<lambda>q. tr_index t"
  note g = growing_mempool [OF assms(3)]
  note funding = mp.gives_funding [where st = ?st, OF assms(1,2) g assms(4,5) subset_refl]
    and spendings = mp.gives_spendings [where st = ?st, OF assms(1,2) g assms(4,5) subset_refl]
  show ?thesis unfolding mempool_status_rd_def Let_def
  proof (rule gives_bind [OF funding], rule gives_bind [OF gives_check_limit])
    fix f assume "{op. pays D ?M sh op} \<subseteq> txo_op ` set f \<and> txo_op ` set f \<subseteq> {op. pays D ?M sh op}"
    then have f: "txo_op ` set f = {op. pays D ?M sh op}" by blast
    have "pays D Y sh op" if "op \<in> txo_op ` set (f @ conf)" for op
      using that f assms(5,7) by (auto intro: pays_mono)
    then have "\<forall>op \<in> txo_op ` set (f @ conf). ((\<exists>t0 \<in> Y. fst op = tx_txid D t0) \<and> snd op < 65536) \<and> single_spender ?M op"
      using pays_bounds [OF assms(4) subset_refl] spent_once_single [OF assms(6)] by blast
    note sp = spendings [OF this, unfolded set_append image_Un]
    show "gives (rbind (find_spendings_rd D mempool_read_store ?st (f @ conf) 9999999999)
        (\<lambda>spending. rret (Ok (f, spending)))) w
     (\<lambda>(f, p). txo_op ` set f = {op. pays D ?M sh op} \<and>
        sp_outpoint ` set p = spent_ops ?M (txo_op ` set f \<union> txo_op ` set conf))"
      by (rule gives_bind [OF sp], rule gives_ret) (simp add: f set_eq_subset [of "sp_outpoint ` A" for A])
  qed
qed

lemma utxo_dict_ops:
  assumes "hex_ok D"
  shows "set (utxo_dict D st) =
    outpoint_key D ` (txo_op ` set (status_funding st) - sp_outpoint ` set (status_spending st))"
proof -
  have "inj (outpoint_key D)" by (simp add: inj_def outpoint_key_inject [OF assms])
  then show ?thesis using utxo_dict_set [of D st] by (simp add: image_set_diff image_image)
qed

lemma gives_pairD:
  "gives m w (\<lambda>(a, b). P a b) \<Longrightarrow> \<exists>a b n'. m w n = (Ok (a, b), n') \<and> n \<le> n' \<and> P a b"
  by (fastforce simp: gives_def)

lemma status_rd_phases:
  assumes "codec_ok D" and "heights_below w 9999999999" and "rocksdb_ok R c"
    and "\<And>n. \<exists>T. indexes D (c (db_handle (q_store (w n)))) T \<and> X0 \<subseteq> fst ` T \<and> fst ` T \<subseteq> X"
    and "\<And>n. tracker_inv D (q_tracker (w n))"
    and "\<And>n. collision_free D (hash_bytes sh) (X \<union> fst ` mempool_txs (q_tracker (w n)))"
    and "spent_once D X X sh"
    and "\<And>n. spent_once D (X \<union> fst ` mempool_txs (q_tracker (w n))) (fst ` mempool_txs (q_tracker (w n))) sh"
  shows "\<exists>k st F. n \<le> k \<and> fst (status_rd D (db_read_store R) (hash_bytes sh) 9999999999 False w n) = Ok st \<and>
     {op. pays D X0 sh op} \<subseteq> F \<and> F \<subseteq> {op. pays D X sh op} \<and>
     txo_op ` set (status_funding st) = F \<union> {op. pays D (fst ` mempool_txs (q_tracker (w k))) sh op} \<and>
     spent_ops X0 F \<union> spent_ops (fst ` mempool_txs (q_tracker (w k))) (txo_op ` set (status_funding st)) \<subseteq>
       sp_outpoint ` set (status_spending st) \<and>
     sp_outpoint ` set (status_spending st) \<subseteq>
       spent_ops X F \<union> spent_ops (fst ` mempool_txs (q_tracker (w k))) (txo_op ` set (status_funding st))"
proof -
  let ?M = "\<lambda>k. fst ` mempool_txs (q_tracker (w k))"
  obtain f p k where conf: "confirmed_status_rd D (db_read_store R) (hash_bytes sh) 9999999999 False w n = (Ok (f, p), k)" "n \<le> k"
    "{op. pays D X0 sh op} \<subseteq> txo_op ` set f" "txo_op ` set f \<subseteq> {op. pays D X sh op}"
    "spent_ops X0 (txo_op ` set f) \<subseteq> sp_outpoint ` set p" "sp_outpoint ` set p \<subseteq> spent_ops X (txo_op ` set f)"
    using gives_pairD [OF gives_confirmed [OF assms(1-4) assms(6) Un_upper1 assms(7)], of n] by (elim exE conjE)
  have "txo_op ` set f \<subseteq> {op. pays D (X \<union> ?M k) sh op}" 
    by (rule subset_trans [OF conf(4)]) (simp add: Collect_mono pays_mono)
  from gives_pairD [OF gives_mempool [OF assms(1,2,5) assms(6) Un_upper2 assms(8) this], of "Suc k"] obtain f' p' k' where
    mem: "mempool_status_rd D (q_tracker (w k)) (hash_bytes sh) f False w (Suc k) = (Ok (f', p'), k')"
    "txo_op ` set f' = {op. pays D (?M k) sh op}" "sp_outpoint ` set p' = spent_ops (?M k) (txo_op ` set f' \<union> txo_op ` set f)"
    by (elim exE conjE)
  let ?st = "\<lparr>st_confirmed = (f, p), st_mempool = (f', p')\<rparr>"
  have st: "fst (status_rd D (db_read_store R) (hash_bytes sh) 9999999999 False w n) = Ok ?st"
    by (simp add: status_rd_def rbind_def rchain_def read_at_def rret_def conf(1) mem(1))
  have funding: "txo_op ` set (status_funding ?st) = txo_op ` set f \<union> {op. pays D (?M k) sh op}"
    unfolding mem(2) [symmetric] by (simp add: status_funding_def image_Un)
  have "txo_op ` set f' \<union> txo_op ` set f = txo_op ` set (status_funding ?st)"
    unfolding funding mem(2) by (rule Un_commute)
  with mem(3) have spending: "sp_outpoint ` set (status_spending ?st) =
      sp_outpoint ` set p \<union> spent_ops (?M k) (txo_op ` set (status_funding ?st))"
    by (simp add: status_spending_def image_Un)
  show ?thesis
    by (intro exI conjI, rule conf(2), rule st, rule conf(3), rule conf(4), rule funding)
       (unfold spending, (rule Un_mono [OF conf(5) subset_refl] Un_mono [OF conf(6) subset_refl])+)
qed

text \<open>
  C17: What a query that races with the server loop answers. While it runs, let the database index at least
  the transactions \<open>X0\<close> and at most \<open>X\<close> (it only grows), and let the tracker be any tracker. Then the query
  succeeds, and for the mempool \<open>M\<close> of one moment after its start: \<open>get_utxos\<close> lists every output paid
  by \<open>X0\<close> or \<open>M\<close> that nothing in \<open>X\<close> or \<open>M\<close> spends, and only outputs paid by \<open>X\<close> or \<open>M\<close> that \<open>M\<close> does not
  spend and that were not both paid and spent in \<open>X0\<close>.
\<close>

theorem racing_utxos_bounds:
  assumes "codec_ok D" and "hex_ok D" and "rocksdb_ok R c" and "heights_below w 9999999999"
    and "\<And>n. \<exists>T. indexes D (c (db_handle (q_store (w n)))) T \<and> X0 \<subseteq> fst ` T \<and> fst ` T \<subseteq> X"
    and "\<And>n. tracker_inv D (q_tracker (w n))"
    and "\<And>n. collision_free D (hash_bytes sh) (X \<union> fst ` mempool_txs (q_tracker (w n)))"
    and "spent_once D X X sh"
    and "\<And>n. spent_once D (X \<union> fst ` mempool_txs (q_tracker (w n))) (fst ` mempool_txs (q_tracker (w n))) sh"
  shows "\<exists>k st M. n \<le> k \<and> M = fst ` mempool_txs (q_tracker (w k)) \<and>
     fst (status_rd D (db_read_store R) (hash_bytes sh) 9999999999 False w n) = Ok st \<and>
     outpoint_key D ` {op. pays D (X0 \<union> M) sh op \<and> (\<forall>t \<in> X \<union> M. \<not> spender t op)} \<subseteq> set (utxo_dict D st) \<and>
     set (utxo_dict D st) \<subseteq> outpoint_key D ` {op. pays D (X \<union> M) sh op \<and> (\<forall>t \<in> M. \<not> spender t op) \<and>
        \<not> (pays D X0 sh op \<and> (\<exists>t \<in> X0. spender t op))}"
proof -
  have pays_Un: "pays D (A \<union> B) sh op \<longleftrightarrow> pays D A sh op \<or> pays D B sh op" for A B op
    unfolding pays_def by blast
  obtain k st F where st: "n \<le> k" "fst (status_rd D (db_read_store R) (hash_bytes sh) 9999999999 False w n) = Ok st"
    "{op. pays D X0 sh op} \<subseteq> F" "F \<subseteq> {op. pays D X sh op}"
    "txo_op ` set (status_funding st) = F \<union> {op. pays D (fst ` mempool_txs (q_tracker (w k))) sh op}"
    "spent_ops X0 F \<union> spent_ops (fst ` mempool_txs (q_tracker (w k))) (txo_op ` set (status_funding st)) \<subseteq>
       sp_outpoint ` set (status_spending st)"
    "sp_outpoint ` set (status_spending st) \<subseteq>
       spent_ops X F \<union> spent_ops (fst ` mempool_txs (q_tracker (w k))) (txo_op ` set (status_funding st))"
    using status_rd_phases [OF assms(1,4,3,5-9), of n] by (elim exE conjE)
  define M where "M = fst ` mempool_txs (q_tracker (w k))"
  let ?U = "txo_op ` set (status_funding st) - sp_outpoint ` set (status_spending st)"
  have "{op. pays D (X0 \<union> M) sh op \<and> (\<forall>t \<in> X \<union> M. \<not> spender t op)} \<subseteq> ?U"
    "?U \<subseteq> {op. pays D (X \<union> M) sh op \<and> (\<forall>t \<in> M. \<not> spender t op) \<and> \<not> (pays D X0 sh op \<and> (\<exists>t \<in> X0. spender t op))}"
    using st(3-7) unfolding M_def [symmetric] spent_ops_def pays_Un by blast+
  with st(1,2) M_def utxo_dict_ops [OF assms(2), of st] show ?thesis
    by (intro exI [of _ k] exI [of _ st] exI [of _ M]) (simp add: image_mono)
qed

section \<open>A query torn by an update\<close>

named_theorems local_intros \<open>a program depends only on the states it reads\<close>

definition local_rd :: "('s, 'a) rd \<Rightarrow> bool" where
  "local_rd m \<longleftrightarrow> (\<forall>w n. n \<le> snd (m w n) \<and> (\<forall>w'. (\<forall>i. n \<le> i \<and> i < snd (m w n) \<longrightarrow> w' i = w i) \<longrightarrow> m w' n = m w n))"

lemma local_eq:
  assumes "local_rd m" and "\<And>i. n \<le> i \<Longrightarrow> i < snd (m w n) \<Longrightarrow> w' i = w i"
  shows "m w' n = m w n"
  using assms unfolding local_rd_def by blast

lemma local_read [local_intros]: "local_rd (read_at f)"
  by (simp add: local_rd_def read_at_def)

lemma local_ret [local_intros]: "local_rd (rret r)"
  by (simp add: local_rd_def rret_def)

lemma local_bind [local_intros]:
  assumes "local_rd m" and "\<And>x. local_rd (f x)"
  shows "local_rd (rbind m f)"
  unfolding local_rd_def
proof (intro allI conjI impI)
  fix w :: "nat \<Rightarrow> 'a query" and n
  obtain r n1 where m: "m w n = (r, n1)" by (cases "m w n")
  then have le: "n \<le> n1" using assms(1) unfolding local_rd_def by (metis snd_conv)
  show "n \<le> snd (rbind m f w n)"
    using le assms(2) [unfolded local_rd_def] by (cases r) (auto simp: rbind_def m intro: order_trans)
  fix w' assume same: "\<forall>i. n \<le> i \<and> i < snd (rbind m f w n) \<longrightarrow> w' i = w i"
  have n1: "n1 \<le> snd (rbind m f w n)"
    using assms(2) [unfolded local_rd_def] by (cases r) (auto simp: rbind_def m)
  then have "m w' n = m w n"
    using assms(1) same unfolding local_rd_def m by (metis order_less_le_trans m snd_conv)
  moreover have "f x w' n1 = f x w n1" if "r = Ok x" for x
    using assms(2) [of x] same le that unfolding local_rd_def by (auto simp: rbind_def m)
  ultimately show "rbind m f w' n = rbind m f w n" by (cases r) (auto simp: rbind_def m)
qed

lemma local_map [local_intros]: "local_rd m \<Longrightarrow> local_rd (rmap g m)"
  unfolding rmap_def by (intro local_intros)

lemma local_chain [local_intros]: "local_rd m \<Longrightarrow> local_rd (rchain k m)"
  by (simp add: local_rd_def rchain_def case_prod_beta)

lemma local_mapM [local_intros]: "(\<And>x. local_rd (f x)) \<Longrightarrow> local_rd (mapM_rd f xs)"
  by (induction xs) (auto intro!: local_intros)

lemma local_if [local_intros]: "local_rd m \<Longrightarrow> local_rd m' \<Longrightarrow> local_rd (if b then m else m')"
  by simp

lemma local_rows_up_to [local_intros]: "local_rd (rows_up_to_rd D cur rs)"
  by (induction rs) (auto intro!: local_intros)

lemma local_searches [local_intros]:
  "local_rd (txrows_by_prefixes_rd RS st ps)" "local_rd (find_spending_input_rd D RS st cur txo)"
  "local_rd (find_funding_outputs_rd D RS st sh cur)" "local_rd (find_spendings_rd D RS st txos cur)"
proof -
  show rows: "local_rd (txrows_by_prefixes_rd RS st ps)" for ps
    unfolding txrows_by_prefixes_rd_def by (intro local_intros)
  show spending: "local_rd (find_spending_input_rd D RS st cur txo)" for txo
    unfolding find_spending_input_rd_def Let_def by (intro local_intros rows)
  show "local_rd (find_funding_outputs_rd D RS st sh cur)"
    unfolding find_funding_outputs_rd_def by (intro local_intros rows)
  show "local_rd (find_spendings_rd D RS st txos cur)"
    unfolding find_spendings_rd_def by (intro local_intros spending)
qed

lemma local_phases [local_intros]:
  "local_rd (confirmed_status_rd D RS sh cur lim)" "local_rd (mempool_status_rd D t sh conf lim)"
  unfolding confirmed_status_rd_def mempool_status_rd_def Let_def by (intro local_intros)+

text \<open>
  The state changes once, between the two halves of the query: the confirmed half is that of the old
  state, the unconfirmed half that of the new one.
\<close>

lemma status_rd_torn:
  assumes "confirmed_status D RS q1 sh cur lim = Ok conf"
  shows "\<exists>k. fst (status_rd D RS sh cur lim (\<lambda>i. if i < k then q1 else q2) 0) =
     bind_res (chain_err (Msg ''failed to get mempool status'') (mempool_status D q2 sh (fst conf) lim))
       (\<lambda>mempool. Ok \<lparr>st_confirmed = conf, st_mempool = mempool\<rparr>)"
proof -
  let ?c = "confirmed_status_rd D RS sh cur lim" and ?m = "mempool_status_rd D (q_tracker q2) sh (fst conf) lim"
  have "fst (?c (\<lambda>_. q1) 0) = Ok conf"
    using settles_confirmed [of D RS sh cur lim q1] assms by (simp add: settles_def)
  then obtain k where c: "?c (\<lambda>_. q1) 0 = (Ok conf, k)" by (cases "?c (\<lambda>_. q1) 0") auto
  let ?w = "\<lambda>i. if i < k then q1 else q2"
  have "?c ?w 0 = ?c (\<lambda>_. q1) 0" by (rule local_eq [OF local_phases(1)]) (simp add: c)
  moreover have "?m ?w (Suc k) = ?m (\<lambda>_. q2) (Suc k)"
    by (rule local_eq [OF local_phases(2)]) simp
  moreover have "fst (?m (\<lambda>_. q2) (Suc k)) = mempool_status D q2 sh (fst conf) lim"
    using settles_mempool [of D q2 sh "fst conf" lim] by (simp add: settles_def)
  ultimately have "fst (status_rd D RS sh cur lim ?w 0) =
     bind_res (chain_err (Msg ''failed to get mempool status'') (mempool_status D q2 sh (fst conf) lim))
       (\<lambda>mempool. Ok \<lparr>st_confirmed = conf, st_mempool = mempool\<rparr>)"
    by (cases "?m (\<lambda>_. q2) (Suc k)"; cases "fst (?m (\<lambda>_. q2) (Suc k))")
       (auto simp: c status_rd_def rbind_def rchain_def read_at_def rret_def)
  then show ?thesis by blast
qed

lemma query_ok_confirmed:
  assumes "query_ok D R c q T sh"
  shows "\<exists>f p. confirmed_status D (db_read_store R) q (hash_bytes sh) 9999999999 False = Ok (f, p) \<and>
     txo_op ` set f = {op. pays D (fst ` T) sh op} \<and> sp_outpoint ` set p = spent_ops (fst ` T) (txo_op ` set f) \<and>
     (\<forall>txo \<in> set f. (\<exists>t0 \<in> fst ` T \<union> fst ` mempool_txs (q_tracker q). txo_txid txo = tx_txid D t0) \<and> txo_vout txo < 65536)"
proof -
  let ?Y = "fst ` T \<union> fst ` mempool_txs (q_tracker q)" and ?F = "funding_of D (q_index q) T (hash_bytes sh) 9999999999"
  have q: "codec_ok D" "rocksdb_ok R c" "indexes D (c (db_handle (q_store q))) T" "collision_free D (hash_bytes sh) ?Y"
    "no_double_spend (q_index q) T ?F 9999999999" and h: "\<forall>b. block_height (q_index q) b \<le> 9999999999"
    using assms by (simp_all add: query_ok_def Let_def)
  from confirmed_status_exact [OF q(1-3) _ q(4) Un_upper1 _ q(5), of False] obtain f p where
    fp: "confirmed_status D (db_read_store R) q (hash_bytes sh) 9999999999 False = Ok (f, p)"
    "set f = ?F" "set p = spending_of D (q_index q) T ?F 9999999999" by auto
  moreover have "\<forall>txo \<in> set f. (\<exists>t0 \<in> ?Y. txo_txid txo = tx_txid D t0) \<and> txo_vout txo < 65536"
    unfolding fp(2) using funding_of_bounds [OF q(4) Un_upper1] by blast
  ultimately show ?thesis
    using funding_outpoints [OF h, of D T sh] spending_outpoints [OF h, of D T ?F]
    by (intro exI [of _ f] exI [of _ p]) (simp add: spent_ops_def)
qed

lemma mempool_status_empty:
  assumes "codec_ok D" and "tracker_inv D (q_tracker q)" and "tr_items (q_tracker q) = []"
    and "collision_free D (hash_bytes sh) Y"
    and "\<forall>txo \<in> set conf. (\<exists>t0 \<in> Y. txo_txid txo = tx_txid D t0) \<and> txo_vout txo < 65536"
  shows "mempool_status D q (hash_bytes sh) conf False = Ok ([], [])"
proof -
  have "mempool_txs (q_tracker q) = {}" by (simp add: mempool_txs_def assms(3))
  with mempool_status_exact [OF assms(1,2) _ assms(4) _ _ assms(5), of False] show ?thesis by simp
qed

text \<open>
  C18: A query torn by a block. Let the mempool hold a transaction that spends a confirmed output of the
  script, and let a block confirm the mempool while the query runs, between its two halves. Then
  \<open>get_utxos\<close> lists the output as unspent, although in both states, before and after, it is spent: the
  spender was not yet in the database when that was read, and no longer in the tracker when that was.
\<close>

theorem torn_query_misses_spender:
  assumes "query_ok D R c q1 T1 sh" and "query_ok D R c q2 T2 sh" and "tr_items (q_tracker q2) = []"
    and "fst ` T2 = fst ` T1 \<union> fst ` mempool_txs (q_tracker q1)"
    and "pays D (fst ` T1) sh op" and "t \<in> fst ` mempool_txs (q_tracker q1)" and "spender t op"
    and "\<forall>t \<in> fst ` T1. \<not> spender t op"
  shows "\<exists>k st. fst (status_rd D (db_read_store R) (hash_bytes sh) 9999999999 False (\<lambda>i. if i < k then q1 else q2) 0) = Ok st \<and>
     outpoint_key D op \<in> set (utxo_dict D st) \<and>
     op \<notin> unspent_outputs D (fst ` T1) (fst ` mempool_txs (q_tracker q1)) sh \<and>
     op \<notin> unspent_outputs D (fst ` T2) (fst ` mempool_txs (q_tracker q2)) sh"
proof -
  obtain f p where fp: "confirmed_status D (db_read_store R) q1 (hash_bytes sh) 9999999999 False = Ok (f, p)"
    "txo_op ` set f = {op. pays D (fst ` T1) sh op}" "sp_outpoint ` set p = spent_ops (fst ` T1) (txo_op ` set f)"
    "\<forall>txo \<in> set f. (\<exists>t0 \<in> fst ` T1 \<union> fst ` mempool_txs (q_tracker q1). txo_txid txo = tx_txid D t0) \<and> txo_vout txo < 65536"
    using query_ok_confirmed [OF assms(1)] by (elim exE conjE)
  have q: "codec_ok D" "hex_ok D" "tracker_inv D (q_tracker q2)"
    "collision_free D (hash_bytes sh) (fst ` T1 \<union> fst ` mempool_txs (q_tracker q1))"
    using assms(1,2) by (simp_all add: query_ok_def Let_def)
  let ?st = "\<lparr>st_confirmed = (f, p), st_mempool = ([], [])\<rparr>"
  obtain k where "fst (status_rd D (db_read_store R) (hash_bytes sh) 9999999999 False (\<lambda>i. if i < k then q1 else q2) 0) = Ok ?st"
    using status_rd_torn [OF fp(1), of q2] mempool_status_empty [OF q(1,3) assms(3) q(4) fp(4)] by auto
  moreover have "op \<in> txo_op ` set (status_funding ?st) - sp_outpoint ` set (status_spending ?st)"
    using assms(5,8) fp(2,3) by (simp add: status_funding_def status_spending_def spent_ops_def)
  then have "outpoint_key D op \<in> set (utxo_dict D ?st)" unfolding utxo_dict_ops [OF q(2)] by blast
  moreover have "op \<notin> unspent_outputs D (fst ` T1) (fst ` mempool_txs (q_tracker q1)) sh"
    using assms(5-7) by (auto simp: unspent_outputs_def)
  moreover have "op \<notin> unspent_outputs D (fst ` T2) (fst ` mempool_txs (q_tracker q2)) sh"
    using pays_mono [OF assms(5), of "fst ` T2"] assms(4,6,7) by (auto simp: unspent_outputs_def)
  ultimately show ?thesis by blast
qed

section \<open>The closed examples\<close>

text \<open>Block 1 indexed and transaction 8 of block 2 in the mempool; then both blocks indexed.\<close>

abbreviation ex_tx7 :: transaction where
  "ex_tx7 \<equiv> ex_tx 7 [] [[81]]"

abbreviation ex_tx8 :: transaction where
  "ex_tx8 \<equiv> ex_tx 8 [(7, 0)] [[82]]"

definition ex_tracker :: tracker where
  "ex_tracker = (case Tracker_add ref_deps Tracker_new (mk_hash [8]) ex_tx8 of Ok t \<Rightarrow> t | _ \<Rightarrow> Tracker_new)"

definition ex_old_query :: "memdb dbstore query" where
  "ex_old_query = (ex_query (take 1 ex_tx_blocks))\<lparr>q_tracker := ex_tracker\<rparr>"

lemma ex_tracker_facts: "tracker_inv ref_deps ex_tracker" "fst ` mempool_txs ex_tracker = {ex_tx8}"
proof -
  have "tr_items Tracker_new = []" by (simp add: Tracker_new_def)
  with Tracker_add_ok [OF codec_ok_ref_deps tracker_inv_new, of ex_tx8] obtain t' where
    "Tracker_add ref_deps Tracker_new (mk_hash [8]) ex_tx8 = Ok t'" "tracker_inv ref_deps t'" "tr_items t' = [(mk_hash [8], ex_tx8)]"
    by auto
  then show "tracker_inv ref_deps ex_tracker" "fst ` mempool_txs ex_tracker = {ex_tx8}"
    by (simp_all add: ex_tracker_def mempool_txs_def)
qed

lemma ex_old_indexes: "indexes ref_deps (mem_contents (db_handle (q_store ex_old_query))) {(ex_tx7, mk_hash [1])}"
proof -
  have "inj_on (tx_txid ref_deps) (fst ` {} \<union> (\<Union>b \<in> set (take 1 ex_tx_blocks). set (txdata b)))"
    by (simp add: ex_tx_blocks_def)
  from indexes_index_blocks [OF indexes_empty _ this]
  have "indexes ref_deps (mem_contents (db_handle (q_store ex_old_query)))
      (foldl (index_block_txs ref_deps) {} (take 1 ex_tx_blocks))"
    by (simp add: ex_old_query_def ex_query_contents)
  then show ?thesis by (simp add: ex_tx_blocks_def index_block_txs_def)
qed

lemma ex_race_free: "collision_free ref_deps (hash_bytes (mk_hash [81])) {ex_tx7, ex_tx8}"
  by (auto simp: collision_free_def)

lemma ex_pays:
  assumes "X \<subseteq> {ex_tx7, ex_tx8}"
  shows "pays ref_deps X (mk_hash [81]) op \<longleftrightarrow> ex_tx7 \<in> X \<and> op = (mk_hash [7], 0)"
proof
  assume "ex_tx7 \<in> X \<and> op = (mk_hash [7], 0)"
  then show "pays ref_deps X (mk_hash [81]) op" unfolding pays_def by (intro bexI [of _ ex_tx7]) auto
qed (use assms in \<open>cases op; auto simp: pays_def\<close>)

lemma ex_spender: "spender ex_tx8 op \<longleftrightarrow> op = (mk_hash [7], 0)" "\<not> spender ex_tx7 op"
  by (cases op; auto simp: spender_def)+

lemma ex_spent_once:
  assumes "Y \<subseteq> {ex_tx7, ex_tx8}"
  shows "spent_once ref_deps X Y (mk_hash [81])"
proof -
  have "t = ex_tx8" if "t \<in> Y" "spender t op" for t op using that assms ex_spender(2) by blast
  then show ?thesis unfolding spent_once_def by blast
qed

lemma ex_old_query_sel:
  "q_tracker ex_old_query = ex_tracker" "q_index ex_old_query = \<lparr>ix_headers = ex_headers, ix_batch_size = 100\<rparr>"
  by (simp_all add: ex_old_query_def ex_query_def Query_new_def)

lemma ex_old_query_ok:
  "query_ok ref_deps mem_rocksdb mem_contents ex_old_query {(ex_tx7, mk_hash [1])} (mk_hash [81])"
proof (rule query_okI)
  show "indexes ref_deps (mem_contents (db_handle (q_store ex_old_query))) {(ex_tx7, mk_hash [1])}" by (rule ex_old_indexes)
qed (use ex_tracker_facts ex_race_free ex_spent_once in
    \<open>simp_all add: codec_ok_ref_deps hex_ok_ref_deps mem_rocksdb_ok ex_old_query_sel ex_block_height_le insert_commute\<close>)

theorem torn_query_misses_spender_witness:
  "\<exists>k st. fst (status_rd ref_deps (db_read_store mem_rocksdb) (hash_bytes (mk_hash [81])) 9999999999 False
       (\<lambda>i. if i < k then ex_old_query else ex_query ex_tx_blocks) 0) = Ok st \<and>
     outpoint_key ref_deps (mk_hash [7], 0) \<in> set (utxo_dict ref_deps st)"
proof -
  have q2: "fst ` ex_txs = {ex_tx7, ex_tx8}" "tr_items (q_tracker (ex_query ex_tx_blocks)) = []"
    by (auto simp: ex_txs_def ex_query_def Query_new_def Tracker_new_def)
  have "pays ref_deps (fst ` {(ex_tx7, mk_hash [1])}) (mk_hash [81]) (mk_hash [7], 0)" by (simp add: ex_pays)
  from torn_query_misses_spender [OF ex_old_query_ok ex_query_ok [of 81] q2(2) _ this, of ex_tx8]
  show ?thesis by (auto simp: q2(1) ex_old_query_sel ex_tracker_facts ex_spender)
qed

theorem racing_utxos_bounds_witness:
  "\<exists>st. fst (status_rd ref_deps (db_read_store mem_rocksdb) (hash_bytes (mk_hash [81])) 9999999999 False
       (\<lambda>i. if i < 3 then ex_old_query else ex_query ex_tx_blocks) 0) = Ok st \<and>
     set (utxo_dict ref_deps st) \<subseteq> {outpoint_key ref_deps (mk_hash [7], 0)}"
proof -
  let ?w = "\<lambda>i :: nat. if i < 3 then ex_old_query else ex_query ex_tx_blocks" and ?X = "{ex_tx7, ex_tx8}"
  have T: "\<exists>T. indexes ref_deps (mem_contents (db_handle (q_store (?w n)))) T \<and> {ex_tx7} \<subseteq> fst ` T \<and> fst ` T \<subseteq> ?X" for n
    using ex_old_indexes ex_indexes by (intro exI [of _ "if n < 3 then {(ex_tx7, mk_hash [1])} else ex_txs"]) (simp add: ex_txs_def)
  have M: "fst ` mempool_txs (q_tracker (?w n)) = (if n < 3 then {ex_tx8} else {})" "tracker_inv ref_deps (q_tracker (?w n))" for n
    by (auto simp: ex_old_query_sel ex_tracker_facts ex_status_facts tracker_inv_new)
  have h: "heights_below ?w 9999999999"
    by (auto simp: heights_below_def ex_old_query_sel ex_status_facts ex_block_height_le)
  have un: "?X \<union> fst ` mempool_txs (q_tracker (?w n)) = ?X" for n unfolding M by auto
  have free: "collision_free ref_deps (hash_bytes (mk_hash [81])) (?X \<union> fst ` mempool_txs (q_tracker (?w n)))" for n
    unfolding un by (rule ex_race_free)
  have once: "spent_once ref_deps (?X \<union> fst ` mempool_txs (q_tracker (?w n))) (fst ` mempool_txs (q_tracker (?w n))) (mk_hash [81])"
    "spent_once ref_deps ?X ?X (mk_hash [81])" for n
    by (intro ex_spent_once; use M in auto)+
  obtain k st M where
    "fst (status_rd ref_deps (db_read_store mem_rocksdb) (hash_bytes (mk_hash [81])) 9999999999 False ?w 0) = Ok st"
    "M = fst ` mempool_txs (q_tracker (?w k))"
    "set (utxo_dict ref_deps st) \<subseteq> outpoint_key ref_deps ` {op. pays ref_deps (?X \<union> M) (mk_hash [81]) op \<and>
       (\<forall>t \<in> M. \<not> spender t op) \<and> \<not> (pays ref_deps {ex_tx7} (mk_hash [81]) op \<and> (\<exists>t \<in> {ex_tx7}. spender t op))}"
    using racing_utxos_bounds [where w = ?w and X = ?X and sh = "mk_hash [81]" and n = 0,
        OF codec_ok_ref_deps hex_ok_ref_deps mem_rocksdb_ok h T M(2) free once(2,1)] by (elim exE conjE)
  then show ?thesis using un [of k] ex_pays [of ?X] by auto
qed

end
