(* ===== verification/Rpc.thy ===== *)
theory Rpc
  imports Commands
begin

text \<open>
  The connections of \<open>rpc.rs\<close>. Two threads serve a client: the reader turns lines of the socket into
  messages on a channel of ten places, the other handles the messages and writes the replies. The loops
  of both are functions (\<open>handle_requests\<close>, \<open>handle_replies\<close>); the connection is the step relation
  \<open>conn_step\<close> that interleaves them, with the blocking sends and receives, the shutdown of the socket
  and the join at the end of \<open>run\<close>. The theorems: every schedule gives the replies of the sequential
  composition, runs are bounded, a well-formed conversation always completes, and the two ways in which
  a connection hangs forever.

  The client is the record \<open>peer\<close> of calls on an environment: the state of the query when a command
  is handled, and writing to the socket (\<open>False\<close> is a failure). JSON text is printed and parsed by its
  functions. A Rust \<open>String\<close> is the list of its UTF-8 bytes.
\<close>

section \<open>Messages\<close>

datatype message = Request string | Done

record ('s, 'e) peer =
  peer_query :: "'e \<Rightarrow> 's query"
  peer_write :: "'e \<Rightarrow> string \<Rightarrow> bool \<times> 'e"
  peer_print :: "json \<Rightarrow> string"
  peer_parse :: "string \<Rightarrow> json option"

primrec send_values :: "('s, 'e) peer \<Rightarrow> json list \<Rightarrow> 'e \<Rightarrow> unit res \<times> 'e" where
  "send_values P [] e = (Ok (), e)"
| "send_values P (value # values) e =
     (let line = peer_print P value @ newline;
          (written, e) = peer_write P e line
      in if written then send_values P values e
         else (Err (Error (Msg ''failed to send'') (Some foreign_error)), e))"

text \<open>The method, the parameters (none by default) and the id of a command.\<close>

definition request_of :: "json \<Rightarrow> (string \<times> json list \<times> json) option" where
  "request_of cmd =
     (case (json_get cmd ''method'',
            case json_get cmd ''params'' of Some params \<Rightarrow> params | None \<Rightarrow> JArr [],
            json_get cmd ''id'') of
        (Some (JStr meth), JArr params, Some req_id) \<Rightarrow> Some (meth, params, req_id)
      | _ \<Rightarrow> None)"

text \<open>The body of the loop of \<open>handle_replies\<close> for a request.\<close>

definition handle_request :: "deps \<Rightarrow> (string list \<Rightarrow> string list) \<Rightarrow> 's read_store \<Rightarrow> ('s, 'e) peer \<Rightarrow> string \<Rightarrow> 'e \<Rightarrow>
    unit res \<times> 'e" where
  "handle_request D iter RS P line e =
     (case peer_parse P line of
        None \<Rightarrow> (Err (Error (Msg ''invalid JSON format'') (Some foreign_error)), e)
      | Some cmd \<Rightarrow>
          (case request_of cmd of
             None \<Rightarrow> (bail (Msg ''invalid command''), e)
           | Some (meth, params, req_id) \<Rightarrow>
               (case handle_command D iter RS (peer_query P e) meth params req_id of
                  Ok reply \<Rightarrow> send_values P [reply] e
                | Err x \<Rightarrow> (Err x, e)
                | Panic p \<Rightarrow> (Panic p, e))))"

text \<open>
  The loop, on the messages that the channel delivers. The connection keeps a sender of its own
  channel, so the channel is never closed: when no message comes any more, \<open>recv\<close> waits forever.
\<close>

fun handle_replies :: "(string \<Rightarrow> 'e \<Rightarrow> unit res \<times> 'e) \<Rightarrow> message list \<Rightarrow> 'e \<Rightarrow> (unit res \<times> 'e) option" where
  "handle_replies handle [] e = None"
| "handle_replies handle (Done # msgs) e = Some (Ok (), e)"
| "handle_replies handle (Request line # msgs) e =
     (case handle line e of
        (Ok _, e) \<Rightarrow> handle_replies handle msgs e
      | (Err x, e) \<Rightarrow> Some (Err x, e)
      | (Panic p, e) \<Rightarrow> Some (Panic p, e))"

section \<open>The reader\<close>

definition byte_in :: "byte \<Rightarrow> byte \<Rightarrow> byte \<Rightarrow> bool" where
  "byte_in l u b \<longleftrightarrow> l \<le> b \<and> b \<le> u"

text \<open>The well-formed UTF-8 byte sequences, as \<open>String::from_utf8\<close> accepts them.\<close>

fun valid_utf8 :: "bytes \<Rightarrow> bool" where
  "valid_utf8 [] \<longleftrightarrow> True"
| "valid_utf8 (a # bs) \<longleftrightarrow>
     (if a < 0x80 then valid_utf8 bs
      else case bs of
          [] \<Rightarrow> False
        | b # cs \<Rightarrow>
            if byte_in 0xC2 0xDF a then byte_in 0x80 0xBF b \<and> valid_utf8 cs
            else case cs of
                [] \<Rightarrow> False
              | c # ds \<Rightarrow>
                  if byte_in 0xE0 0xEF a then
                    (if a = 0xE0 then byte_in 0xA0 0xBF b else if a = 0xED then byte_in 0x80 0x9F b else byte_in 0x80 0xBF b) \<and>
                    byte_in 0x80 0xBF c \<and> valid_utf8 ds
                  else case ds of
                      [] \<Rightarrow> False
                    | d # es \<Rightarrow>
                        byte_in 0xF0 0xF4 a \<and>
                        (if a = 0xF0 then byte_in 0x90 0xBF b else if a = 0xF4 then byte_in 0x80 0x8F b else byte_in 0x80 0xBF b) \<and>
                        byte_in 0x80 0xBF c \<and> byte_in 0x80 0xBF d \<and> valid_utf8 es)"

definition string_of :: "bytes \<Rightarrow> string" where
  "string_of bs = map (\<lambda>b. char_of (unat b)) bs"

definition from_utf8 :: "bytes \<Rightarrow> string option" where
  "from_utf8 bs = (if valid_utf8 bs then Some (string_of bs) else None)"

text \<open>\<open>read_until(b'\n')\<close> on what the socket still delivers: a line with its end, and the rest.\<close>

definition read_until :: "bytes \<Rightarrow> bytes \<times> bytes" where
  "read_until input =
     (case dropWhile (\<lambda>b. b \<noteq> 10) input of
        [] \<Rightarrow> (input, [])
      | eol # rest \<Rightarrow> (takeWhile (\<lambda>b. b \<noteq> 10) input @ [eol], rest))"

text \<open>The socket may break instead of ending: then reading beyond the last complete line is an error.\<close>

definition read_fails :: "bool \<Rightarrow> bytes \<Rightarrow> bool" where
  "read_fails broken input \<longleftrightarrow> broken \<and> 10 \<notin> set input"

definition read_error :: error where
  "read_error = Error (Msg ''failed to read a request'') (Some foreign_error)"

text \<open>The message sent for a line, and the result when the loop returns after it.\<close>

definition line_message :: "bytes \<Rightarrow> message \<times> unit res option" where
  "line_message line =
     (if line = [] then (Done, Some (Ok ()))
      else if prefix [22, 3, 1] line then (Done, Some (bail (Msg ''invalid request - maybe SSL-encrypted data?'')))
      else case from_utf8 line of
          Some req \<Rightarrow> (Request req, None)
        | None \<Rightarrow> (Done, Some (bail (Msg ''invalid UTF8''))))"

lemma read_until_shorter: "fst (read_until input) \<noteq> [] \<Longrightarrow> length (snd (read_until input)) < length input"
  using length_dropWhile_le [of "\<lambda>b. b \<noteq> 10" input]
  by (cases "dropWhile (\<lambda>b. b \<noteq> 10) input") (simp_all add: read_until_def del: dropWhile_eq_Nil_conv)

lemma line_message_continues: "line_message line = (m, None) \<Longrightarrow> line \<noteq> []"
  by (auto simp: line_message_def)

function handle_requests :: "bool \<Rightarrow> bytes \<Rightarrow> message list \<times> unit res" where
  "handle_requests broken input =
     (if read_fails broken input then ([], Err read_error)
      else case line_message (fst (read_until input)) of
          (m, None) \<Rightarrow> (let (msgs, r) = handle_requests broken (snd (read_until input)) in (m # msgs, r))
        | (m, Some r) \<Rightarrow> ([m], r))"
  by pat_completeness auto
termination
  by (relation "measure (\<lambda>(broken, input). length input)") (auto dest!: sym [of "(_, None)"] line_message_continues read_until_shorter)

declare handle_requests.simps [simp del]

section \<open>The connection\<close>

text \<open>
  The reader waits for a line, or is sending a message after which it goes on (\<open>None\<close>) or returns a
  result, or has returned. The other thread is in \<open>handle_replies\<close>, or has left it with a result, shut
  the socket down and waits for the reader, or is finished, or has panicked.
\<close>

datatype reader = Reading | Sending message "unit res option" | Returned "unit res"

datatype replier = Replying | Joining "unit res" | Finished | Crashed string

record 'e conn_state =
  cs_input :: bytes
  cs_broken :: bool
  cs_reader :: reader
  cs_chan :: "message list"
  cs_replier :: replier
  cs_env :: 'e

definition conn_new :: "bytes \<Rightarrow> bool \<Rightarrow> 'e \<Rightarrow> 'e conn_state" where
  "conn_new input broken e =
     \<lparr>cs_input = input, cs_broken = broken, cs_reader = Reading, cs_chan = [], cs_replier = Replying, cs_env = e\<rparr>"

text \<open>
  \<open>run\<close> first clones the stream; when that fails it panics and no reader is started (the thread of the
  connection then ends by a panic, the step \<open>peer_panic\<close> of \<open>Rpc_Server\<close>).
\<close>

definition conn_start :: "bool \<Rightarrow> bytes \<Rightarrow> bool \<Rightarrow> 'e \<Rightarrow> 'e conn_state" where
  "conn_start cloned input broken e =
     (if cloned then conn_new input broken e
      else (conn_new input broken e)\<lparr>cs_reader := Returned (Ok ()), cs_replier := Crashed ''failed to clone TcpStream''\<rparr>)"

definition chan_size :: nat where
  "chan_size = 10"

text \<open>
  A send waits for a free place of the channel; it fails when the receiver is gone, after a panic, and
  that failure is ignored where the reader is about to return an error of its own. After a shutdown the
  reader gets some of what was on its way and then the end of the stream.
\<close>

inductive conn_step :: "(string \<Rightarrow> 'e \<Rightarrow> unit res \<times> 'e) \<Rightarrow> 'e conn_state \<Rightarrow> 'e conn_state \<Rightarrow> bool" for handle where
  conn_read:
    "conn_step handle st (st\<lparr>cs_input := snd (read_until (cs_input st)),
       cs_reader := case line_message (fst (read_until (cs_input st))) of (m, k) \<Rightarrow> Sending m k\<rparr>)"
    if "cs_reader st = Reading" and "\<not> read_fails (cs_broken st) (cs_input st)"
| conn_read_error:
    "conn_step handle st (st\<lparr>cs_reader := Returned (Err read_error)\<rparr>)"
    if "cs_reader st = Reading" and "read_fails (cs_broken st) (cs_input st)"
| conn_send:
    "conn_step handle st (st\<lparr>cs_chan := cs_chan st @ [m],
       cs_reader := case k of None \<Rightarrow> Reading | Some r \<Rightarrow> Returned r\<rparr>)"
    if "cs_reader st = Sending m k" and "length (cs_chan st) < chan_size" and "\<nexists>p. cs_replier st = Crashed p"
| conn_send_closed:
    "conn_step handle st (st\<lparr>cs_reader :=
       Returned (case k of Some (Err x) \<Rightarrow> Err x | _ \<Rightarrow> Err (Error (Msg ''channel closed'') (Some foreign_error)))\<rparr>)"
    if "cs_reader st = Sending m k" and "cs_replier st = Crashed p"
| conn_done:
    "conn_step handle st (st\<lparr>cs_chan := msgs, cs_replier := Joining (Ok ()), cs_input := input, cs_broken := broken\<rparr>)"
    if "cs_replier st = Replying" and "cs_chan st = Done # msgs"
      and "prefix input (cs_input st)" and "broken \<longrightarrow> cs_broken st"
| conn_reply:
    "conn_step handle st (st\<lparr>cs_chan := msgs, cs_env := e\<rparr>)"
    if "cs_replier st = Replying" and "cs_chan st = Request line # msgs" and "handle line (cs_env st) = (Ok (), e)"
| conn_fail:
    "conn_step handle st (st\<lparr>cs_chan := msgs, cs_env := e, cs_replier := Joining (Err x), cs_input := input, cs_broken := broken\<rparr>)"
    if "cs_replier st = Replying" and "cs_chan st = Request line # msgs" and "handle line (cs_env st) = (Err x, e)"
      and "prefix input (cs_input st)" and "broken \<longrightarrow> cs_broken st"
| conn_crash:
    "conn_step handle st (st\<lparr>cs_chan := msgs, cs_env := e, cs_replier := Crashed p\<rparr>)"
    if "cs_replier st = Replying" and "cs_chan st = Request line # msgs" and "handle line (cs_env st) = (Panic p, e)"
| conn_join:
    "conn_step handle st (st\<lparr>cs_replier := Finished\<rparr>)"
    if "cs_replier st = Joining r" and "cs_reader st = Returned r'"

inductive_cases conn_stepE: "conn_step handle st st'"

lemmas conn_step_elim = conn_stepE [consumes 1, case_names conn_read conn_read_error conn_send conn_send_closed
  conn_done conn_reply conn_fail conn_crash conn_join]

text \<open>A state in which no thread can go on.\<close>

definition conn_stuck :: "(string \<Rightarrow> 'e \<Rightarrow> unit res \<times> 'e) \<Rightarrow> 'e conn_state \<Rightarrow> bool" where
  "conn_stuck handle st \<longleftrightarrow> (\<forall>st'. \<not> conn_step handle st st')"

text \<open>Of a connection whose stream cannot be cloned nothing is read and nothing is written.\<close>

lemma conn_start_fails:
  "conn_stuck handle (conn_start False input broken e) \<and> cs_env (conn_start False input broken e) = e"
  by (auto simp: conn_start_def conn_new_def conn_stuck_def elim: conn_step_elim)

section \<open>Every schedule gives the sequential replies\<close>

text \<open>The messages that the reader has still to send.\<close>

fun unsent :: "reader \<Rightarrow> bool \<Rightarrow> bytes \<Rightarrow> message list" where
  "unsent Reading broken input = fst (handle_requests broken input)"
| "unsent (Sending m None) broken input = m # fst (handle_requests broken input)"
| "unsent (Sending m (Some r)) broken input = [m]"
| "unsent (Returned r) broken input = []"

definition conn_left :: "'e conn_state \<Rightarrow> message list" where
  "conn_left st = cs_chan st @ unsent (cs_reader st) (cs_broken st) (cs_input st)"

definition conn_inv :: "(string \<Rightarrow> 'e \<Rightarrow> unit res \<times> 'e) \<Rightarrow> message list \<Rightarrow> 'e \<Rightarrow> 'e conn_state \<Rightarrow> bool" where
  "conn_inv handle msgs e st \<longleftrightarrow>
     length (cs_chan st) \<le> chan_size \<and>
     (case cs_replier st of
        Replying \<Rightarrow> suffix (conn_left st) msgs \<and> handle_replies handle (conn_left st) (cs_env st) = handle_replies handle msgs e
      | Joining r \<Rightarrow> handle_replies handle msgs e = Some (r, cs_env st)
      | Finished \<Rightarrow> \<exists>r. handle_replies handle msgs e = Some (r, cs_env st)
      | Crashed p \<Rightarrow> handle_replies handle msgs e = Some (Panic p, cs_env st))"

lemma unsent_read:
  assumes "\<not> read_fails broken input" and "line_message (fst (read_until input)) = (m, k)"
  shows "unsent (Sending m k) broken (snd (read_until input)) = fst (handle_requests broken input)"
  using assms by (subst handle_requests.simps) (cases k; simp split: prod.splits)

lemma conn_inv_new: "conn_inv handle (fst (handle_requests broken input)) e (conn_new input broken e)"
  by (simp add: conn_inv_def conn_new_def conn_left_def)

lemma conn_inv_step:
  assumes "conn_inv handle msgs e st" and "conn_step handle st st'"
  shows "conn_inv handle msgs e st'"
  using assms(2,1)
proof (cases rule: conn_step_elim)
  case conn_read
  obtain m k where mk: "line_message (fst (read_until (cs_input st))) = (m, k)" by fastforce
  have "conn_left st' = conn_left st"
    using conn_read unsent_read [OF conn_read(3) mk] mk by (simp add: conn_left_def)
  with conn_read assms(1) show ?thesis by (auto simp: conn_inv_def split: replier.splits)
next
  case conn_read_error
  then have "conn_left st' = conn_left st"
    by (simp add: conn_left_def handle_requests.simps [of "cs_broken st" "cs_input st"])
  with conn_read_error assms(1) show ?thesis by (auto simp: conn_inv_def split: replier.splits)
next
  case (conn_send m k)
  then have "conn_left st' = conn_left st" by (cases k) (simp_all add: conn_left_def)
  with conn_send assms(1) show ?thesis by (auto simp: conn_inv_def chan_size_def split: replier.splits)
next
  case (conn_reply line msgs' e')
  then have "conn_left st = Request line # conn_left st'" by (simp add: conn_left_def)
  with conn_reply assms(1) show ?thesis
    by (auto simp: conn_inv_def dest: suffix_ConsD)
qed (use assms(1) in \<open>auto simp: conn_inv_def conn_left_def\<close>)

lemma conn_inv_reachable:
  assumes "(conn_step handle)\<^sup>*\<^sup>* (conn_new input broken e) st"
  shows "conn_inv handle (fst (handle_requests broken input)) e st"
  using assms by (induction rule: rtranclp_induct) (auto intro: conn_inv_new conn_inv_step)

text \<open>
  C25: The threads of a connection do not race. Whatever the schedule, the channel never holds more than
  ten messages, and when the replying thread has ended or panicked, its result and everything it wrote
  are those of handling, one after the other, the messages that the reader makes of the client's input.
\<close>

theorem connection_refines_sequential:
  assumes "(conn_step handle)\<^sup>*\<^sup>* (conn_new input broken e) st"
  shows "length (cs_chan st) \<le> 10 \<and>
         (\<forall>r. cs_replier st = Joining r \<longrightarrow>
            handle_replies handle (fst (handle_requests broken input)) e = Some (r, cs_env st)) \<and>
         (cs_replier st = Finished \<longrightarrow>
            (\<exists>r. handle_replies handle (fst (handle_requests broken input)) e = Some (r, cs_env st))) \<and>
         (\<forall>p. cs_replier st = Crashed p \<longrightarrow>
            handle_replies handle (fst (handle_requests broken input)) e = Some (Panic p, cs_env st))"
  using conn_inv_reachable [OF assms] by (simp add: conn_inv_def chan_size_def split: replier.splits)

section \<open>Runs are bounded\<close>

fun reader_weight :: "reader \<Rightarrow> nat" where
  "reader_weight Reading = 3"
| "reader_weight (Sending m None) = 5"
| "reader_weight (Sending m (Some r)) = 2"
| "reader_weight (Returned r) = 0"

fun replier_weight :: "replier \<Rightarrow> nat" where
  "replier_weight Replying = 2"
| "replier_weight (Joining r) = 1"
| "replier_weight _ = 0"

definition conn_weight :: "'e conn_state \<Rightarrow> nat" where
  "conn_weight st = 3 * length (cs_input st) + reader_weight (cs_reader st) + length (cs_chan st) +
     replier_weight (cs_replier st)"

lemma line_message_weight:
  assumes "line_message line = (m, k)"
  shows "reader_weight (Sending m k) = (if k = None then 5 else 2)" and "k = None \<Longrightarrow> line \<noteq> []"
  using assms line_message_continues by (cases k; auto)+

lemma read_until_le: "length (snd (read_until input)) \<le> length input"
  using length_dropWhile_le [of "\<lambda>b. b \<noteq> 10" input]
  by (cases "dropWhile (\<lambda>b. b \<noteq> 10) input") (simp_all add: read_until_def del: dropWhile_eq_Nil_conv)

lemma conn_weight_step:
  assumes "conn_step handle st st'"
  shows "conn_weight st' < conn_weight st"
  using assms
proof (cases rule: conn_step_elim)
  case conn_read
  obtain m k where mk: "line_message (fst (read_until (cs_input st))) = (m, k)" by fastforce
  show ?thesis
  proof (cases k)
    case None
    then have "length (snd (read_until (cs_input st))) < length (cs_input st)"
      using line_message_continues mk read_until_shorter by blast
    with conn_read mk None show ?thesis by (simp add: conn_weight_def)
  next
    case (Some r)
    with conn_read mk read_until_le [of "cs_input st"] show ?thesis by (simp add: conn_weight_def)
  qed
next
  case (conn_send m k)
  then show ?thesis by (cases k) (simp_all add: conn_weight_def)
next
  case (conn_send_closed m k p)
  then show ?thesis by (cases k) (simp_all add: conn_weight_def)
qed (auto simp: conn_weight_def dest: prefix_length_le)

lemma conn_run_weight: "(conn_step handle ^^ n) st st' \<Longrightarrow> n + conn_weight st' \<le> conn_weight st"
  by (induction n arbitrary: st') (fastforce dest: conn_weight_step)+

text \<open>Every state leads to one where no thread can go on.\<close>

lemma conn_reaches_stuck: "\<exists>st'. (conn_step handle)\<^sup>*\<^sup>* st st' \<and> conn_stuck handle st'"
proof (induction "conn_weight st" arbitrary: st rule: less_induct)
  case less
  show ?case
  proof (cases "conn_stuck handle st")
    case False
    then obtain st1 where "conn_step handle st st1" by (auto simp: conn_stuck_def)
    with less [OF conn_weight_step [OF this]] show ?thesis
      by (meson converse_rtranclp_into_rtranclp)
  qed blast
qed

text \<open>Where the threads can be when neither can go on.\<close>

lemma conn_stuck_cases:
  assumes "conn_stuck handle st"
  obtains (crashed) p r where "cs_replier st = Crashed p" "cs_reader st = Returned r"
  | (finished) "cs_replier st = Finished"
  | (waiting) r where "cs_replier st = Replying" "cs_chan st = []" "cs_reader st = Returned r"
  | (blocked) r m k where "cs_replier st = Joining r" "cs_reader st = Sending m k" "chan_size \<le> length (cs_chan st)"
proof -
  have no: "\<not> conn_step handle st st'" for st' using assms by (simp add: conn_stuck_def)
  have reading: "cs_reader st \<noteq> Reading"
    using no conn_read [of st handle] conn_read_error [of st handle] by blast
  have sending: "chan_size \<le> length (cs_chan st) \<and> (\<nexists>p. cs_replier st = Crashed p)" if "cs_reader st = Sending m k" for m k
    using no conn_send [OF that, of handle] conn_send_closed [OF that, of _ handle] by (meson not_less)
  have replying: "cs_chan st = []" if r: "cs_replier st = Replying"
  proof (cases "cs_chan st")
    case (Cons msg msgs)
    show ?thesis
    proof (cases msg)
      case (Request line)
      with Cons no show ?thesis
        using conn_reply [OF r] conn_fail [OF r] conn_crash [OF r]
        by (cases "handle line (cs_env st)"; cases "fst (handle line (cs_env st))") fastforce+
    next
      case Done
      with Cons no show ?thesis using conn_done [OF r, of msgs "cs_input st" False handle] by fastforce
    qed
  qed
  have joining: "cs_reader st \<noteq> Returned r'" if "cs_replier st = Joining r" for r r'
    using no conn_join [OF that, of r' handle] by blast
  show thesis
  proof (cases "cs_replier st")
    case Replying
    with replying reading sending waiting show ?thesis
      by (cases "cs_reader st") (auto simp: chan_size_def)
  next
    case (Joining r)
    with joining reading sending blocked show ?thesis by (cases "cs_reader st") auto
  next
    case (Crashed p)
    with reading sending crashed show ?thesis by (cases "cs_reader st") auto
  qed (use finished in auto)
qed

section \<open>Conversations that complete\<close>

text \<open>The reader sends \<open>Done\<close> last, and always when the stream ends properly.\<close>

lemma handle_requests_done:
  "Done \<notin> set (butlast (fst (handle_requests broken input)))"
  "\<not> broken \<Longrightarrow> fst (handle_requests broken input) \<noteq> [] \<and> last (fst (handle_requests broken input)) = Done"
proof (induction broken input rule: handle_requests.induct)
  case (1 broken input)
  note IH = 1
  let ?rest = "fst (handle_requests broken (snd (read_until input)))"
  obtain m k where mk: "line_message (fst (read_until input)) = (m, k)" by fastforce
  have m: "m \<noteq> Done \<longleftrightarrow> k = None" using mk by (auto simp: line_message_def split: if_splits option.splits)
  have eq: "fst (handle_requests broken input) =
      (if read_fails broken input then [] else if k = None then m # ?rest else [m])"
    using mk by (subst handle_requests.simps) (cases k; simp split: prod.splits)
  { case 1
    then show ?case unfolding eq using IH(1) [OF _ mk [symmetric]] m by auto
  next
    case 2
    then show ?case unfolding eq using IH(2) [OF _ mk [symmetric]] m by (auto simp: read_fails_def)
  }
qed

lemma unsent_empty: "\<not> broken \<Longrightarrow> unsent reader broken input = [] \<Longrightarrow> \<exists>r. reader = Returned r"
  using handle_requests_done(2) [of broken input]
  by (cases "(reader, broken, input)" rule: unsent.cases) auto

text \<open>After a proper end of the conversation the reader has returned.\<close>

definition conn_ended :: "'e conn_state \<Rightarrow> bool" where
  "conn_ended st \<longleftrightarrow> (cs_replier st = Replying \<longrightarrow> \<not> cs_broken st) \<and>
     (cs_replier st = Joining (Ok ()) \<longrightarrow> (\<exists>r. cs_reader st = Returned r))"

lemma conn_ended_reachable:
  assumes "(conn_step handle)\<^sup>*\<^sup>* (conn_new input False e) st"
  shows "conn_ended st"
  using assms
proof (induction rule: rtranclp_induct)
  case base
  show ?case by (simp add: conn_ended_def conn_new_def)
next
  case (step st st')
  have inv: "conn_inv handle (fst (handle_requests False input)) e st"
    by (rule conn_inv_reachable [OF step.hyps(1)])
  from step.hyps(2) show ?case
  proof (cases rule: conn_step_elim)
    case (conn_done msgs input' broken')
    obtain pre where pre: "fst (handle_requests False input) = pre @ Done # msgs @ unsent (cs_reader st) (cs_broken st) (cs_input st)"
      using inv conn_done by (auto simp: conn_inv_def conn_left_def suffix_def)
    have "msgs @ unsent (cs_reader st) (cs_broken st) (cs_input st) = []"
      using handle_requests_done(1) [of False input] unfolding pre by (auto simp: butlast_append split: if_splits)
    then show ?thesis
      using step.IH conn_done unsent_empty by (auto simp: conn_ended_def)
  qed (use step.IH in \<open>auto simp: conn_ended_def split: option.splits prod.splits\<close>)
qed

lemma conn_completes:
  assumes "(conn_step handle)\<^sup>*\<^sup>* (conn_new input False e) st" and "conn_stuck handle st"
    and "handle_replies handle (fst (handle_requests False input)) e = Some (Ok (), e')"
  shows "cs_replier st = Finished \<and> cs_env st = e'"
proof -
  have inv: "conn_inv handle (fst (handle_requests False input)) e st"
    by (rule conn_inv_reachable [OF assms(1)])
  from assms(2) show ?thesis
  proof (cases rule: conn_stuck_cases)
    case (blocked r m k)
    then show ?thesis using inv assms(3) conn_ended_reachable [OF assms(1)]
      by (auto simp: conn_inv_def conn_ended_def)
  qed (use inv assms(3) in \<open>auto simp: conn_inv_def conn_left_def\<close>)
qed

section \<open>Connections that hang\<close>

text \<open>The reader goes on until the channel is full, though nobody receives any more.\<close>

lemma reader_fills:
  assumes "cs_replier st = Joining r" and "cs_reader st = Reading" and "length (cs_chan st) + n = chan_size"
    and "chan_size < length (conn_left st)"
  shows "\<exists>st' m k. (conn_step handle)\<^sup>*\<^sup>* st st' \<and> cs_replier st' = Joining r \<and>
           cs_reader st' = Sending m k \<and> length (cs_chan st') = chan_size"
  using assms
proof (induction n arbitrary: st)
  case (0 st)
  obtain m k where mk: "line_message (fst (read_until (cs_input st))) = (m, k)" by fastforce
  have "\<not> read_fails (cs_broken st) (cs_input st)"
    using 0 by (auto simp: conn_left_def handle_requests.simps [of "cs_broken st" "cs_input st"])
  from conn_read [OF 0(2) this, of handle] 0 mk show ?case
    by (intro exI [of _ "st\<lparr>cs_input := snd (read_until (cs_input st)), cs_reader := Sending m k\<rparr>"]) auto
next
  case (Suc n st)
  obtain m k where mk: "line_message (fst (read_until (cs_input st))) = (m, k)" by fastforce
  let ?st1 = "st\<lparr>cs_input := snd (read_until (cs_input st)), cs_reader := Sending m k\<rparr>"
  have ok: "\<not> read_fails (cs_broken st) (cs_input st)"
    using Suc by (auto simp: conn_left_def handle_requests.simps [of "cs_broken st" "cs_input st"])
  have step1: "conn_step handle st ?st1" using conn_read [OF Suc.prems(2) ok, of handle] mk by simp
  have left: "conn_left ?st1 = conn_left st"
    using Suc.prems(2) unsent_read [OF ok mk] by (simp add: conn_left_def)
  have k: "k = None"
  proof (rule ccontr)
    assume "k \<noteq> None"
    then have "length (conn_left ?st1) = Suc (length (cs_chan st))" by (auto simp: conn_left_def)
    with Suc.prems(3,4) left show False by simp
  qed
  let ?st2 = "?st1\<lparr>cs_chan := cs_chan st @ [m], cs_reader := Reading\<rparr>"
  have step2: "conn_step handle ?st1 ?st2"
    using conn_send [of ?st1 m k handle] Suc.prems(1,3) k by simp
  have left2: "conn_left ?st2 = conn_left st" using left k by (simp add: conn_left_def)
  have "\<exists>st' m k. (conn_step handle)\<^sup>*\<^sup>* ?st2 st' \<and> cs_replier st' = Joining r \<and>
           cs_reader st' = Sending m k \<and> length (cs_chan st') = chan_size"
    by (rule Suc.IH) (use Suc.prems left2 in simp_all)
  with step1 step2 show ?case by (meson converse_rtranclp_into_rtranclp)
qed

text \<open>
  C32: A faulty request can block a connection forever. If the first request fails (invalid JSON, an
  unknown method, a reply that cannot be written) and at least eleven messages follow, there is a schedule
  after which neither thread can go on: the replying thread has left its loop and waits for the reader,
  which waits for a place in the full channel that nobody empties.
\<close>

theorem connection_deadlock:
  assumes "fst (handle_requests broken input) = Request line # msgs" and "handle line e = (Err x, e')"
    and "11 \<le> length msgs"
  shows "\<exists>st m k. (conn_step handle)\<^sup>*\<^sup>* (conn_new input broken e) st \<and> conn_stuck handle st \<and>
           cs_replier st = Joining (Err x) \<and> cs_reader st = Sending m k"
proof -
  let ?st0 = "conn_new input broken e"
  obtain m k where mk: "line_message (fst (read_until input)) = (m, k)" by fastforce
  have ok: "\<not> read_fails broken input"
    using assms(1) by (auto simp: handle_requests.simps [of broken input])
  note sent = unsent_read [OF ok mk, unfolded assms(1)]
  have m: "m = Request line" "k = None" "fst (handle_requests broken (snd (read_until input))) = msgs"
    using sent assms(3) by (cases k; auto)+
  let ?st1 = "?st0\<lparr>cs_input := snd (read_until input), cs_reader := Sending m k\<rparr>"
  have "conn_step handle ?st0 ?st1" using conn_read [of ?st0 handle] ok mk by (simp add: conn_new_def)
  moreover let ?st2 = "?st1\<lparr>cs_chan := [m], cs_reader := Reading\<rparr>"
  have "conn_step handle ?st1 ?st2"
    using conn_send [of ?st1 m k handle] m by (simp add: conn_new_def chan_size_def)
  moreover let ?st3 = "?st2\<lparr>cs_chan := [], cs_env := e', cs_replier := Joining (Err x)\<rparr>"
  have "conn_step handle ?st2 ?st3"
    using conn_fail [of ?st2 line "[]" handle x e' "snd (read_until input)" broken] assms(2) m
    by (simp add: conn_new_def)
  moreover obtain st m k where st: "(conn_step handle)\<^sup>*\<^sup>* ?st3 st" "cs_replier st = Joining (Err x)"
      "cs_reader st = Sending m k" "length (cs_chan st) = chan_size"
    using reader_fills [of ?st3 "Err x" chan_size handle] assms(3) m
    by (auto simp: conn_new_def conn_left_def chan_size_def)
  ultimately have "(conn_step handle)\<^sup>*\<^sup>* ?st0 st" by (meson converse_rtranclp_into_rtranclp)
  moreover have "conn_stuck handle st"
    using st(2-4) by (auto simp: conn_stuck_def elim: conn_step_elim)
  ultimately show ?thesis using st by blast
qed

section \<open>A client that is served\<close>

text \<open>
  What the connection relies on of the handling of requests: a request with an answer is handled
  without an error, and its answer is appended to the output.
\<close>

locale request_handler =
  fixes handle :: "string \<Rightarrow> 'e \<Rightarrow> unit res \<times> 'e"
    and ready :: "'e \<Rightarrow> bool"
    and out :: "'e \<Rightarrow> string list"
    and answer :: "string \<Rightarrow> string option"
  assumes served: "ready e \<Longrightarrow> answer line = Some a \<Longrightarrow>
    \<exists>e'. handle line e = (Ok (), e') \<and> ready e' \<and> out e' = out e @ [a]"
begin

lemma handle_all:
  assumes "ready e" and "\<forall>line \<in> set ls. answer line \<noteq> None"
  shows "\<exists>e'. handle_replies handle (map Request ls @ [Done]) e = Some (Ok (), e') \<and>
              out e' = out e @ map (the \<circ> answer) ls"
  using assms
proof (induction ls arbitrary: e)
  case (Cons line ls)
  then obtain a where a: "answer line = Some a" by auto
  obtain e1 where e1: "handle line e = (Ok (), e1)" "ready e1" "out e1 = out e @ [a]"
    using served [OF Cons.prems(1) a] by blast
  with Cons.IH [OF e1(2)] Cons.prems(2) a show ?case by auto
qed auto

text \<open>Every schedule of a conversation that only asks what has an answer completes, with the answers in order.\<close>

lemma conversation_completes:
  assumes "ready e" and "\<forall>line \<in> set ls. answer line \<noteq> None"
    and "fst (handle_requests False input) = map Request ls @ [Done]"
    and "(conn_step handle)\<^sup>*\<^sup>* (conn_new input False e) st" and "conn_stuck handle st"
  shows "cs_replier st = Finished \<and> out (cs_env st) = out e @ map (the \<circ> answer) ls"
  using handle_all [OF assms(1,2)] conn_completes [OF assms(4,5)] assms(3) by auto

text \<open>
  The same conversation on a socket that breaks: the reader never has \<open>Done\<close> to send, and returns only the error.
\<close>

definition unended :: "string list \<Rightarrow> 'e \<Rightarrow> 'e conn_state \<Rightarrow> bool" where
  "unended ls e st \<longleftrightarrow> cs_replier st = Replying \<and> ready (cs_env st) \<and>
     (\<exists>replied left. ls = replied @ left \<and> conn_left st = map Request left \<and>
        out (cs_env st) = out e @ map (the \<circ> answer) replied) \<and>
     (case cs_reader st of Reading \<Rightarrow> True | Sending m k \<Rightarrow> k = None | Returned r \<Rightarrow> r = Err read_error)"

lemma unended_step:
  assumes "unended ls e st" and "\<forall>line \<in> set ls. answer line \<noteq> None" and "conn_step handle st st'"
  shows "unended ls e st'"
proof -
  obtain replied left where inv: "cs_replier st = Replying" "ready (cs_env st)" "ls = replied @ left"
      "conn_left st = map Request left" "out (cs_env st) = out e @ map (the \<circ> answer) replied"
    and reader: "case cs_reader st of Reading \<Rightarrow> True | Sending m k \<Rightarrow> k = None | Returned r \<Rightarrow> r = Err read_error"
    using assms(1) by (auto simp: unended_def)
  have no_done: "Done \<notin> set (conn_left st)" using inv(4) by auto
  have handled: "\<exists>a e'. answer line = Some a \<and> handle line (cs_env st) = (Ok (), e') \<and> ready e' \<and> out e' = out (cs_env st) @ [a]"
    if "line \<in> set left" for line
    using served [OF inv(2)] assms(2) that inv(3) by (metis Un_iff option.exhaust set_append)
  from assms(3) show ?thesis
  proof (cases rule: conn_step_elim)
    case conn_read
    obtain m k where mk: "line_message (fst (read_until (cs_input st))) = (m, k)" by fastforce
    have left: "conn_left st' = conn_left st"
      using conn_read unsent_read [OF conn_read(3) mk] mk by (simp add: conn_left_def)
    have "m \<in> set (conn_left st')" using conn_read mk by (cases k) (simp_all add: conn_left_def)
    then have "m \<in> set (conn_left st)" unfolding left .
    then have "k = None" using mk no_done by (auto simp: line_message_def split: if_splits option.splits)
    with conn_read mk left inv show ?thesis by (auto simp: unended_def)
  next
    case conn_read_error
    then have "conn_left st' = conn_left st"
      by (simp add: conn_left_def handle_requests.simps [of "cs_broken st" "cs_input st"])
    with conn_read_error inv show ?thesis by (auto simp: unended_def)
  next
    case (conn_send m k)
    then have "conn_left st' = conn_left st" by (cases k) (simp_all add: conn_left_def)
    with conn_send inv reader show ?thesis by (auto simp: unended_def)
  next
    case (conn_reply line msgs e1)
    then have "conn_left st = Request line # conn_left st'" by (simp add: conn_left_def)
    then obtain left' where "left = line # left'" "conn_left st' = map Request left'" using inv(4) by (cases left) auto
    then have "\<exists>replied left. ls = replied @ left \<and> conn_left st' = map Request left \<and>
        out (cs_env st') = out e @ map (the \<circ> answer) replied"
      using conn_reply inv handled [of line] by (intro exI [of _ "replied @ [line]"] exI [of _ left']) auto
    with conn_reply inv reader \<open>left = line # left'\<close> handled [of line] show ?thesis by (auto simp: unended_def)
  next
    case (conn_fail line msgs e1 x input broken)
    then show ?thesis using inv(4) handled [of line] by (cases left) (auto simp: conn_left_def)
  next
    case (conn_crash line msgs e1 p)
    then show ?thesis using inv(4) handled [of line] by (cases left) (auto simp: conn_left_def)
  qed (use inv(1) no_done in \<open>auto simp: conn_left_def\<close>)
qed

lemma conversation_never_ends:
  assumes "ready e" and "\<forall>line \<in> set ls. answer line \<noteq> None" and "fst (handle_requests True input) = map Request ls"
    and "(conn_step handle)\<^sup>*\<^sup>* (conn_new input True e) st"
  shows "cs_replier st = Replying \<and>
         (conn_stuck handle st \<longrightarrow> cs_reader st = Returned (Err read_error) \<and> cs_chan st = [] \<and>
            out (cs_env st) = out e @ map (the \<circ> answer) ls)"
proof -
  have "unended ls e (conn_new input True e)"
    using assms(1,3) by (auto simp: unended_def conn_new_def conn_left_def)
  with assms(4) have inv: "unended ls e st"
    by (induction rule: rtranclp_induct) (use unended_step assms(2) in blast)+
  moreover have "cs_reader st = Returned (Err read_error) \<and> cs_chan st = [] \<and> out (cs_env st) = out e @ map (the \<circ> answer) ls"
    if "conn_stuck handle st"
    using that inv by (cases rule: conn_stuck_cases) (auto simp: unended_def conn_left_def)
  ultimately show ?thesis by (auto simp: unended_def)
qed

end

text \<open>The reply to a request, when the query is in the state \<open>q\<close>.\<close>

definition request_reply :: "deps \<Rightarrow> (string list \<Rightarrow> string list) \<Rightarrow> 's read_store \<Rightarrow> ('s, 'e) peer \<Rightarrow> 's query \<Rightarrow>
    string \<Rightarrow> json option" where
  "request_reply D iter RS P q line =
     Option.bind (Option.bind (peer_parse P line) request_of) (\<lambda>(meth, params, req_id).
       case handle_command D iter RS q meth params req_id of Ok reply \<Rightarrow> Some reply | _ \<Rightarrow> None)"

text \<open>Writing succeeds and is logged by \<open>out\<close>; the query does not change meanwhile.\<close>

definition peer_keeps :: "('s, 'e) peer \<Rightarrow> ('e \<Rightarrow> string list) \<Rightarrow> 's query \<Rightarrow> bool" where
  "peer_keeps P out q \<longleftrightarrow>
     (\<forall>e s. peer_query P e = q \<longrightarrow>
        (\<exists>e'. peer_write P e s = (True, e') \<and> peer_query P e' = q \<and> out e' = out e @ [s]))"

interpretation commands: request_handler "handle_request D iter RS P" "\<lambda>e. peer_keeps P out q \<and> peer_query P e = q" out
    "\<lambda>line. map_option (\<lambda>reply. peer_print P reply @ newline) (request_reply D iter RS P q line)" for D iter RS P out q
proof
  fix e line a
  assume ready: "peer_keeps P out q \<and> peer_query P e = q"
    and a: "map_option (\<lambda>reply. peer_print P reply @ newline) (request_reply D iter RS P q line) = Some a"
  then obtain reply where r: "request_reply D iter RS P q line = Some reply" "a = peer_print P reply @ newline"
    by auto
  then obtain cmd meth params req_id where c: "peer_parse P line = Some cmd" "request_of cmd = Some (meth, params, req_id)"
    and h: "(case handle_command D iter RS q meth params req_id of Ok reply \<Rightarrow> Some reply | _ \<Rightarrow> None) = Some reply"
    unfolding request_reply_def bind_eq_Some_conv by auto
  from h have "handle_command D iter RS q meth params req_id = Ok reply"
    by (cases "handle_command D iter RS q meth params req_id") simp_all
  moreover obtain e' where "peer_write P e a = (True, e')" "peer_query P e' = q" "out e' = out e @ [a]"
    using ready unfolding peer_keeps_def by blast
  ultimately show "\<exists>e'. handle_request D iter RS P line e = (Ok (), e') \<and>
      (peer_keeps P out q \<and> peer_query P e' = q) \<and> out e' = out e @ [a]"
    using ready c r(2) by (auto simp: handle_request_def)
qed

subsection \<open>Lines of text\<close>

definition text_bytes :: "string \<Rightarrow> bytes" where
  "text_bytes s = map (\<lambda>c. of_nat (of_char c)) s"

text \<open>A line of printable ASCII.\<close>

definition ascii_line :: "string \<Rightarrow> bool" where
  "ascii_line s \<longleftrightarrow> (\<forall>c \<in> set s. 32 \<le> (of_char c :: nat) \<and> of_char c < (128 :: nat))"

definition client_input :: "string list \<Rightarrow> bytes" where
  "client_input ls = concat (map (\<lambda>s. text_bytes s @ [10]) ls)"

lemma valid_utf8_ascii: "\<forall>b \<in> set bs. b < 0x80 \<Longrightarrow> valid_utf8 bs"
  by (induction bs) auto

lemma unat_of_char: "unat (of_nat (of_char c) :: byte) = of_char c"
  by (simp add: unat_of_nat take_bit_nat_eq_self)

lemma ascii_bytes:
  assumes "ascii_line s" and "b \<in> set (text_bytes s)"
  shows "32 \<le> b" and "b < 0x80"
proof -
  obtain c where c: "c \<in> set s" "b = of_nat (of_char c)" using assms(2) by (auto simp: text_bytes_def)
  then have "unat b = of_char c" by (simp only: unat_of_char)
  then have "32 \<le> unat b" "unat b < 128" using assms(1) c(1) by (auto simp: ascii_line_def)
  then show "32 \<le> b" "b < 0x80" by (simp_all add: word_le_nat_alt word_less_nat_alt)
qed

lemma line_message_text:
  assumes "ascii_line s"
  shows "line_message (text_bytes s @ [10]) = (Request (s @ newline), None)"
proof -
  note b = ascii_bytes [OF assms]
  have "valid_utf8 (text_bytes s @ [10])" by (rule valid_utf8_ascii) (auto dest: b(2))
  moreover have "\<not> prefix [22, 3, 1] (text_bytes s @ [10])"
  proof
    assume "prefix [22, 3, 1] (text_bytes s @ [10])"
    then show False using b(1) [of 22] by (cases "text_bytes s") auto
  qed
  moreover have "string_of (text_bytes s @ [10]) = s @ newline"
  proof -
    have "char_of (10 :: nat) = CHR 0x0A" by (simp add: char_of_def bit_0)
    then show ?thesis by (simp add: string_of_def text_bytes_def newline_def comp_def unat_of_char map_idI)
  qed
  ultimately show ?thesis by (simp add: line_message_def from_utf8_def)
qed

lemma read_until_text:
  assumes "ascii_line s"
  shows "read_until (text_bytes s @ 10 # rest) = (text_bytes s @ [10], rest)"
proof -
  have "\<forall>b \<in> set (text_bytes s). b \<noteq> 10" using ascii_bytes(1) [OF assms, of 10] by auto
  then show ?thesis by (simp add: read_until_def takeWhile_append2 dropWhile_append2)
qed

lemma handle_requests_lines:
  "list_all ascii_line ls \<Longrightarrow> fst (handle_requests broken (client_input ls @ rest)) =
     map (\<lambda>s. Request (s @ newline)) ls @ fst (handle_requests broken rest)"
proof (induction ls)
  case (Cons s ls)
  have "read_until (client_input (s # ls) @ rest) = (text_bytes s @ [10], client_input ls @ rest)"
    using Cons.prems read_until_text by (simp add: client_input_def)
  moreover have "\<not> read_fails broken (client_input (s # ls) @ rest)" by (simp add: read_fails_def client_input_def)
  ultimately show ?case
    using Cons line_message_text [of s]
    by (subst handle_requests.simps) (cases "handle_requests broken (client_input ls @ rest)"; simp)
qed (simp add: client_input_def)

lemma handle_requests_client:
  "list_all ascii_line ls \<Longrightarrow> fst (handle_requests broken (client_input ls)) =
     map (\<lambda>s. Request (s @ newline)) ls @ (if broken then [] else [Done])"
  using handle_requests_lines [of ls broken "[]"]
  by (simp add: handle_requests.simps [of broken "[]"] read_fails_def read_until_def line_message_def)

lemma handle_requests_cut:
  "list_all ascii_line ls \<Longrightarrow> 10 \<notin> set part \<Longrightarrow>
     fst (handle_requests True (client_input ls @ part)) = map (\<lambda>s. Request (s @ newline)) ls"
  by (simp add: handle_requests_lines handle_requests.simps [of True part] read_fails_def)

text \<open>
  C10: A well-behaved client gets every answer, in order, and the connection ends. Let a client send lines
  of text, each a request that the server answers, and close; let writing to it succeed and the query
  not change meanwhile. Then every run of the two threads has at most \<open>3 n + 5\<close> steps for \<open>n\<close> bytes of
  input, and where no further step is possible the connection is finished and exactly one reply was
  written per request, in the order of the requests.
\<close>

theorem connection_answers:
  fixes D iter RS and P :: "('s, 'e) peer" and q :: "'s query"
  defines "reply \<equiv> \<lambda>s. request_reply D iter RS P q (s @ newline)"
  assumes "list_all ascii_line ls" and "\<forall>s \<in> set ls. reply s \<noteq> None"
    and "peer_keeps P out q" and "peer_query P e = q"
  shows "(\<forall>n st. (conn_step (handle_request D iter RS P) ^^ n) (conn_new (client_input ls) False e) st \<longrightarrow>
            n \<le> 3 * length (client_input ls) + 5) \<and>
         (\<forall>st. (conn_step (handle_request D iter RS P))\<^sup>*\<^sup>* (conn_new (client_input ls) False e) st \<and>
            conn_stuck (handle_request D iter RS P) st \<longrightarrow>
            cs_replier st = Finished \<and>
            out (cs_env st) = out e @ map (\<lambda>s. peer_print P (the (reply s)) @ newline) ls)"
proof (intro conjI allI impI)
  fix n and st :: "'e conn_state"
  assume "(conn_step (handle_request D iter RS P) ^^ n) (conn_new (client_input ls) False e) st"
  from conn_run_weight [OF this] show "n \<le> 3 * length (client_input ls) + 5"
    by (simp add: conn_weight_def conn_new_def)
next
  fix st :: "'e conn_state"
  assume st: "(conn_step (handle_request D iter RS P))\<^sup>*\<^sup>* (conn_new (client_input ls) False e) st \<and>
    conn_stuck (handle_request D iter RS P) st"
  let ?answer = "\<lambda>l. map_option (\<lambda>reply. peer_print P reply @ newline) (request_reply D iter RS P q l)"
  have "cs_replier st = Finished \<and> out (cs_env st) = out e @ map (the \<circ> ?answer) (map (\<lambda>s. s @ newline) ls)"
    using assms(3-5) handle_requests_client [OF assms(2), of False] st
    by (intro commands.conversation_completes [where input = "client_input ls" and out = out]) (auto simp: reply_def)
  moreover have "map (the \<circ> ?answer) (map (\<lambda>s. s @ newline) ls) = map (\<lambda>s. peer_print P (the (reply s)) @ newline) ls"
    using assms(3) by (auto simp: reply_def)
  ultimately show "cs_replier st = Finished"
    and "out (cs_env st) = out e @ map (\<lambda>s. peer_print P (the (reply s)) @ newline) ls"
    by simp_all
qed

text \<open>
  C33: A broken connection is never cleaned up. Let a client send lines of text, each a request that the server
  answers, perhaps the beginning of another line, and let the next read of the socket fail (a reset, say). Then every
  run of the two threads has at most \<open>3 n + 5\<close> steps for \<open>n\<close> bytes of input, under every schedule the replying
  thread stays in its loop, and where no further step is possible every request was answered in order, the reader
  has returned its error without sending \<open>Done\<close> and the channel is empty but not closed (the connection keeps a
  sender of its own): \<open>recv\<close> waits forever, and the thread and the socket are leaked.
\<close>

theorem connection_hangs_on_read_error:
  fixes D iter RS and P :: "('s, 'e) peer" and q :: "'s query"
  defines "reply \<equiv> \<lambda>s. request_reply D iter RS P q (s @ newline)"
  assumes "list_all ascii_line ls" and "\<forall>s \<in> set ls. reply s \<noteq> None"
    and "peer_keeps P out q" and "peer_query P e = q" and "10 \<notin> set part"
  shows "(\<forall>n st. (conn_step (handle_request D iter RS P) ^^ n) (conn_new (client_input ls @ part) True e) st \<longrightarrow>
            n \<le> 3 * length (client_input ls @ part) + 5) \<and>
         (\<forall>st. (conn_step (handle_request D iter RS P))\<^sup>*\<^sup>* (conn_new (client_input ls @ part) True e) st \<longrightarrow>
            cs_replier st = Replying \<and>
            (conn_stuck (handle_request D iter RS P) st \<longrightarrow>
               cs_reader st = Returned (Err read_error) \<and> cs_chan st = [] \<and>
               out (cs_env st) = out e @ map (\<lambda>s. peer_print P (the (reply s)) @ newline) ls))"
proof -
  let ?answer = "\<lambda>l. map_option (\<lambda>reply. peer_print P reply @ newline) (request_reply D iter RS P q l)"
  have answers: "map (the \<circ> ?answer) (map (\<lambda>s. s @ newline) ls) = map (\<lambda>s. peer_print P (the (reply s)) @ newline) ls"
    using assms(3) by (auto simp: reply_def)
  have "cs_replier st = Replying \<and> (conn_stuck (handle_request D iter RS P) st \<longrightarrow>
      cs_reader st = Returned (Err read_error) \<and> cs_chan st = [] \<and>
      out (cs_env st) = out e @ map (the \<circ> ?answer) (map (\<lambda>s. s @ newline) ls))"
    if "(conn_step (handle_request D iter RS P))\<^sup>*\<^sup>* (conn_new (client_input ls @ part) True e) st" for st
    using assms(3-5) handle_requests_cut [OF assms(2,6)]
    by (intro commands.conversation_never_ends [OF _ _ _ that]) (auto simp: reply_def)
  moreover have "n \<le> 3 * length (client_input ls @ part) + 5"
    if "(conn_step (handle_request D iter RS P) ^^ n) (conn_new (client_input ls @ part) True e) st" for n st
    using conn_run_weight [OF that] by (simp add: conn_weight_def conn_new_def)
  ultimately show ?thesis unfolding answers by blast
qed

section \<open>Examples\<close>

text \<open>A client that logs what it gets, on the example database.\<close>

definition ex_peer :: "(memdb dbstore, string list) peer" where
  "ex_peer = \<lparr>peer_query = \<lambda>_. ex_query ex_tx_blocks, peer_write = \<lambda>e s. (True, e @ [s]),
     peer_print = enc_json, peer_parse = parse_json\<rparr>"

definition ex_command :: "string \<Rightarrow> string" where
  "ex_command meth = enc_json (JObj [(''method'', JStr meth), (''id'', JInt 7)])"

definition ex_handle :: "string \<Rightarrow> string list \<Rightarrow> unit res \<times> string list" where
  "ex_handle = handle_request ref_deps (\<lambda>xs. xs) (db_read_store mem_rocksdb) ex_peer"

definition ex_pong :: json where
  "ex_pong = JObj [(''jsonrpc'', JStr ''2.0''), (''id'', JInt 7), (''result'', JNull)]"

lemma ascii_line_enc_json: "ascii_line (enc_json j)"
  using enc_json_ascii [of j] enc_json_range [of j] by (fastforce simp: ascii_line_def)

lemma ascii_line_ex_command [simp]: "ascii_line (ex_command meth)"
  unfolding ex_command_def by (rule ascii_line_enc_json)

lemma ex_peer_sel [simp]:
  "peer_query ex_peer e = ex_query ex_tx_blocks" "peer_write ex_peer e s = (True, e @ [s])"
  "peer_print ex_peer = enc_json" "peer_parse ex_peer = parse_json"
  by (simp_all add: ex_peer_def)

lemma ex_request_of:
  "Option.bind (parse_json (ex_command meth @ newline)) request_of = Some (meth, [], JInt 7)"
  unfolding ex_command_def parse_enc_json_append by (simp add: request_of_def)

lemma ex_replies:
  "request_reply ref_deps iter (db_read_store mem_rocksdb) ex_peer q (ex_command ''server.ping'' @ newline) = Some ex_pong"
  by (simp add: request_reply_def ex_request_of handle_command_def command_result_def ex_pong_def)

lemma ex_handle_replies:
  "ex_handle (ex_command ''server.ping'' @ newline) e = (Ok (), e @ [enc_json ex_pong @ newline])"
  "ex_handle (ex_command ''server.pong'' @ newline) e = (bail (Msg ''unknown method''), e)"
  using ex_request_of [of "''server.ping''"] ex_request_of [of "''server.pong''"]
  by (auto simp: ex_handle_def handle_request_def handle_command_def command_result_def ex_pong_def bail_def
      bind_eq_Some_conv)

theorem connection_answers_witness:
  "\<exists>st. (conn_step ex_handle)\<^sup>*\<^sup>* (conn_new (client_input [ex_command ''server.ping'', ex_command ''server.ping'']) False []) st \<and>
        cs_replier st = Finished \<and> cs_env st = [enc_json ex_pong @ newline, enc_json ex_pong @ newline]"
proof -
  let ?ls = "[ex_command ''server.ping'', ex_command ''server.ping'']"
  have "peer_keeps ex_peer (\<lambda>e. e) (ex_query ex_tx_blocks)" by (simp add: peer_keeps_def)
  moreover have "list_all ascii_line ?ls" by (simp add: list_all_iff)
  moreover obtain st where "(conn_step ex_handle)\<^sup>*\<^sup>* (conn_new (client_input ?ls) False []) st" "conn_stuck ex_handle st"
    using conn_reaches_stuck by blast
  ultimately show ?thesis
    using connection_answers [of ?ls ref_deps "\<lambda>xs. xs" "db_read_store mem_rocksdb" ex_peer "ex_query ex_tx_blocks" "\<lambda>e. e" "[]"]
    by (auto simp: ex_replies ex_handle_def)
qed

theorem connection_hangs_on_read_error_witness:
  "\<exists>st. (conn_step ex_handle)\<^sup>*\<^sup>* (conn_new (client_input [ex_command ''server.ping''] @ text_bytes ''{'') True []) st \<and>
        conn_stuck ex_handle st \<and> cs_replier st = Replying \<and> cs_env st = [enc_json ex_pong @ newline]"
proof -
  let ?ls = "[ex_command ''server.ping'']" and ?part = "text_bytes ''{''"
  have "peer_keeps ex_peer (\<lambda>e. e) (ex_query ex_tx_blocks)" by (simp add: peer_keeps_def)
  moreover have "list_all ascii_line ?ls" by simp
  moreover have "10 \<notin> set ?part" by (simp add: text_bytes_def)
  moreover obtain st where "(conn_step ex_handle)\<^sup>*\<^sup>* (conn_new (client_input ?ls @ ?part) True []) st" "conn_stuck ex_handle st"
    using conn_reaches_stuck by blast
  ultimately show ?thesis
    using connection_hangs_on_read_error [of ?ls ref_deps "\<lambda>xs. xs" "db_read_store mem_rocksdb" ex_peer "ex_query ex_tx_blocks" "\<lambda>e. e" "[]" ?part]
    by (fastforce simp: ex_replies ex_handle_def)
qed

theorem connection_deadlock_witness:
  "\<exists>st m k. (conn_step ex_handle)\<^sup>*\<^sup>*
       (conn_new (client_input (ex_command ''server.pong'' # replicate 11 (ex_command ''server.ping''))) False []) st \<and>
     conn_stuck ex_handle st \<and> cs_replier st = Joining (bail (Msg ''unknown method'')) \<and> cs_reader st = Sending m k"
proof -
  let ?ls = "ex_command ''server.pong'' # replicate 11 (ex_command ''server.ping'')"
  have "list_all ascii_line ?ls" by (simp add: list_all_iff)
  then have "fst (handle_requests False (client_input ?ls)) =
      Request (ex_command ''server.pong'' @ newline) # replicate 11 (Request (ex_command ''server.ping'' @ newline)) @ [Done]"
    by (simp add: handle_requests_client)
  from connection_deadlock [OF this, of ex_handle "[]"] show ?thesis by (simp add: ex_handle_replies bail_def)
qed

theorem connection_refines_sequential_witness:
  "\<exists>st r. (conn_step ex_handle)\<^sup>*\<^sup>* (conn_new (client_input [ex_command ''server.ping'']) False []) st \<and>
     cs_replier st = Finished \<and>
     handle_replies ex_handle [Request (ex_command ''server.ping'' @ newline), Done] [] = Some (r, cs_env st)"
proof -
  let ?input = "client_input [ex_command ''server.ping'']"
  have msgs: "fst (handle_requests False ?input) = [Request (ex_command ''server.ping'' @ newline), Done]"
    by (simp add: handle_requests_client)
  then have ok: "handle_replies ex_handle (fst (handle_requests False ?input)) [] = Some (Ok (), [enc_json ex_pong @ newline])"
    by (simp add: ex_handle_replies)
  obtain st where st: "(conn_step ex_handle)\<^sup>*\<^sup>* (conn_new ?input False []) st" "conn_stuck ex_handle st"
    using conn_reaches_stuck by blast
  have fin: "cs_replier st = Finished" using conn_completes [OF st ok] by simp
  then obtain r where "handle_replies ex_handle (fst (handle_requests False ?input)) [] = Some (r, cs_env st)"
    using connection_refines_sequential [OF st(1)] by blast
  then show ?thesis using st(1) fin unfolding msgs by blast
qed

end
