(* ===== verification/Client.thy ===== *)
theory Client
  imports Node_Example
begin

text \<open>
  What the JSON-RPC client of \<open>daemon.rs\<close> guarantees: the checks of a reply on the wire and of its JSON,
  the retry loop and the cached transaction ids of a block. The facts they
  rest on are those of \<open>Daemon\<close> (for any environment) and of \<open>Bitcoind\<close> (for a node that answers as
  documented).
\<close>

section \<open>Replies\<close>

text \<open>
  The framing of replies. Whatever HTTP reply of one line arrives in order, \<open>recv\<close> accepts exactly
  the body whose length the header announces (with its line end) under status 200 or 500; a truncated or
  overlong body is a connection error, so that the request is repeated on a new connection; any other
  status is an error.
\<close>

lemma recv_checks_length:
  assumes "reads N e (status # reply_lines hs body) e'" and "headers_ok hs" and "body \<noteq> []"
    and "map_of (rev hs) ''Content-Length'' = Some (show_nat n)" and "0 < n" and "n < 2 ^ 64" and "length body < 2 ^ 64"
  shows "conn_recv N e = Some (if n \<noteq> Suc (length body) then bail (Connection ''unexpected length'')
           else if status \<in> {''HTTP/1.1 200 OK'', ''HTTP/1.1 500 Internal Server Error''} then Ok body
           else bail (Msg ''request failed''), e')"
  using conn_recv_lines [OF assms(1-3)] check_reply_length [OF assms(4-7)] by simp

text \<open>
  The checks of a JSON-RPC reply. It is accepted exactly when it is an object without an error code,
  with the id of the request and with a result, which is returned; the code \<open>-28\<close> (bitcoind is still
  starting) is a connection error, so that the request is repeated, and no other reply is.
\<close>

lemma parse_jsonrpc_reply_checks:
  "(parse_jsonrpc_reply reply msg_id = Ok v \<longleftrightarrow>
      (\<exists>m. reply = JObj m \<and> Option.bind (map_of m ''error'') parse_error_code = None \<and>
           map_of m ''id'' = Some (JInt (uint msg_id)) \<and> map_of m ''result'' = Some v)) \<and>
   (is_connection (parse_jsonrpc_reply reply msg_id) \<longleftrightarrow>
      (\<exists>m. reply = JObj m \<and> Option.bind (map_of m ''error'') parse_error_code = Some (- 28))) \<and>
   \<not> panics (parse_jsonrpc_reply reply msg_id)"
proof (cases reply)
  case (JObj m)
  have "check_error_code m = (case Option.bind (map_of m ''error'') parse_error_code of
      None \<Rightarrow> Ok () | Some code \<Rightarrow> if code = - 28 then bail (Connection ''RPC_IN_WARMUP'') else bail (Msg ''RPC error''))"
    by (simp add: check_error_code_def split: option.splits)
  with JObj show ?thesis
    by (cases "Option.bind (map_of m ''error'') parse_error_code"; cases "map_of m ''id''"; cases "map_of m ''result''")
       (auto simp: parse_jsonrpc_reply_def ok_or_def bail_def)
qed (auto simp: parse_jsonrpc_reply_def bail_def)

section \<open>Requests\<close>

text \<open>
  C22: Requests are answered in the end. On a node that answers, whose connection fails finitely often, a
  batch of requests that have results returns them, in order, after the reconnections it takes.
\<close>

theorem requests_answered:
  assumes "serves N S" and "daemon_up S d" and "length ps \<le> sv_limit S"
    and "\<forall>p \<in> set ps. sv_answer S (node_of S d) meth p \<noteq> None"
  shows "\<exists>d'. requests N meth ps d = Some (Ok (map (\<lambda>p. the (sv_answer S (node_of S d) meth p)) ps), d') \<and>
              node_of S d' = node_of S d \<and> daemon_up S d'"
  using requests_serves [OF assms] dstays_node by blast

theorem requests_answered_witness:
  "\<exists>d'. requests ex_net ''getbestblockhash'' [JArr []] ex_daemon =
     Some (Ok [JStr (to_hex ref_deps (mk_hash [2]))], d')"
proof -
  have "ex_answer ''getbestblockhash'' (JArr []) = Some (JStr (to_hex ref_deps (mk_hash [2])))"
    by (simp add: ex_table_simps)
  then show ?thesis
    using requests_answered [OF serves_ex ex_daemon_up(1), of "[JArr []]" "''getbestblockhash''"]
    by (auto simp: ex_server_simps)
qed

text \<open>
  Connection errors stay inside the client. Whatever the environment does, the retry loop never
  returns a connection error: it repeats the batch, or ends with another error (of the signal, of a
  socket that cannot be cloned, of the reply).
\<close>

lemma requests_hide_connection_errors:
  assumes "requests N meth ps d = Some (r, d')"
  shows "\<not> is_connection r"
  using retry_kind [of N meth ps d "(r, d')"] assms by (simp add: requests_def)

section \<open>Cached blocks\<close>

text \<open>
  C35: The cached transaction ids. On such a node, for a block of its chain and a cache that holds only true
  entries, \<open>getblocktxids\<close> returns the ids of the block's transactions, cached or not, and the cache
  still holds only true entries, within its capacity.
\<close>

theorem getblocktxids_exact:
  assumes "bitcoind D N S" and "daemon_up S d" and "b \<in> set (nd_blocks (node_of S d))"
    and "lru_ok L entries" and "cache_inv entries c" and "cached_in entries c \<subseteq>\<^sub>m (\<lambda>h. Some (f h))"
    and "f (blk_hash D b) = map (tx_txid D) (txdata b)"
  shows "\<exists>c' d'. getblocktxids L D N (blk_hash D b) (c, d) = Some (Ok (map (tx_txid D) (txdata b)), (c', d')) \<and>
           cache_inv entries c' \<and> cached_in entries c' \<subseteq>\<^sub>m (\<lambda>h. Some (f h))"
proof -
  have inv: "lru_ok L entries \<and> cache_inv entries c" using assms(4,5) ..
  obtain d1 where load: "load_blocktxids D N (blk_hash D b) d = Some (Ok (map (tx_txid D) (txdata b)), d1)"
    using load_blocktxids_serves [OF assms(1-3)] by blast
  obtain r c' d' where run: "get_or_else_with (SizedLruCache_get L) (SizedLruCache_put L) (blk_hash D b)
      (load_blocktxids D N (blk_hash D b)) (c, d) = Some (r, (c', d'))"
    using txids.get_or_else_returns [OF inv, of "blk_hash D b" "load_blocktxids D N (blk_hash D b)" d] load by auto
  have "(lru_ok L entries \<and> cache_inv entries c') \<and> cached_in entries c' \<subseteq>\<^sub>m (\<lambda>h. Some (f h)) \<and>
      (\<forall>txids. r = Ok txids \<longrightarrow> txids = f (blk_hash D b)) \<and>
      (is_ok r \<longleftrightarrow> cached_in entries c (blk_hash D b) \<noteq> None \<or>
         (\<exists>txids d'. load_blocktxids D N (blk_hash D b) d = Some (Ok txids, d')))"
    by (rule txids.get_or_else_correct [OF inv assms(6) _ run]) (use load assms(7) in auto)
  with load run assms(7) show ?thesis
    by (cases r) (auto simp: getblocktxids_def get_or_else_def)
qed

theorem getblocktxids_exact_witness:
  "\<exists>c' d'. getblocktxids list_lru ex_deps ex_net (mk_hash [2]) (SizedLruCache_new list_lru 100, ex_daemon) =
     Some (Ok [], (c', d'))"
proof -
  have "\<lparr>blk_header = ex_header 1 2, txdata = []\<rparr> \<in> set (nd_blocks (node_of ex_server ex_daemon))"
    by (simp add: ex_daemon_up ex_node_def ex_blocks_eq)
  from getblocktxids_exact [OF bitcoind_ex ex_daemon_up(1) this list_lru_ok cache_inv_new [OF list_lru_ok],
      of 100 "\<lambda>_. []"]
  show ?thesis by (simp add: SizedLruCache_new_def cached_in_def [abs_def] list_lru_def) blast
qed

end
