(* ===== verification/Config.thy ===== *)
theory Config
  imports Client
begin

text \<open>
  \<open>config.rs\<close>: what the settings become. The parsing of arguments, environment and files is generated
  code (\<open>configure_me\<close>), whose result is the record \<open>raw_config\<close>; \<open>post_process\<close> is what \<open>from_args\<close>
  makes of it. Reading the cookie file, the number of processors, the home directory, the parser of
  network names of the \<open>bitcoin\<close> crate and the conversion of a number of megabytes (a product of \<open>f32\<close>)
  are arguments, as are the parser itself and the start of the log (\<open>stderrlog\<close>). \<open>from_args\<close> is the whole
  function: its outcomes are the configuration, an exit of the process with a status, or a panic.
\<close>

section \<open>Settings\<close>

definition DEFAULT_SERVER_ADDRESS :: bytes where
  "DEFAULT_SERVER_ADDRESS = [127, 0, 0, 1]"

definition DEFAULT_SERVER_ADDRESS_STRING :: string where
  "DEFAULT_SERVER_ADDRESS_STRING = ''127.0.0.1''"

definition default_network :: network where
  "default_network = network.Bitcoin"

definition network_from_str :: "(string \<Rightarrow> network option) \<Rightarrow> string \<Rightarrow> network option" where
  "network_from_str lib_from_str s =
     (if s = ''main'' then lib_from_str ''bitcoin''
      else if s = ''test'' then lib_from_str ''testnet''
      else lib_from_str s)"

text \<open>\<open>PathBuf::push\<close> of a relative path.\<close>

definition push_path :: "string \<Rightarrow> string \<Rightarrow> string" where
  "push_path dir p = (if dir = [] \<or> last dir = CHR ''/'' then dir @ p else dir @ ''/'' @ p)"

text \<open>Without a home directory the program exits: \<open>None\<close>.\<close>

definition default_daemon_dir :: "string option \<Rightarrow> string option" where
  "default_daemon_dir home = map_option (\<lambda>dir. push_path dir ''.bitcoin'') home"

definition config_files :: "string option \<Rightarrow> string list" where
  "config_files home =
     ''addrindexrs.toml'' #
     (case home of Some dir \<Rightarrow> [push_path (push_path dir ''.addrindexrs'') ''config.toml''] | None \<Rightarrow> []) @
     [''/etc/addrindexrs/config.toml'']"

text \<open>The two error types of the parsing of arguments, and how they print; \<open>debug\<close> is \<open>{:?}\<close> of an \<open>OsString\<close>.\<close>

definition display_invalid_utf8 :: "('o \<Rightarrow> string) \<Rightarrow> 'o \<Rightarrow> string" where
  "display_invalid_utf8 debug s = debug s @ '' isn'' @ [CHR 0x27] @ ''t a valid UTF-8 sequence''"

datatype address_error = ResolvError string string | NoAddrError string

fun display_address_error :: "address_error \<Rightarrow> string" where
  "display_address_error (ResolvError addr err) = ''Failed to resolve address '' @ addr @ '': '' @ err"
| "display_address_error (NoAddrError addr) = ''No address found for '' @ addr"

text \<open>The log: how much is printed, and whether with the time.\<close>

datatype log_timestamp = Millisecond | Off

record log_config =
  log_verbosity :: nat
  log_time :: log_timestamp

record 'f raw_config =
  rc_verbose :: nat
  rc_timestamp :: bool
  rc_network :: network
  rc_db_dir :: string
  rc_daemon_dir :: string
  rc_daemon_rpc_host :: "string option"
  rc_daemon_rpc_port :: "u16 option"
  rc_cookie :: "string option"
  rc_indexer_rpc_host :: "bytes option"
  rc_indexer_rpc_port :: "u16 option"
  rc_jsonrpc_import :: bool
  rc_index_batch_size :: nat
  rc_bulk_index_threads :: nat
  rc_blocktxids_cache_size_mb :: 'f

record config =
  cfg_log :: log_config
  network_type :: network
  db_path :: string
  daemon_dir :: string
  daemon_rpc_host :: string
  daemon_rpc_port :: u16
  cfg_cookie :: "string option"
  indexer_rpc_host :: bytes
  indexer_rpc_port :: u16
  jsonrpc_import :: bool
  index_batch_size :: nat
  bulk_index_threads :: nat
  blocktxids_cache_size :: nat

fun db_subdir :: "network \<Rightarrow> string" where
  "db_subdir network.Bitcoin = ''mainnet''"
| "db_subdir Testnet = ''testnet''"
| "db_subdir Regtest = ''regtest''"

fun default_daemon_port :: "network \<Rightarrow> u16" where
  "default_daemon_port network.Bitcoin = 8332"
| "default_daemon_port Testnet = 18332"
| "default_daemon_port Regtest = 18443"

fun default_indexer_port :: "network \<Rightarrow> u16" where
  "default_indexer_port network.Bitcoin = 8432"
| "default_indexer_port Testnet = 18432"
| "default_indexer_port Regtest = 18543"

fun network_daemon_dir :: "network \<Rightarrow> string \<Rightarrow> string" where
  "network_daemon_dir network.Bitcoin dir = dir"
| "network_daemon_dir Testnet dir = push_path dir ''testnet3''"
| "network_daemon_dir Regtest dir = push_path dir ''regtest''"

text \<open>The conversion of the number of \<open>-v\<close> flags to a \<open>usize\<close>, and the choice of time stamps.\<close>

definition log_settings :: "nat \<Rightarrow> 'f raw_config \<Rightarrow> log_config res" where
  "log_settings usize_bits raw =
     bind_res (expect ''Overflow: Running addrindexrs on less than 32 bit devices is unsupported''
        (if rc_verbose raw < 2 ^ usize_bits then Some (rc_verbose raw) else None)) (\<lambda>verbosity.
     Ok \<lparr>log_verbosity = verbosity, log_time = (if rc_timestamp raw then Millisecond else Off)\<rparr>)"

definition post_process :: "nat \<Rightarrow> ('f \<Rightarrow> nat) \<Rightarrow> log_config \<Rightarrow> 'f raw_config \<Rightarrow> config" where
  "post_process num_cpus mb_bytes log raw =
     \<lparr>cfg_log = log,
      network_type = rc_network raw,
      db_path = push_path (rc_db_dir raw) (db_subdir (rc_network raw)),
      daemon_dir = network_daemon_dir (rc_network raw) (rc_daemon_dir raw),
      daemon_rpc_host = (case rc_daemon_rpc_host raw of Some h \<Rightarrow> h | None \<Rightarrow> DEFAULT_SERVER_ADDRESS_STRING),
      daemon_rpc_port = (case rc_daemon_rpc_port raw of Some p \<Rightarrow> p | None \<Rightarrow> default_daemon_port (rc_network raw)),
      cfg_cookie = rc_cookie raw,
      indexer_rpc_host = (case rc_indexer_rpc_host raw of Some h \<Rightarrow> h | None \<Rightarrow> DEFAULT_SERVER_ADDRESS),
      indexer_rpc_port = (case rc_indexer_rpc_port raw of Some p \<Rightarrow> p | None \<Rightarrow> default_indexer_port (rc_network raw)),
      jsonrpc_import = rc_jsonrpc_import raw,
      index_batch_size = rc_index_batch_size raw,
      bulk_index_threads = (if rc_bulk_index_threads raw = 0 then num_cpus else rc_bulk_index_threads raw),
      blocktxids_cache_size = mb_bytes (rc_blocktxids_cache_size_mb raw)\<rparr>"

text \<open>
  \<open>parse\<close> reads the arguments, the environment and the given files; when it fails, \<open>unwrap_or_exit\<close> ends the
  process with a status. \<open>log_init\<close> says whether the logger could be installed.
\<close>

datatype startup = Configured config | Exits nat | Crashes "config res"

definition from_args :: "(string list \<Rightarrow> nat + 'f raw_config) \<Rightarrow> nat \<Rightarrow> ('f \<Rightarrow> nat) \<Rightarrow> nat \<Rightarrow> (log_config \<Rightarrow> bool) \<Rightarrow>
    string option \<Rightarrow> startup" where
  "from_args parse num_cpus mb_bytes usize_bits log_init home =
     (case parse (config_files home) of
        Inl status \<Rightarrow> Exits status
      | Inr raw \<Rightarrow>
          (case log_settings usize_bits raw of
             Ok log \<Rightarrow> if log_init log then Configured (post_process num_cpus mb_bytes log raw) else Exits 1
           | Err e \<Rightarrow> Crashes (Err e)
           | Panic p \<Rightarrow> Crashes (Panic p)))"

section \<open>The cookie\<close>

datatype cookie_getter_obj = StaticCookie bytes | CookieFile string

definition cookie_getter :: "config \<Rightarrow> cookie_getter_obj" where
  "cookie_getter c =
     (case cfg_cookie c of
        Some value \<Rightarrow> StaticCookie (map (\<lambda>ch. of_nat (of_char ch)) value)
      | None \<Rightarrow> CookieFile (daemon_dir c))"

fun cookie_get :: "(string \<Rightarrow> bytes option) \<Rightarrow> cookie_getter_obj \<Rightarrow> bytes res" where
  "cookie_get read_file (StaticCookie value) = Ok value"
| "cookie_get read_file (CookieFile dir) =
     chain_opt (Connection ''failed to read cookie'') (read_file (push_path dir ''.cookie''))"

section \<open>Properties\<close>

lemma push_path_inject: "push_path dir p = push_path dir p' \<longleftrightarrow> p = p'"
  by (simp add: push_path_def)

lemma push_path_longer: "p \<noteq> [] \<Longrightarrow> push_path dir p \<noteq> dir"
  by (simp add: push_path_def)

text \<open>
  Networks do not mix. With the same settings, different networks use different databases and
  different directories of bitcoind; with no ports set, also different ports of bitcoind and of the
  indexer, and the indexer never listens on a default port of bitcoind.
\<close>

lemma networks_kept_apart:
  fixes raw :: "'f raw_config" and log :: log_config and cpus :: nat and mb_bytes :: "'f \<Rightarrow> nat"
  assumes "n \<noteq> n'"
  defines "c \<equiv> \<lambda>n. post_process cpus mb_bytes log (raw\<lparr>rc_network := n\<rparr>)"
  shows "db_path (c n) \<noteq> db_path (c n') \<and> daemon_dir (c n) \<noteq> daemon_dir (c n') \<and>
         (rc_daemon_rpc_port raw = None \<longrightarrow> daemon_rpc_port (c n) \<noteq> daemon_rpc_port (c n')) \<and>
         (rc_indexer_rpc_port raw = None \<longrightarrow>
            indexer_rpc_port (c n) \<noteq> indexer_rpc_port (c n') \<and> indexer_rpc_port (c n) \<noteq> default_daemon_port n')"
  using assms(1)
  by (cases n; cases n') (simp_all add: c_def post_process_def push_path_inject push_path_longer push_path_longer [symmetric])

text \<open>
  On a machine of at least 32 bits the number of flags, a \<open>u32\<close>, always fits, so the start of the
  configuration never panics; the process goes on exactly when the settings parse and the log starts, and then
  the import has at least one thread.
\<close>

lemma from_args_outcome:
  assumes "32 \<le> usize_bits" and "\<And>files raw. parse files = Inr raw \<Longrightarrow> rc_verbose raw < 2 ^ 32" and "0 < num_cpus"
  shows "(\<exists>status. from_args parse num_cpus mb_bytes usize_bits log_init home = Exits status) \<or>
    (\<exists>raw cfg. parse (config_files home) = Inr raw \<and>
       from_args parse num_cpus mb_bytes usize_bits log_init home = Configured cfg \<and> log_init (cfg_log cfg) \<and>
       0 < bulk_index_threads cfg \<and> db_path cfg = push_path (rc_db_dir raw) (db_subdir (rc_network raw)))"
proof (cases "parse (config_files home)")
  case (Inr raw)
  have "rc_verbose raw < 2 ^ usize_bits"
    using assms(2) [OF Inr] power_increasing [OF assms(1), of "2 :: nat"] by simp
  with Inr assms(3) show ?thesis by (simp add: from_args_def log_settings_def post_process_def)
qed (simp add: from_args_def)

definition ex_raw_config :: "nat raw_config" where
  "ex_raw_config = \<lparr>rc_verbose = 2, rc_timestamp = False, rc_network = default_network, rc_db_dir = ''./db'', rc_daemon_dir = ''/home/user/.bitcoin'',
     rc_daemon_rpc_host = None, rc_daemon_rpc_port = None, rc_cookie = None, rc_indexer_rpc_host = None,
     rc_indexer_rpc_port = None, rc_jsonrpc_import = False, rc_index_batch_size = 100, rc_bulk_index_threads = 0,
     rc_blocktxids_cache_size_mb = 10\<rparr>"

section \<open>Waiting for the cookie\<close>

definition no_cookie :: error where
  "no_cookie = Error (Connection ''failed to read cookie'') (Some foreign_error)"

lemma missing_cookie_send:
  assumes "net_cookie N e = (cookie_get files (cookie_getter cfg), e)" and "cfg_cookie cfg = None"
    and "files (push_path (daemon_dir cfg) ''.cookie'') = None"
  shows "conn_send N req e = Some (Err no_cookie, e)"
  using assms by (simp add: conn_send_def pbind_def cookie_getter_def chain_opt_def no_cookie_def)

text \<open>With the error of the send, the whole pass of the retry loop: wait, reconnect, try again.\<close>

lemma missing_cookie_loop:
  assumes "\<And>req. conn_send N req (d_env d) = Some (Err no_cookie, d_env d)"
  shows "requests N meth ps d =
    Option.bind (wait_and_reconnect N (d\<lparr>d_message_id := d_message_id d + 1\<rparr>)) (\<lambda>(r, d).
      case r of Ok _ \<Rightarrow> requests N meth ps d | Err x \<Rightarrow> Some (Err x, d) | Panic p \<Rightarrow> Some (Panic p, d))"
proof -
  have "handle_request_batch N meth ps d = Some (Err no_cookie, d\<lparr>d_message_id := d_message_id d + 1\<rparr>)"
    using assms by (simp add: handle_request_batch_def Counter_next_def Let_def call_jsonrpc_def pbind_def on_env_def)
  moreover have "is_connection (Err no_cookie :: json list res)" by (simp add: no_cookie_def)
  ultimately show ?thesis unfolding requests_def by (subst retry_request_batch.simps) simp
qed

text \<open>
  A node that is still starting: as long as \<open>w\<close> is positive its cookie file is not there, the waits of the client
  time out and it can connect; \<open>w\<close> bounds the attempts until the file is there and the node serves.
\<close>

definition node_starting :: "'e net \<Rightarrow> 'e server \<Rightarrow> ('e \<Rightarrow> nat) \<Rightarrow> bool" where
  "node_starting N S w \<longleftrightarrow> (\<forall>e. 0 < w e \<longrightarrow>
     (\<exists>e1 e2 e3. net_recv_timeout N e 3 = (Timeout, e1) \<and> net_connect N e1 = (True, e2) \<and> net_clone N e2 = (True, e3) \<and>
        w e3 < w e \<and> sv_node S e3 = sv_node S e \<and> (w e3 = 0 \<longrightarrow> sv_up S e3 \<and> sv_lines S e3 = [])))"

lemma starting_reconnects:
  assumes "node_starting N S w" and "0 < w (d_env d)"
  shows "\<exists>d'. wait_and_reconnect N d = Some (Ok (), d') \<and> w (d_env d') < w (d_env d) \<and> node_of S d' = node_of S d \<and>
    (w (d_env d') = 0 \<longrightarrow> daemon_up S d')"
proof -
  obtain e1 e2 e3 where e: "net_recv_timeout N (d_env d) 3 = (Timeout, e1)" "net_connect N e1 = (True, e2)" "net_clone N e2 = (True, e3)"
    "w e3 < w (d_env d)" "sv_node S e3 = node_of S d" "w e3 = 0 \<longrightarrow> sv_up S e3 \<and> sv_lines S e3 = []"
    using assms(1) [unfolded node_starting_def, rule_format, OF assms(2)] by (elim exE conjE) simp
  have "tcp_connect N e1 = Some (Ok (), e2)" using e(2) by (subst tcp_connect.simps) simp
  with e have "wait_and_reconnect N d = Some (Ok (), d\<lparr>d_env := e3\<rparr>)"
    by (simp add: wait_and_reconnect_def Connection_reconnect_def Connection_new_def pbind_def on_env_def Waiter_wait_def)
  with e show ?thesis by (simp add: daemon_up_def)
qed

text \<open>
  C40: A missing cookie is waited for. Let no cookie be set, so that the client reads it from the file of bitcoind
  before every request. While the file cannot be read nothing is sent, and the retry loop waits, reconnects and
  goes on as before; if the file appears after finitely many attempts, meanwhile the client can connect and no
  signal comes, and the node then serves, a batch of requests that have results returns them, in order.
\<close>

theorem missing_cookie_is_retried:
  assumes "\<And>e. net_cookie N e = (cookie_get (read_file e) (cookie_getter cfg), e)" and "cfg_cookie cfg = None"
    and "\<And>e. 0 < w e \<Longrightarrow> read_file e (push_path (daemon_dir cfg) ''.cookie'') = None"
    and "node_starting N S w" and "serves N S" and "w (d_env d) = 0 \<Longrightarrow> daemon_up S d"
    and "length ps \<le> sv_limit S" and "\<forall>p \<in> set ps. sv_answer S (node_of S d) meth p \<noteq> None"
  shows "(0 < w (d_env d) \<longrightarrow>
            (\<forall>req. \<exists>x. conn_send N req (d_env d) = Some (Err x, d_env d)) \<and>
            (\<exists>d1. wait_and_reconnect N (d\<lparr>d_message_id := d_message_id d + 1\<rparr>) = Some (Ok (), d1) \<and>
                  requests N meth ps d = requests N meth ps d1)) \<and>
         (\<exists>d'. requests N meth ps d = Some (Ok (map (\<lambda>p. the (sv_answer S (node_of S d) meth p)) ps), d') \<and> daemon_up S d')"
proof -
  have send: "conn_send N req (d_env d) = Some (Err no_cookie, d_env d)" if "0 < w (d_env d)" for req d
    using missing_cookie_send [OF assms(1,2) assms(3) [OF that]] .
  have "\<exists>d'. requests N meth ps d = Some (Ok (map (\<lambda>p. the (sv_answer S (node_of S d) meth p)) ps), d') \<and> daemon_up S d'"
    if "w (d_env d) = 0 \<longrightarrow> daemon_up S d" "\<forall>p \<in> set ps. sv_answer S (node_of S d) meth p \<noteq> None" for d
    using that
  proof (induction "w (d_env d)" arbitrary: d rule: less_induct)
    case less
    show ?case
    proof (cases "w (d_env d) = 0")
      case True
      with less.prems requests_serves [OF assms(5) _ assms(7)] show ?thesis by blast
    next
      case False
      let ?d = "d\<lparr>d_message_id := d_message_id d + 1\<rparr>"
      obtain d1 where d1: "wait_and_reconnect N ?d = Some (Ok (), d1)" "w (d_env d1) < w (d_env d)" "node_of S d1 = node_of S d"
        "w (d_env d1) = 0 \<longrightarrow> daemon_up S d1"
        using starting_reconnects [OF assms(4), of ?d] False by auto
      have "requests N meth ps d = requests N meth ps d1" using missing_cookie_loop [OF send] False d1(1) by simp
      with less.hyps [OF d1(2) d1(4)] less.prems(2) d1(3) show ?thesis by simp
    qed
  qed
  moreover have "\<exists>d1. wait_and_reconnect N (d\<lparr>d_message_id := d_message_id d + 1\<rparr>) = Some (Ok (), d1) \<and>
      requests N meth ps d = requests N meth ps d1" if "0 < w (d_env d)"
    using starting_reconnects [OF assms(4), of "d\<lparr>d_message_id := d_message_id d + 1\<rparr>"] missing_cookie_loop [OF send] that by fastforce
  ultimately show ?thesis using send [of d] assms(6,8) by auto
qed

text \<open>A node whose cookie file appears after some waits: the node of \<open>Node_Example\<close> with the number of them.\<close>

definition ex_config :: config where
  "ex_config = post_process 4 (\<lambda>mb. mb * 1048576) \<lparr>log_verbosity = 2, log_time = Off\<rparr> ex_raw_config"

definition ex_late_file :: "nat \<times> ex_env \<Rightarrow> string \<Rightarrow> bytes option" where
  "ex_late_file e path = (if fst e = 0 then Some [] else None)"

definition ex_late_net :: "(nat \<times> ex_env) net" where
  "ex_late_net = \<lparr>
     net_connect = (\<lambda>(k, e). map_prod id (Pair k) (net_connect ex_net e)),
     net_clone = (\<lambda>(k, e). map_prod id (Pair k) (net_clone ex_net e)),
     net_cookie = (\<lambda>e. (cookie_get (ex_late_file e) (cookie_getter ex_config), e)),
     net_write = (\<lambda>(k, e) msg. map_prod id (Pair k) (net_write ex_net e msg)),
     net_line = (\<lambda>(k, e). map_prod id (Pair k) (net_line ex_net e)),
     net_recv_timeout = (\<lambda>(k, e) secs. map_prod id (Pair (k - 1)) (net_recv_timeout ex_net e secs)),
     base64_encode = base64_encode ex_net,
     json_print = json_print ex_net,
     json_parse = json_parse ex_net\<rparr>"

definition ex_late_server :: "(nat \<times> ex_env) server" where
  "ex_late_server = \<lparr>sv_up = (\<lambda>e. fst e = 0), sv_node = (\<lambda>e. ex_node), sv_lines = (\<lambda>e. snd (snd e)),
     sv_down = (\<lambda>e. fst (snd e)), sv_limit = 100000, sv_answer = (\<lambda>nd. ex_answer)\<rparr>"

lemma ex_late_serves: "serves ex_late_net ex_late_server"
proof -
  have same: "http_reply ex_late_net = http_reply ex_net" "http_post ex_late_net = http_post ex_net"
      "json_print ex_late_net = json_print ex_net"
    by (simp_all add: fun_eq_iff http_reply_def http_post_def headers_ok_def ex_late_net_def)
  have "write_ok ex_late_net ex_late_server (0, e)" for e
  proof -
    show ?thesis
      unfolding write_ok_def same
    proof (intro allI impI)
      fix cookie meth msg_id ps
      let ?msg = "http_post ex_net cookie (json_print ex_net (JArr (map (jsonrpc_request meth msg_id) ps)))"
      assume "sv_lines ex_late_server (0, e) = []" "length ps \<le> sv_limit ex_late_server"
        "\<forall>p \<in> set ps. sv_answer ex_late_server (sv_node ex_late_server (0, e)) meth p \<noteq> None"
      then have req: "sv_lines ex_server e = []" "length ps \<le> sv_limit ex_server"
        "\<forall>p \<in> set ps. sv_answer ex_server (sv_node ex_server e) meth p \<noteq> None"
        by (simp_all add: ex_late_server_def ex_server_def)
      have up: "sv_up ex_server e" by (simp add: ex_server_simps)
      from serves_write [OF serves_ex up req, of cookie msg_id] obtain b e' where "net_write ex_net e ?msg = (b, e')" "stays ex_server e e'"
        "b \<and> (\<exists>replies. list_all2 (\<lambda>p r. reply_ok msg_id (the (sv_answer ex_server (sv_node ex_server e) meth p)) r) ps replies \<and>
             http_reply ex_net replies (sv_lines ex_server e')) \<or>
         sv_lines ex_server e' = [] \<and> sv_down ex_server e' < sv_down ex_server e"
        by blast
      then show "\<exists>b e'. net_write ex_late_net (0, e) ?msg = (b, e') \<and> stays ex_late_server (0, e) e' \<and>
          (b \<and> (\<exists>replies. list_all2 (\<lambda>p r. reply_ok msg_id (the (sv_answer ex_late_server (sv_node ex_late_server (0, e)) meth p)) r) ps replies \<and>
               http_reply ex_net replies (sv_lines ex_late_server e')) \<or>
           sv_lines ex_late_server e' = [] \<and> sv_down ex_late_server e' < sv_down ex_late_server (0, e))"
        by (intro exI [of _ b] exI [of _ "(0, e')"]) (simp add: ex_late_net_def ex_late_server_def ex_server_def stays_def)
    qed
  qed
  then show ?thesis unfolding serves_def
    by (auto simp: ex_late_net_def ex_late_server_def stays_def ex_net_def cookie_getter_def ex_config_def
        post_process_def ex_raw_config_def ex_late_file_def chain_opt_def split: list.splits)
qed

theorem missing_cookie_is_retried_witness:
  "\<exists>d'. requests ex_late_net ''getbestblockhash'' [JArr []]
      \<lparr>d_dir = '''', d_network = network.Bitcoin, d_env = (3, (2, [])), d_message_id = 0\<rparr> =
     Some (Ok [JStr (to_hex ref_deps (mk_hash [2]))], d')"
proof -
  let ?d = "\<lparr>d_dir = '''', d_network = network.Bitcoin, d_env = (3, (2, [])), d_message_id = 0\<rparr> :: (nat \<times> ex_env) daemon"
  have "ex_answer ''getbestblockhash'' (JArr []) = Some (JStr (to_hex ref_deps (mk_hash [2])))"
    by (simp add: ex_table_simps)
  moreover have "node_starting ex_late_net ex_late_server fst"
    by (auto simp: node_starting_def ex_late_net_def ex_late_server_def ex_net_def)
  moreover have "cfg_cookie ex_config = None" by (simp add: ex_config_def post_process_def ex_raw_config_def)
  moreover have "net_cookie ex_late_net e = (cookie_get (ex_late_file e) (cookie_getter ex_config), e)" for e
    by (simp add: ex_late_net_def)
  ultimately show ?thesis
    using missing_cookie_is_retried [of ex_late_net ex_late_file ex_config fst ex_late_server ?d "[JArr []]" "''getbestblockhash''"]
      ex_late_serves by (auto simp: ex_late_file_def ex_late_server_def)
qed

end
