(* ===== verification/Unit_Tests.thy ===== *)
theory Unit_Tests
  imports Header_List Cache
begin

text \<open>
  The unit tests of \<open>util.rs\<close> and \<open>cache.rs\<close>, translated like the rest of the code: an assertion
  that fails is a panic. They pass whatever the hash functions are, as long as the hashes that occur in
  them do not collide, and with every implementation of the \<open>lru\<close> crate that does what it documents.
  \<open>Sha256dHash::hash\<close> is the argument \<open>sha256d\<close>.
\<close>

section \<open>The test of the header list\<close>

definition test_header :: "hash \<Rightarrow> hash \<Rightarrow> block_header" where
  "test_header root prev = \<lparr>hdr_version = 1, prev_blockhash = prev, merkle_root = root, hdr_time = 0, hdr_bits = 0, hdr_nonce = 0\<rparr>"

text \<open>The loop that makes the headers, after \<open>n\<close> rounds.\<close>

primrec test_chain :: "deps \<Rightarrow> hash \<Rightarrow> nat \<Rightarrow> block_header list" where
  "test_chain D root 0 = [test_header root null_hash]"
| "test_chain D root (Suc n) =
     (let headers = test_chain D root n
      in headers @ [test_header root (bitcoin_hash D (last headers))])"

text \<open>The loop over the heights that compares the list with the headers.\<close>

definition check_entries :: "deps \<Rightarrow> header_list \<Rightarrow> block_header list \<Rightarrow> nat \<Rightarrow> unit res" where
  "check_entries D hl headers n =
     foldM_res (\<lambda>_ h.
       bind_res (header_by_height hl h) (\<lambda>found.
       bind_res (expect ''called `Option::unwrap()` on a `None` value'' found) (\<lambda>entry.
       bind_res (assert_res ''entry.header'' (he_header entry = headers ! h)) (\<lambda>_.
       bind_res (assert_res ''entry.hash'' (he_hash entry = bitcoin_hash D (headers ! h))) (\<lambda>_.
       bind_res (assert_res ''entry.height'' (he_height entry = h)) (\<lambda>_.
       assert_res ''header_by_blockhash'' (header_by_blockhash hl (he_hash entry) = Some entry))))))) () [0..<n]"

text \<open>Order and apply headers: \<open>k\<close> of them, after which the list has length \<open>n\<close>.\<close>

definition test_extend :: "deps \<Rightarrow> block_header list \<Rightarrow> nat \<Rightarrow> nat \<Rightarrow> header_list \<Rightarrow> block_header list \<Rightarrow> header_list res" where
  "test_extend D headers n k hl new =
     bind_res (order D hl new) (\<lambda>ordered.
     bind_res (assert_res ''ordered.len()'' (length ordered = k)) (\<lambda>_.
     bind_res (apply_headers hl ordered (he_hash (ordered ! (k - 1)))) (\<lambda>hl.
     bind_res (assert_res ''header_list.len()'' (hl_len hl = n)) (\<lambda>_.
     bind_res (assert_res ''header_list.tip()'' (hl_tip hl = he_hash (ordered ! (k - 1)))) (\<lambda>_.
     bind_res (check_entries D hl headers n) (\<lambda>_. Ok hl))))))"

definition test_reorg :: "deps \<Rightarrow> block_header list \<Rightarrow> block_header list" where
  "test_reorg D headers =
     foldl (\<lambda>hs h. hs[h := (hs ! h)\<lparr>hdr_nonce := hdr_nonce (hs ! h) + 1, prev_blockhash := bitcoin_hash D (hs ! (h - 1))\<rparr>])
       headers [8..<10]"

definition test_headers :: "deps \<Rightarrow> (bytes \<Rightarrow> hash) \<Rightarrow> unit res" where
  "test_headers D sha256d =
     bind_res (assert_res ''header_list.tip()'' (hl_tip hl_empty = null_hash)) (\<lambda>_.
     bind_res (order D hl_empty []) (\<lambda>ordered.
     bind_res (assert_res ''ordered.len()'' (length ordered = 0)) (\<lambda>_.
     bind_res (apply_headers hl_empty [] null_hash) (\<lambda>hl.
     let headers = test_chain D (sha256d [255]) 9 in
     bind_res (test_extend D headers 3 3 hl (take 3 headers)) (\<lambda>hl.
     bind_res (test_extend D headers 6 3 hl (take 3 (drop 3 headers))) (\<lambda>hl.
     bind_res (test_extend D headers 10 5 hl (drop 5 headers)) (\<lambda>hl.
     let headers = test_reorg D headers in
     bind_res (test_extend D headers 10 2 hl (take 2 (drop 8 headers))) (\<lambda>hl.
     bind_res (apply_headers hl [] (bitcoin_hash D (headers ! 7))) (\<lambda>hl.
     bind_res (assert_res ''header_list.len()'' (hl_len hl = 8)) (\<lambda>_.
     bind_res (assert_res ''header_list.tip()'' (hl_tip hl = bitcoin_hash D (headers ! 7))) (\<lambda>_.
     bind_res (check_entries D hl headers 8) (\<lambda>_.
     bind_res (test_extend D headers 10 2 hl (drop 8 headers)) (\<lambda>_. Ok ())))))))))))))"

section \<open>The tests of the cache\<close>

text \<open>The straight-line tests are lists of calls.\<close>

datatype ('k, 'v) cache_call = AssertGet 'k "'v option" | Put 'k 'v u64

fun run_call :: "('k, 'v \<times> u64, 'l) lru \<Rightarrow> ('k, 'v) cache_call \<Rightarrow> ('l sized_lru_cache, unit) prog" where
  "run_call L (AssertGet key expected) = (\<lambda>c.
     (case SizedLruCache_get L c key of (value, c) \<Rightarrow> Some (assert_res ''cache.get()'' (value = expected), c)))"
| "run_call L (Put key value byte_size) = (\<lambda>c. map_option (\<lambda>c. (Ok (), c)) (SizedLruCache_put L c key value byte_size))"

primrec run_calls :: "('k, 'v \<times> u64, 'l) lru \<Rightarrow> ('k, 'v) cache_call list \<Rightarrow> ('l sized_lru_cache, unit) prog" where
  "run_calls L [] = pret (Ok ())"
| "run_calls L (call # calls) = pbind (run_call L call) (\<lambda>_. run_calls L calls)"

definition test_sized_lru_cache_hit_and_miss :: "(int, int \<times> u64, 'l) lru \<Rightarrow> unit res option" where
  "test_sized_lru_cache_hit_and_miss L = map_option fst (run_calls L
     [AssertGet 1 None,
      Put 1 10 50, AssertGet 1 (Some 10),
      Put 3 30 50, Put 2 20 50,
      AssertGet 1 None, AssertGet 2 (Some 20), AssertGet 3 (Some 30),
      Put 3 33 50,
      AssertGet 1 None, AssertGet 2 (Some 20), AssertGet 3 (Some 33),
      Put 9 90 9999,
      AssertGet 1 None, AssertGet 2 (Some 20), AssertGet 3 (Some 33), AssertGet 9 None]
     (SizedLruCache_new L 100))"

definition gen_hash :: "(bytes \<Rightarrow> hash) \<Rightarrow> nat \<Rightarrow> hash" where
  "gen_hash sha256d seed = sha256d (map of_nat [seed..<seed + 32])"

text \<open>A call of \<open>get_or_else\<close> with \<open>miss_func\<close>, and what is then asserted of the misses and the result.\<close>

definition get_and_check :: "(hash, hash list \<times> u64, 'l) lru \<Rightarrow> hash list \<Rightarrow> hash \<times> nat option \<times> bool \<Rightarrow>
    ('l sized_lru_cache \<times> nat, unit) prog" where
  "get_and_check L txids = (\<lambda>(block, misses, same) s.
     pbind (get_or_else L block (\<lambda>n. Some (Ok txids, n + 1))) (\<lambda>result s.
       Some (bind_res (assert_res ''misses'' (case misses of None \<Rightarrow> True | Some n \<Rightarrow> snd s = n)) (\<lambda>_.
             assert_res ''result'' (same \<longrightarrow> result = txids)), s)) s)"

primrec get_and_checks :: "(hash, hash list \<times> u64, 'l) lru \<Rightarrow> hash list \<Rightarrow> (hash \<times> nat option \<times> bool) list \<Rightarrow>
    ('l sized_lru_cache \<times> nat, unit) prog" where
  "get_and_checks L txids [] = pret (Ok ())"
| "get_and_checks L txids (x # xs) = pbind (get_and_check L txids x) (\<lambda>_. get_and_checks L txids xs)"

definition test_blocktxids_cache_hit_and_miss :: "(hash, hash list \<times> u64, 'l) lru \<Rightarrow> (bytes \<Rightarrow> hash) \<Rightarrow> unit res option" where
  "test_blocktxids_cache_hit_and_miss L sha256d =
     (let block1 = gen_hash sha256d 1; block2 = gen_hash sha256d 2; block3 = gen_hash sha256d 3;
          txids = [gen_hash sha256d 4, gen_hash sha256d 5]
      in map_option fst (get_and_checks L txids
           [(block1, Some 1, True), (block1, Some 1, True), (block2, Some 2, False), (block3, Some 3, False),
            (block1, Some 4, False), (block3, None, False), (block1, Some 4, False)]
           (BlockTxIDsCache_new L 200, 0)))"

section \<open>The header list passes\<close>

lemma check_entries_ok:
  assumes "hl_rep D hl (take n headers)" and "n \<le> length headers"
  shows "check_entries D hl headers n = Ok ()"
proof -
  have entry: "header_by_height hl h = Ok (Some (chain_entry D h (headers ! h)))"
    "header_by_blockhash hl (bitcoin_hash D (headers ! h)) = Some (chain_entry D h (headers ! h))" if "h < n" for h
    using header_list_lookups [OF assms(1), of "bitcoin_hash D (headers ! h)" "chain_entry D h (headers ! h)" h] that assms(2)
    by (auto simp: min_absorb2 intro!: exI [of _ h])
  have fold: "foldM_res (\<lambda>_. f) () hs = Ok ()" if "\<And>h. h \<in> set hs \<Longrightarrow> f h = Ok ()" for hs and f :: "nat \<Rightarrow> unit res"
    using that by (induction hs) simp_all
  show ?thesis unfolding check_entries_def by (rule fold) (simp add: entry)
qed

text \<open>Extending the chain that the list represents by the headers from \<open>j\<close> on.\<close>

lemma test_extend_ok:
  assumes "hl_rep D hl hs" and "j \<le> length hs" and "take j hs = take j headers" and "0 < k" and "j + k \<le> length headers"
    and "valid_chain D (take (j + k) headers)"
  shows "\<exists>hl'. test_extend D headers (j + k) k hl (take k (drop j headers)) = Ok hl' \<and> hl_rep D hl' (take (j + k) headers)"
proof -
  let ?new = "take k (drop j headers)"
  have new: "?new \<noteq> []" "length ?new = k" "take j hs @ ?new = take (j + k) headers"
    using assms(3-5) by (auto simp: take_add)
  then have valid: "valid_chain D (take j hs @ ?new)" using assms(6) by simp
  then have "linked D (chain_tip D null_hash (take j hs)) ?new" by (simp add: valid_chain_def linked_append)
  note ord = order_chain [OF assms(1,2) this]
  obtain hl' where app: "apply_headers hl (chain_entries D j ?new) (bitcoin_hash D (last ?new)) = Ok hl'"
    "hl_rep D hl' (take (j + k) headers)" using apply_chain [OF assms(1,2) new(1) valid] new(3) by auto
  have tip: "he_hash (chain_entries D j ?new ! (k - 1)) = bitcoin_hash D (last ?new)"
    using new(1,2) assms(4) by (simp add: last_conv_nth)
  have "last (take j hs @ ?new) = last ?new" using new(1) by simp
  then have "last (take (j + k) headers) = last ?new" unfolding new(3) .
  moreover have "take (j + k) headers \<noteq> []" using assms(4,5) by auto
  ultimately have "hl_len hl' = j + k" "hl_tip hl' = bitcoin_hash D (last ?new)"
    using header_list_lookups [OF app(2)] assms(5) by (auto simp: chain_tip_def)
  moreover have "check_entries D hl' headers (j + k) = Ok ()" using check_entries_ok [OF app(2) assms(5)] .
  ultimately show ?thesis using ord app tip new(2) by (simp add: test_extend_def)
qed

lemma last_take_nth: "0 < n \<Longrightarrow> n \<le> length xs \<Longrightarrow> take n xs \<noteq> [] \<and> last (take n xs) = xs ! (n - 1)"
  by (cases xs) (auto simp: last_conv_nth)

lemma length_test_chain [simp]: "length (test_chain D root n) = Suc n"
  by (induction n) (simp_all add: Let_def)

lemma linked_test_chain: "linked D null_hash (test_chain D root n)"
proof (induction n)
  case (Suc n)
  have "test_chain D root n \<noteq> []" using length_test_chain [of D root n] by (metis length_0_conv nat.distinct(1))
  with Suc show ?case by (simp add: Let_def linked_append chain_tip_def test_header_def)
qed (simp add: test_header_def)

lemma test_reorg_eq:
  assumes "length hs = 10"
  shows "\<exists>a b. test_reorg D hs = take 8 hs @ [a, b] \<and> prev_blockhash a = bitcoin_hash D (hs ! 7) \<and>
     prev_blockhash b = bitcoin_hash D a"
proof -
  obtain x y where hs: "hs = take 8 hs @ [x, y]"
  proof
    show "hs = take 8 hs @ [hs ! 8, hs ! 9]"
      using assms by (intro nth_equalityI) (auto simp: nth_append less_Suc_eq numeral_eq_Suc)
  qed
  have len: "length (take 8 hs) = 8" using assms by simp
  let ?a = "x\<lparr>hdr_nonce := hdr_nonce x + 1, prev_blockhash := bitcoin_hash D (hs ! 7)\<rparr>"
  let ?b = "y\<lparr>hdr_nonce := hdr_nonce y + 1, prev_blockhash := bitcoin_hash D ?a\<rparr>"
  have at: "hs ! 8 = x" "hs ! 9 = y"
    using len by (subst hs, simp add: nth_append)+
  have "hs[8 := ?a] = take 8 hs @ [?a, y]" using len by (subst hs) (simp add: list_update_append)
  moreover have "(take 8 hs @ [?a, y])[9 := ?b] = take 8 hs @ [?a, ?b]" using len by (simp add: list_update_append)
  moreover have "[8..<10] = [8, 9 :: nat]" by (simp add: upt_rec)
  ultimately have "test_reorg D hs = take 8 hs @ [?a, ?b]" using at len by (simp add: test_reorg_def nth_append)
  then show ?thesis by (intro exI [of _ ?a] exI [of _ ?b]) simp
qed

text \<open>Both chains of the test are valid, and share eight headers.\<close>

lemma test_chains_valid:
  assumes "length hs = 10" and "linked D null_hash hs"
    and "distinct (map (bitcoin_hash D) (hs @ drop 8 (test_reorg D hs)))"
    and "null_hash \<notin> bitcoin_hash D ` set (hs @ drop 8 (test_reorg D hs))"
  shows "valid_chain D hs" and "valid_chain D (test_reorg D hs)" and "take 8 (test_reorg D hs) = take 8 hs"
    and "length (test_reorg D hs) = 10"
proof -
  obtain a b where ab: "test_reorg D hs = take 8 hs @ [a, b]" "prev_blockhash a = bitcoin_hash D (hs ! 7)" "prev_blockhash b = bitcoin_hash D a"
    using test_reorg_eq [OF assms(1)] by blast
  show "take 8 (test_reorg D hs) = take 8 hs" "length (test_reorg D hs) = 10" using ab(1) assms(1) by simp_all
  show "valid_chain D hs" using assms(2-4) by (simp add: valid_chain_def image_Un)
  have "chain_tip D null_hash (take 8 hs) = bitcoin_hash D (hs ! 7)" using last_take_nth [of 8 hs] assms(1) by (simp add: chain_tip_def)
  then have "linked D null_hash (test_reorg D hs)"
    using assms(2) ab linked_append [of D null_hash "take 8 hs" "drop 8 hs"] by (simp add: linked_append)
  moreover have "distinct (map (bitcoin_hash D) (test_reorg D hs))" "null_hash \<notin> bitcoin_hash D ` set (test_reorg D hs)"
    using assms distinct_take [of "map (bitcoin_hash D) hs" 8] set_take_subset [of 8 hs]
    by (auto simp: ab(1) take_map)
  ultimately show "valid_chain D (test_reorg D hs)" by (simp add: valid_chain_def)
qed

text \<open>
  The test of the header list passes, whatever the hash function, if the hashes of its twelve headers
  differ and none is the null hash: adding headers, adding with an overlap, a reorganisation, cutting
  the chain and growing it again leave the list as the test expects.
\<close>

lemma test_headers_passes:
  assumes "headers = test_chain D (sha256d [255]) 9"
    and "distinct (map (bitcoin_hash D) (headers @ drop 8 (test_reorg D headers)))"
    and "null_hash \<notin> bitcoin_hash D ` set (headers @ drop 8 (test_reorg D headers))"
  shows "test_headers D sha256d = Ok ()"
proof -
  let ?hs = headers and ?hs' = "test_reorg D headers"
  have len: "length ?hs = 10" using assms(1) by simp
  have "linked D null_hash ?hs" unfolding assms(1) by (rule linked_test_chain)
  note c = test_chains_valid [OF len this assms(2,3)]
  note valid = c(1) and valid' = c(2) and old = c(3) and len' = c(4)
  have valid_take: "valid_chain D (take n ?hs)" "valid_chain D (take n ?hs')" for n
    using valid valid' valid_chain_take by blast+
  obtain h1 where h1: "test_extend D ?hs 3 3 hl_empty (take 3 ?hs) = Ok h1" "hl_rep D h1 (take 3 ?hs)"
    using test_extend_ok [OF hl_rep_empty, of 0 ?hs 3 D] valid_take(1) [of 3] len by auto
  obtain h2 where h2: "test_extend D ?hs 6 3 h1 (take 3 (drop 3 ?hs)) = Ok h2" "hl_rep D h2 (take 6 ?hs)"
    using test_extend_ok [OF h1(2), of 3 ?hs 3] valid_take(1) [of 6] len by auto
  have "take 5 (drop 5 ?hs) = drop 5 ?hs" "take 5 (take 6 ?hs) = take 5 ?hs" using len by simp_all
  then obtain h3 where h3: "test_extend D ?hs 10 5 h2 (drop 5 ?hs) = Ok h3" "hl_rep D h3 (take 10 ?hs)"
    using test_extend_ok [OF h2(2), of 5 ?hs 5] valid_take(1) [of 10] len by auto
  have slice: "take 2 (drop 8 ?hs') = drop 8 ?hs'" "take 8 (take 10 ?hs) = take 8 ?hs'" using len' old by simp_all
  then obtain h4 where h4: "test_extend D ?hs' 10 2 h3 (take 2 (drop 8 ?hs')) = Ok h4" "hl_rep D h4 (take 10 ?hs')"
    using test_extend_ok [OF h3(2), of 8 ?hs' 2] valid_take(2) [of 10] len len' by auto
  obtain h5 where h5: "apply_headers h4 [] (bitcoin_hash D (?hs' ! 7)) = Ok h5" "hl_rep D h5 (take 8 ?hs')"
    using apply_trim [OF h4(2), of 7] len' by auto
  have tip5: "hl_len h5 = 8" "hl_tip h5 = bitcoin_hash D (?hs' ! 7)"
    using header_list_lookups [OF h5(2)] last_take_nth [of 8 ?hs'] len' by (simp_all add: chain_tip_def)
  have check5: "check_entries D h5 ?hs' 8 = Ok ()" using check_entries_ok [OF h5(2)] len' by simp
  obtain h6 where h6: "test_extend D ?hs' 10 2 h5 (drop 8 ?hs') = Ok h6"
    using test_extend_ok [OF h5(2), of 8 ?hs' 2] slice valid_take(2) [of 10] len' by auto
  have start: "hl_tip hl_empty = null_hash" "order D hl_empty [] = Ok []" "apply_headers hl_empty [] null_hash = Ok hl_empty"
    by (simp_all add: hl_tip_def hl_empty_def order_def hash_headers_def apply_headers_def)
  show ?thesis
    unfolding test_headers_def Let_def assms(1) [symmetric]
    using start h1(1) h2(1) h3(1) h4(1) h5(1) tip5 check5 h6 by simp
qed

text \<open>The closed example: a header's hash is a byte made of the byte of its parent and the nonce.\<close>

definition test_deps :: deps where
  "test_deps = ref_deps\<lparr>bitcoin_hash := (\<lambda>h. mk_hash [hd (hash_bytes (prev_blockhash h)) + 1 + 16 * ucast (hdr_nonce h)])\<rparr>"

lemma test_headers_example: "test_headers test_deps (\<lambda>bs. mk_hash [hd bs]) = Ok ()"
proof -
  let ?root = "mk_hash [255]"
  have hash: "bitcoin_hash test_deps h = mk_hash [hd (hash_bytes (prev_blockhash h)) + 1 + 16 * ucast (hdr_nonce h)]" for h
    by (simp add: test_deps_def)
  have byte: "hd (hash_bytes (mk_hash [n])) = n" for n by simp
  have null: "hd (hash_bytes null_hash) = 0" by simp
  have chain: "test_chain test_deps ?root 9 = map (test_header ?root) (null_hash # map (\<lambda>n. mk_hash [n]) [1, 2, 3, 4, 5, 6, 7, 8, 9])"
    by (simp add: numeral_eq_Suc Let_def hash test_header_def null byte)
  show ?thesis
    using test_headers_passes [of "test_chain test_deps ?root 9" test_deps "\<lambda>bs. mk_hash [hd bs]"]
    by (simp add: chain hash null byte test_header_def test_reorg_def upt_rec)
qed

section \<open>The cache passes\<close>

text \<open>The cache holds exactly these entries, most recent first.\<close>

definition holds_entries :: "('k, 'v \<times> u64, 'l) lru \<Rightarrow> ('l \<Rightarrow> ('k \<times> 'v \<times> u64) list) \<Rightarrow> u64 \<Rightarrow> 'l sized_lru_cache \<Rightarrow>
    ('k \<times> 'v \<times> u64) list \<Rightarrow> bool" where
  "holds_entries L entries cap c xs \<longleftrightarrow> lru_ok L entries \<and> cache_inv entries c \<and> bytes_capacity c = cap \<and> entries (slc_map c) = xs"

definition touch :: "'k \<Rightarrow> ('k \<times> 'v \<times> u64) list \<Rightarrow> ('k \<times> 'v \<times> u64) list" where
  "touch k xs = (case map_of xs k of None \<Rightarrow> xs | Some v \<Rightarrow> (k, v) # drop_key k xs)"

lemma get_holds:
  assumes "holds_entries L entries cap c xs"
  shows "\<exists>c'. SizedLruCache_get L c k = (map_option fst (map_of xs k), c') \<and> holds_entries L entries cap c' (touch k xs)"
proof -
  have L: "lru_ok L entries" "cache_inv entries c" "bytes_capacity c = cap" "entries (slc_map c) = xs"
    using assms by (simp_all add: holds_entries_def)
  obtain l where l: "lru_get L (slc_map c) k = (map_of xs k, l)" "entries l = touch k xs"
    using L(1,4) unfolding lru_ok_def touch_def by (metis prod.collapse)
  then have get: "SizedLruCache_get L c k = (map_option fst (map_of xs k), c\<lparr>slc_map := l\<rparr>)"
    by (cases "map_of xs k") (auto simp: SizedLruCache_get_def)
  with SizedLruCache_get_spec [OF L(1,2), of k] L l(2) show ?thesis by (simp add: holds_entries_def)
qed

lemma put_holds:
  assumes "holds_entries L entries cap c xs" and "n \<le> cap"
  shows "\<exists>c'. SizedLruCache_put L c k v n = Some c' \<and> holds_entries L entries cap c' (fit (unat cap) ((k, v, n) # drop_key k xs))"
  using SizedLruCache_put_fit [of L entries c n k v] assms by (auto simp: holds_entries_def)

text \<open>What the calls of a test do to the entries; \<open>None\<close> when an assertion fails.\<close>

fun call_entries :: "u64 \<Rightarrow> ('k, 'v) cache_call \<Rightarrow> ('k \<times> 'v \<times> u64) list \<Rightarrow> ('k \<times> 'v \<times> u64) list option" where
  "call_entries cap (AssertGet k expected) xs = (if map_option fst (map_of xs k) = expected then Some (touch k xs) else None)"
| "call_entries cap (Put k v n) xs = Some (if cap < n then xs else fit (unat cap) ((k, v, n) # drop_key k xs))"

primrec calls_entries :: "u64 \<Rightarrow> ('k, 'v) cache_call list \<Rightarrow> ('k \<times> 'v \<times> u64) list \<Rightarrow> ('k \<times> 'v \<times> u64) list option" where
  "calls_entries cap [] xs = Some xs"
| "calls_entries cap (call # calls) xs = Option.bind (call_entries cap call xs) (calls_entries cap calls)"

lemma run_call_entries:
  assumes "holds_entries L entries cap c xs" and "call_entries cap call xs = Some ys"
  shows "\<exists>c'. run_call L call c = Some (Ok (), c') \<and> holds_entries L entries cap c' ys"
proof (cases call)
  case (AssertGet k expected)
  with assms(2) get_holds [OF assms(1), of k] show ?thesis by (auto split: if_splits)
next
  case (Put k v n)
  show ?thesis
  proof (cases "cap < n")
    case True
    with Put assms show ?thesis by (auto simp: SizedLruCache_put_def holds_entries_def)
  next
    case False
    with Put assms(2) put_holds [OF assms(1), of n k v] show ?thesis by (auto simp: not_less)
  qed
qed

lemma run_calls_entries:
  "holds_entries L entries cap c xs \<Longrightarrow> calls_entries cap calls xs = Some ys \<Longrightarrow>
     \<exists>c'. run_calls L calls c = Some (Ok (), c') \<and> holds_entries L entries cap c' ys"
proof (induction calls arbitrary: c xs)
  case (Cons call calls)
  obtain zs where zs: "call_entries cap call xs = Some zs" "calls_entries cap calls zs = Some ys"
    using Cons.prems(2) by (auto simp: bind_eq_Some_conv)
  from run_call_entries [OF Cons.prems(1) zs(1)] obtain c' where c': "run_call L call c = Some (Ok (), c')" "holds_entries L entries cap c' zs"
    by blast
  from Cons.IH [OF c'(2) zs(2)] show ?case by (simp add: pbind_Ok [where m = "run_call L call", OF c'(1)])
qed simp

lemma holds_new: "lru_ok L entries \<Longrightarrow> unat cap < 2 ^ 63 \<Longrightarrow> holds_entries L entries cap (SizedLruCache_new L cap) []"
  using cache_inv_new [of L entries cap] by (simp add: holds_entries_def lru_ok_def SizedLruCache_new_def)

lemma passed_calls:
  assumes "holds_entries L entries cap c xs" and "calls_entries cap calls xs \<noteq> None"
  shows "map_option fst (run_calls L calls c) = Some (Ok ())"
  using run_calls_entries [OF assms(1)] assms(2) by fastforce

lemmas cache_run_simps = fit.simps drop_key_def touch_def

lemma get_or_else_entries:
  assumes "holds_entries L entries cap c xs" and "32 * (1 + of_nat (length txids)) \<le> cap"
  shows "\<exists>c'. get_or_else L b (\<lambda>n. Some (Ok txids, n + 1)) (c, n) =
      Some (Ok (case map_of xs b of Some v \<Rightarrow> fst v | None \<Rightarrow> txids), (c', if map_of xs b = None then n + 1 else n)) \<and>
    holds_entries L entries cap c'
      (case map_of xs b of Some v \<Rightarrow> touch b xs
       | None \<Rightarrow> fit (unat cap) ((b, txids, 32 * (1 + of_nat (length txids))) # drop_key b xs))"
proof -
  obtain c1 where c1: "SizedLruCache_get L c b = (map_option fst (map_of xs b), c1)" "holds_entries L entries cap c1 (touch b xs)"
    using get_holds [OF assms(1)] by blast
  show ?thesis
  proof (cases "map_of xs b")
    case (Some v)
    with c1 show ?thesis by (simp add: get_or_else_def get_or_else_with_def)
  next
    case None
    then have "holds_entries L entries cap c1 xs" using c1(2) by (simp add: touch_def)
    from put_holds [OF this assms(2), of b txids] None c1(1) show ?thesis
      by (auto simp: get_or_else_def get_or_else_with_def Let_def)
  qed
qed

text \<open>The same for the calls of the second test, on the entries and the number of misses.\<close>

fun check_step :: "u64 \<Rightarrow> hash list \<Rightarrow> hash \<times> nat option \<times> bool \<Rightarrow> (hash \<times> hash list \<times> u64) list \<times> nat \<Rightarrow>
    ((hash \<times> hash list \<times> u64) list \<times> nat) option" where
  "check_step cap txids (b, misses, same) (xs, n) =
     (let n' = (if map_of xs b = None then n + 1 else n);
          result = (case map_of xs b of Some v \<Rightarrow> fst v | None \<Rightarrow> txids)
      in if (misses = None \<or> misses = Some n') \<and> (same \<longrightarrow> result = txids)
         then Some (case map_of xs b of Some v \<Rightarrow> touch b xs
           | None \<Rightarrow> fit (unat cap) ((b, txids, 32 * (1 + of_nat (length txids))) # drop_key b xs), n')
         else None)"

primrec check_steps :: "u64 \<Rightarrow> hash list \<Rightarrow> (hash \<times> nat option \<times> bool) list \<Rightarrow> (hash \<times> hash list \<times> u64) list \<times> nat \<Rightarrow>
    ((hash \<times> hash list \<times> u64) list \<times> nat) option" where
  "check_steps cap txids [] s = Some s"
| "check_steps cap txids (x # xs) s = Option.bind (check_step cap txids x s) (check_steps cap txids xs)"

lemma get_and_check_step:
  assumes "holds_entries L entries cap c xs" and "32 * (1 + of_nat (length txids)) \<le> cap"
    and "check_step cap txids x (xs, n) = Some (ys, n')"
  shows "\<exists>c'. get_and_check L txids x (c, n) = Some (Ok (), (c', n')) \<and> holds_entries L entries cap c' ys"
proof (cases x)
  case (fields b misses same)
  from get_or_else_entries [OF assms(1,2), of b n] obtain c' where
    "get_or_else L b (\<lambda>n. Some (Ok txids, n + 1)) (c, n) =
      Some (Ok (case map_of xs b of Some v \<Rightarrow> fst v | None \<Rightarrow> txids), (c', if map_of xs b = None then n + 1 else n))"
    "holds_entries L entries cap c' (case map_of xs b of Some v \<Rightarrow> touch b xs
       | None \<Rightarrow> fit (unat cap) ((b, txids, 32 * (1 + of_nat (length txids))) # drop_key b xs))" by blast
  then show ?thesis
    using assms(3) unfolding fields by (auto simp: get_and_check_def pbind_def Let_def split: if_splits option.splits)
qed

lemma get_and_checks_steps:
  assumes "32 * (1 + of_nat (length txids)) \<le> cap"
  shows "holds_entries L entries cap c xs \<Longrightarrow> check_steps cap txids calls (xs, n) = Some s \<Longrightarrow>
     \<exists>s'. get_and_checks L txids calls (c, n) = Some (Ok (), s')"
proof (induction calls arbitrary: c xs n)
  case (Cons x calls)
  obtain ys n' where ys: "check_step cap txids x (xs, n) = Some (ys, n')" "check_steps cap txids calls (ys, n') = Some s"
    using Cons.prems(2) by (auto simp: bind_eq_Some_conv)
  from get_and_check_step [OF Cons.prems(1) assms ys(1)] obtain c' where
    c': "get_and_check L txids x (c, n) = Some (Ok (), (c', n'))" "holds_entries L entries cap c' ys" by blast
  from Cons.IH [OF c'(2) ys(2)] show ?case by (simp add: pbind_Ok [where m = "get_and_check L txids x", OF c'(1)])
qed simp

lemma passed_checks:
  assumes "32 * (1 + of_nat (length txids)) \<le> cap" and "holds_entries L entries cap c xs" and "check_steps cap txids calls (xs, n) \<noteq> None"
  shows "map_option fst (get_and_checks L txids calls (c, n)) = Some (Ok ())"
  using get_and_checks_steps [OF assms(1,2)] assms(3) by fastforce

text \<open>
  The tests of the cache pass, with every implementation of the \<open>lru\<close> crate that does what it documents
  and every hash function under which the three block hashes differ.
\<close>

lemma cache_tests_pass:
  assumes "lru_ok L1 entries1" and "lru_ok L2 entries2"
    and "distinct [gen_hash sha256d 1, gen_hash sha256d 2, gen_hash sha256d 3]"
  shows "test_sized_lru_cache_hit_and_miss L1 = Some (Ok ()) \<and> test_blocktxids_cache_hit_and_miss L2 sha256d = Some (Ok ())"
proof
  have new: "holds_entries L1 entries1 100 (SizedLruCache_new L1 100) []" by (rule holds_new [OF assms(1)]) simp
  show "test_sized_lru_cache_hit_and_miss L1 = Some (Ok ())"
    unfolding test_sized_lru_cache_hit_and_miss_def
    by (rule passed_calls [OF new]) (simp add: cache_run_simps)
  have new2: "holds_entries L2 entries2 200 (BlockTxIDsCache_new L2 200) []"
    unfolding BlockTxIDsCache_new_def by (rule holds_new [OF assms(2)]) simp
  have ne: "gen_hash sha256d 1 \<noteq> gen_hash sha256d 2" "gen_hash sha256d 1 \<noteq> gen_hash sha256d 3"
    "gen_hash sha256d 2 \<noteq> gen_hash sha256d 3" using assms(3) by simp_all
  show "test_blocktxids_cache_hit_and_miss L2 sha256d = Some (Ok ())"
    unfolding test_blocktxids_cache_hit_and_miss_def Let_def
    by (rule passed_checks [OF _ new2]) (use ne ne [symmetric] in \<open>simp_all add: cache_run_simps Let_def\<close>)
qed

lemma cache_tests_example:
  "test_sized_lru_cache_hit_and_miss list_lru = Some (Ok ()) \<and>
   test_blocktxids_cache_hit_and_miss list_lru (\<lambda>bs. mk_hash [hd bs]) = Some (Ok ())"
  by (rule cache_tests_pass [OF list_lru_ok list_lru_ok]) (simp add: gen_hash_def hd_map upt_rec)

end
