(* ===== verification/Spec2Isabelle.thy ===== *)
theory Spec2Isabelle
  imports Shutdown Bulk_Threads Fetcher Query_Race Rpc Config Unit_Tests
begin

text \<open>
  A model of addrindexrs, an index of the Bitcoin block chain by script hash with a JSON-RPC server.

  \<^bold>\<open>The program.\<close> The server (\<open>src/bin/addrindexrs.rs\<close>) connects to bitcoind (\<open>src/daemon.rs\<close>), opens a
  RocksDB database (\<open>src/store.rs\<close>), reads back which chain it indexes (\<open>src/index.rs\<close>) and, on the first
  start, imports the chain from bitcoind's block files with several threads (\<open>src/bulk.rs\<close>) or by
  JSON-RPC. Then it loops: it follows the best chain of bitcoind, reorganisations included
  (\<open>src/app.rs\<close>, \<open>Index::update\<close>, \<open>HeaderList\<close> of \<open>src/util.rs\<close>), and its mempool (\<open>src/mempool.rs\<close>), and
  serves clients (\<open>src/rpc.rs\<close>) that ask for the history, the oldest transaction or the unspent outputs of a
  script hash (\<open>src/query.rs\<close>). \<open>src/cache.rs\<close> caches the transaction ids of blocks, \<open>src/signal.rs\<close> waits
  for signals, \<open>src/config.rs\<close> holds the settings.

  \<^bold>\<open>The model.\<close> A call has three outcomes (\<open>res\<close>: \<open>Ok\<close>, \<open>Err\<close>, \<open>Panic\<close>), so every \<open>?\<close>, \<open>bail!\<close>,
  \<open>assert!\<close>, \<open>unwrap\<close> and \<open>expect\<close> is a branch; a call that depends on the environment and may never
  return is a \<open>prog\<close>, where not returning is \<open>None\<close>. Machine integers keep their width where they can
  wrap. One theory per component, in the order of the calls:

  \<^item> \<open>Prelude\<close>: errors and results, programs, decimal numbers, ordered maps (\<open>BTreeMap\<close>, RocksDB's order).
  \<^item> \<open>Bitcoin\<close>: hashes, blocks and transactions, and the record \<open>deps\<close> of functions of other crates
    (hashing, consensus encoding, hex), with the laws \<open>codec_ok\<close> and \<open>hex_ok\<close> that the code relies on and a
    concrete instance \<open>ref_deps\<close> that satisfies them.
  \<^item> \<open>Header_List\<close> (\<open>util.rs\<close>): the list of indexed headers with its map from hash to height. \<open>hl_rep\<close> relates
    it to the chain it stands for; \<open>order\<close> and \<open>apply\<close> refine cutting and continuing that chain.
  \<^item> \<open>Store\<close> (\<open>store.rs\<close>): rows, the two store traits, \<open>DBStore\<close> on a RocksDB parameter with its laws
    \<open>rocksdb_ok\<close>, compaction. The locale \<open>readable\<close> states what a client of a store may rely on.
  \<^item> \<open>Index_Rows\<close>, \<open>Index\<close> (\<open>index.rs\<close>): the row formats and filters, indexing a block, reading the chain back,
    and \<open>Index::update\<close> with its batches. \<open>Fetcher\<close>: its two threads, the fetcher and the loop that indexes,
    interleaved, on the channels of \<open>Channels\<close> (\<open>util.rs\<close>; the locale \<open>fifo_channel\<close> is what threads rely on). The locale \<open>chain_daemon\<close> is the interface to the daemon, the
    locale \<open>indexer\<close> the one to the database.
  \<^item> \<open>Mempool\<close> (\<open>mempool.rs\<close>): the mempool store and its tracker, with the locale of the daemon it follows.
  \<^item> \<open>Query\<close> (\<open>query.rs\<close>): the status of a script hash. Both stores are searched by the same code, and the
    lemmas are proved once for every \<open>readable\<close> store.
  \<^item> \<open>Cache\<close> (\<open>cache.rs\<close>), \<open>Signal\<close> (\<open>signal.rs\<close>), \<open>Json\<close> (the \<open>serde_json\<close> values).
  \<^item> \<open>Daemon\<close> (\<open>daemon.rs\<close>): the client of bitcoind on the record \<open>net\<close> of socket and clock calls: HTTP framing,
    checks of replies, the retry loop, all API methods, the start.
  \<^item> \<open>Bitcoind\<close>: what the program relies on of bitcoind and the network (\<open>bitcoind\<close>: methods answer as
    documented, the connection fails finitely often), and that the client then satisfies the
    interfaces of \<open>Index\<close> and \<open>Mempool\<close> (the interpretations \<open>client\<close> and \<open>index_db\<close>). \<open>Node_Example\<close> is a concrete
    node that satisfies it; \<open>Client\<close> has the properties of the client.
  \<^item> \<open>Bulk\<close> (\<open>bulk.rs\<close>): parsing block files, and the parallel import as a step relation. \<open>Bulk_Index\<close>: the rows it
    writes, which are those of the sequential import. \<open>Bulk_Threads\<close>: the reader, the indexers and the writer
    as threads that fail, panic and are joined, that they end, and the limit of open files.
  \<^item> \<open>App\<close> (\<open>app.rs\<close>, \<open>bin/addrindexrs.rs\<close>): the application, the start, the server loop; the composition of
    all of the above. \<open>Server_Run\<close>: many rounds of the loop on a node that changes; \<open>Bulk_Start\<close>: the same
    after a bulk import; \<open>Shutdown\<close>: how the loop is left, and the exit status of \<open>main\<close>.
  \<^item> \<open>Commands\<close>, \<open>Rpc\<close>, \<open>Rpc_Server\<close> (\<open>rpc.rs\<close>): the commands, a connection as two threads with a bounded
    channel; the acceptor, the server thread and its tables, with every panic of them, and the end of the server (\<open>Drop\<close> for \<open>RPC\<close>).
  \<^item> \<open>Query_Race\<close> (\<open>query.rs\<close>): a query as a program of atomic reads, while the server loop changes the stores.
  \<^item> \<open>Row_Typing\<close>: a type for the rows of the database, by the layouts of the code (\<open>doc/schema.md\<close> documents only
    some of them), kept by every write of the program.
  \<^item> \<open>Config\<close> (\<open>config.rs\<close>): the settings, their defaults, the log and the authentication cookie.
  \<^item> \<open>Unit_Tests\<close>: the tests of \<open>util.rs\<close> and \<open>cache.rs\<close>, which pass for every hash function without collisions.

  \<^bold>\<open>What is shown.\<close> Updates follow the node through reorganisations and interruptions, and the database can
  be read back at any time (\<open>app_update_follows\<close>, \<open>update_restart_safe\<close>, \<open>read_indexed_headers_restores\<close>,
  \<open>read_indexed_headers_safe\<close>, \<open>order_apply_reorg\<close>); a start yields a well-formed application
  (\<open>start_app_ok\<close>); the bulk import is safe and complete under every
  interleaving, ends when every file can be parsed (\<open>bulk_threads_end\<close>), gives the database of the sequential import (\<open>bulk_equals_sequential\<close>) and loses nothing when
  interrupted, and its threads, with their failures, do exactly this (\<open>bulk_threads_equivalent\<close>); the fetcher of an update
  changes nothing but the time it takes, and both threads end (\<open>fetch_pipeline_exact\<close>, \<open>fetch_pipeline_ends\<close>); the database keeps
  its row formats whatever bitcoind answers, so that no query fails to decode it (\<open>server_rows_typed\<close>); a round of the server brings index and mempool in step with the node, and from either kind of
  start every later round does, whatever the node did in between (\<open>server_stays_in_step\<close>,
  \<open>bulk_server_in_step\<close>, \<open>server_runs_forever\<close>); queries and the replies to clients are exact with respect to the indexed
  transactions (\<open>query_status_exact\<close>, \<open>get_utxos_exact\<close>, \<open>get_history_exact\<close>), and those that race with the server loop lie
  between bounds (\<open>racing_utxos_bounds\<close>); the retry loop outlasts
  failures and never reports a connection error; replies on the wire, rows and block files are decoded
  to what was encoded (\<open>parse_blocks_roundtrip\<close>); a missing cookie is waited for (\<open>missing_cookie_is_retried\<close>); the cache stays within its capacity and is transparent; a connection answers
  every request in order whatever the schedule of its threads.

  \<^bold>\<open>What the proofs showed of the code.\<close> Writes stay in bulk-import mode after the import
  (\<open>writes_stay_bulk\<close>); after a reorganisation that replaced a spending transaction, queries for its script
  panic (\<open>query_status_double_spend\<close>); an unconfirmed transaction can be reported as the oldest
  (\<open>oldest_prefers_unconfirmed\<close>); exceeding the query limit panics (\<open>query_limit\<close>); a block file cut in its last
  frame panics, or silently lacks that block, and padding after a frame without a body panics (\<open>parse_blocks_cut\<close>); a connection hangs forever after a read error
  (\<open>connection_hangs_on_read_error\<close>) and can deadlock after a failing request (\<open>connection_deadlock\<close>); handles of
  finished connections can pile up (\<open>rpc_handles_leak\<close>); the RPC server cannot be stopped, nor does it notice
  that its acceptor has panicked, when its address is in use, say (\<open>rpc_never_stops\<close>), so that a signal during an update hangs the process (\<open>signal_in_update_hangs\<close>); a query torn by a new block
  reports a spent output as unspent (\<open>torn_query_misses_spender\<close>); an update hangs when its fetcher panics
  (\<open>dead_fetcher_hangs\<close>), and the bulk import when every indexer met an unreadable block file
  (\<open>broken_files_hang_import\<close>). The schema in \<open>doc/schema.md\<close> lacks the value of the \<open>T\<close> rows and the rows \<open>L\<close> and \<open>F\<close>
  (\<open>schema_misses_rows\<close>).

  \<^bold>\<open>Hypotheses.\<close> Theorems about queries assume that 8-byte prefixes do not collide on the indexed transactions
  (the index cannot tell them apart) and that no output of the script is spent twice; those about chains
  that block hashes do not collide on the chains involved; those about the network the predicate
  \<open>bitcoind\<close>; those about the database \<open>rocksdb_ok\<close>, a healthy database that keeps what was written. Each
  has a closed witness on concrete instances (\<open>ref_deps\<close>, \<open>mem_rocksdb\<close>, \<open>Node_Example\<close>).

  \<^bold>\<open>Loops.\<close> Loops over data are structural or come with a measure (\<open>parse_from\<close>, \<open>scan_collect\<close>,
  \<open>handle_requests\<close>). Loops that wait for the environment (reconnecting, retrying, walking back to a
  known block, the eviction loop, the server loop) are partial functions in the option type, and that they return
  is part of the theorems about them. There is no fuel in the model of the program; the decoder of the
  example JSON syntax takes the length of its input as fuel.

  \<^bold>\<open>Not modelled.\<close> The parsing of arguments and configuration files (generated by \<open>configure_me\<close>), what is
  logged, the registration of signal handlers, the build script, and \<open>spawn_thread\<close>, whose threads are the step
  relations (that the system may refuse a thread is in \<open>Rpc_Server\<close> only). In \<open>Commands\<close> and
  \<open>Rpc\<close> a command works on one state of the query; \<open>Query_Race\<close> has the case in which the server loop
  updates the stores while it runs. The test of \<open>bulk.rs\<close> needs a fixture and the decoder of the \<open>bitcoin\<close>
  crate. The texts of error messages are shortened where the code prints values into them.
\<close>

section \<open>What a client of a synchronised server sees\<close>

text \<open>The query of the server, \<open>Query::new(app, 100)\<close>, on the state it shares with the server loop.\<close>

definition server_query :: "('r, 'e) server_state \<Rightarrow> 'r dbstore query" where
  "server_query s = (Query_new (app_store (sst_app s)) (app_index (sst_app s)) 100)\<lparr>q_tracker := sst_tracker s\<rparr>"

lemma server_query_sel [simp]:
  "q_store (server_query s) = app_store (sst_app s)" "q_index (server_query s) = app_index (sst_app s)"
  "q_tracker (server_query s) = sst_tracker s"
  by (simp_all add: server_query_def Query_new_def)

lemma tracker_holds:
  assumes "tracker_inv D t" and "fst ` set (tr_items t) = tx_txid D ` M" and "snd ` set (tr_items t) \<subseteq> M \<union> X"
    and "inj_on (tx_txid D) (X \<union> M)"
  shows "fst ` mempool_txs t = M"
proof -
  have "fst x = tx_txid D (snd x)" if "x \<in> set (tr_items t)" for x
    using assms(1) that by (auto simp: tracker_inv_def)
  then have "tx_txid D ` snd ` set (tr_items t) = fst ` set (tr_items t)"
    unfolding image_image by (intro image_cong) simp_all
  with assms(2) have "tx_txid D ` snd ` set (tr_items t) = tx_txid D ` M" by simp
  then have "snd ` set (tr_items t) = M"
    using inj_on_image_eq_iff [OF assms(4), of "snd ` set (tr_items t)" M] assms(3) by blast
  then show ?thesis by (simp add: mempool_txs_def image_image case_prod_beta)
qed

text \<open>
  C2: End to end. A synchronised server answers from the node's chain and mempool. After a round of the server
  loop against a node that follows the protocol, \<open>get_utxos\<close> replies with one entry for each output that pays
  to the script among the transactions \<open>X\<close> (those indexed before and those of the blocks after the fork) and
  the node's mempool, and that no transaction of them spends; if no transaction id and no prefix
  collides and no output of the script is spent twice.
\<close>

theorem served_utxos_exact:
  assumes "bitcoind D N S" and "daemon_up S (app_daemon (sst_app s))" and "rocksdb_ok R c" and "app_ok D S c (sst_app s) hs"
    and "nd_blocks (node_of S (app_daemon (sst_app s))) = bs"
    and "inj_on (bitcoin_hash D) (set hs \<union> set (headers_of bs))"
    and "indexes D (db_contents c (app_store (sst_app s))) T"
    and "inj_on (tx_txid D) (fst ` T \<union> (\<Union>b \<in> set bs. set (txdata b)))"
    and "hash_iter_ok iter" and "tracker_inv D (sst_tracker s)"
    and "no_signal N S"
    and "M = set (nd_mempool (node_of S (app_daemon (sst_app s))))"
    and "X = fst ` T \<union> (\<Union>b \<in> set (drop (fork_height hs (headers_of bs)) bs). set (txdata b))"
    and "inj_on (tx_txid D) (snd ` set (tr_items (sst_tracker s)) \<union> M)"
    and "collision_free D (hash_bytes sh) (X \<union> M)" and "spent_once D X X sh" and "spent_once D (X \<union> M) M sh"
    and "length bs \<le> 9999999999" and "\<And>xs. mset (iter' xs) = mset xs"
  shows "\<exists>s' ks. server_round D N R iter s = Some (Ok (), s') \<and>
           handle_command D iter' (db_read_store R) (server_query s') ''blockchain.scripthash.get_utxos''
               [JStr (to_hex D sh)] req_id =
             Ok (JObj [(''jsonrpc'', JStr ''2.0''), (''id'', req_id), (''result'', JArr (map JStr ks))]) \<and>
           distinct ks \<and> set ks = outpoint_key D ` unspent_outputs D X M sh"
proof -
  let ?T = "foldl (index_block_txs D) T (drop (fork_height hs (headers_of bs)) bs)"
  obtain s' where s': "server_round D N R iter s = Some (Ok (), s')" "app_ok D S c (sst_app s') (headers_of bs)"
    "indexes D (db_contents c (app_store (sst_app s'))) ?T" "tracker_inv D (sst_tracker s')"
    "fst ` set (tr_items (sst_tracker s')) = tx_txid D ` M"
    "snd ` set (tr_items (sst_tracker s')) \<subseteq> M \<union> snd ` set (tr_items (sst_tracker s))"
    using server_round_client [OF assms(1-10)] assms(11) unfolding assms(12) by (auto elim: is_ok.elims)
  have "fst ` T \<union> (\<Union>b \<in> set (drop n bs). set (txdata b)) \<subseteq> fst ` T \<union> (\<Union>b \<in> set bs. set (txdata b))" for n
    using set_drop_subset [of n bs] by blast
  then have X: "fst ` ?T = X" unfolding assms(13) by (intro indexed_transactions inj_on_subset [OF assms(8)])
  note mem = tracker_holds [OF s'(4-6) assms(14)]
  have "block_height (app_index (sst_app s')) b \<le> 9999999999" for b
    using hl_rep_block_height [of D "app_index (sst_app s')" "headers_of bs" b] s'(2) assms(18)
    by (simp add: app_ok_def headers_of_def)
  then have "query_ok D R c (server_query s') ?T sh"
    using bitcoindD(2,3) [OF assms(1)] assms(3,15-17) s'(3,4) by (intro query_okI) (simp_all add: X mem db_contents_def)
  from get_utxos_reply [OF this assms(19), of req_id] s'(1) show ?thesis by (simp add: X mem)
qed

theorem served_utxos_exact_witness:
  "\<exists>s' ks. server_round ex_deps ex_net mem_rocksdb (\<lambda>x. x) \<lparr>sst_app = ex_app, sst_tracker = Tracker_new, sst_rpc = False\<rparr> =
       Some (Ok (), s') \<and>
     handle_command ex_deps rev (db_read_store mem_rocksdb) (server_query s') ''blockchain.scripthash.get_utxos''
         [JStr (to_hex ex_deps (mk_hash [81]))] (JInt 1) =
       Ok (JObj [(''jsonrpc'', JStr ''2.0''), (''id'', JInt 1), (''result'', JArr (map JStr ks))]) \<and>
     set ks = {outpoint_key ex_deps (mk_hash [7], 0)}"
proof -
  let ?s = "\<lparr>sst_app = ex_app, sst_tracker = Tracker_new, sst_rpc = False\<rparr>" and ?t = "ex_tx 7 [] [[81]]"
  have facts: "sst_app ?s = ex_app" "sst_tracker ?s = Tracker_new" by simp_all
  have M: "set (nd_mempool (node_of ex_server d)) = {?t}" for d
    by (simp add: ex_server_simps ex_node_def)
  have X: "(\<Union>b \<in> set (drop n ex_blocks). set (txdata b)) = {}" for n
    using set_drop_subset [of n ex_blocks] by (auto simp: ex_blocks_def)
  note served = served_utxos_exact [OF bitcoind_ex, of ?s mem_rocksdb mem_contents "[]" ex_blocks "{}" "\<lambda>x. x" "{?t}" "{}"
      "mk_hash [81]" rev "JInt 1", unfolded facts M, OF ex_app_facts(1) mem_rocksdb_ok ex_app_facts(2-6) hash_iter_ok_id
      tracker_inv_new no_signal_ex]
  have script: "compute_script_hash ex_deps [81] = 81 # replicate 31 0"
    using ex_scripts(1) [of 81] by (simp add: compute_script_hash_def ex_deps_def)
  then have "collision_free ex_deps (hash_bytes (mk_hash [81])) ({} \<union> {?t})" by (auto simp: collision_free_def)
  moreover have "spent_once ex_deps {} {} (mk_hash [81])" "spent_once ex_deps ({} \<union> {?t}) {?t} (mk_hash [81])"
    by (simp_all add: spent_once_def)
  moreover have "unspent_outputs ex_deps {} {?t} (mk_hash [81]) = {(mk_hash [7], 0)}"
    using script by (auto simp: unspent_outputs_def pays_def spender_def)
  ultimately show ?thesis
    using served X by (simp add: Tracker_new_def ex_blocks_eq) blast
qed

end
